(* ===== verification/Prelude.thy ===== *)
theory Prelude
  imports Main "HOL-Library.Word" "HOL-Library.Multiset"
begin

text \<open>
  Shared vocabulary of the development: the C view of characters and strings.

  A \<open>char *\<close> to a zero terminated string is the list of the bytes before the terminator; a
  pointer into a string is the suffix it points to, so \<open>*p\<close> is the head of the suffix (the
  terminator when the suffix is empty) and pointer differences are differences of lengths. A
  nullable pointer is an \<open>option\<close>. The C library functions the code calls (the string, ctype
  and strtol families, in the C locale) are defined here with their documented behaviour.
\<close>

named_theorems cchar_simps \<open>evaluation of character tests on literals\<close>
named_theorems dlist_simps \<open>list view of the Dlist operations\<close>
named_theorems dstr_simps \<open>content view of the Dstr operations\<close>

section \<open>Characters\<close>

abbreviation NUL :: char where "NUL \<equiv> CHR 0x00"

text \<open>The value of a byte as \<open>unsigned char\<close>, and as the plain (signed) \<open>char\<close> of the
  platforms the program is built for.\<close>

definition uchar :: "char \<Rightarrow> int" where
  "uchar c = of_char c"

definition schar :: "char \<Rightarrow> int" where
  "schar c = (if uchar c < 128 then uchar c else uchar c - 256)"

text \<open>Conversion of an integer value to the 32 bit \<open>int\<close>.\<close>

definition c_int :: "int \<Rightarrow> int" where
  "c_int x = (x + 2147483648) mod 4294967296 - 2147483648"

definition isspace :: "char \<Rightarrow> bool" where
  "isspace c \<longleftrightarrow> c = CHR '' '' \<or> (9 \<le> uchar c \<and> uchar c \<le> 13)"

definition isdigit :: "char \<Rightarrow> bool" where
  "isdigit c \<longleftrightarrow> 48 \<le> uchar c \<and> uchar c \<le> 57"

definition isalpha :: "char \<Rightarrow> bool" where
  "isalpha c \<longleftrightarrow> (65 \<le> uchar c \<and> uchar c \<le> 90) \<or> (97 \<le> uchar c \<and> uchar c \<le> 122)"

definition isalnum :: "char \<Rightarrow> bool" where
  "isalnum c \<longleftrightarrow> isalpha c \<or> isdigit c"

definition iscntrl :: "char \<Rightarrow> bool" where
  "iscntrl c \<longleftrightarrow> uchar c < 32 \<or> uchar c = 127"

definition isprint :: "char \<Rightarrow> bool" where
  "isprint c \<longleftrightarrow> 32 \<le> uchar c \<and> uchar c < 127"

definition isascii :: "char \<Rightarrow> bool" where
  "isascii c \<longleftrightarrow> uchar c < 128"

lemmas ctype_defs = isspace_def isdigit_def isalpha_def isalnum_def iscntrl_def isprint_def
  isascii_def uchar_def schar_def

declare ctype_defs [cchar_simps]

lemma uchar_nat: "uchar c = int (of_char c)"
  by (simp add: uchar_def of_nat_of_char)

lemma uchar_ge0 [simp]: "0 \<le> uchar c"
  by (simp add: uchar_nat)

lemma uchar_less [simp]: "uchar c < 256"
  using nat_of_char_less_256 [of c] by (simp add: uchar_nat del: nat_of_char_less_256)

lemma uchar_eq_iff: "uchar a = uchar b \<longleftrightarrow> a = b"
  by (simp add: uchar_def)

lemma uchar_NUL [simp]: "uchar NUL = 0"
  by (simp add: uchar_def)

lemma uchar_eq_0 [simp]: "uchar c = 0 \<longleftrightarrow> c = NUL"
  using uchar_eq_iff [of c NUL] by simp

lemma schar_eq_iff: "schar a = schar b \<longleftrightarrow> a = b"
  using uchar_less [of a] uchar_less [of b] uchar_ge0 [of a] uchar_ge0 [of b]
    uchar_eq_iff [of a b]
  by (auto simp: schar_def simp del: uchar_less uchar_ge0 split: if_splits)

lemma isspace_NUL [simp]: "\<not> isspace NUL"
  by (simp add: isspace_def)

lemma isspace_lits [simp]:
  "isspace CHR '' ''" "isspace CHR 0x09" "isspace CHR 0x0A" "isspace CHR 0x0D"
  by (simp_all add: isspace_def uchar_def)

section \<open>C strings\<close>

text \<open>The lists that are contents of C strings: no embedded terminator.\<close>

definition cstr :: "string \<Rightarrow> bool" where
  "cstr s \<longleftrightarrow> NUL \<notin> set s"

lemma cstr_Nil [simp]: "cstr []"
  by (simp add: cstr_def)

lemma cstr_Cons [simp]: "cstr (c # s) \<longleftrightarrow> c \<noteq> NUL \<and> cstr s"
  by (auto simp: cstr_def)

lemma cstr_append [simp]: "cstr (s @ t) \<longleftrightarrow> cstr s \<and> cstr t"
  by (auto simp: cstr_def)

lemma cstr_takeI [intro, simp]: "cstr s \<Longrightarrow> cstr (take n s)"
  by (auto simp: cstr_def dest: in_set_takeD)

lemma cstr_dropI [intro, simp]: "cstr s \<Longrightarrow> cstr (drop n s)"
  by (auto simp: cstr_def dest: in_set_dropD)

text \<open>\<open>s[i]\<close> for \<open>i \<le> strlen(s)\<close>: reading at the end gives the terminator.\<close>

definition char_at :: "string \<Rightarrow> nat \<Rightarrow> char" where
  "char_at s i = (if i < length s then s ! i else NUL)"

text \<open>\<open>*p\<close> for a pointer given as the suffix it points to.\<close>

definition deref :: "string \<Rightarrow> char" where
  "deref p = (case p of [] \<Rightarrow> NUL | c # _ \<Rightarrow> c)"

lemma deref_simps [simp]: "deref [] = NUL" "deref (c # p) = c"
  by (simp_all add: deref_def)

lemma deref_char_at: "deref p = char_at p 0"
  by (cases p) (simp_all add: char_at_def)

text \<open>
  \<open>strchr\<close> and \<open>strpbrk\<close> return the suffix that starts at the character found;
  \<open>strchr\<close> finds the terminator when asked for the null character.
\<close>

definition strchr :: "string \<Rightarrow> char \<Rightarrow> string option" where
  "strchr s c = (case dropWhile (\<lambda>x. x \<noteq> c) s of
       [] \<Rightarrow> if c = NUL then Some [] else None
     | x # t \<Rightarrow> Some (x # t))"

definition strpbrk :: "string \<Rightarrow> string \<Rightarrow> string option" where
  "strpbrk s accept = (case dropWhile (\<lambda>x. x \<notin> set accept) s of
       [] \<Rightarrow> None
     | x # t \<Rightarrow> Some (x # t))"

definition strrchr :: "string \<Rightarrow> char \<Rightarrow> string option" where
  "strrchr s c = (if c \<in> set s then Some (c # rev (takeWhile (\<lambda>x. x \<noteq> c) (rev s)))
     else if c = NUL then Some [] else None)"

definition strspn :: "string \<Rightarrow> string \<Rightarrow> nat" where
  "strspn s accept = length (takeWhile (\<lambda>x. x \<in> set accept) s)"

definition strcspn :: "string \<Rightarrow> string \<Rightarrow> nat" where
  "strcspn s reject = length (takeWhile (\<lambda>x. x \<notin> set reject) s)"

text \<open>\<open>strtok\<close>: the next token and what the next call continues with.\<close>

definition strtok :: "string \<Rightarrow> string \<Rightarrow> string option \<times> string" where
  "strtok s delim =
     (let s1 = dropWhile (\<lambda>c. c \<in> set delim) s
      in if s1 = [] then (None, [])
         else (Some (takeWhile (\<lambda>c. c \<notin> set delim) s1), tl (dropWhile (\<lambda>c. c \<notin> set delim) s1)))"

text \<open>The first occurrence of a string, as the number of characters before it.\<close>

fun starts_with :: "'a list \<Rightarrow> 'a list \<Rightarrow> bool" where
  "starts_with [] s = True"
| "starts_with (c # pat) [] = False"
| "starts_with (c # pat) (x # s) = (c = x \<and> starts_with pat s)"

fun strstr :: "string \<Rightarrow> string \<Rightarrow> nat option" where
  "strstr [] pat = (if pat = [] then Some 0 else None)"
| "strstr (x # s) pat =
     (if starts_with pat (x # s) then Some 0 else map_option Suc (strstr s pat))"

text \<open>The comparison functions return the difference of the first bytes that differ, read as
  \<open>unsigned char\<close>; callers use only its sign.\<close>

fun strcmp :: "string \<Rightarrow> string \<Rightarrow> int" where
  "strcmp [] [] = 0"
| "strcmp (a # s) [] = uchar a"
| "strcmp [] (b # t) = - uchar b"
| "strcmp (a # s) (b # t) = (if a = b then strcmp s t else uchar a - uchar b)"

definition strncmp :: "string \<Rightarrow> string \<Rightarrow> nat \<Rightarrow> int" where
  "strncmp s t n = strcmp (take n s) (take n t)"

lemma strspn_all: "length s = strspn s acc \<longleftrightarrow> (\<forall>c \<in> set s. c \<in> set acc)"
proof -
  have "length s = length (takeWhile P s) \<longleftrightarrow> takeWhile P s = s" for P
    by (metis takeWhile_eq_take take_all_iff order_refl)
  then show ?thesis unfolding strspn_def by (simp only: takeWhile_eq_all_conv)
qed

lemma starts_with_iff: "starts_with pat s \<longleftrightarrow> (\<exists>t. s = pat @ t)"
  by (induction pat s rule: starts_with.induct) auto

lemma starts_with_take: "starts_with pat s \<longleftrightarrow> take (length pat) s = pat"
  by (induction pat s rule: starts_with.induct) auto

lemma strstr_Some:
  "strstr s pat = Some i \<Longrightarrow> starts_with pat (drop i s) \<and> i \<le> length s
     \<and> (\<forall>j < i. \<not> starts_with pat (drop j s))"
proof (induction s arbitrary: i)
  case Nil
  then show ?case by (auto split: if_splits)
next
  case (Cons x s)
  show ?case
  proof (cases "starts_with pat (x # s)")
    case True
    with Cons.prems show ?thesis by simp
  next
    case False
    with Cons.prems obtain k where k: "strstr s pat = Some k" "i = Suc k"
      by (auto split: if_splits)
    show ?thesis
      using Cons.IH [OF k(1)] False k(2) by (auto simp: less_Suc_eq_0_disj)
  qed
qed

lemma strstr_None: "strstr s pat = None \<Longrightarrow> \<not> starts_with pat (drop i s)"
proof (induction s arbitrary: i)
  case Nil
  then show ?case by (cases pat) auto
next
  case (Cons x s)
  then show ?case by (cases i) (auto split: if_splits)
qed

lemma strstr_bound:
  assumes "strstr s pat = Some i"
  shows "i + length pat \<le> length s"
proof -
  from strstr_Some [OF assms] obtain t where "drop i s = pat @ t" "i \<le> length s"
    by (auto simp: starts_with_iff)
  then have "length s - i = length pat + length t" by (metis length_append length_drop)
  with \<open>i \<le> length s\<close> show ?thesis by arith
qed

lemma strchr_SomeD:
  assumes "strchr s c = Some q" "c \<noteq> NUL"
  shows "\<exists>a t. s = a @ c # t \<and> q = c # t \<and> c \<notin> set a"
proof -
  have "s = takeWhile (\<lambda>x. x \<noteq> c) s @ dropWhile (\<lambda>x. x \<noteq> c) s" by simp
  moreover have "dropWhile (\<lambda>x. x \<noteq> c) s = q" "q \<noteq> []"
    using assms by (auto simp: strchr_def split: list.splits)
  moreover from this have "hd q = c" using hd_dropWhile [of "\<lambda>x. x \<noteq> c" s] by auto
  moreover have "c \<notin> set (takeWhile (\<lambda>x. x \<noteq> c) s)" by (auto dest: set_takeWhileD)
  ultimately show ?thesis by (metis list.exhaust_sel)
qed

lemma strchr_append: "c \<notin> set a \<Longrightarrow> strchr (a @ c # t) c = Some (c # t)"
  by (induction a) (auto simp: strchr_def)

lemma strchr_None_iff: "c \<noteq> NUL \<Longrightarrow> strchr s c = None \<longleftrightarrow> c \<notin> set s"
  by (induction s) (auto simp: strchr_def)

lemma strcmp_refl [simp]: "strcmp s s = 0"
  by (induction s) auto

lemma strcmp_antisym: "strcmp t s = - strcmp s t"
  by (induction s t rule: strcmp.induct) auto

lemma strcmp_eq_0: "cstr s \<Longrightarrow> cstr t \<Longrightarrow> strcmp s t = 0 \<longleftrightarrow> s = t"
  by (induction s t rule: strcmp.induct) (auto simp: uchar_eq_iff)

lemma strcmp_le_trans:
  "cstr s \<Longrightarrow> cstr t \<Longrightarrow> cstr u \<Longrightarrow> strcmp s t \<le> 0 \<Longrightarrow> strcmp t u \<le> 0 \<Longrightarrow> strcmp s u \<le> 0"
proof (induction s t arbitrary: u rule: strcmp.induct)
  case (4 a s b t)
  show ?case
  proof (cases u)
    case Nil
    with "4.prems" show ?thesis using uchar_ge0 [of b] uchar_eq_0 [of b] by fastforce
  next
    case (Cons c u')
    with "4.prems" "4.IH" show ?thesis
      using uchar_eq_iff [of a b] uchar_eq_iff [of b c] by (auto split: if_splits)
  qed
next
  case (2 a s)
  then show ?case using uchar_ge0 [of a] uchar_eq_0 [of a] by fastforce
next
  case (3 b t)
  then show ?case by (cases u) auto
next
  case 1
  then show ?case by simp
qed

section \<open>Numbers in strings\<close>

text \<open>The digit value of a character, for bases up to 36.\<close>

definition digit_val :: "char \<Rightarrow> int option" where
  "digit_val c = (if isdigit c then Some (uchar c - 48)
     else if 65 \<le> uchar c \<and> uchar c \<le> 90 then Some (uchar c - 55)
     else if 97 \<le> uchar c \<and> uchar c \<le> 122 then Some (uchar c - 87)
     else None)"

definition is_digit_in :: "int \<Rightarrow> char \<Rightarrow> bool" where
  "is_digit_in base c = (case digit_val c of None \<Rightarrow> False | Some d \<Rightarrow> d < base)"

definition digits_value :: "int \<Rightarrow> string \<Rightarrow> int" where
  "digits_value base ds = foldl (\<lambda>v c. v * base + the (digit_val c)) 0 ds"

definition clamp_long :: "int \<Rightarrow> int" where
  "clamp_long x = max (- 9223372036854775808) (min 9223372036854775807 x)"

text \<open>
  \<open>strtol(s, &tail, base)\<close> for base 10 and 16, with a 64 bit \<open>long\<close>: white space, a sign, an
  optional \<open>0x\<close> in base 16 (only when a digit follows it), digits; the value saturates. With no
  digits the value is 0 and \<open>tail\<close> is the whole string.
\<close>

definition strtol :: "string \<Rightarrow> int \<Rightarrow> int \<times> string" where
  "strtol s base =
     (let s1 = dropWhile isspace s;
          neg = (deref s1 = CHR ''-'');
          s2 = (if deref s1 = CHR ''-'' \<or> deref s1 = CHR ''+'' then tl s1 else s1);
          s3 = (if base = 16 \<and> deref s2 = CHR ''0'' \<and> char_at s2 1 \<in> {CHR ''x'', CHR ''X''}
                   \<and> is_digit_in base (char_at s2 2) then drop 2 s2 else s2);
          ds = takeWhile (is_digit_in base) s3
      in if ds = [] then (0, s)
         else (clamp_long (if neg then - digits_value base ds else digits_value base ds),
               dropWhile (is_digit_in base) s3))"

section \<open>Loops over a state that may not return\<close>

fun option_fold :: "('b \<Rightarrow> 'a \<Rightarrow> 'b option) \<Rightarrow> 'b \<Rightarrow> 'a list \<Rightarrow> 'b option" where
  "option_fold f b [] = Some b"
| "option_fold f b (x # xs) = Option.bind (f b x) (\<lambda>b'. option_fold f b' xs)"

lemma option_fold_append:
  "option_fold f b (xs @ ys) = Option.bind (option_fold f b xs) (\<lambda>b'. option_fold f b' ys)"
  by (induction xs arbitrary: b) (auto split: Option.bind_splits)

end
