(* ===== verification/Dlib_Strings.thy ===== *)
theory Dlib_Strings
  imports Prelude
begin

text \<open>
  The string helpers of \<^verbatim>\<open>dillo/dlib/dlib.c\<close>: duplication and trimming, \<open>strsep\<close>, the
  ASCII case insensitive comparison and search, and the parser of \<^verbatim>\<open>name=value\<close> lines of a
  configuration file. Buffers the C code writes into are lists of their final contents.
\<close>

section \<open>Copying and trimming\<close>

definition dStrdup :: "string option \<Rightarrow> string option" where
  "dStrdup s = (case s of Some t \<Rightarrow> Some t | None \<Rightarrow> None)"

text \<open>The first \<open>sz\<close> bytes; the callers keep \<open>sz\<close> within the string and its terminator.\<close>

definition dStrndup :: "string option \<Rightarrow> nat \<Rightarrow> string option" where
  "dStrndup s sz = (case s of Some t \<Rightarrow> Some (take sz t) | None \<Rightarrow> None)"

text \<open>\<open>for (len = strlen(p); len && dIsspace(p[len-1]); --len);\<close>\<close>

fun trim_len :: "string \<Rightarrow> nat \<Rightarrow> nat" where
  "trim_len p 0 = 0"
| "trim_len p (Suc n) = (if isspace (p ! n) then trim_len p n else Suc n)"

definition dStrstrip :: "string \<Rightarrow> string" where
  "dStrstrip s =
     (if s \<noteq> [] then
        (let p = dropWhile isspace s;
             len = trim_len p (length p)
         in take len p)
      else s)"

text \<open>The buffer after the call: every byte of the string overwritten.\<close>

definition dStrshred :: "string \<Rightarrow> string" where
  "dStrshred s = replicate (length s) NUL"

text \<open>\<open>for (ret[len] = 0; len > 0; ret[--len] = c);\<close> fills from the end.\<close>

fun dStrnfill :: "nat \<Rightarrow> char \<Rightarrow> string" where
  "dStrnfill 0 c = []"
| "dStrnfill (Suc len) c = dStrnfill len c @ [c]"

text \<open>The token and the new value of \<open>*orig\<close>.\<close>

definition dStrsep :: "string option \<Rightarrow> string \<Rightarrow> string option \<times> string option" where
  "dStrsep orig delim =
     (case orig of
        None \<Rightarrow> (None, None)
      | Some str \<Rightarrow>
          (case strpbrk str delim of
             Some p \<Rightarrow> (Some (take (length str - length p) str), Some (tl p))
           | None \<Rightarrow> (Some str, None)))"

section \<open>ASCII case folding\<close>

definition D_ASCII_TOUPPER :: "int \<Rightarrow> int" where
  "D_ASCII_TOUPPER c = (if 97 \<le> c \<and> c \<le> 122 then c - 32 else c)"

definition D_ASCII_TOLOWER :: "int \<Rightarrow> int" where
  "D_ASCII_TOLOWER c = (if 65 \<le> c \<and> c \<le> 90 then c + 32 else c)"

abbreviation tolow :: "char \<Rightarrow> int" where
  "tolow c \<equiv> D_ASCII_TOLOWER (schar c)"

text \<open>
  The two loops of the search as one tail recursive function over \<open>i\<close> and \<open>j\<close>: on a mismatch
  after \<open>j\<close> matched characters the loop goes back to the start of the attempt, and the
  increment of the \<open>for\<close> moves on to the next start.
\<close>

function stri_loop :: "string \<Rightarrow> string \<Rightarrow> nat \<Rightarrow> nat \<Rightarrow> nat \<times> nat" where
  "stri_loop haystack needle i j =
     (if i < length haystack \<and> j < length needle then
        (if tolow (haystack ! i) = tolow (needle ! j) then
           stri_loop haystack needle (i + 1) (j + 1)
         else if j \<noteq> 0 then stri_loop haystack needle (i - j + 1) 0
         else stri_loop haystack needle (i + 1) j)
      else (i, j))"
  by pat_completeness auto
termination
  by (relation "measures [\<lambda>(h, n, i, j). length h - (i - j), \<lambda>(h, n, i, j). length n - j]") auto

declare stri_loop.simps [simp del]

text \<open>The position of the match in the haystack.\<close>

definition dStriAsciiStr :: "string option \<Rightarrow> string option \<Rightarrow> nat option" where
  "dStriAsciiStr haystack needle =
     (case (haystack, needle) of
        (Some h, Some n) \<Rightarrow>
          (let (i, j) = stri_loop h n 0 0
           in if j < length n then None else Some (i - j))
      | _ \<Rightarrow> None)"

fun dStrAsciiCasecmp :: "string \<Rightarrow> string \<Rightarrow> int" where
  "dStrAsciiCasecmp [] [] = 0"
| "dStrAsciiCasecmp (a # s1) [] = tolow a"
| "dStrAsciiCasecmp [] (b # s2) = - tolow b"
| "dStrAsciiCasecmp (a # s1) (b # s2) =
     (let ret = tolow a - tolow b in if ret = 0 then dStrAsciiCasecmp s1 s2 else ret)"

fun dStrnAsciiCasecmp :: "string \<Rightarrow> string \<Rightarrow> nat \<Rightarrow> int" where
  "dStrnAsciiCasecmp s1 s2 0 = 0"
| "dStrnAsciiCasecmp [] [] (Suc n) = 0"
| "dStrnAsciiCasecmp (a # s1) [] (Suc n) = tolow a"
| "dStrnAsciiCasecmp [] (b # s2) (Suc n) = - tolow b"
| "dStrnAsciiCasecmp (a # s1) (b # s2) (Suc n) =
     (let ret = tolow a - tolow b in if ret = 0 then dStrnAsciiCasecmp s1 s2 n else ret)"

section \<open>Lines of a configuration file\<close>

text \<open>
  The result code with the \<open>name\<close> and \<open>value\<close> pointers; \<open>None\<close> for a null line. The writes of
  terminators into the line appear as the ends of the strings they cut: the name ends where
  the scan stopped, a quoted value before its closing quote.
\<close>

definition dParser_parse_rc_line ::
    "string option \<Rightarrow> int \<times> string option \<times> string option" where
  "dParser_parse_rc_line line0 =
     (case line0 of
        None \<Rightarrow> (-1, None, None)
      | Some l \<Rightarrow>
         (let line = dStrstrip l in
          if line = [] \<or> deref line = CHR ''#'' then (1, None, None)
          else
            (case strchr line CHR ''='' of
               None \<Rightarrow> (-1, None, None)
             | Some eq \<Rightarrow>
                 (let p = dropWhile (\<lambda>c. c \<noteq> CHR ''='' \<and> \<not> isspace c) line;
                      name = take (length line - length p) line;
                      p' = (if length eq < length p then dropWhile isspace (tl p) else p)
                  in if length p' = length eq then
                       (let v = dropWhile isspace (tl eq);
                            len = length v
                        in (0, Some name,
                            Some (if 2 \<le> len \<and> deref v = CHR 0x22 \<and> v ! (len - 1) = CHR 0x22
                                  then take (len - 2) (tl v) else v)))
                     else (-1, Some name, None)))))"

section \<open>Properties of trimming\<close>

lemma trim_len_le: "trim_len p n \<le> n"
  by (induction p n rule: trim_len.induct) auto

lemma trim_len_stop: "0 < trim_len p n \<Longrightarrow> \<not> isspace (p ! (trim_len p n - 1))"
  by (induction p n rule: trim_len.induct) auto

lemma trim_len_spaces: "trim_len p n \<le> i \<Longrightarrow> i < n \<Longrightarrow> isspace (p ! i)"
  by (induction p n rule: trim_len.induct) (auto simp: less_Suc_eq split: if_splits)

lemma dStrstrip_split:
  obtains pre post where "s = pre @ dStrstrip s @ post" "\<forall>c \<in> set pre. isspace c"
    "\<forall>c \<in> set post. isspace c"
proof (cases "s = []")
  case True
  then show ?thesis using that [of "[]" "[]"] by (simp add: dStrstrip_def)
next
  case False
  let ?p = "dropWhile isspace s"
  let ?n = "trim_len ?p (length ?p)"
  have "s = takeWhile isspace s @ dStrstrip s @ drop ?n ?p"
    using False by (simp add: dStrstrip_def Let_def)
  moreover have "\<forall>c \<in> set (drop ?n ?p). isspace c"
    by (auto simp: in_set_conv_nth less_diff_conv add.commute
        intro!: trim_len_spaces [of "dropWhile isspace s" "length (dropWhile isspace s)"])
  ultimately show ?thesis
    using that [of "takeWhile isspace s" "drop ?n ?p"] set_takeWhileD by metis
qed

lemma dStrstrip_hd: "dStrstrip s \<noteq> [] \<Longrightarrow> \<not> isspace (hd (dStrstrip s))"
  using trim_len_le [of "dropWhile isspace s" "length (dropWhile isspace s)"]
  by (auto simp: dStrstrip_def Let_def hd_dropWhile hd_take split: if_splits)

lemma dStrstrip_last:
  assumes "dStrstrip s \<noteq> []"
  shows "\<not> isspace (last (dStrstrip s))"
proof -
  let ?p = "dropWhile isspace s"
  let ?n = "trim_len ?p (length ?p)"
  have r: "dStrstrip s = take ?n ?p" and n: "0 < ?n" and p: "?p \<noteq> []"
    using assms by (auto simp: dStrstrip_def Let_def split: if_splits)
  have "?n \<le> length ?p" by (rule trim_len_le)
  then have "last (take ?n ?p) = ?p ! (?n - 1)"
    using n p by (subst last_conv_nth) (auto simp: min_def)
  then show ?thesis using r trim_len_stop [OF n] by simp
qed

lemma trim_len_full: "n \<le> length p \<Longrightarrow> (0 < n \<Longrightarrow> \<not> isspace (p ! (n - 1))) \<Longrightarrow> trim_len p n = n"
  by (cases n) auto

lemma dStrstrip_id:
  assumes "s \<noteq> [] \<Longrightarrow> \<not> isspace (hd s) \<and> \<not> isspace (last s)"
  shows "dStrstrip s = s"
proof (cases s)
  case Nil
  then show ?thesis by (simp add: dStrstrip_def)
next
  case (Cons c t)
  with assms have "dropWhile isspace s = s" by simp
  moreover have "trim_len s (length s) = length s"
    using assms Cons last_conv_nth [of s] by (intro trim_len_full) (simp_all del: last.simps)
  ultimately show ?thesis by (simp add: dStrstrip_def Let_def)
qed

lemma dStrstrip_snoc:
  assumes "s \<noteq> []" "\<not> isspace (hd s)" "\<not> isspace (last s)" "isspace c"
  shows "dStrstrip (s @ [c]) = s"
proof -
  have d: "dropWhile isspace (s @ [c]) = s @ [c]" using assms(1,2) by (cases s) simp_all
  have "trim_len (s @ [c]) (length s) = length s"
    using assms(1,3) by (cases "length s") (simp_all add: nth_append last_conv_nth)
  then have "trim_len (s @ [c]) (length s + 1) = length s" using assms(4) by (simp add: nth_append)
  then show ?thesis by (simp add: dStrstrip_def d Let_def)
qed

lemma dStrstrip_idem [simp]: "dStrstrip (dStrstrip s) = dStrstrip s"
  by (rule dStrstrip_id) (auto dest: dStrstrip_hd dStrstrip_last)

lemma dStrstrip_Nil [simp]: "dStrstrip [] = []"
  by (simp add: dStrstrip_def)

lemma set_dStrstrip: "set (dStrstrip s) \<subseteq> set s"
  by (rule dStrstrip_split [of s]) (metis Un_upper1 Un_upper2 order.trans set_append)

lemma cstr_dStrstrip [simp, intro]: "cstr s \<Longrightarrow> cstr (dStrstrip s)"
  using set_dStrstrip by (fastforce simp: cstr_def)

lemma dStrnfill_replicate: "dStrnfill n c = replicate n c"
  by (induction n) (auto simp: replicate_append_same)

section \<open>Properties of the comparison\<close>

lemma tolow_eq_0 [simp]: "tolow c = 0 \<longleftrightarrow> c = NUL"
  using schar_eq_iff [of c NUL] by (auto simp: D_ASCII_TOLOWER_def schar_def split: if_splits)

lemma casecmp_refl [simp]: "dStrAsciiCasecmp s s = 0"
  by (induction s) auto

lemma casecmp_antisym: "dStrAsciiCasecmp t s = - dStrAsciiCasecmp s t"
  by (induction s t rule: dStrAsciiCasecmp.induct) (auto simp: Let_def)

lemma casecmp_eq_0:
  "cstr s \<Longrightarrow> cstr t \<Longrightarrow> dStrAsciiCasecmp s t = 0 \<longleftrightarrow> map tolow s = map tolow t"
  by (induction s t rule: dStrAsciiCasecmp.induct) (auto simp: Let_def)

lemma casecmp_cong_l:
  "map tolow s = map tolow s' \<Longrightarrow> dStrAsciiCasecmp s t = dStrAsciiCasecmp s' t"
proof (induction s t arbitrary: s' rule: dStrAsciiCasecmp.induct)
  case 1
  then show ?case by simp
next
  case (2 a s1)
  then show ?case by (cases s') auto
next
  case (3 b s2)
  then show ?case by (cases s') auto
next
  case (4 a s1 b s2)
  then show ?case by (cases s') (auto simp: Let_def)
qed

lemma casecmp_le_trans:
  "cstr s \<Longrightarrow> cstr t \<Longrightarrow> cstr u \<Longrightarrow> dStrAsciiCasecmp s t \<le> 0 \<Longrightarrow>
   dStrAsciiCasecmp t u \<le> 0 \<Longrightarrow> dStrAsciiCasecmp s u \<le> 0"
proof (induction s t arbitrary: u rule: dStrAsciiCasecmp.induct)
  case 1
  then show ?case by simp
next
  case (2 a s)
  then show ?case using tolow_eq_0 [of a] by (cases u) auto
next
  case (3 b t)
  then show ?case using tolow_eq_0 [of b] by (cases u) (auto simp: Let_def split: if_splits)
next
  case (4 a s b t)
  show ?case
  proof (cases u)
    case Nil
    with "4.prems" show ?thesis using tolow_eq_0 [of b] by (auto simp: Let_def split: if_splits)
  next
    case (Cons c u')
    with "4.prems" "4.IH" show ?thesis by (auto simp: Let_def split: if_splits)
  qed
qed

lemma casecmpn_take:
  "dStrnAsciiCasecmp s t n = dStrAsciiCasecmp (take n s) (take n t)"
  by (induction s t n rule: dStrnAsciiCasecmp.induct) (auto simp: Let_def)

lemma casecmpn_eq_0:
  assumes "cstr s" "cstr t"
  shows "dStrnAsciiCasecmp s t n = 0 \<longleftrightarrow> map tolow (take n s) = map tolow (take n t)"
  using assms by (simp add: casecmpn_take casecmp_eq_0)

section \<open>The search finds the first match\<close>

definition imatch :: "string \<Rightarrow> string \<Rightarrow> nat \<Rightarrow> bool" where
  "imatch h n k \<longleftrightarrow> k + length n \<le> length h
     \<and> (\<forall>i < length n. tolow (h ! (k + i)) = tolow (n ! i))"

lemma stri_loop_correct:
  assumes "stri_loop h n i j = (i', j')" "j \<le> i" "i \<le> length h" "j \<le> length n"
    "\<forall>k < j. tolow (h ! (i - j + k)) = tolow (n ! k)" "\<forall>s < i - j. \<not> imatch h n s"
  shows "(if j' < length n then \<forall>s. \<not> imatch h n s
     else j' = length n \<and> imatch h n (i' - j') \<and> (\<forall>s < i' - j'. \<not> imatch h n s))"
  using assms
proof (induction h n i j rule: stri_loop.induct)
  case (1 h n i j)
  show ?case
  proof (cases "i < length h \<and> j < length n")
    case False
    then have r: "i' = i" "j' = j"
      using "1.prems"(1) by (auto simp: stri_loop.simps [of h n i j])
    show ?thesis
    proof (cases "j < length n")
      case True
      with False "1.prems"(3) have i: "i = length h" by simp
      have "\<not> imatch h n s" for s
      proof (cases "s < i - j")
        case True
        with "1.prems"(6) show ?thesis by blast
      next
        case False
        with \<open>j < length n\<close> i show ?thesis by (auto simp: imatch_def)
      qed
      with r True show ?thesis by simp
    next
      case False
      with "1.prems"(2-6) have "j = length n" "imatch h n (i - j)"
        by (auto simp: imatch_def)
      with r "1.prems"(6) show ?thesis by simp
    qed
  next
    case True
    note guard = this
    show ?thesis
    proof (cases "tolow (h ! i) = tolow (n ! j)")
      case eq: True
      from guard eq "1.prems"(1) have c: "stri_loop h n (i + 1) (j + 1) = (i', j')"
        by (simp add: stri_loop.simps [of h n i j])
      have d: "i + 1 - (j + 1) = i - j" by simp
      have m: "\<forall>k < j + 1. tolow (h ! (i + 1 - (j + 1) + k)) = tolow (n ! k)"
        unfolding d
        using "1.prems"(2,5) eq by (auto simp: less_Suc_eq)
      show ?thesis
        using "1.IH"(1) [OF guard eq c _ _ _ m] "1.prems" guard d by simp
    next
      case neq: False
      have nm: "\<not> imatch h n (i - j)"
        using neq guard "1.prems"(2) by (auto simp: imatch_def)
      have ns: "\<forall>s < i - j + 1. \<not> imatch h n s"
        using nm "1.prems"(6) by (auto simp: less_Suc_eq)
      show ?thesis
      proof (cases "j \<noteq> 0")
        case True
        with guard neq "1.prems"(1) have c: "stri_loop h n (i - j + 1) 0 = (i', j')"
          by (simp add: stri_loop.simps [of h n i j])
        show ?thesis
          by (rule "1.IH"(2) [OF guard neq True c]) (use "1.prems"(2) guard ns in auto)
      next
        case False
        with guard neq "1.prems"(1) have c: "stri_loop h n (i + 1) j = (i', j')"
          by (simp add: stri_loop.simps [of h n i j])
        show ?thesis
          using "1.IH"(3) [OF guard neq _ c] False guard ns by simp
      qed
    qed
  qed
qed

text \<open>
  The case insensitive search returns the first position at which the needle occurs, and the
  null pointer exactly when it occurs nowhere.
\<close>

theorem dStriAsciiStr_first:
  "dStriAsciiStr (Some h) (Some n) = (if \<exists>k. imatch h n k then Some (LEAST k. imatch h n k) else None)"
proof -
  obtain i j where l: "stri_loop h n 0 0 = (i, j)" by (cases "stri_loop h n 0 0")
  have c: "if j < length n then \<forall>s. \<not> imatch h n s
     else j = length n \<and> imatch h n (i - j) \<and> (\<forall>s < i - j. \<not> imatch h n s)"
    by (rule stri_loop_correct [OF l]) auto
  show ?thesis
  proof (cases "j < length n")
    case True
    with c l show ?thesis by (auto simp: dStriAsciiStr_def)
  next
    case False
    with c have m: "imatch h n (i - j)" "\<forall>s < i - j. \<not> imatch h n s" by (metis (full_types))+
    have "(LEAST k. imatch h n k) = i - j" using m
      by (intro Least_equality) (auto simp: not_less [symmetric])
    moreover from m have "\<exists>k. imatch h n k" by blast
    ultimately show ?thesis using False l by (simp add: dStriAsciiStr_def)
  qed
qed


section \<open>Configuration lines\<close>

text \<open>
  A configuration line that gives a value in double quotes is read back exactly, whatever the
  value holds: the name, and the value between the first and the last quote, with blanks around
  the equal sign ignored.
\<close>

theorem rc_line_quoted_roundtrip:
  assumes "n \<noteq> []" "hd n \<noteq> CHR ''#''" "\<forall>c \<in> set n. c \<noteq> CHR ''='' \<and> \<not> isspace c"
  shows "dParser_parse_rc_line (Some (n @ '' = '' @ [CHR 0x22] @ v @ [CHR 0x22])) = (0, Some n, Some v)"
proof -
  let ?q = "[CHR 0x22] @ v @ [CHR 0x22]"
  let ?l = "n @ '' = '' @ ?q"
  have sp: "\<not> isspace CHR ''=''" "\<not> isspace CHR 0x22" by (simp_all add: isspace_def uchar_def)
  have strip: "dStrstrip ?l = ?l"
    by (rule dStrstrip_id) (use assms sp in auto)
  have eq: "dropWhile (\<lambda>c. c \<noteq> CHR ''='') ?l = ''= '' @ ?q"
    using assms(3) by (induction n) auto
  have p: "dropWhile (\<lambda>c. c \<noteq> CHR ''='' \<and> \<not> isspace c) ?l = '' = '' @ ?q"
    using assms(3) by (induction n) auto
  have v: "dropWhile isspace ('' '' @ ?q) = ?q" using sp by simp
  have strchr: "strchr ?l CHR ''='' = Some (''= '' @ ?q)" by (simp only: strchr_def eq) simp
  have nz: "?l \<noteq> []" "deref ?l \<noteq> CHR ''#''" using assms(1,2) by (cases n; simp)+
  have nth: "?q ! (length ?q - 1) = CHR 0x22" by (simp add: nth_append)
  show ?thesis
    unfolding dParser_parse_rc_line_def option.case Let_def strip strchr p
    using nz sp v nth by simp
qed

lemma rc_line_quoted_roundtrip_witness:
  "dParser_parse_rc_line (Some (''home'' @ '' = '' @ [CHR 0x22] @ ''about:splash'' @ [CHR 0x22]))
     = (0, Some ''home'', Some ''about:splash'')"
  by (rule rc_line_quoted_roundtrip) (simp_all add: isspace_def uchar_def)

end
