(* ===== verification/Dlib_Dstr.thy ===== *)
theory Dlib_Dstr
  imports Dlib_Strings
begin

text \<open>
  The dynamic strings (\<open>Dstr\<close>) of \<^verbatim>\<open>dillo/dlib/dlib.c\<close>, with their allocated buffer: the cells
  of the allocation are a list of \<open>char option\<close>, \<open>None\<close> for a cell nothing has been written to
  yet. Operations whose loop may not end return an \<open>option\<close>, \<open>None\<close> when it does not. The
  invariant \<open>dstr_ok\<close> says that the terminator is inside the allocation; the content of a
  string is what lies before it. The locale \<open>text_buffer\<close> is what the callers of the module
  rely on. Sizes are not bounded by the width of \<open>int\<close>, but for the sizes of formatted output, which
  wrap; allocation succeeds (\<open>dMalloc\<close> ends the program otherwise).
\<close>

section \<open>The buffer\<close>

record dstr =
  ds_sz :: nat
  ds_len :: nat
  ds_str :: "char option list"

text \<open>\<open>memcpy\<close> and \<open>memmove\<close> into the buffer, and the cells they read.\<close>

definition mem_write :: "char option list \<Rightarrow> nat \<Rightarrow> char option list \<Rightarrow> char option list" where
  "mem_write buf pos cells = take pos buf @ cells @ drop (pos + length cells) buf"

definition mem_read :: "char option list \<Rightarrow> nat \<Rightarrow> nat \<Rightarrow> char option list" where
  "mem_read buf pos n = take n (drop pos buf)"

definition dStr_resize :: "dstr \<Rightarrow> int \<Rightarrow> bool \<Rightarrow> dstr" where
  "dStr_resize ds n_sz keep =
     (if 0 \<le> n_sz then
        (if keep \<and> int (ds_len ds) < n_sz then
           ds\<lparr>ds_str := take (nat n_sz) (ds_str ds) @ replicate (nat n_sz - length (ds_str ds)) None,
              ds_sz := nat n_sz\<rparr>
         else
           ds\<lparr>ds_str := (replicate (nat n_sz) None)[0 := Some NUL],
              ds_sz := nat n_sz, ds_len := 0\<rparr>)
      else ds)"

definition dStr_sized_new :: "int \<Rightarrow> dstr" where
  "dStr_sized_new sz0 =
     (let sz = (if sz0 < 2 then 2 else sz0)
      in dStr_resize \<lparr>ds_sz = 0, ds_len = 0, ds_str = []\<rparr> (sz + 1) False)"

definition dStr_fit :: "dstr \<Rightarrow> dstr" where
  "dStr_fit ds = dStr_resize ds (int (ds_len ds) + 1) True"

text \<open>\<open>for (n_sz = ds->sz; need >= n_sz; n_sz *= 2);\<close>\<close>

partial_function (option) dStr_grow :: "nat \<Rightarrow> nat \<Rightarrow> nat option" where
  "dStr_grow need n_sz = (if n_sz \<le> need then dStr_grow need (n_sz * 2) else Some n_sz)"

text \<open>The arguments \<open>s, l\<close> of the C function are the list \<open>s\<close> of the \<open>l\<close> bytes it copies.\<close>

definition dStr_insert_l :: "dstr \<Rightarrow> int \<Rightarrow> string \<Rightarrow> dstr option" where
  "dStr_insert_l ds pos_0 s =
     (let l = length s in
      if l \<noteq> 0 \<and> 0 \<le> pos_0 \<and> pos_0 \<le> int (ds_len ds) then
        (case dStr_grow (ds_len ds + l) (ds_sz ds) of
           None \<Rightarrow> None
         | Some n_sz \<Rightarrow>
            (let ds1 = (if ds_sz ds < n_sz then dStr_resize ds (int n_sz) (0 < ds_len ds) else ds);
                 pos = nat pos_0;
                 b1 = (if pos < ds_len ds1
                       then mem_write (ds_str ds1) (pos + l)
                              (mem_read (ds_str ds1) pos (ds_len ds1 - pos))
                       else ds_str ds1);
                 b2 = mem_write b1 pos (map Some s);
                 len' = ds_len ds1 + l
             in Some (ds1\<lparr>ds_str := b2[len' := Some NUL], ds_len := len'\<rparr>)))
      else Some ds)"

definition dStr_insert :: "dstr \<Rightarrow> int \<Rightarrow> string option \<Rightarrow> dstr option" where
  "dStr_insert ds pos_0 s =
     (case s of Some t \<Rightarrow> dStr_insert_l ds pos_0 t | None \<Rightarrow> Some ds)"

definition dStr_append_l :: "dstr \<Rightarrow> string \<Rightarrow> dstr option" where
  "dStr_append_l ds s = dStr_insert_l ds (int (ds_len ds)) s"

definition dStr_append :: "dstr \<Rightarrow> string \<Rightarrow> dstr option" where
  "dStr_append ds s = dStr_append_l ds s"

definition dStr_new :: "string option \<Rightarrow> dstr option" where
  "dStr_new s =
     (let ds = dStr_sized_new 0
      in case s of Some t \<Rightarrow> (if t \<noteq> [] then dStr_append ds t else Some ds) | None \<Rightarrow> Some ds)"

definition dStr_append_c :: "dstr \<Rightarrow> char \<Rightarrow> dstr option" where
  "dStr_append_c ds c =
     (if ds_len ds + 1 < ds_sz ds then
        Some (ds\<lparr>ds_str := (ds_str ds)[ds_len ds := Some c, ds_len ds + 1 := Some NUL],
                 ds_len := ds_len ds + 1\<rparr>)
      else dStr_append_l ds [c])"

definition dStr_truncate :: "dstr \<Rightarrow> nat \<Rightarrow> dstr" where
  "dStr_truncate ds len =
     (if len < ds_len ds then ds\<lparr>ds_str := (ds_str ds)[len := Some NUL], ds_len := len\<rparr> else ds)"

definition dStr_shred :: "dstr \<Rightarrow> dstr" where
  "dStr_shred ds =
     (if 0 < ds_sz ds then ds\<lparr>ds_str := replicate (ds_sz ds) (Some NUL)\<rparr> else ds)"

definition dStr_erase :: "dstr \<Rightarrow> int \<Rightarrow> int \<Rightarrow> dstr" where
  "dStr_erase ds pos_0 len =
     (if 0 \<le> pos_0 \<and> 0 < len \<and> pos_0 + len \<le> int (ds_len ds) then
        (let pos = nat pos_0; n = nat len;
             b1 = mem_write (ds_str ds) pos (mem_read (ds_str ds) (pos + n) (ds_len ds - pos - n));
             len' = ds_len ds - n
         in ds\<lparr>ds_str := b1[len' := Some NUL], ds_len := len'\<rparr>)
      else ds)"

text \<open>
  \<open>out\<close> is the complete output of the format with its arguments. \<open>vsnprintf\<close> writes as much of
  it as fits into the room given, and a terminator. What it returns depends on the room and on the
  C library: it is the parameter \<open>ret\<close>. A negative value is an output error, or, in old C
  libraries, an output that does not fit. The sizes are \<open>int\<close>s, whose overflow is wrapping.
\<close>

definition vsnprintf :: "char option list \<Rightarrow> nat \<Rightarrow> nat \<Rightarrow> string \<Rightarrow> char option list" where
  "vsnprintf buf pos room out =
     (if 0 < room then mem_write buf pos (map Some (take (room - 1) out) @ [Some NUL]) else buf)"

partial_function (option) dStr_vsprintfa :: "(nat \<Rightarrow> int) \<Rightarrow> dstr \<Rightarrow> string \<Rightarrow> dstr option" where
  "dStr_vsprintfa ret ds out =
     (let room = ds_sz ds - ds_len ds;
          n = ret room;
          ds1 = ds\<lparr>ds_str := vsnprintf (ds_str ds) (ds_len ds) room out\<rparr>
      in if -1 < n \<and> n < int room then Some (ds1\<lparr>ds_len := ds_len ds + nat n\<rparr>)
         else
           (let n_sz = (if -1 < n then c_int (int (ds_len ds) + n + 1) else c_int (int (ds_sz ds) * 2))
            in dStr_vsprintfa ret (dStr_resize ds1 n_sz (0 < ds_len ds)) out))"

definition dStr_vsprintf :: "(nat \<Rightarrow> int) \<Rightarrow> dstr \<Rightarrow> string \<Rightarrow> dstr option" where
  "dStr_vsprintf ret ds out = dStr_vsprintfa ret (dStr_truncate ds 0) out"

definition dStr_sprintf :: "(nat \<Rightarrow> int) \<Rightarrow> dstr \<Rightarrow> string \<Rightarrow> dstr option" where
  "dStr_sprintf ret ds out = dStr_vsprintf ret ds out"

definition dStr_sprintfa :: "(nat \<Rightarrow> int) \<Rightarrow> dstr \<Rightarrow> string \<Rightarrow> dstr option" where
  "dStr_sprintfa ret ds out = dStr_vsprintfa ret ds out"

text \<open>What \<open>vsnprintf\<close> returns for an output of \<open>n\<close> bytes: by the C standard its length, in old C
  libraries an error when the output does not fit.\<close>

definition vsnprintf_c99 :: "nat \<Rightarrow> nat \<Rightarrow> int" where
  "vsnprintf_c99 n room = (if n < 2 ^ 31 then int n else -1)"

definition vsnprintf_old :: "nat \<Rightarrow> nat \<Rightarrow> int" where
  "vsnprintf_old n room = (if n < room then int n else -1)"

definition vsnprintf_returns :: "(nat \<Rightarrow> int) \<Rightarrow> nat \<Rightarrow> bool" where
  "vsnprintf_returns ret n \<longleftrightarrow> (\<forall>room. ret room = int n \<or> room \<le> n \<and> ret room = -1)"

section \<open>Content\<close>

definition dstr_content :: "dstr \<Rightarrow> string" where
  "dstr_content ds = map the (take (ds_len ds) (ds_str ds))"

definition dstr_ok :: "dstr \<Rightarrow> bool" where
  "dstr_ok ds \<longleftrightarrow> length (ds_str ds) = ds_sz ds \<and> ds_len ds < ds_sz ds
     \<and> ds_str ds ! ds_len ds = Some NUL \<and> (\<forall>i < ds_len ds. ds_str ds ! i \<noteq> None)"

text \<open>\<open>memcmp\<close> of equally long blocks.\<close>

fun memcmp :: "string \<Rightarrow> string \<Rightarrow> int" where
  "memcmp (a # s) (b # t) = (if a = b then memcmp s t else uchar a - uchar b)"
| "memcmp s t = 0"

text \<open>The bytes compared are the contents and the terminators, up to the shorter of the two.\<close>

definition dStr_cmp :: "string \<Rightarrow> string \<Rightarrow> int" where
  "dStr_cmp c1 c2 =
     (let n = min (length c1 + 1) (length c2 + 1)
      in memcmp (take n (c1 @ [NUL])) (take n (c2 @ [NUL])))"

fun memmem_loop :: "string \<Rightarrow> string \<Rightarrow> nat \<Rightarrow> nat \<Rightarrow> nat option" where
  "memmem_loop h n i 0 = None"
| "memmem_loop h n i (Suc k) =
     (if h ! i = n ! 0 \<and> memcmp (take (length n) (drop i h)) n = 0 then Some i
      else memmem_loop h n (i + 1) k)"

text \<open>The index of the first occurrence; the loop runs over \<open>0 \<le> i \<le> haystack->len - needle->len\<close>.\<close>

definition dStr_memmem :: "string \<Rightarrow> string \<Rightarrow> nat option" where
  "dStr_memmem haystack needle =
     (if needle = [] then Some 0
      else memmem_loop haystack needle 0 (length haystack + 1 - length needle))"

section \<open>Callers inside the module\<close>

text \<open>The \<open>NULL\<close> terminated argument list is the list of its strings.\<close>

definition dStrconcat :: "string list \<Rightarrow> dstr option" where
  "dStrconcat ss = option_fold dStr_append (dStr_sized_new 64) ss"

definition hex_digit :: "int \<Rightarrow> char" where
  "hex_digit n = ''0123456789ABCDEF'' ! nat n"

definition hi_nibble :: "char \<Rightarrow> int" where
  "hi_nibble c = uchar c div 16"

definition lo_nibble :: "char \<Rightarrow> int" where
  "lo_nibble c = uchar c mod 16"

fun printable_loop :: "string \<Rightarrow> int \<Rightarrow> dstr \<Rightarrow> dstr option" where
  "printable_loop [] maxlen out = Some out"
| "printable_loop (c # s) maxlen out =
     (if int (ds_len out) < maxlen then
        Option.bind
          (if isprint c \<or> c = CHR 0x0A then dStr_append_c out c
           else Option.bind (dStr_append_l out [CHR 0x5C, CHR ''x''])
             (\<lambda>o1. Option.bind (dStr_append_c o1 (hex_digit (hi_nibble c)))
               (\<lambda>o2. dStr_append_c o2 (hex_digit (lo_nibble c)))))
          (printable_loop s maxlen)
      else Some out)"

text \<open>\<open>out0\<close> is the static buffer, kept from one call to the next.\<close>

definition dStr_printable :: "dstr option \<Rightarrow> string \<Rightarrow> int \<Rightarrow> dstr option" where
  "dStr_printable out0 in_str maxlen =
     Option.bind
       (printable_loop in_str maxlen
          (case out0 of Some out \<Rightarrow> dStr_truncate out 0
                      | None \<Rightarrow> dStr_sized_new (int (length in_str))))
       (\<lambda>out. if maxlen \<le> int (ds_len out) then dStr_append out ''...'' else Some out)"

text \<open>\<open>getc\<close> by \<open>getc\<close>; the stream is the bytes left in it.\<close>

fun getline_loop :: "dstr \<Rightarrow> string \<Rightarrow> (dstr \<times> string) option" where
  "getline_loop ds [] = Some (ds, [])"
| "getline_loop ds (ch # stream) =
     Option.bind (dStr_append_c ds ch)
       (\<lambda>ds'. if ch = CHR 0x0A then Some (ds', stream) else getline_loop ds' stream)"

definition dGetline :: "string \<Rightarrow> (string option \<times> string) option" where
  "dGetline stream =
     map_option (\<lambda>(ds, rest). (if ds_len ds \<noteq> 0 then Some (dstr_content ds) else None, rest))
       (getline_loop (dStr_sized_new 64) stream)"

section \<open>What the callers rely on\<close>

text \<open>
  A buffer with a content, whose operations always return, keep the representation invariant
  and act on the content as the corresponding list operations.
\<close>

locale text_buffer =
  fixes ok :: "'b \<Rightarrow> bool"
    and content :: "'b \<Rightarrow> string"
    and append_l :: "'b \<Rightarrow> string \<Rightarrow> 'b option"
    and append_c :: "'b \<Rightarrow> char \<Rightarrow> 'b option"
  assumes append_l: "ok b \<Longrightarrow> \<exists>b'. append_l b s = Some b' \<and> ok b' \<and> content b' = content b @ s"
    and append_c: "ok b \<Longrightarrow> \<exists>b'. append_c b c = Some b' \<and> ok b' \<and> content b' = content b @ [c]"
begin

lemma fold_append_l:
  "ok b \<Longrightarrow> \<exists>b'. option_fold append_l b ss = Some b' \<and> ok b' \<and> content b' = content b @ concat ss"
proof (induction ss arbitrary: b)
  case Nil
  then show ?case by simp
next
  case (Cons s ss)
  from append_l [OF Cons.prems] obtain b1 where
    b1: "append_l b s = Some b1" "ok b1" "content b1 = content b @ s" by blast
  from Cons.IH [OF b1(2)] b1 show ?case by auto
qed

lemma fold_append_c:
  "ok b \<Longrightarrow> \<exists>b'. option_fold append_c b cs = Some b' \<and> ok b' \<and> content b' = content b @ cs"
proof (induction cs arbitrary: b)
  case Nil
  then show ?case by simp
next
  case (Cons c cs)
  from append_c [OF Cons.prems] obtain b1 where
    b1: "append_c b c = Some b1" "ok b1" "content b1 = content b @ [c]" by blast
  from Cons.IH [OF b1(2)] b1 show ?case by auto
qed

end

section \<open>The buffer operations implement it\<close>

lemma length_mem_write [simp]:
  "pos + length cells \<le> length buf \<Longrightarrow> length (mem_write buf pos cells) = length buf"
  by (simp add: mem_write_def)

lemma nth_mem_write:
  "pos + length cells \<le> length buf \<Longrightarrow> i < length buf \<Longrightarrow>
   mem_write buf pos cells ! i =
     (if pos \<le> i \<and> i < pos + length cells then cells ! (i - pos) else buf ! i)"
  by (auto simp: mem_write_def nth_append min_def)

lemma length_mem_read [simp]: "pos + n \<le> length buf \<Longrightarrow> length (mem_read buf pos n) = n"
  by (simp add: mem_read_def)

lemma nth_mem_read: "pos + n \<le> length buf \<Longrightarrow> i < n \<Longrightarrow> mem_read buf pos n ! i = buf ! (pos + i)"
  by (simp add: mem_read_def)

lemma length_content [simp]: "dstr_ok ds \<Longrightarrow> length (dstr_content ds) = ds_len ds"
  by (simp add: dstr_content_def dstr_ok_def)

lemma nth_content: "dstr_ok ds \<Longrightarrow> i < ds_len ds \<Longrightarrow> dstr_content ds ! i = the (ds_str ds ! i)"
  by (simp add: dstr_content_def dstr_ok_def)

lemma dstr_eqI:
  assumes "dstr_ok ds" "length xs = ds_len ds" "\<And>i. i < ds_len ds \<Longrightarrow> the (ds_str ds ! i) = xs ! i"
  shows "dstr_content ds = xs"
  using assms by (intro nth_equalityI) (auto simp: nth_content)

lemma dStr_grow_Some:
  assumes "0 < n"
  shows "\<exists>m. dStr_grow need n = Some m \<and> need < m \<and> n \<le> m"
  using assms
proof (induction "need + 1 - n" arbitrary: n rule: less_induct)
  case less
  show ?case
  proof (cases "n \<le> need")
    case True
    with less.prems have "need + 1 - n * 2 < need + 1 - n" "0 < n * 2" by arith+
    from less.hyps [OF this] show ?thesis
      using True by (auto simp: dStr_grow.simps [of need n])
  next
    case False
    then show ?thesis by (simp add: dStr_grow.simps [of need n])
  qed
qed

lemma dStr_resize_keep:
  assumes "dstr_ok ds" "ds_sz ds \<le> n"
  shows "dstr_ok (dStr_resize ds (int n) (0 < ds_len ds))
     \<and> ds_sz (dStr_resize ds (int n) (0 < ds_len ds)) = n
     \<and> ds_len (dStr_resize ds (int n) (0 < ds_len ds)) = ds_len ds
     \<and> dstr_content (dStr_resize ds (int n) (0 < ds_len ds)) = dstr_content ds"
  using assms
  by (auto simp: dStr_resize_def dstr_ok_def dstr_content_def nth_append)

lemma dstr_content_sized_new [simp]: "dstr_content (dStr_sized_new n) = []"
  by (simp add: dStr_sized_new_def dStr_resize_def Let_def dstr_content_def)

lemma dstr_ok_sized_new [simp]: "dstr_ok (dStr_sized_new n)"
  by (auto simp: dStr_sized_new_def dStr_resize_def Let_def dstr_ok_def nth_list_update)

text \<open>The cells of the buffer after the insertion, and that they hold the new content.\<close>

lemma dstr_insert_cells:
  assumes ok: "dstr_ok ds" and p: "p \<le> ds_len ds" and room: "ds_len ds + length s < ds_sz ds"
    and b1: "b1 = (if p < ds_len ds
       then mem_write (ds_str ds) (p + length s) (mem_read (ds_str ds) p (ds_len ds - p))
       else ds_str ds)"
    and r: "r = ds\<lparr>ds_str := (mem_write b1 p (map Some s))[ds_len ds + length s := Some NUL],
                  ds_len := ds_len ds + length s\<rparr>"
  shows "dstr_ok r \<and> dstr_content r = take p (dstr_content ds) @ s @ drop p (dstr_content ds)"
proof -
  have len: "length (ds_str ds) = ds_sz ds" using ok by (simp add: dstr_ok_def)
  have lb1: "length b1 = ds_sz ds"
    using p room by (simp add: b1 len)
  have cell: "ds_str r ! i = (if i < p then ds_str ds ! i
      else if i < p + length s then Some (s ! (i - p))
      else if i < ds_len ds + length s then ds_str ds ! (i - length s) else Some NUL)"
    if "i \<le> ds_len ds + length s" for i
    using that p room lb1
    by (auto simp: r nth_list_update nth_mem_write b1 len nth_mem_read)
  have lr: "length (ds_str r) = ds_sz ds" "ds_sz r = ds_sz ds" "ds_len r = ds_len ds + length s"
    using p room lb1 by (auto simp: r)
  have okr: "dstr_ok r"
    using ok room p by (auto simp: dstr_ok_def lr cell)
  moreover have "dstr_content r = take p (dstr_content ds) @ s @ drop p (dstr_content ds)"
    using ok p
    by (intro dstr_eqI okr) (auto simp: lr cell nth_append nth_content min_def)
  ultimately show ?thesis by blast
qed

lemma dStr_insert_l_content:
  assumes "dstr_ok ds" "0 \<le> pos" "pos \<le> int (ds_len ds)"
  shows "\<exists>ds'. dStr_insert_l ds pos s = Some ds' \<and> dstr_ok ds'
     \<and> dstr_content ds' = take (nat pos) (dstr_content ds) @ s @ drop (nat pos) (dstr_content ds)"
proof (cases "s = []")
  case True
  with assms show ?thesis by (simp add: dStr_insert_l_def)
next
  case False
  have "0 < ds_sz ds" using assms(1) by (auto simp: dstr_ok_def)
  from dStr_grow_Some [OF this] obtain n where
    n: "dStr_grow (ds_len ds + length s) (ds_sz ds) = Some n" "ds_len ds + length s < n" "ds_sz ds \<le> n"
    by blast
  define ds1 where "ds1 = (if ds_sz ds < n then dStr_resize ds (int n) (0 < ds_len ds) else ds)"
  have d1: "dstr_ok ds1" "ds_sz ds1 = n" "ds_len ds1 = ds_len ds" "dstr_content ds1 = dstr_content ds"
    using dStr_resize_keep [OF assms(1) n(3)] assms(1) n(3) by (auto simp: ds1_def)
  have p: "nat pos \<le> ds_len ds1" using assms(2,3) d1(3) by linarith
  have room: "ds_len ds1 + length s < ds_sz ds1" using n(2) d1(2,3) by simp
  show ?thesis
    using dstr_insert_cells [OF d1(1) p room refl refl] False assms n(1) d1(3,4)
    by (simp add: dStr_insert_l_def Let_def ds1_def [symmetric])
qed

lemma dStr_append_l_content:
  "dstr_ok ds \<Longrightarrow> \<exists>ds'. dStr_append_l ds s = Some ds' \<and> dstr_ok ds'
     \<and> dstr_content ds' = dstr_content ds @ s"
  using dStr_insert_l_content [of ds "int (ds_len ds)" s] by (simp add: dStr_append_l_def)

lemma dStr_append_c_content:
  assumes "dstr_ok ds"
  shows "\<exists>ds'. dStr_append_c ds c = Some ds' \<and> dstr_ok ds' \<and> dstr_content ds' = dstr_content ds @ [c]"
proof (cases "ds_len ds + 1 < ds_sz ds")
  case True
  let ?r = "ds\<lparr>ds_str := (ds_str ds)[ds_len ds := Some c, ds_len ds + 1 := Some NUL],
               ds_len := ds_len ds + 1\<rparr>"
  have ok: "dstr_ok ?r"
    using assms True by (auto simp: dstr_ok_def nth_list_update less_Suc_eq)
  moreover have "dstr_content ?r = dstr_content ds @ [c]"
    using assms True
    by (intro dstr_eqI ok) (auto simp: nth_append nth_content dstr_ok_def nth_list_update less_Suc_eq)
  ultimately show ?thesis using True by (simp add: dStr_append_c_def)
next
  case False
  with dStr_append_l_content [OF assms, of "[c]"] show ?thesis by (simp add: dStr_append_c_def)
qed

interpretation dstr: text_buffer dstr_ok dstr_content dStr_append_l dStr_append_c
  by unfold_locales (auto simp: dStr_append_l_content dStr_append_c_content)

lemma dStr_truncate_ok [dstr_simps]: "dstr_ok ds \<Longrightarrow> dstr_ok (dStr_truncate ds n)"
  by (auto simp: dStr_truncate_def dstr_ok_def nth_list_update)

lemma dStr_truncate_content [dstr_simps]:
  "dstr_ok ds \<Longrightarrow> dstr_content (dStr_truncate ds n) = take n (dstr_content ds)"
  by (auto simp: dStr_truncate_def dstr_content_def dstr_ok_def take_map min_def)

lemma dStr_erase_content:
  assumes "dstr_ok ds" "0 \<le> pos" "0 < n" "pos + n \<le> int (ds_len ds)"
  shows "dstr_ok (dStr_erase ds pos n)
     \<and> dstr_content (dStr_erase ds pos n) =
         take (nat pos) (dstr_content ds) @ drop (nat (pos + n)) (dstr_content ds)"
proof -
  define p m where "p = nat pos" and "m = nat n"
  have pm: "p + m \<le> ds_len ds" "0 < m" "nat (pos + n) = p + m"
    using assms by (auto simp: p_def m_def nat_add_distrib)
  have len: "length (ds_str ds) = ds_sz ds" "ds_len ds < ds_sz ds"
    using assms(1) by (auto simp: dstr_ok_def)
  let ?r = "dStr_erase ds pos n"
  have r: "?r = ds\<lparr>ds_str := (mem_write (ds_str ds) p
        (mem_read (ds_str ds) (p + m) (ds_len ds - p - m)))[ds_len ds - m := Some NUL],
      ds_len := ds_len ds - m\<rparr>"
    using assms by (simp add: dStr_erase_def Let_def p_def m_def)
  have cell: "ds_str ?r ! i = (if i < p then ds_str ds ! i
      else if i < ds_len ds - m then ds_str ds ! (i + m) else Some NUL)" if "i \<le> ds_len ds - m" for i
    using that pm len by (auto simp: r nth_list_update nth_mem_write nth_mem_read add.commute)
  have lr: "length (ds_str ?r) = ds_sz ds" "ds_sz ?r = ds_sz ds" "ds_len ?r = ds_len ds - m"
    using pm len by (auto simp: r)
  have ok: "dstr_ok ?r"
    using assms(1) pm by (auto simp: dstr_ok_def lr cell)
  moreover have "dstr_content ?r = take p (dstr_content ds) @ drop (p + m) (dstr_content ds)"
    using assms(1) pm by (intro dstr_eqI ok) (auto simp: lr cell nth_append nth_content add.commute)
  ultimately show ?thesis using pm(3) by (simp add: p_def)
qed

lemma dStr_fit_content:
  assumes "dstr_ok ds"
  shows "dstr_ok (dStr_fit ds) \<and> ds_sz (dStr_fit ds) = ds_len ds + 1
     \<and> dstr_content (dStr_fit ds) = dstr_content ds"
  using assms
  by (auto simp: dStr_fit_def dStr_resize_def dstr_ok_def dstr_content_def nth_append nat_add_distrib)

section \<open>Formatted output\<close>

lemma vsnprintf_fits:
  assumes ok: "dstr_ok ds" and fits: "length out < ds_sz ds - ds_len ds"
    and r: "r = ds\<lparr>ds_str := vsnprintf (ds_str ds) (ds_len ds) (ds_sz ds - ds_len ds) out,
                  ds_len := ds_len ds + length out\<rparr>"
  shows "dstr_ok r \<and> dstr_content r = dstr_content ds @ out"
proof -
  have len: "length (ds_str ds) = ds_sz ds" using ok by (simp add: dstr_ok_def)
  have cell: "ds_str r ! i = (if i < ds_len ds then ds_str ds ! i
      else if i < ds_len ds + length out then Some (out ! (i - ds_len ds)) else Some NUL)"
    if "i \<le> ds_len ds + length out" for i
    using that fits by (auto simp: r vsnprintf_def nth_mem_write len nth_append)
  have lr: "length (ds_str r) = ds_sz ds" "ds_sz r = ds_sz ds" "ds_len r = ds_len ds + length out"
    using fits len by (auto simp: r vsnprintf_def)
  have okr: "dstr_ok r" using ok fits by (auto simp: dstr_ok_def lr cell)
  moreover have "dstr_content r = dstr_content ds @ out"
    using ok by (intro dstr_eqI okr) (auto simp: lr cell nth_append nth_content)
  ultimately show ?thesis by blast
qed

lemma vsnprintf_partial:
  assumes ok: "dstr_ok ds" and long: "\<not> length out < ds_sz ds - ds_len ds"
    and r: "r = ds\<lparr>ds_str := vsnprintf (ds_str ds) (ds_len ds) (ds_sz ds - ds_len ds) out\<rparr>"
  shows "length (ds_str r) = ds_sz ds" "\<And>i. i < ds_len ds \<Longrightarrow> ds_str r ! i = ds_str ds ! i"
proof -
  let ?room = "ds_sz ds - ds_len ds"
  let ?cells = "map Some (take (?room - 1) out) @ [Some NUL]"
  have len: "length (ds_str ds) = ds_sz ds" "0 < ?room" using ok by (auto simp: dstr_ok_def)
  then have "length ?cells = ?room" using long by simp
  moreover have "ds_str r = mem_write (ds_str ds) (ds_len ds) ?cells"
    using len(2) by (simp add: r vsnprintf_def)
  ultimately show "length (ds_str r) = ds_sz ds" "\<And>i. i < ds_len ds \<Longrightarrow> ds_str r ! i = ds_str ds ! i"
    using len by (simp_all add: nth_mem_write del: length_append length_map)
qed

text \<open>After a failed attempt the buffer may lack its terminator, which the next attempt writes: the
  string \<open>terminated\<close> is one the next attempt cannot tell from it.\<close>

definition terminated :: "dstr \<Rightarrow> dstr" where
  "terminated ds = ds\<lparr>ds_str := (ds_str ds)[ds_len ds := Some NUL]\<rparr>"

lemma dStr_vsprintfa_terminated:
  assumes "length (ds_str ds) = ds_sz ds"
  shows "dStr_vsprintfa ret (terminated ds) out = dStr_vsprintfa ret ds out"
proof (cases "ds_len ds < ds_sz ds")
  case True
  let ?t = "terminated ds"
  have f: "ds_sz ?t = ds_sz ds" "ds_len ?t = ds_len ds" by (simp_all add: terminated_def)
  have "vsnprintf (ds_str ?t) (ds_len ds) (ds_sz ds - ds_len ds) out
      = vsnprintf (ds_str ds) (ds_len ds) (ds_sz ds - ds_len ds) out"
    using True assms by (simp add: terminated_def vsnprintf_def mem_write_def)
  then have "?t\<lparr>ds_str := vsnprintf (ds_str ?t) (ds_len ds) (ds_sz ds - ds_len ds) out\<rparr>
      = ds\<lparr>ds_str := vsnprintf (ds_str ds) (ds_len ds) (ds_sz ds - ds_len ds) out\<rparr>"
    by (simp add: terminated_def)
  then show ?thesis
    by (subst (1 2) dStr_vsprintfa.simps) (simp only: f Let_def)
next
  case False
  then have "(ds_str ds)[ds_len ds := Some NUL] = ds_str ds" using assms by (simp add: list_update_beyond)
  then have "terminated ds = ds" by (simp add: terminated_def)
  then show ?thesis by simp
qed

lemma dStr_vsprintfa_retry:
  assumes ok: "dstr_ok ds" and long: "\<not> length out < ds_sz ds - ds_len ds"
    and n: "int (ds_sz ds) < n_sz"
    and big: "big = dStr_resize (ds\<lparr>ds_str := vsnprintf (ds_str ds) (ds_len ds) (ds_sz ds - ds_len ds) out\<rparr>)
        n_sz (0 < ds_len ds)"
  shows "length (ds_str big) = ds_sz big" "dstr_ok (terminated big)"
    "dstr_content (terminated big) = dstr_content ds"
    "ds_sz (terminated big) = nat n_sz" "ds_len (terminated big) = ds_len ds"
proof -
  define r where "r = ds\<lparr>ds_str := vsnprintf (ds_str ds) (ds_len ds) (ds_sz ds - ds_len ds) out\<rparr>"
  note p = vsnprintf_partial [OF ok long r_def]
  have lr: "ds_len r = ds_len ds" "ds_sz r = ds_sz ds" by (simp_all add: r_def)
  have b: "ds_sz big = nat n_sz" "ds_len big = ds_len ds" "length (ds_str big) = nat n_sz"
    "\<And>i. i < ds_len ds \<Longrightarrow> ds_str big ! i = ds_str ds ! i"
    using p ok n by (auto simp: big r_def [symmetric] dStr_resize_def lr dstr_ok_def nth_append)
  then show "length (ds_str big) = ds_sz big" by simp
  show okt: "dstr_ok (terminated big)"
    using b ok n by (auto simp: dstr_ok_def terminated_def nth_list_update)
  show "dstr_content (terminated big) = dstr_content ds"
    using b by (intro dstr_eqI okt) (auto simp: terminated_def nth_content [OF ok] length_content [OF ok])
  show "ds_sz (terminated big) = nat n_sz" "ds_len (terminated big) = ds_len ds"
    using b by (simp_all add: terminated_def)
qed

lemma vsnprintf_returns_libraries:
  "vsnprintf_returns (vsnprintf_old n) n" "n < 2 ^ 31 \<Longrightarrow> vsnprintf_returns (vsnprintf_c99 n) n"
  by (auto simp: vsnprintf_returns_def vsnprintf_old_def vsnprintf_c99_def)

lemma dStr_vsprintfa_content:
  assumes "dstr_ok ds" "ds_len ds + length out < 2 ^ 30" "vsnprintf_returns ret (length out)"
  shows "\<exists>ds'. dStr_vsprintfa ret ds out = Some ds' \<and> dstr_ok ds'
     \<and> dstr_content ds' = dstr_content ds @ out"
  using assms(1,2)
proof (induction "ds_len ds + length out + 1 - ds_sz ds" arbitrary: ds rule: less_induct)
  case less
  define room where "room = ds_sz ds - ds_len ds"
  have ret: "ret room = int (length out) \<or> room \<le> length out \<and> ret room = -1"
    using assms(3) by (simp add: vsnprintf_returns_def)
  show ?case
  proof (cases "length out < room")
    case True
    then have r: "ret room = int (length out)" using ret by auto
    have "dStr_vsprintfa ret ds out = Some (ds\<lparr>ds_str := vsnprintf (ds_str ds) (ds_len ds) room out,
        ds_len := ds_len ds + length out\<rparr>)"
      using True by (subst dStr_vsprintfa.simps) (simp add: Let_def r flip: room_def)
    with vsnprintf_fits [OF less.prems(1) True [unfolded room_def] refl] show ?thesis by (simp add: room_def)
  next
    case False
    define n_sz where "n_sz = (if -1 < ret room then int (ds_len ds) + ret room + 1 else int (ds_sz ds) * 2)"
    define big where "big = dStr_resize (ds\<lparr>ds_str := vsnprintf (ds_str ds) (ds_len ds) (ds_sz ds - ds_len ds) out\<rparr>)
        n_sz (0 < ds_len ds)"
    have sz: "ds_len ds < ds_sz ds" "ds_sz ds \<le> ds_len ds + length out"
      using less.prems(1) False by (auto simp: room_def dstr_ok_def)
    have n: "int (ds_sz ds) < n_sz" "n_sz < 2 ^ 31" using sz less.prems(2) ret by (auto simp: n_sz_def)
    have w: "c_int n_sz = n_sz" using n by (simp add: c_int_def)
    note t = dStr_vsprintfa_retry [OF less.prems(1) False [unfolded room_def] n(1) big_def]
    have "dStr_vsprintfa ret ds out = dStr_vsprintfa ret big out"
      using False ret w by (subst dStr_vsprintfa.simps) (auto simp: Let_def big_def n_sz_def room_def)
    also have "\<dots> = dStr_vsprintfa ret (terminated big) out"
      by (rule dStr_vsprintfa_terminated [OF t(1), symmetric])
    finally have e: "dStr_vsprintfa ret ds out = dStr_vsprintfa ret (terminated big) out" .
    have "ds_len (terminated big) + length out + 1 - ds_sz (terminated big) < ds_len ds + length out + 1 - ds_sz ds"
      using t(4,5) n(1) sz by linarith
    from less.hyps [OF this t(2)] show ?thesis using less.prems(2) e t(3,5) by simp
  qed
qed

text \<open>While \<open>vsnprintf\<close> reports errors the loop goes on.\<close>

lemma dStr_vsprintfa_success: "dStr_vsprintfa ret ds out = Some ds' \<Longrightarrow> \<exists>room. -1 < ret room"
  by (rule dStr_vsprintfa.raw_induct [of "\<lambda>ret _ _ _. \<exists>room. -1 < ret room"])
    (fastforce simp: Let_def split: if_splits)+

lemma dStr_sprintfa_error_loops: "(\<And>room. ret room < 0) \<Longrightarrow> dStr_sprintfa ret ds out = None"
  using dStr_vsprintfa_success [of ret ds out]
  by (cases "dStr_sprintfa ret ds out") (auto simp: dStr_sprintfa_def, metis int_one_le_iff_zero_less linorder_not_less zle_diff1_eq diff_0)

lemma dStr_vsprintf_content:
  assumes "dstr_ok ds" "length out < 2 ^ 30" "vsnprintf_returns ret (length out)"
  shows "\<exists>ds'. dStr_vsprintf ret ds out = Some ds' \<and> dstr_ok ds' \<and> dstr_content ds' = out"
proof -
  note t = dStr_truncate_ok [OF assms(1), of 0]
  have "dstr_content (dStr_truncate ds 0) = []" by (simp add: dStr_truncate_content [OF assms(1)])
  then have "ds_len (dStr_truncate ds 0) = 0" using length_content [OF t] by simp
  with dStr_vsprintfa_content [OF t _ assms(3)] assms(2) show ?thesis
    by (simp add: dStr_vsprintf_def dStr_truncate_content [OF assms(1)])
qed

section \<open>Comparison and search\<close>

lemma memcmp_antisym: "memcmp t s = - memcmp s t"
  by (induction s t rule: memcmp.induct) auto

lemma memcmp_eq_0: "length s = length t \<Longrightarrow> memcmp s t = 0 \<longleftrightarrow> s = t"
  by (induction s t rule: memcmp.induct) (auto simp: uchar_eq_iff)

lemma dStr_cmp_strcmp_aux:
  "cstr s \<Longrightarrow> cstr t \<Longrightarrow>
   memcmp (take (min (length s + 1) (length t + 1)) (s @ [NUL]))
          (take (min (length s + 1) (length t + 1)) (t @ [NUL])) = strcmp s t"
  by (induction s t rule: strcmp.induct) (auto simp: uchar_def)

text \<open>On contents without embedded terminators the comparison is that of C strings.\<close>

lemma dStr_cmp_strcmp: "cstr s \<Longrightarrow> cstr t \<Longrightarrow> dStr_cmp s t = strcmp s t"
  unfolding dStr_cmp_def Let_def by (rule dStr_cmp_strcmp_aux)

lemma dStr_cmp_antisym: "dStr_cmp t s = - dStr_cmp s t"
  unfolding dStr_cmp_def Let_def by (subst memcmp_antisym) (simp only: min.commute)

lemma starts_with_drop_length:
  assumes "starts_with n (drop j h)"
  shows "length n \<le> length h - j"
proof -
  from assms obtain t where "drop j h = n @ t" by (auto simp: starts_with_iff)
  then have "length (drop j h) = length n + length t" by simp
  then show ?thesis by simp
qed

lemma memmem_loop_first:
  assumes "0 < length n" "i + k + length n = length h + 1"
  shows "memmem_loop h n i k =
     (if \<exists>j. i \<le> j \<and> starts_with n (drop j h)
      then Some (LEAST j. i \<le> j \<and> starts_with n (drop j h)) else None)"
  using assms(2)
proof (induction k arbitrary: i)
  case 0
  have "\<not> starts_with n (drop j h)" if "i \<le> j" for j
  proof
    assume "starts_with n (drop j h)"
    from starts_with_drop_length [OF this] 0 that assms(1) show False by arith
  qed
  then show ?case by auto
next
  case (Suc k)
  have n: "n = n ! 0 # tl n" using assms(1) by (cases n) auto
  have i0: "i < length h" using Suc.prems assms(1) by linarith
  have i: "i < length h" "length n \<le> length (drop i h)" using i0 Suc.prems by simp_all
  have here: "(h ! i = n ! 0 \<and> memcmp (take (length n) (drop i h)) n = 0)
      \<longleftrightarrow> starts_with n (drop i h)"
  proof -
    have "memcmp (take (length n) (drop i h)) n = 0 \<longleftrightarrow> take (length n) (drop i h) = n"
      using i by (intro memcmp_eq_0) simp
    moreover have "take (length n) (drop i h) = n \<Longrightarrow> h ! i = n ! 0"
      using i assms(1) by (metis hd_drop_conv_nth hd_conv_nth hd_take length_greater_0_conv)
    ultimately show ?thesis by (auto simp: starts_with_take)
  qed
  show ?case
  proof (cases "starts_with n (drop i h)")
    case True
    then have "(LEAST j. i \<le> j \<and> starts_with n (drop j h)) = i"
      by (intro Least_equality) auto
    with True here show ?thesis by auto
  next
    case False
    have eq: "(i \<le> j \<and> starts_with n (drop j h)) \<longleftrightarrow> (i + 1 \<le> j \<and> starts_with n (drop j h))" for j
      using False by (cases "j = i") auto
    have "memmem_loop h n i (Suc k) = memmem_loop h n (i + 1) k"
      using False here by auto
    also have "\<dots> = (if \<exists>j. i + 1 \<le> j \<and> starts_with n (drop j h)
      then Some (LEAST j. i + 1 \<le> j \<and> starts_with n (drop j h)) else None)"
      using Suc.IH [of "i + 1"] Suc.prems by simp
    finally show ?thesis by (simp only: eq)
  qed
qed

lemma dStr_memmem_first:
  "dStr_memmem h n =
     (if \<exists>j. starts_with n (drop j h) then Some (LEAST j. starts_with n (drop j h)) else None)"
proof (cases "n = []")
  case True
  then show ?thesis by (auto simp: dStr_memmem_def intro!: Least_equality [symmetric])
next
  case False
  show ?thesis
  proof (cases "length n \<le> length h + 1")
    case True
    with False memmem_loop_first [of n 0 "length h + 1 - length n" h] show ?thesis
      by (simp add: dStr_memmem_def)
  next
    case longer: False
    have "\<not> starts_with n (drop j h)" for j
    proof
      assume "starts_with n (drop j h)"
      from starts_with_drop_length [OF this] longer show False by simp
    qed
    with longer False show ?thesis by (simp add: dStr_memmem_def)
  qed
qed

section \<open>Concatenation, lines, printable form\<close>

lemma dStrconcat_content:
  "\<exists>ds. dStrconcat ss = Some ds \<and> dstr_ok ds \<and> dstr_content ds = concat ss"
  using dstr.fold_append_l [of "dStr_sized_new 64" ss]
  by (simp add: dStrconcat_def dStr_append_def [abs_def])

lemma getline_loop_spec:
  "dstr_ok ds \<Longrightarrow> \<exists>ds' rest. getline_loop ds s = Some (ds', rest) \<and> dstr_ok ds'
     \<and> (\<exists>l. s = l @ rest \<and> dstr_content ds' = dstr_content ds @ l
          \<and> CHR 0x0A \<notin> set (butlast l)
          \<and> (rest \<noteq> [] \<longrightarrow> l \<noteq> [] \<and> last l = CHR 0x0A) \<and> (s \<noteq> [] \<longrightarrow> l \<noteq> []))"
proof (induction s arbitrary: ds)
  case Nil
  then show ?case by simp
next
  case (Cons c s)
  from dStr_append_c_content [OF Cons.prems, of c] obtain ds1 where
    ds1: "dStr_append_c ds c = Some ds1" "dstr_ok ds1" "dstr_content ds1 = dstr_content ds @ [c]"
    by blast
  show ?case
  proof (cases "c = CHR 0x0A")
    case True
    with ds1 show ?thesis by (auto intro: exI [of _ "[c]"])
  next
    case False
    from Cons.IH [OF ds1(2)] obtain ds' rest l where
      g: "getline_loop ds1 s = Some (ds', rest)" "dstr_ok ds'" "s = l @ rest"
      "dstr_content ds' = dstr_content ds1 @ l" "CHR 0x0A \<notin> set (butlast l)"
      "rest \<noteq> [] \<longrightarrow> l \<noteq> [] \<and> last l = CHR 0x0A" by blast
    with False ds1 show ?thesis
      by (intro exI [of _ ds'] exI [of _ rest]) (auto intro!: exI [of _ "c # l"])
  qed
qed

text \<open>A line is read up to and with its newline, nothing is lost, and the end of the stream
  is the only case without a line.\<close>

lemma dGetline_cases:
  "(stream = [] \<and> dGetline stream = Some (None, []))
   \<or> (\<exists>line rest. dGetline stream = Some (Some line, rest) \<and> stream = line @ rest \<and> line \<noteq> []
        \<and> CHR 0x0A \<notin> set (butlast line) \<and> (rest \<noteq> [] \<longrightarrow> last line = CHR 0x0A))"
proof -
  from getline_loop_spec [of "dStr_sized_new 64" stream] obtain ds rest l where
    g: "getline_loop (dStr_sized_new 64) stream = Some (ds, rest)" "dstr_ok ds" "stream = l @ rest"
    "dstr_content ds = l" "CHR 0x0A \<notin> set (butlast l)"
    "rest \<noteq> [] \<longrightarrow> l \<noteq> [] \<and> last l = CHR 0x0A" "stream \<noteq> [] \<longrightarrow> l \<noteq> []"
    by auto
  have len: "ds_len ds = length l" using length_content [OF g(2)] g(4) by simp
  show ?thesis
  proof (cases "stream = []")
    case True
    with g(3) have "l = []" "rest = []" by simp_all
    with True len g(1) show ?thesis by (simp add: dGetline_def)
  next
    case False
    with g(7) have l: "l \<noteq> []" by simp
    with g(1) len g(4) have "dGetline stream = Some (Some l, rest)" by (simp add: dGetline_def)
    with g(3,5,6) l show ?thesis by blast
  qed
qed


lemma dGetline_line:
  assumes "CHR 0x0A \<notin> set l"
  shows "dGetline (l @ CHR 0x0A # r) = Some (Some (l @ [CHR 0x0A]), r)"
proof -
  from dGetline_cases [of "l @ CHR 0x0A # r"] obtain line rest where
    g: "dGetline (l @ CHR 0x0A # r) = Some (Some line, rest)" "l @ CHR 0x0A # r = line @ rest" "line \<noteq> []"
    "CHR 0x0A \<notin> set (butlast line)" "rest \<noteq> [] \<longrightarrow> last line = CHR 0x0A"
    by (elim disjE exE conjE) simp_all
  have tw: "takeWhile (\<lambda>c. c \<noteq> CHR 0x0A) (l @ CHR 0x0A # r) = l" using assms by (induction l) auto
  obtain b e where b: "line = b @ [e]" using g(3) by (metis append_butlast_last_id)
  have "e = CHR 0x0A"
  proof (cases "rest = []")
    case True
    with g(2) have "CHR 0x0A \<in> set line" by (metis append_Nil2 in_set_conv_decomp)
    with g(4) b show ?thesis by auto
  qed (use g(5) b in simp)
  moreover have "CHR 0x0A \<notin> set b" using g(4) b by simp
  then have "takeWhile (\<lambda>c. c \<noteq> CHR 0x0A) (b @ CHR 0x0A # rest) = b"
    by (induction b) auto
  ultimately have "b = l" using tw g(2) b by simp
  with g \<open>e = CHR 0x0A\<close> b show ?thesis by simp
qed

lemma dGetline_Nil: "dGetline [] = Some (None, [])"
  using dGetline_cases [of "[]"] by auto


section \<open>Properties\<close>

text \<open>
  Inserting bytes at a position within a buffer returns, grows the allocation as far as
  needed and gives the old content with the bytes at that position; erasing them again gives the
  old content. Both keep the representation invariant: length below the allocated size and a
  terminator after the content.
\<close>

theorem dStr_insert_erase:
  assumes "dstr_ok ds" "0 \<le> pos" "pos \<le> int (ds_len ds)"
  shows "\<exists>ds'. dStr_insert_l ds pos s = Some ds' \<and> dstr_ok ds'
    \<and> dstr_content ds' = take (nat pos) (dstr_content ds) @ s @ drop (nat pos) (dstr_content ds)
    \<and> dstr_ok (dStr_erase ds' pos (int (length s)))
    \<and> dstr_content (dStr_erase ds' pos (int (length s))) = dstr_content ds"
proof -
  from dStr_insert_l_content [OF assms, of s] obtain ds' where
    d: "dStr_insert_l ds pos s = Some ds'" "dstr_ok ds'"
    "dstr_content ds' = take (nat pos) (dstr_content ds) @ s @ drop (nat pos) (dstr_content ds)" by blast
  have p: "nat pos \<le> length (dstr_content ds)" using assms by simp
  show ?thesis
  proof (cases "s = []")
    case True
    with d assms show ?thesis by (simp add: dStr_erase_def)
  next
    case False
    have "ds_len ds' = ds_len ds + length s"
      using length_content [OF d(2)] length_content [OF assms(1)] d(3) p by simp
    then have e: "pos + int (length s) \<le> int (ds_len ds')" using assms(3) by simp
    have n: "nat (pos + int (length s)) = nat pos + length s" using assms(2) by (simp add: nat_add_distrib)
    from dStr_erase_content [OF d(2) assms(2) _ e] False d p n show ?thesis
      by (auto simp: min_def)
  qed
qed

lemma dStr_insert_erase_witness:
  "\<exists>ds'. dStr_insert_l (dStr_sized_new 8) 0 ''dillo'' = Some ds' \<and> dstr_ok ds' \<and> dstr_content ds' = ''dillo''
    \<and> dstr_ok (dStr_erase ds' 0 5) \<and> dstr_content (dStr_erase ds' 0 5) = []"
  using dStr_insert_erase [of "dStr_sized_new 8" 0 "''dillo''"] by (simp add: dStr_sized_new_def [symmetric])

text \<open>
  C11: Formatted output is appended whole, and the loop that enlarges the buffer ends, when
  the string and the output are together shorter than 2^30 bytes and \<open>vsnprintf\<close> returns, at
  each attempt, the length of the output or, where that does not fit, either this length (C99, one more
  attempt) or -1 (old C libraries, the buffer is doubled until it fits). When \<open>vsnprintf\<close> reports
  an error at every attempt, the loop does not end.
\<close>

theorem dStr_sprintfa_appends:
  assumes "dstr_ok ds" "ds_len ds + length out < 2 ^ 30" "vsnprintf_returns ret (length out)"
  shows "(\<exists>ds'. dStr_sprintfa ret ds out = Some ds' \<and> dstr_ok ds' \<and> dstr_content ds' = dstr_content ds @ out)
     \<and> dStr_sprintfa (\<lambda>_. -1) ds out = None"
  using dStr_vsprintfa_content [OF assms] dStr_sprintfa_error_loops [of "\<lambda>_. -1"] by (simp add: dStr_sprintfa_def)

lemma dStr_sprintfa_appends_witness:
  "\<exists>ds'. dStr_sprintfa (vsnprintf_old 11) (dStr_sized_new 2) ''a long line'' = Some ds' \<and> dstr_ok ds'
     \<and> dstr_content ds' = ''a long line''"
proof -
  have "vsnprintf_returns (vsnprintf_old 11) (length ''a long line'')"
    using vsnprintf_returns_libraries(1) [of 11] by (simp add: eval_nat_numeral)
  moreover have "ds_len (dStr_sized_new 2) = 0" by (simp add: dStr_sized_new_def dStr_resize_def)
  ultimately show ?thesis using dStr_sprintfa_appends [of "dStr_sized_new 2" "''a long line''" "vsnprintf_old 11"] by simp
qed

text \<open>
  The substring search in buffers finds the first occurrence of the needle, and reports none
  exactly when there is none, whatever partial matches precede it.
\<close>

theorem dStr_memmem_finds_first:
  "dStr_memmem haystack needle =
     (if \<exists>j. starts_with needle (drop j haystack)
      then Some (LEAST j. starts_with needle (drop j haystack)) else None)"
  by (rule dStr_memmem_first)

text \<open>
  Reading a line returns the bytes up to and with the first newline (or the rest of a stream
  without one) and leaves the remaining bytes; it returns no line exactly at the end of the
  stream.
\<close>

theorem dGetline_splits:
  "(stream = [] \<longleftrightarrow> dGetline stream = Some (None, []))
   \<and> (stream \<noteq> [] \<longrightarrow> (\<exists>line rest. dGetline stream = Some (Some line, rest) \<and> stream = line @ rest
        \<and> line \<noteq> [] \<and> CHR 0x0A \<notin> set (butlast line) \<and> (rest \<noteq> [] \<longrightarrow> last line = CHR 0x0A)))"
  using dGetline_cases [of stream] by (cases "stream = []") auto

lemma dGetline_splits_witness:
  "\<exists>line rest. dGetline ''ab'' = Some (Some line, rest) \<and> ''ab'' = line @ rest \<and> line \<noteq> []"
  using dGetline_splits [of "''ab''"] by auto

end
