(* ===== verification/Dlib_List.thy ===== *)
theory Dlib_List
  imports Prelude
begin

text \<open>
  The growing arrays (\<open>Dlist\<close>) of \<^verbatim>\<open>dillo/dlib/dlib.c\<close>: positional insertion and removal,
  linear and binary search, insertion into a sorted list. \<open>dl_list\<close> is the live part of the
  array (its length is the field \<open>len\<close>); elements are pointers, compared by identity. The
  locales \<open>dcompare\<close> and \<open>dsearch\<close> state the contract of the comparison functions callers
  pass in, and what the sorted operations do under it.
\<close>

section \<open>The operations\<close>

record 'a dlist =
  dl_sz :: nat
  dl_list :: "'a list"

definition dList_new :: "int \<Rightarrow> 'a dlist option" where
  "dList_new sz0 =
     (if sz0 \<le> 0 then None else Some \<lparr>dl_sz = nat sz0, dl_list = []\<rparr>)"

text \<open>\<open>for (i = len - 1; i > pos0; --i) list[i] = list[i - 1];\<close>\<close>

fun shift_up :: "'a list \<Rightarrow> nat \<Rightarrow> nat \<Rightarrow> 'a list" where
  "shift_up xs pos 0 = xs"
| "shift_up xs pos (Suc i) = (if pos < Suc i then shift_up (xs[Suc i := xs ! i]) pos i else xs)"

text \<open>\<open>++len\<close> brings in a cell without an element; the placeholder there is overwritten.\<close>

definition dList_insert_pos :: "'a dlist \<Rightarrow> 'a \<Rightarrow> int \<Rightarrow> 'a dlist" where
  "dList_insert_pos lp data pos0 =
     (let len = length (dl_list lp) in
      if pos0 < 0 \<or> int len < pos0 then lp
      else
        (let sz = (if dl_sz lp = len then dl_sz lp * 2 else dl_sz lp);
             arr = shift_up (dl_list lp @ [data]) (nat pos0) len
         in lp\<lparr>dl_sz := sz, dl_list := arr[nat pos0 := data]\<rparr>))"

definition dList_append :: "'a dlist \<Rightarrow> 'a \<Rightarrow> 'a dlist" where
  "dList_append lp data = dList_insert_pos lp data (int (length (dl_list lp)))"

definition dList_prepend :: "'a dlist \<Rightarrow> 'a \<Rightarrow> 'a dlist" where
  "dList_prepend lp data = dList_insert_pos lp data 0"

definition dList_length :: "'a dlist option \<Rightarrow> nat" where
  "dList_length lp = (case lp of None \<Rightarrow> 0 | Some l \<Rightarrow> length (dl_list l))"

text \<open>The index loop that the removals and \<open>dList_find_idx\<close> share.\<close>

fun index_loop :: "'a list \<Rightarrow> 'a \<Rightarrow> nat \<Rightarrow> nat option" where
  "index_loop [] data i = None"
| "index_loop (x # xs) data i = (if x = data then Some i else index_loop xs data (i + 1))"

definition dList_remove_fast :: "'a dlist \<Rightarrow> 'a \<Rightarrow> 'a dlist" where
  "dList_remove_fast lp data =
     (case index_loop (dl_list lp) data 0 of
        None \<Rightarrow> lp
      | Some i \<Rightarrow>
         (let len = length (dl_list lp) - 1
          in lp\<lparr>dl_list := take len ((dl_list lp)[i := dl_list lp ! len])\<rparr>))"

function shift_down :: "'a list \<Rightarrow> nat \<Rightarrow> nat \<Rightarrow> 'a list" where
  "shift_down xs j len = (if j < len then shift_down (xs[j := xs ! (j + 1)]) (j + 1) len else xs)"
  by pat_completeness auto
termination by (relation "measure (\<lambda>(xs, j, len). len - j)") auto

declare shift_down.simps [simp del]

definition dList_remove :: "'a dlist \<Rightarrow> 'a \<Rightarrow> 'a dlist" where
  "dList_remove lp data =
     (case index_loop (dl_list lp) data 0 of
        None \<Rightarrow> lp
      | Some i \<Rightarrow>
         (let len = length (dl_list lp) - 1
          in lp\<lparr>dl_list := take len (shift_down (dl_list lp) i len)\<rparr>))"

definition dList_nth_data :: "'a dlist option \<Rightarrow> int \<Rightarrow> 'a option" where
  "dList_nth_data lp n0 =
     (case lp of
        None \<Rightarrow> None
      | Some l \<Rightarrow> if n0 < 0 \<or> int (length (dl_list l)) \<le> n0 then None
                  else Some (dl_list l ! nat n0))"

definition dList_find_idx :: "'a dlist option \<Rightarrow> 'a \<Rightarrow> int" where
  "dList_find_idx lp data =
     (case lp of
        None \<Rightarrow> -1
      | Some l \<Rightarrow> (case index_loop (dl_list l) data 0 of None \<Rightarrow> -1 | Some i \<Rightarrow> int i))"

definition dList_find :: "'a dlist \<Rightarrow> 'a \<Rightarrow> 'a option" where
  "dList_find lp data =
     (let i = dList_find_idx (Some lp) data in if 0 \<le> i then Some (dl_list lp ! nat i) else None)"

fun find_custom_loop :: "'a list \<Rightarrow> 'k \<Rightarrow> ('a \<Rightarrow> 'k \<Rightarrow> int) \<Rightarrow> 'a option" where
  "find_custom_loop [] data func = None"
| "find_custom_loop (x # xs) data func =
     (if func x data = 0 then Some x else find_custom_loop xs data func)"

definition dList_find_custom :: "'a dlist option \<Rightarrow> 'k \<Rightarrow> ('a \<Rightarrow> 'k \<Rightarrow> int) \<Rightarrow> 'a option" where
  "dList_find_custom lp data func =
     (case lp of None \<Rightarrow> None | Some l \<Rightarrow> find_custom_loop (dl_list l) data func)"

text \<open>
  The bisection of \<open>dList_insert_sorted\<close>: the last index probed and the last result of the
  comparison.
\<close>

function bisect_loop :: "('a \<Rightarrow> int) \<Rightarrow> 'a list \<Rightarrow> int \<Rightarrow> int \<Rightarrow> int \<Rightarrow> int \<Rightarrow> int \<times> int" where
  "bisect_loop f xs i st mn mx =
     (if mn \<le> mx then
        (let i = (mn + mx) div 2; st = f (xs ! nat i)
         in if st < 0 then bisect_loop f xs i st (i + 1) mx
            else if 0 < st then bisect_loop f xs i st mn (i - 1)
            else (i, st))
      else (i, st))"
  by pat_completeness auto
termination
  by (relation "measure (\<lambda>(f, xs, i, st, mn, mx). nat (mx + 1 - mn))") auto

declare bisect_loop.simps [simp del]

definition dList_insert_sorted :: "'a dlist \<Rightarrow> 'a \<Rightarrow> ('a \<Rightarrow> 'a \<Rightarrow> int) \<Rightarrow> 'a dlist" where
  "dList_insert_sorted lp data func =
     (let (i, st) = bisect_loop (\<lambda>x. func x data) (dl_list lp) 0 0 0 (int (length (dl_list lp)) - 1)
      in dList_insert_pos lp data (if 0 \<le> st then i else i + 1))"

function find_sorted_loop :: "('a \<Rightarrow> int) \<Rightarrow> 'a list \<Rightarrow> int \<Rightarrow> int \<Rightarrow> 'a option" where
  "find_sorted_loop f xs mn mx =
     (if mn \<le> mx then
        (let i = (mn + mx) div 2; st = f (xs ! nat i)
         in if st < 0 then find_sorted_loop f xs (i + 1) mx
            else if 0 < st then find_sorted_loop f xs mn (i - 1)
            else Some (xs ! nat i))
      else None)"
  by pat_completeness auto
termination
  by (relation "measure (\<lambda>(f, xs, mn, mx). nat (mx + 1 - mn))") auto

declare find_sorted_loop.simps [simp del]

definition dList_find_sorted :: "'a dlist option \<Rightarrow> 'k \<Rightarrow> ('a \<Rightarrow> 'k \<Rightarrow> int) \<Rightarrow> 'a option" where
  "dList_find_sorted lp data func =
     (case lp of
        None \<Rightarrow> None
      | Some l \<Rightarrow>
          if dl_list l \<noteq> [] then
            find_sorted_loop (\<lambda>x. func x data) (dl_list l) 0 (int (length (dl_list l)) - 1)
          else None)"

section \<open>The array operations as list operations\<close>

definition dlist_ok :: "'a dlist \<Rightarrow> bool" where
  "dlist_ok lp \<longleftrightarrow> 0 < dl_sz lp \<and> length (dl_list lp) \<le> dl_sz lp"

lemma length_shift_up [simp]: "length (shift_up xs pos i) = length xs"
  by (induction xs pos i rule: shift_up.induct) auto

lemma nth_shift_up:
  "i < length xs \<Longrightarrow> k < length xs \<Longrightarrow>
   shift_up xs pos i ! k = (if pos < k \<and> k \<le> i then xs ! (k - 1) else xs ! k)"
proof (induction xs pos i rule: shift_up.induct)
  case (2 xs pos i)
  then show ?case by (auto simp: nth_list_update le_Suc_eq)
qed auto

lemma shift_up_insert:
  assumes "p \<le> length l"
  shows "(shift_up (l @ [x]) p (length l))[p := x] = take p l @ x # drop p l"
proof (rule nth_equalityI)
  show "length ((shift_up (l @ [x]) p (length l))[p := x]) = length (take p l @ x # drop p l)"
    using assms by simp
next
  fix k assume "k < length ((shift_up (l @ [x]) p (length l))[p := x])"
  then have k: "k \<le> length l" by simp
  consider "k < p" | "k = p" | "p < k" by linarith
  then show "(shift_up (l @ [x]) p (length l))[p := x] ! k = (take p l @ x # drop p l) ! k"
    using assms k by cases (auto simp: nth_list_update nth_shift_up nth_append)
qed

lemma dl_list_insert_pos [dlist_simps]:
  "dl_list (dList_insert_pos lp x pos) =
     (if 0 \<le> pos \<and> pos \<le> int (length (dl_list lp))
      then take (nat pos) (dl_list lp) @ x # drop (nat pos) (dl_list lp) else dl_list lp)"
proof (cases "0 \<le> pos \<and> pos \<le> int (length (dl_list lp))")
  case True
  then have "nat pos \<le> length (dl_list lp)" by (simp add: nat_le_iff)
  from shift_up_insert [OF this] True show ?thesis by (simp add: dList_insert_pos_def Let_def)
next
  case False
  then show ?thesis by (auto simp: dList_insert_pos_def Let_def)
qed

lemma dl_list_append [dlist_simps, simp]: "dl_list (dList_append lp x) = dl_list lp @ [x]"
  by (simp add: dList_append_def dl_list_insert_pos)

lemma dl_list_prepend [dlist_simps, simp]: "dl_list (dList_prepend lp x) = x # dl_list lp"
  by (simp add: dList_prepend_def dl_list_insert_pos)

lemma index_loop_shift: "index_loop xs x (i + k) = map_option (\<lambda>j. j + k) (index_loop xs x i)"
proof (induction xs arbitrary: i)
  case (Cons y ys)
  show ?case using Cons.IH [of "i + 1"] by simp
qed simp

lemma index_loop_None [simp]: "index_loop xs x i = None \<longleftrightarrow> x \<notin> set xs"
  by (induction xs arbitrary: i) auto

lemma index_loop_Some:
  "index_loop xs x i = Some j \<Longrightarrow> i \<le> j \<and> j - i < length xs \<and> xs ! (j - i) = x \<and> x \<notin> set (take (j - i) xs)"
proof (induction xs arbitrary: i)
  case (Cons y ys)
  show ?case
  proof (cases "y = x")
    case True
    with Cons.prems show ?thesis by simp
  next
    case False
    with Cons.prems have "index_loop ys x (i + 1) = Some j" by simp
    from Cons.IH [OF this] have ih: "i + 1 \<le> j" "j - (i + 1) < length ys"
      "ys ! (j - (i + 1)) = x" "x \<notin> set (take (j - (i + 1)) ys)" by auto
    then have "j - i = Suc (j - (i + 1))" by simp
    with ih False show ?thesis by simp
  qed
qed simp

lemma shift_down_eq:
  "j \<le> len \<Longrightarrow> len < length xs \<Longrightarrow>
   take len (shift_down xs j len) = take j xs @ take (len - j) (drop (Suc j) xs)"
proof (induction xs j len rule: shift_down.induct)
  case (1 xs j len)
  show ?case
  proof (cases "j < len")
    case True
    with 1 have "take len (shift_down xs j len) =
        take (j + 1) (xs[j := xs ! (j + 1)]) @ take (len - (j + 1)) (drop (Suc (j + 1)) xs)"
      by (simp add: shift_down.simps [of xs j len])
    also have "\<dots> = take j xs @ (xs ! (j + 1)) # take (len - (j + 1)) (drop (Suc (j + 1)) xs)"
      using 1(3) True by (simp add: take_Suc_conv_app_nth list_update_append)
    also have "(xs ! (j + 1)) # take (len - (j + 1)) (drop (Suc (j + 1)) xs) =
        take (len - j) (drop (Suc j) xs)"
      using 1(3) True by (simp add: Cons_nth_drop_Suc [symmetric] Suc_diff_Suc [symmetric])
    finally show ?thesis .
  next
    case False
    with 1(2) have "j = len" by simp
    then show ?thesis by (simp add: shift_down.simps)
  qed
qed

lemma remove1_split:
  "i < length xs \<Longrightarrow> xs ! i = x \<Longrightarrow> x \<notin> set (take i xs) \<Longrightarrow> remove1 x xs = take i xs @ drop (Suc i) xs"
proof (induction xs arbitrary: i)
  case (Cons y ys)
  then show ?case by (cases i) auto
qed simp

lemma dl_list_remove [dlist_simps, simp]: "dl_list (dList_remove lp x) = remove1 x (dl_list lp)"
proof (cases "index_loop (dl_list lp) x 0")
  case None
  then have "x \<notin> set (dl_list lp)" by simp
  with None show ?thesis by (simp add: dList_remove_def remove1_idem del: index_loop_None)
next
  case (Some i)
  from index_loop_Some [OF Some] have i: "i < length (dl_list lp)" "dl_list lp ! i = x"
    "x \<notin> set (take i (dl_list lp))" by auto
  then have "take (length (dl_list lp) - 1) (shift_down (dl_list lp) i (length (dl_list lp) - 1)) =
      take i (dl_list lp) @ drop (Suc i) (dl_list lp)"
    by (subst shift_down_eq) auto
  with Some remove1_split [OF i] show ?thesis by (simp add: dList_remove_def Let_def)
qed

text \<open>The fast removal keeps the elements before the removed one.\<close>

lemma take_remove_fast:
  assumes "distinct (dl_list lp)" "i < length (dl_list lp)"
  shows "take i (dl_list (dList_remove_fast lp (dl_list lp ! i))) = take i (dl_list lp)"
    "length (dl_list (dList_remove_fast lp (dl_list lp ! i))) = length (dl_list lp) - 1"
proof -
  obtain j where j: "index_loop (dl_list lp) (dl_list lp ! i) 0 = Some j"
    using assms(2) index_loop_None [of "dl_list lp" "dl_list lp ! i" 0] by (cases "index_loop (dl_list lp) (dl_list lp ! i) 0") auto
  have "j = i" using index_loop_Some [OF j] nth_eq_iff_index_eq [OF assms(1), of j i] assms(2) by simp
  then show "take i (dl_list (dList_remove_fast lp (dl_list lp ! i))) = take i (dl_list lp)"
    "length (dl_list (dList_remove_fast lp (dl_list lp ! i))) = length (dl_list lp) - 1"
    using j assms(2) by (auto simp: dList_remove_fast_def Let_def min_def)
qed

text \<open>The fast removal keeps the elements, not their order.\<close>

lemma mset_remove_fast [dlist_simps]:
  "mset (dl_list (dList_remove_fast lp x)) = mset (dl_list lp) - {#x#}"
proof (cases "index_loop (dl_list lp) x 0")
  case None
  then have "x \<notin> set (dl_list lp)" by simp
  with None show ?thesis by (simp add: dList_remove_fast_def diff_single_trivial del: index_loop_None)
next
  case (Some i)
  let ?l = "dl_list lp" and ?n = "length (dl_list lp) - 1"
  from index_loop_Some [OF Some] have i: "i < length ?l" "?l ! i = x" by auto
  then have ne: "?l \<noteq> []" by auto
  define ys where "ys = butlast ?l"
  have l: "?l = ys @ [last ?l]" "length ys = ?n" using ne by (simp_all add: ys_def)
  have "take ?n (?l[i := ?l ! ?n]) = ys[i := last ?l]"
    using ne l by (metis append_eq_conv_conj last_conv_nth take_update_swap)
  moreover have "mset (ys[i := last ?l]) = mset ?l - {#x#}"
  proof (cases "i < length ys")
    case True
    then have "mset (ys[i := last ?l]) = add_mset (last ?l) (mset ys - {#ys ! i#})"
      by (simp add: mset_update)
    also have "ys ! i = x" using True i l(1) by (metis nth_append)
    also have "add_mset (last ?l) (mset ys - {#x#}) = add_mset (last ?l) (mset ys) - {#x#}"
      using True \<open>ys ! i = x\<close> by (metis add_mset_remove_trivial_If diff_union_swap2 nth_mem set_mset_mset)
    also have "add_mset (last ?l) (mset ys) = mset ?l"
      by (subst l(1)) simp
    finally show ?thesis .
  next
    case False
    with i(1) l have "i = ?n" by simp
    with i(2) ne have "last ?l = x" by (simp add: last_conv_nth)
    with False show ?thesis by (subst (2) l(1)) (simp add: list_update_beyond)
  qed
  ultimately show ?thesis using Some by (simp add: dList_remove_fast_def Let_def)
qed

lemma set_remove_fast: "distinct (dl_list lp) \<Longrightarrow> set (dl_list (dList_remove_fast lp x)) = set (dl_list lp) - {x}"
  using mset_remove_fast [of lp x]
  by (metis distinct_remove1 mset_remove1 set_mset_mset set_remove1_eq)

lemma distinct_remove_fast: "distinct (dl_list lp) \<Longrightarrow> distinct (dl_list (dList_remove_fast lp x))"
  using mset_remove_fast [of lp x]
  by (metis distinct_remove1 mset_eq_imp_distinct_iff mset_remove1)

lemma length_remove_fast:
  "length (dl_list (dList_remove_fast lp x)) =
     (if x \<in> set (dl_list lp) then length (dl_list lp) - 1 else length (dl_list lp))"
proof -
  have "length (dl_list (dList_remove_fast lp x)) = size (mset (dl_list lp) - {#x#})"
    by (simp add: mset_remove_fast [symmetric])
  then show ?thesis by (simp add: size_Diff_singleton_if)
qed

lemma find_custom_loop_Some:
  "find_custom_loop xs k f = Some x \<Longrightarrow> x \<in> set xs \<and> f x k = 0"
  by (induction xs) (auto split: if_splits)

lemma find_custom_loop_None: "find_custom_loop xs k f = None \<longleftrightarrow> (\<forall>x \<in> set xs. f x k \<noteq> 0)"
  by (induction xs) auto

lemma dList_find_idx_spec:
  "dList_find_idx (Some lp) x = -1 \<and> x \<notin> set (dl_list lp)
   \<or> (\<exists>i < length (dl_list lp). dList_find_idx (Some lp) x = int i \<and> dl_list lp ! i = x
        \<and> x \<notin> set (take i (dl_list lp)))"
  using index_loop_Some [of "dl_list lp" x 0]
  by (cases "index_loop (dl_list lp) x 0") (auto simp: dList_find_idx_def simp del: index_loop_None
      simp add: index_loop_None [THEN iffD1])

lemma dlist_ok_new: "dList_new n = Some lp \<Longrightarrow> dlist_ok lp"
  by (auto simp: dList_new_def dlist_ok_def split: if_splits)

lemma dlist_ok_insert_pos: "dlist_ok lp \<Longrightarrow> dlist_ok (dList_insert_pos lp x pos)"
  by (auto simp: dList_insert_pos_def dlist_ok_def Let_def)

lemma dlist_ok_append: "dlist_ok lp \<Longrightarrow> dlist_ok (dList_append lp x)"
  by (simp add: dList_append_def dlist_ok_insert_pos)

lemma dl_sz_remove [simp]: "dl_sz (dList_remove lp x) = dl_sz lp"
  "dl_sz (dList_remove_fast lp x) = dl_sz lp"
  by (auto simp: dList_remove_def dList_remove_fast_def Let_def split: option.splits)

lemma dlist_ok_remove: "dlist_ok lp \<Longrightarrow> dlist_ok (dList_remove lp x)"
  by (auto simp: dlist_ok_def length_remove1)

lemma dlist_ok_remove_fast: "dlist_ok lp \<Longrightarrow> dlist_ok (dList_remove_fast lp x)"
  by (auto simp: dlist_ok_def length_remove_fast)

section \<open>Bisection\<close>

text \<open>What the loops need of the list: the sign of the comparison grows along it.\<close>

definition search_ordered :: "('a \<Rightarrow> int) \<Rightarrow> 'a list \<Rightarrow> bool" where
  "search_ordered f xs \<longleftrightarrow> (\<forall>j < length xs. \<forall>i \<le> j.
     (f (xs ! j) \<le> 0 \<longrightarrow> f (xs ! i) \<le> 0) \<and> (f (xs ! j) < 0 \<longrightarrow> f (xs ! i) < 0))"

lemma search_orderedD:
  assumes "search_ordered f xs" "i \<le> j" "j < length xs"
  shows "f (xs ! j) \<le> 0 \<Longrightarrow> f (xs ! i) \<le> 0" "f (xs ! j) < 0 \<Longrightarrow> f (xs ! i) < 0"
    "0 \<le> f (xs ! i) \<Longrightarrow> 0 \<le> f (xs ! j)" "0 < f (xs ! i) \<Longrightarrow> 0 < f (xs ! j)"
proof -
  from assms show a: "f (xs ! j) \<le> 0 \<Longrightarrow> f (xs ! i) \<le> 0" and b: "f (xs ! j) < 0 \<Longrightarrow> f (xs ! i) < 0"
    unfolding search_ordered_def by blast+
  show "0 \<le> f (xs ! i) \<Longrightarrow> 0 \<le> f (xs ! j)" using b by linarith
  show "0 < f (xs ! i) \<Longrightarrow> 0 < f (xs ! j)" using a by linarith
qed

lemma bisect_mid:
  fixes mn mx :: int
  assumes "0 \<le> mn" "mx < int n" "mn \<le> mx"
  shows "mn \<le> (mn + mx) div 2" "(mn + mx) div 2 \<le> mx" "nat ((mn + mx) div 2) < n"
  using assms by auto

lemma find_sorted_loop_correct:
  assumes "search_ordered f xs" "0 \<le> mn" "mx < int (length xs)"
    "\<forall>k. int k < mn \<longrightarrow> k < length xs \<longrightarrow> f (xs ! k) < 0"
    "\<forall>k. mx < int k \<longrightarrow> k < length xs \<longrightarrow> 0 < f (xs ! k)"
  shows "case find_sorted_loop f xs mn mx of
      None \<Rightarrow> \<forall>x \<in> set xs. f x \<noteq> 0 | Some x \<Rightarrow> x \<in> set xs \<and> f x = 0"
  using assms
proof (induction f xs mn mx rule: find_sorted_loop.induct)
  case (1 f xs mn mx)
  show ?case
  proof (cases "mn \<le> mx")
    case False
    have "f (xs ! k) \<noteq> 0" if "k < length xs" for k
    proof (cases "int k < mn")
      case True
      with "1.prems"(4) that have "f (xs ! k) < 0" by blast
      then show ?thesis by simp
    next
      case nlt: False
      with False have "mx < int k" by linarith
      with "1.prems"(5) that have "0 < f (xs ! k)" by blast
      then show ?thesis by simp
    qed
    with False show ?thesis by (auto simp: find_sorted_loop.simps [of f xs mn mx] in_set_conv_nth)
  next
    case True
    define i where "i = (mn + mx) div 2"
    note i = bisect_mid [OF "1.prems"(2,3) True, folded i_def]
    have i0: "0 \<le> i" using "1.prems"(2) i(1) by linarith
    consider "f (xs ! nat i) < 0" | "0 < f (xs ! nat i)" | "f (xs ! nat i) = 0" by linarith
    then show ?thesis
    proof cases
      case neg: 1
      have lo: "\<forall>k. int k < i + 1 \<longrightarrow> k < length xs \<longrightarrow> f (xs ! k) < 0"
        using search_orderedD(2) [OF "1.prems"(1) _ i(3) neg] i0 by (auto simp: nat_le_iff le_nat_iff)
      show ?thesis
        using "1.IH"(1) [OF True i_def refl neg "1.prems"(1) _ "1.prems"(3) lo "1.prems"(5)] neg True i0
        by (simp add: find_sorted_loop.simps [of f xs mn mx] i_def [symmetric] Let_def)
    next
      case pos: 2
      have hi: "\<forall>k. i - 1 < int k \<longrightarrow> k < length xs \<longrightarrow> 0 < f (xs ! k)"
        using search_orderedD(4) [OF "1.prems"(1) _ _ pos] i0 by (auto simp: nat_le_iff)
      show ?thesis
        using "1.IH"(2) [OF True i_def refl _ pos "1.prems"(1,2) _ "1.prems"(4) hi] pos True i(2) "1.prems"(3)
        by (simp add: find_sorted_loop.simps [of f xs mn mx] i_def [symmetric] Let_def)
    next
      case zero: 3
      then show ?thesis
        using i(3) True by (simp add: find_sorted_loop.simps [of f xs mn mx] i_def [symmetric] Let_def)
    qed
  qed
qed

text \<open>Where the insertion puts the new element.\<close>

lemma bisect_loop_correct:
  assumes "search_ordered f xs" "0 \<le> mn" "mx < int (length xs)" "mn \<le> mx + 1"
    "\<forall>k. int k < mn \<longrightarrow> k < length xs \<longrightarrow> f (xs ! k) < 0"
    "\<forall>k. mx < int k \<longrightarrow> k < length xs \<longrightarrow> 0 < f (xs ! k)"
    "mn = mx + 1 \<longrightarrow> (if 0 \<le> st then i else i + 1) = mn"
    "bisect_loop f xs i st mn mx = (i', st')" "p = (if 0 \<le> st' then i' else i' + 1)"
  shows "0 \<le> p \<and> p \<le> int (length xs) \<and> (\<forall>k < nat p. f (xs ! k) \<le> 0)
     \<and> (\<forall>k < length xs. nat p \<le> k \<longrightarrow> 0 \<le> f (xs ! k))"
  using assms
proof (induction f xs i st mn mx rule: bisect_loop.induct)
  case (1 f xs i0 st0 mn mx)
  show ?case
  proof (cases "mn \<le> mx")
    case False
    with "1.prems"(4) have e: "mn = mx + 1" by simp
    from False "1.prems"(8) have "i' = i0" "st' = st0"
      by (simp_all add: bisect_loop.simps [of f xs i0 st0 mn mx])
    with "1.prems"(7,9) e have p: "p = mn" by metis
    have le: "0 \<le> p" "p \<le> int (length xs)" using "1.prems"(2,3) e p by simp_all
    have "f (xs ! k) \<le> 0" if "k < nat p" for k
    proof -
      from that p le have "int k < mn" "k < length xs" by linarith+
      with "1.prems"(5) have "f (xs ! k) < 0" by blast
      then show ?thesis by simp
    qed
    moreover have "0 \<le> f (xs ! k)" if "k < length xs" "nat p \<le> k" for k
    proof -
      from that p e have "mx < int k" by linarith
      with "1.prems"(6) that have "0 < f (xs ! k)" by blast
      then show ?thesis by simp
    qed
    ultimately show ?thesis using le by blast
  next
    case True
    define i where "i = (mn + mx) div 2"
    note i = bisect_mid [OF "1.prems"(2,3) True, folded i_def]
    have i0: "0 \<le> i" using "1.prems"(2) i(1) by linarith
    consider "f (xs ! nat i) < 0" | "0 < f (xs ! nat i)" | "f (xs ! nat i) = 0" by linarith
    then show ?thesis
    proof cases
      case neg: 1
      have lo: "\<forall>k. int k < i + 1 \<longrightarrow> k < length xs \<longrightarrow> f (xs ! k) < 0"
        using search_orderedD(2) [OF "1.prems"(1) _ i(3) neg] i0 by (auto simp: nat_le_iff le_nat_iff)
      have b: "bisect_loop f xs i (f (xs ! nat i)) (i + 1) mx = (i', st')"
        using "1.prems"(8) neg True by (simp add: bisect_loop.simps [of f xs i0 st0 mn mx] i_def [symmetric] Let_def)
      show ?thesis
        by (rule "1.IH"(1) [OF True i_def refl neg "1.prems"(1) _ "1.prems"(3) _ lo "1.prems"(6) _ b "1.prems"(9)])
          (use neg i0 i(2) in auto)
    next
      case pos: 2
      have hi: "\<forall>k. i - 1 < int k \<longrightarrow> k < length xs \<longrightarrow> 0 < f (xs ! k)"
        using search_orderedD(4) [OF "1.prems"(1) _ _ pos] i0 by (auto simp: nat_le_iff)
      have b: "bisect_loop f xs i (f (xs ! nat i)) mn (i - 1) = (i', st')"
        using "1.prems"(8) pos True by (simp add: bisect_loop.simps [of f xs i0 st0 mn mx] i_def [symmetric] Let_def)
      show ?thesis
        by (rule "1.IH"(2) [OF True i_def refl _ pos "1.prems"(1,2) _ _ "1.prems"(5) hi _ b "1.prems"(9)])
          (use pos i(1,2) "1.prems"(3) in auto)
    next
      case zero: 3
      then have "i' = i" "st' = 0"
        using "1.prems"(8) True
        by (simp_all add: bisect_loop.simps [of f xs i0 st0 mn mx] i_def [symmetric] Let_def)
      with "1.prems"(9) have p: "p = i" by simp
      show ?thesis
        using search_orderedD(1) [OF "1.prems"(1) _ i(3)] search_orderedD(3) [OF "1.prems"(1)] zero i0 i(3)
        by (auto simp: p)
    qed
  qed
qed

section \<open>The contract of the comparison functions\<close>

definition cmp_sorted :: "('a \<Rightarrow> 'a \<Rightarrow> int) \<Rightarrow> 'a list \<Rightarrow> bool" where
  "cmp_sorted cmp xs \<longleftrightarrow> sorted_wrt (\<lambda>a b. cmp a b \<le> 0) xs"

lemma cmp_sorted_remove1: "cmp_sorted cmp xs \<Longrightarrow> cmp_sorted cmp (remove1 x xs)"
proof (induction xs)
  case (Cons y ys)
  then show ?case using notin_set_remove1 [of _ ys x] by (auto simp: cmp_sorted_def)
qed (simp add: cmp_sorted_def)

text \<open>
  \<open>dCompareFunc\<close>: a total preorder on the elements a list may hold (\<open>ok\<close>), given by the sign of
  the result.
\<close>

locale dcompare =
  fixes ok :: "'a \<Rightarrow> bool" and cmp :: "'a \<Rightarrow> 'a \<Rightarrow> int"
  assumes cmp_flip: "ok a \<Longrightarrow> ok b \<Longrightarrow> cmp b a \<le> 0 \<longleftrightarrow> 0 \<le> cmp a b"
    and cmp_trans: "ok a \<Longrightarrow> ok b \<Longrightarrow> ok c \<Longrightarrow> cmp a b \<le> 0 \<Longrightarrow> cmp b c \<le> 0 \<Longrightarrow> cmp a c \<le> 0"
begin

lemma cmp_refl: "ok a \<Longrightarrow> cmp a a = 0"
  using cmp_flip [of a a] by linarith

lemma cmp_less_flip: "ok a \<Longrightarrow> ok b \<Longrightarrow> cmp b a < 0 \<longleftrightarrow> 0 < cmp a b"
  using cmp_flip [of b a] by linarith

lemma cmp_le_less_trans: "ok a \<Longrightarrow> ok b \<Longrightarrow> ok c \<Longrightarrow> cmp a b \<le> 0 \<Longrightarrow> cmp b c < 0 \<Longrightarrow> cmp a c < 0"
  using cmp_trans [of c a b] cmp_flip [of a c] cmp_flip [of b c] by linarith

lemma search_ordered_insert:
  assumes "cmp_sorted cmp xs" "\<forall>x \<in> set xs. ok x" "ok y"
  shows "search_ordered (\<lambda>x. cmp x y) xs"
proof -
  have "cmp (xs ! i) (xs ! j) \<le> 0" if "i \<le> j" "j < length xs" for i j
    using assms that cmp_refl by (cases "i = j") (auto simp: cmp_sorted_def sorted_wrt_iff_nth_less)
  then show ?thesis unfolding search_ordered_def
    using cmp_trans cmp_le_less_trans assms(2,3) by (meson nth_mem le_less_trans)
qed

lemma cmp_sorted_insert_at:
  assumes "cmp_sorted cmp xs" "\<forall>x \<in> set xs. ok x" "ok y"
    "\<forall>k < p. k < length xs \<longrightarrow> cmp (xs ! k) y \<le> 0" "\<forall>k < length xs. p \<le> k \<longrightarrow> 0 \<le> cmp (xs ! k) y"
  shows "cmp_sorted cmp (take p xs @ y # drop p xs)"
proof -
  have "cmp x y \<le> 0" if "x \<in> set (take p xs)" for x
    using that assms(4) by (auto simp: in_set_conv_nth)
  moreover have "cmp y x \<le> 0" if "x \<in> set (drop p xs)" for x
  proof -
    from that obtain k where k: "k < length xs - p" "x = xs ! (p + k)"
      by (auto simp: in_set_conv_nth)
    then have "0 \<le> cmp x y" using assms(5) by simp
    moreover have "ok x" using k assms(2) by simp
    ultimately show ?thesis using cmp_flip [of x y] assms(3) by blast
  qed
  moreover have "cmp x z \<le> 0" if "x \<in> set (take p xs)" "z \<in> set (drop p xs)" for x z
    using assms(1) that by (metis append_take_drop_id cmp_sorted_def sorted_wrt_append)
  moreover have "cmp_sorted cmp (take p xs)" "cmp_sorted cmp (drop p xs)"
    using assms(1) by (auto simp: cmp_sorted_def sorted_wrt_take sorted_wrt_drop)
  ultimately show ?thesis by (auto simp: cmp_sorted_def sorted_wrt_append)
qed

text \<open>The sorted insertion adds the element and keeps the order.\<close>

lemma insert_sorted_correct:
  assumes "cmp_sorted cmp (dl_list lp)" "\<forall>x \<in> set (dl_list lp). ok x" "ok y"
  shows "cmp_sorted cmp (dl_list (dList_insert_sorted lp y cmp))
     \<and> mset (dl_list (dList_insert_sorted lp y cmp)) = add_mset y (mset (dl_list lp))"
proof -
  let ?xs = "dl_list lp"
  obtain i st where b: "bisect_loop (\<lambda>x. cmp x y) ?xs 0 0 0 (int (length ?xs) - 1) = (i, st)"
    by (cases "bisect_loop (\<lambda>x. cmp x y) ?xs 0 0 0 (int (length ?xs) - 1)")
  define p where "p = (if 0 \<le> st then i else i + 1)"
  have c: "0 \<le> p \<and> p \<le> int (length ?xs) \<and> (\<forall>k < nat p. cmp (?xs ! k) y \<le> 0)
     \<and> (\<forall>k < length ?xs. nat p \<le> k \<longrightarrow> 0 \<le> cmp (?xs ! k) y)"
    by (rule bisect_loop_correct [OF search_ordered_insert [OF assms] _ _ _ _ _ _ b p_def]) auto
  have l: "dl_list (dList_insert_sorted lp y cmp) = take (nat p) ?xs @ y # drop (nat p) ?xs"
    using b c by (simp add: dList_insert_sorted_def p_def [symmetric] dl_list_insert_pos)
  have m: "mset (take (nat p) ?xs) + mset (drop (nat p) ?xs) = mset ?xs"
    by (metis append_take_drop_id mset_append)
  have "cmp_sorted cmp (take (nat p) ?xs @ y # drop (nat p) ?xs)"
    by (rule cmp_sorted_insert_at [OF assms]) (use c in auto)
  moreover have "mset (take (nat p) ?xs @ y # drop (nat p) ?xs) = add_mset y (mset ?xs)"
    using m by simp
  ultimately show ?thesis by (simp only: l)
qed

lemma set_insert_sorted:
  assumes "cmp_sorted cmp (dl_list lp)" "\<forall>x \<in> set (dl_list lp). ok x" "ok y"
  shows "set (dl_list (dList_insert_sorted lp y cmp)) = insert y (set (dl_list lp))"
  using insert_sorted_correct [OF assms] by (metis set_mset_add_mset_insert set_mset_mset)

end

text \<open>Contracts of composed comparisons: of an image, of two comparisons in turn, of nullable
  values with the null pointer first.\<close>

lemma dcompare_mono: "dcompare ok cmp \<Longrightarrow> (\<And>x. ok' x \<Longrightarrow> ok x) \<Longrightarrow> dcompare ok' cmp"
  unfolding dcompare_def by blast

lemma dcompare_vimage: "dcompare ok cmp \<Longrightarrow> dcompare (\<lambda>x. ok (f x)) (\<lambda>x y. cmp (f x) (f y))"
  unfolding dcompare_def by blast

lemma dcompare_lex:
  assumes "dcompare ok c1" "dcompare ok c2"
  shows "dcompare ok (\<lambda>x y. let st = c1 x y in if st \<noteq> 0 then st else c2 x y)"
proof (rule dcompare.intro)
  fix a b
  assume o: "ok a" "ok b"
  note f = dcompare.cmp_flip [OF assms(1) o] dcompare.cmp_flip [OF assms(1) o(2,1)]
  show "(let st = c1 b a in if st \<noteq> 0 then st else c2 b a) \<le> 0
      \<longleftrightarrow> 0 \<le> (let st = c1 a b in if st \<noteq> 0 then st else c2 a b)"
    using f dcompare.cmp_flip [OF assms(2) o] by (auto simp: Let_def)
next
  fix a b c
  assume o: "ok a" "ok b" "ok c"
    and l: "(let st = c1 a b in if st \<noteq> 0 then st else c2 a b) \<le> 0"
      "(let st = c1 b c in if st \<noteq> 0 then st else c2 b c) \<le> 0"
  from l have le: "c1 a b \<le> 0" "c1 b c \<le> 0" by (auto simp: Let_def split: if_splits)
  show "(let st = c1 a c in if st \<noteq> 0 then st else c2 a c) \<le> 0"
  proof (cases "c1 a c = 0")
    case True
    have "0 \<le> c1 b a" "0 \<le> c1 c b" "0 \<le> c1 c a"
      using le True dcompare.cmp_flip [OF assms(1) o(2,1)] dcompare.cmp_flip [OF assms(1) o(3,2)]
        dcompare.cmp_flip [OF assms(1) o(3,1)] by auto
    moreover have "c1 c a \<le> 0" using True dcompare.cmp_flip [OF assms(1) o(1,3)] by simp
    ultimately have "c1 b a \<le> 0" "c1 c b \<le> 0"
      using le dcompare.cmp_trans [OF assms(1)] o by blast+
    then have "c1 a b = 0" "c1 b c = 0"
      using le dcompare.cmp_flip [OF assms(1)] o by (meson order_antisym)+
    with l True dcompare.cmp_trans [OF assms(2) o] show ?thesis by (simp add: Let_def)
  next
    case False
    then show ?thesis using dcompare.cmp_trans [OF assms(1) o le] by (simp add: Let_def)
  qed
qed

lemma dcompare_option:
  assumes "dcompare ok cmp"
  shows "dcompare (\<lambda>x. case x of None \<Rightarrow> True | Some a \<Rightarrow> ok a)
    (\<lambda>x y. case (x, y) of (Some a, Some b) \<Rightarrow> cmp a b | (None, None) \<Rightarrow> 0 | (Some a, None) \<Rightarrow> 1
       | (None, Some b) \<Rightarrow> -1)"
proof (rule dcompare.intro)
  fix a b :: "'a option"
  show "(case a of None \<Rightarrow> True | Some a \<Rightarrow> ok a) \<Longrightarrow> (case b of None \<Rightarrow> True | Some a \<Rightarrow> ok a) \<Longrightarrow>
    (case (b, a) of (Some a, Some b) \<Rightarrow> cmp a b | (None, None) \<Rightarrow> 0 | (Some a, None) \<Rightarrow> 1
       | (None, Some b) \<Rightarrow> -1) \<le> 0 \<longleftrightarrow>
    0 \<le> (case (a, b) of (Some a, Some b) \<Rightarrow> cmp a b | (None, None) \<Rightarrow> 0 | (Some a, None) \<Rightarrow> 1
       | (None, Some b) \<Rightarrow> -1)"
    using dcompare.cmp_flip [OF assms, of "the a" "the b"] by (cases a; cases b) simp_all
next
  fix a b c :: "'a option"
  assume "case a of None \<Rightarrow> True | Some a \<Rightarrow> ok a" "case b of None \<Rightarrow> True | Some a \<Rightarrow> ok a"
    "case c of None \<Rightarrow> True | Some a \<Rightarrow> ok a"
    "(case (a, b) of (Some a, Some b) \<Rightarrow> cmp a b | (None, None) \<Rightarrow> 0 | (Some a, None) \<Rightarrow> 1
       | (None, Some b) \<Rightarrow> -1) \<le> 0"
    "(case (b, c) of (Some a, Some b) \<Rightarrow> cmp a b | (None, None) \<Rightarrow> 0 | (Some a, None) \<Rightarrow> 1
       | (None, Some b) \<Rightarrow> -1) \<le> 0"
  then show "(case (a, c) of (Some a, Some b) \<Rightarrow> cmp a b | (None, None) \<Rightarrow> 0 | (Some a, None) \<Rightarrow> 1
       | (None, Some b) \<Rightarrow> -1) \<le> 0"
    using dcompare.cmp_trans [OF assms, of "the a" "the b" "the c"]
    by (cases a; cases b; cases c) simp_all
qed

text \<open>
  Searching by an external key: \<open>kcmp\<close> compares an element with a key and agrees with the order
  of the elements.
\<close>

locale dsearch = dcompare ok cmp
  for ok :: "'a \<Rightarrow> bool" and cmp :: "'a \<Rightarrow> 'a \<Rightarrow> int" +
  fixes okk :: "'k \<Rightarrow> bool" and kcmp :: "'a \<Rightarrow> 'k \<Rightarrow> int"
  assumes kcmp_le: "ok a \<Longrightarrow> ok b \<Longrightarrow> okk k \<Longrightarrow> cmp a b \<le> 0 \<Longrightarrow> kcmp b k \<le> 0 \<Longrightarrow> kcmp a k \<le> 0"
    and kcmp_less: "ok a \<Longrightarrow> ok b \<Longrightarrow> okk k \<Longrightarrow> cmp a b \<le> 0 \<Longrightarrow> kcmp b k < 0 \<Longrightarrow> kcmp a k < 0"
begin

lemma search_ordered_key:
  assumes "cmp_sorted cmp xs" "\<forall>x \<in> set xs. ok x" "okk k"
  shows "search_ordered (\<lambda>x. kcmp x k) xs"
proof -
  have "cmp (xs ! i) (xs ! j) \<le> 0" if "i \<le> j" "j < length xs" for i j
    using assms that cmp_refl by (cases "i = j") (auto simp: cmp_sorted_def sorted_wrt_iff_nth_less)
  then show ?thesis unfolding search_ordered_def
    using kcmp_le kcmp_less assms(2,3) by (meson nth_mem le_less_trans)
qed

text \<open>The binary search finds an element that compares equal to the key whenever there is one.\<close>

lemma find_sorted_correct:
  assumes "cmp_sorted cmp (dl_list lp)" "\<forall>x \<in> set (dl_list lp). ok x" "okk k"
  shows "case dList_find_sorted (Some lp) k kcmp of
      None \<Rightarrow> \<forall>x \<in> set (dl_list lp). kcmp x k \<noteq> 0
    | Some x \<Rightarrow> x \<in> set (dl_list lp) \<and> kcmp x k = 0"
proof (cases "dl_list lp = []")
  case True
  then show ?thesis by (simp add: dList_find_sorted_def)
next
  case False
  with find_sorted_loop_correct [OF search_ordered_key [OF assms], of 0 "int (length (dl_list lp)) - 1"]
  show ?thesis by (simp add: dList_find_sorted_def)
qed

lemma find_sorted_Some:
  assumes "cmp_sorted cmp (dl_list lp)" "\<forall>x \<in> set (dl_list lp). ok x" "okk k"
    "dList_find_sorted (Some lp) k kcmp = Some x"
  shows "x \<in> set (dl_list lp)" "kcmp x k = 0"
  using find_sorted_correct [OF assms(1-3)] assms(4) by simp_all

lemma find_sorted_None:
  assumes "cmp_sorted cmp (dl_list lp)" "\<forall>x \<in> set (dl_list lp). ok x" "okk k"
  shows "dList_find_sorted (Some lp) k kcmp = None \<longleftrightarrow> (\<forall>x \<in> set (dl_list lp). kcmp x k \<noteq> 0)"
  using find_sorted_correct [OF assms] by (auto split: option.splits)

lemma find_sorted_unique:
  assumes "cmp_sorted cmp (dl_list lp)" "\<forall>x \<in> set (dl_list lp). ok x" "okk k"
    "x \<in> set (dl_list lp)" "kcmp x k = 0" "\<forall>y \<in> set (dl_list lp). kcmp y k = 0 \<longrightarrow> y = x"
  shows "dList_find_sorted (Some lp) k kcmp = Some x"
proof (cases "dList_find_sorted (Some lp) k kcmp")
  case None
  with find_sorted_None [OF assms(1-3)] assms(4,5) show ?thesis by blast
next
  case (Some y)
  with find_sorted_Some [OF assms(1-3) Some] assms(6) show ?thesis by simp
qed

end


section \<open>Properties\<close>

text \<open>
  C10: The array operations are the list operations: the shifting loops of an insertion put the
  element at its position (a position outside the list changes nothing), a removal deletes the
  first occurrence and keeps the order, and the fast removal, which moves the last element into
  the hole, deletes one occurrence.
\<close>

theorem dList_array_loops:
  "dl_list (dList_insert_pos lp x pos) =
      (if pos < 0 \<or> int (length (dl_list lp)) < pos then dl_list lp
       else take (nat pos) (dl_list lp) @ x # drop (nat pos) (dl_list lp))
   \<and> dl_list (dList_append lp x) = dl_list lp @ [x]
   \<and> dl_list (dList_prepend lp x) = x # dl_list lp
   \<and> dl_list (dList_remove lp x) = remove1 x (dl_list lp)
   \<and> mset (dl_list (dList_remove_fast lp x)) = mset (dl_list lp) - {#x#}"
  by (simp add: dlist_simps)

end
