(* ===== verification/Klist.thy ===== *)
theory Klist
  imports Dlib_List
begin

text \<open>
  The key-data lists of \<^verbatim>\<open>dillo/src/klist.c\<close>: a list of nodes sorted by an integer key that
  the module hands out from a counter. The counter and the keys are \<open>int\<close>s of 32 bits: the
  increment wraps, as does the subtraction of the comparison functions. The locale
  \<open>key_store\<close> is the interface of the module: what a lookup returns after an insertion or a
  removal.
\<close>

section \<open>The module\<close>

type_synonym key = "32 word"

record 'd klist_node =
  kn_Key :: key
  kn_Data :: 'd

record 'd klist =
  kl_List :: "'d klist_node dlist"
  kl_Clean :: bool
  kl_Counter :: key

definition Klist_node_by_key_cmp :: "'d klist_node \<Rightarrow> key \<Rightarrow> int" where
  "Klist_node_by_key_cmp node key = sint (kn_Key node - key)"

definition Klist_node_by_node_cmp :: "'d klist_node \<Rightarrow> 'd klist_node \<Rightarrow> int" where
  "Klist_node_by_node_cmp node1 node2 = sint (kn_Key node1 - kn_Key node2)"

text \<open>The data is a pointer, \<open>None\<close> the null pointer.\<close>

definition a_Klist_get_data :: "'d option klist option \<Rightarrow> key \<Rightarrow> 'd option" where
  "a_Klist_get_data Klist key =
     (case Klist of
        None \<Rightarrow> None
      | Some k \<Rightarrow>
          (case dList_find_sorted (Some (kl_List k)) key Klist_node_by_key_cmp of
             None \<Rightarrow> None
           | Some aux \<Rightarrow> kn_Data aux))"

text \<open>
  The \<open>do\<close> loop that chooses the next key. It cannot end when every key is in use and the
  list is not clean: \<open>None\<close>.
\<close>

partial_function (option) next_key :: "'d option klist \<Rightarrow> 'd option klist option" where
  "next_key k =
     (let c = kl_Counter k + 1;
          k1 = (if c = 0 then k\<lparr>kl_Counter := 1, kl_Clean := False\<rparr> else k\<lparr>kl_Counter := c\<rparr>)
      in if \<not> kl_Clean k1 \<and> a_Klist_get_data (Some k1) (kl_Counter k1) \<noteq> None
         then next_key k1 else Some k1)"

definition a_Klist_insert ::
    "'d option klist option \<Rightarrow> 'd option \<Rightarrow> ('d option klist \<times> key) option" where
  "a_Klist_insert Klist data =
     (let k0 = (case Klist of
                  Some k \<Rightarrow> k
                | None \<Rightarrow> \<lparr>kl_List = \<lparr>dl_sz = 32, dl_list = []\<rparr>, kl_Clean = True, kl_Counter = 0\<rparr>)
      in map_option
           (\<lambda>k1. (k1\<lparr>kl_List := dList_insert_sorted (kl_List k1)
                      \<lparr>kn_Key = kl_Counter k1, kn_Data = data\<rparr> Klist_node_by_node_cmp\<rparr>,
                   kl_Counter k1))
           (next_key k0))"

definition a_Klist_remove :: "'d option klist \<Rightarrow> key \<Rightarrow> 'd option klist" where
  "a_Klist_remove k key =
     (let k1 = (case dList_find_sorted (Some (kl_List k)) key Klist_node_by_key_cmp of
                  Some node \<Rightarrow> k\<lparr>kl_List := dList_remove (kl_List k) node\<rparr>
                | None \<Rightarrow> k)
      in if dList_length (Some (kl_List k1)) = 0 then k1\<lparr>kl_Clean := True\<rparr> else k1)"

definition a_Klist_length :: "'d option klist \<Rightarrow> nat" where
  "a_Klist_length k = dList_length (Some (kl_List k))"

text \<open>The loop takes the first node out until the list is empty; what is left is no list.\<close>

function klist_free_loop :: "'d klist_node dlist \<Rightarrow> 'd klist_node dlist" where
  "klist_free_loop l =
     (if 0 < dList_length (Some l) then
        (case dList_nth_data (Some l) 0 of
           Some node \<Rightarrow> klist_free_loop (dList_remove_fast l node)
         | None \<Rightarrow> l)
      else l)"
  by pat_completeness auto
termination
  by (relation "measure (\<lambda>l. length (dl_list l))")
    (auto simp: dList_length_def dList_nth_data_def length_remove_fast split: if_splits)

declare klist_free_loop.simps [simp del]

definition a_Klist_free :: "'d option klist option \<Rightarrow> 'd option klist option" where
  "a_Klist_free Klist =
     (case Klist of
        None \<Rightarrow> None
      | Some k \<Rightarrow> (let l = klist_free_loop (kl_List k) in if dl_list l = [] then None else Klist))"

section \<open>Keys in use\<close>

text \<open>
  The nodes a list holds before the counter wraps: keys between 1 and the largest positive
  \<open>int\<close>. Within that range the subtraction of the comparison functions does not overflow.
\<close>

definition key_ok :: "key \<Rightarrow> bool" where
  "key_ok key \<longleftrightarrow> 0 < sint key"

lemma sint_diff_pos:
  fixes a b :: key
  assumes "0 < sint a" "0 < sint b"
  shows "sint (a - b) = sint a - sint b"
proof -
  have "sint a < 2 ^ 31" "sint b < 2 ^ 31" using sint_lt [of a] sint_lt [of b] by simp_all
  with assms have "- (2 ^ 31) \<le> sint a - sint b" "sint a - sint b < 2 ^ 31" by simp_all
  then show ?thesis by (simp add: signed_take_bit_int_eq_self sint_word_ariths)
qed

interpretation knode: dsearch "\<lambda>n. key_ok (kn_Key n)" Klist_node_by_node_cmp key_ok Klist_node_by_key_cmp
  by unfold_locales
    (auto simp: key_ok_def Klist_node_by_node_cmp_def Klist_node_by_key_cmp_def sint_diff_pos)

section \<open>The interface\<close>

text \<open>
  A store of data under keys of its own choice: an insertion returns a key nothing was stored
  under, and the operations change what is stored under that key only.
\<close>

locale key_store =
  fixes inv :: "'s \<Rightarrow> bool" and room :: "'s \<Rightarrow> bool" and dataok :: "'s \<Rightarrow> 'd option \<Rightarrow> bool"
    and keyok :: "'key \<Rightarrow> bool"
    and lookup :: "'s \<Rightarrow> 'key \<Rightarrow> 'd option"
    and insert :: "'s \<Rightarrow> 'd option \<Rightarrow> ('s \<times> 'key) option" and remove :: "'s \<Rightarrow> 'key \<Rightarrow> 's"
  assumes insert: "inv s \<Longrightarrow> room s \<Longrightarrow> dataok s d \<Longrightarrow> \<exists>s' key. insert s d = Some (s', key) \<and> inv s' \<and> keyok key
      \<and> lookup s key = None \<and> (\<forall>k. keyok k \<longrightarrow> lookup s' k = (if k = key then d else lookup s k))"
    and remove: "inv s \<Longrightarrow> keyok key \<Longrightarrow> inv (remove s key)
      \<and> (\<forall>k. keyok k \<longrightarrow> lookup (remove s key) k = (if k = key then None else lookup s k))"
begin

lemma insert_returns:
  assumes "inv s" "room s" "dataok s d"
  shows "\<exists>s' key. insert s d = Some (s', key)"
  using insert [OF assms] by blast

lemma insert_laws:
  assumes "inv s" "room s" "dataok s d" "insert s d = Some (s', key)"
  shows "inv s'" "keyok key" "lookup s key = None" "lookup s' key = d"
    "keyok k \<Longrightarrow> k \<noteq> key \<Longrightarrow> lookup s' k = lookup s k"
  using insert [OF assms(1-3)] assms(4) by auto

text \<open>Removing what was just inserted gives back the old contents.\<close>

lemma insert_remove:
  assumes "inv s" "room s" "dataok s d" "insert s d = Some (s', key)" "keyok k"
  shows "lookup (remove s' key) k = lookup s k"
  using insert_laws [OF assms(1-4)] remove [of s' key] assms(5) by auto

text \<open>A second insertion gets another key as long as the first one holds data.\<close>

lemma insert_fresh:
  assumes "inv s" "room s" "dataok s (Some d)" "insert s (Some d) = Some (s', key)"
    "room s'" "dataok s' d2" "insert s' d2 = Some (s'', key2)"
  shows "key2 \<noteq> key \<and> lookup s'' key = Some d"
proof -
  note a = insert_laws [OF assms(1-4)]
  note b = insert_laws [OF a(1) assms(5-7)]
  from a(4) b(3) have "key2 \<noteq> key" by auto
  moreover from this have "lookup s'' key = Some d" using b(5) [OF a(2)] a(4) by auto
  ultimately show ?thesis by blast
qed

end

section \<open>The key list implements it\<close>

text \<open>
  The counter is ahead of every key in use until it wraps. Afterwards \<open>Clean\<close> is unset and the keys that
  were kept from the first round are met again; \<open>- 1\<close> is the last value before the round ends. The loop
  that skips the keys in use sees those with data only, so in the second round no node holds the null pointer.
\<close>

definition kl_ahead :: "'d option klist \<Rightarrow> bool" where
  "kl_ahead k \<longleftrightarrow> kl_Clean k \<and> 0 \<le> sint (kl_Counter k)"

definition klist_inv :: "'d option klist \<Rightarrow> bool" where
  "klist_inv k \<longleftrightarrow> cmp_sorted Klist_node_by_node_cmp (dl_list (kl_List k))
     \<and> (\<forall>n \<in> set (dl_list (kl_List k)). key_ok (kn_Key n)
          \<and> (if kl_ahead k then sint (kn_Key n) \<le> sint (kl_Counter k) else kn_Data n \<noteq> None))
     \<and> distinct (map kn_Key (dl_list (kl_List k)))
     \<and> - 1 \<le> sint (kl_Counter k)"

text \<open>A key is left between the counter and the largest \<open>int\<close>, whichever keys are in use.\<close>

definition klist_room :: "'d option klist \<Rightarrow> bool" where
  "klist_room k \<longleftrightarrow>
     max 0 (sint (kl_Counter k)) + (if kl_ahead k then 0 else int (length (dl_list (kl_List k)))) < 2 ^ 31 - 1"

text \<open>The null pointer is not stored once the counter has wrapped.\<close>

definition klist_data_ok :: "'d option klist \<Rightarrow> 'd option \<Rightarrow> bool" where
  "klist_data_ok k d \<longleftrightarrow> kl_ahead k \<or> d \<noteq> None"

definition kl_assoc :: "'d option klist \<Rightarrow> (key \<times> 'd option) list" where
  "kl_assoc k = map (\<lambda>n. (kn_Key n, kn_Data n)) (dl_list (kl_List k))"

lemma kl_assoc_keys: "map fst (kl_assoc k) = map kn_Key (dl_list (kl_List k))"
  by (simp add: kl_assoc_def comp_def)

lemma by_key_cmp_0: "Klist_node_by_key_cmp n key = 0 \<longleftrightarrow> kn_Key n = key"
proof -
  have "sint (kn_Key n - key) = 0 \<longleftrightarrow> kn_Key n - key = 0"
    by (metis signed_0 signed_word_eqI)
  then show ?thesis by (simp add: Klist_node_by_key_cmp_def)
qed

lemma find_node:
  assumes "klist_inv k" "key_ok key"
  shows "case dList_find_sorted (Some (kl_List k)) key Klist_node_by_key_cmp of
      None \<Rightarrow> key \<notin> kn_Key ` set (dl_list (kl_List k))
    | Some n \<Rightarrow> n \<in> set (dl_list (kl_List k)) \<and> kn_Key n = key"
proof -
  have "cmp_sorted Klist_node_by_node_cmp (dl_list (kl_List k))"
    "\<forall>n \<in> set (dl_list (kl_List k)). key_ok (kn_Key n)"
    using assms(1) by (auto simp: klist_inv_def)
  from knode.find_sorted_correct [OF this assms(2)] show ?thesis
    by (auto simp: by_key_cmp_0 split: option.splits)
qed

lemma get_data_assoc:
  assumes "klist_inv k" "key_ok key"
  shows "a_Klist_get_data (Some k) key = Option.bind (map_of (kl_assoc k) key) (\<lambda>d. d)"
proof (cases "dList_find_sorted (Some (kl_List k)) key Klist_node_by_key_cmp")
  case None
  with find_node [OF assms] have "key \<notin> fst ` set (kl_assoc k)"
    by (auto simp: kl_assoc_def)
  then have "map_of (kl_assoc k) key = None" by (simp add: map_of_eq_None_iff)
  with None show ?thesis by (simp add: a_Klist_get_data_def)
next
  case (Some n)
  with find_node [OF assms] have "(key, kn_Data n) \<in> set (kl_assoc k)"
    by (auto simp: kl_assoc_def)
  moreover have "distinct (map fst (kl_assoc k))"
    using assms(1) by (simp add: kl_assoc_keys klist_inv_def)
  ultimately have "map_of (kl_assoc k) key = Some (kn_Data n)" by simp
  with Some show ?thesis by (simp add: a_Klist_get_data_def)
qed

lemma map_of_mset_eq:
  assumes "mset xs = mset ys" "distinct (map fst xs)"
  shows "map_of xs = map_of ys"
proof -
  have "distinct (map fst ys)" using assms by (metis mset_eq_imp_distinct_iff mset_map)
  moreover have "set xs = set ys" using assms(1) by (metis set_mset_mset)
  ultimately show ?thesis using assms(2) by (metis map_of_eqI map_of_eq_Some_iff map_of_inject_set)
qed

lemma map_of_remove1:
  "distinct (map f xs) \<Longrightarrow> x \<in> set xs \<Longrightarrow>
   map_of (map (\<lambda>y. (f y, g y)) (remove1 x xs)) = (map_of (map (\<lambda>y. (f y, g y)) xs))(f x := None)"
proof (induction xs)
  case (Cons y ys)
  show ?case
  proof (cases "y = x")
    case True
    with Cons.prems(1) have "f x \<notin> fst ` set (map (\<lambda>y. (f y, g y)) ys)" by (auto simp: image_image)
    then have "map_of (map (\<lambda>y. (f y, g y)) ys) (f x) = None" by (simp add: map_of_eq_None_iff)
    with True show ?thesis by (auto simp: fun_eq_iff)
  next
    case False
    with Cons have ih: "map_of (map (\<lambda>y. (f y, g y)) (remove1 x ys)) =
        (map_of (map (\<lambda>y. (f y, g y)) ys))(f x := None)" by (auto simp: fun_eq_iff)
    have "f y \<noteq> f x" using Cons.prems False by (metis image_eqI distinct.simps(2) list.map(2) set_ConsD set_map)
    with ih False show ?thesis by (auto simp: fun_eq_iff)
  qed
qed simp

lemma sint_plus_one:
  fixes c :: key
  assumes "0 \<le> sint c" "sint c < 2 ^ 31 - 1"
  shows "sint (c + 1) = sint c + 1" "c + 1 \<noteq> 0"
proof -
  have "sint (c + 1) = signed_take_bit 31 (sint c + sint (1 :: key))"
    by (simp add: sint_word_ariths)
  also have "\<dots> = sint c + 1" using assms by (simp add: signed_take_bit_int_eq_self)
  finally show *: "sint (c + 1) = sint c + 1" .
  show "c + 1 \<noteq> 0"
  proof
    assume "c + 1 = 0"
    then have "sint (c + 1) = 0" by simp
    with * assms(1) show False by simp
  qed
qed

text \<open>Only the sorted nodes matter to a lookup.\<close>

lemma get_data_in_use:
  assumes "klist_inv k" "\<not> kl_ahead k" "key_ok key" "kl_List k1 = kl_List k"
  shows "a_Klist_get_data (Some k1) key = None \<longleftrightarrow> key \<notin> kn_Key ` set (dl_list (kl_List k))"
  using find_node [OF assms(1,3)] assms(1,2,4)
  by (force simp: a_Klist_get_data_def klist_inv_def split: option.splits)

text \<open>
  The loop that chooses a key: what it skips are keys in use above the counter, so it ends after at most
  as many rounds as there are of them, with a key that is not in use.
\<close>

lemma next_key_loop:
  assumes "klist_inv k" "\<not> kl_Clean k" "0 \<le> sint (kl_Counter k)"
    "sint (kl_Counter k) + int (length (filter (\<lambda>n. sint (kl_Counter k) < sint (kn_Key n)) (dl_list (kl_List k))))
       < 2 ^ 31 - 1"
  shows "\<exists>c. next_key k = Some (k\<lparr>kl_Counter := c\<rparr>) \<and> 0 < sint c \<and> c \<notin> kn_Key ` set (dl_list (kl_List k))"
  using assms
proof (induction "length (filter (\<lambda>n. sint (kl_Counter k) < sint (kn_Key n)) (dl_list (kl_List k)))"
    arbitrary: k rule: less_induct)
  case less
  let ?c = "kl_Counter k + 1" and ?ns = "dl_list (kl_List k)"
  let ?k = "k\<lparr>kl_Counter := ?c\<rparr>"
  let ?above = "\<lambda>c. filter (\<lambda>n. sint c < sint (kn_Key n)) ?ns"
  have c: "sint ?c = sint (kl_Counter k) + 1" "?c \<noteq> 0"
    using sint_plus_one [of "kl_Counter k"] less.prems by linarith+
  have g: "a_Klist_get_data (Some ?k) ?c = None \<longleftrightarrow> ?c \<notin> kn_Key ` set ?ns"
    using get_data_in_use [OF less.prems(1), of ?c ?k] less.prems(2,3) c(1) by (simp add: kl_ahead_def key_ok_def)
  show ?case
  proof (cases "?c \<in> kn_Key ` set ?ns")
    case False
    then have "next_key k = Some ?k" using g c(2) by (simp add: next_key.simps [of k] Let_def)
    with False c(1) less.prems(3) show ?thesis by (intro exI [of _ ?c]) simp
  next
    case True
    then obtain n where n: "n \<in> set ?ns" "kn_Key n = ?c" by (metis imageE)
    have nk: "next_key k = next_key ?k"
      using True g c(2) less.prems(2) by (subst next_key.simps [of k]) (simp add: Let_def)
    have "?above ?c = filter (\<lambda>n. sint ?c < sint (kn_Key n)) (?above (kl_Counter k))"
      using c(1) by (auto intro: filter_cong)
    moreover have "n \<in> set (?above (kl_Counter k))" "\<not> sint ?c < sint (kn_Key n)" using n c(1) by simp_all
    ultimately have m: "length (?above ?c) < length (?above (kl_Counter k))"
      by (metis length_filter_less)
    have "klist_inv ?k"
      using less.prems(1-3) c(1) by (simp add: klist_inv_def kl_ahead_def)
    then obtain c where "next_key ?k = Some (?k\<lparr>kl_Counter := c\<rparr>)" "0 < sint c" "c \<notin> kn_Key ` set ?ns"
      using less.hyps [of ?k] m less.prems(2-4) c(1) by auto
    with nk show ?thesis by (intro exI [of _ c]) simp
  qed
qed

lemma next_key_wrap:
  "next_key \<lparr>kl_List = l, kl_Clean = b, kl_Counter = - 1\<rparr> = next_key \<lparr>kl_List = l, kl_Clean = False, kl_Counter = 0\<rparr>"
  by (simp add: next_key.simps [of "\<lparr>kl_List = l, kl_Clean = b, kl_Counter = - 1\<rparr>"]
      next_key.simps [of "\<lparr>kl_List = l, kl_Clean = False, kl_Counter = 0\<rparr>"] Let_def)

lemma next_key_fresh:
  assumes "klist_inv k" "klist_room k"
  shows "\<exists>k1. next_key k = Some k1 \<and> kl_List k1 = kl_List k \<and> key_ok (kl_Counter k1) \<and> klist_inv k1
    \<and> kl_ahead k1 = kl_ahead k \<and> kl_Counter k1 \<notin> kn_Key ` set (dl_list (kl_List k))"
proof (cases "kl_ahead k")
  case True
  let ?c = "kl_Counter k + 1"
  have c: "sint ?c = sint (kl_Counter k) + 1" "?c \<noteq> 0"
    using sint_plus_one assms True by (auto simp: klist_room_def kl_ahead_def)
  have "next_key k = Some (k\<lparr>kl_Counter := ?c\<rparr>)"
    using c(2) True by (simp add: next_key.simps [of k] kl_ahead_def Let_def)
  moreover have "?c \<notin> kn_Key ` set (dl_list (kl_List k))" using assms(1) True c(1) by (fastforce simp: klist_inv_def)
  ultimately show ?thesis
    using assms(1) True c(1) by (fastforce simp: klist_inv_def kl_ahead_def key_ok_def)
next
  case False
  define k0 where "k0 = (if kl_Counter k = - 1 then k\<lparr>kl_Counter := 0, kl_Clean := False\<rparr> else k)"
  have m1: "sint (kl_Counter k) = - 1 \<longleftrightarrow> kl_Counter k = - 1"
    by (metis signed_minus_1 signed_word_eqI)
  have c: "\<not> kl_Clean k0" "0 \<le> sint (kl_Counter k0)" "sint (kl_Counter k0) = max 0 (sint (kl_Counter k))"
    "kl_List k0 = kl_List k"
    using False assms(1) m1 by (auto simp: k0_def kl_ahead_def klist_inv_def)
  have inv: "klist_inv k0" using False assms(1) c by (auto simp: klist_inv_def kl_ahead_def)
  have nk: "next_key k = next_key k0"
    using next_key_wrap [of "kl_List k" "kl_Clean k"] by (cases k) (simp add: k0_def)
  have "length (filter (\<lambda>n. sint (kl_Counter k0) < sint (kn_Key n)) (dl_list (kl_List k0)))
      \<le> length (dl_list (kl_List k))"
    using c(4) by simp
  then have "sint (kl_Counter k0)
      + int (length (filter (\<lambda>n. sint (kl_Counter k0) < sint (kn_Key n)) (dl_list (kl_List k0)))) < 2 ^ 31 - 1"
    using assms(2) False c(3) by (simp add: klist_room_def)
  from next_key_loop [OF inv c(1,2) this] obtain x where
    x: "next_key k0 = Some (k0\<lparr>kl_Counter := x\<rparr>)" "0 < sint x" "x \<notin> kn_Key ` set (dl_list (kl_List k))"
    using c(4) by auto
  moreover have "klist_inv (k0\<lparr>kl_Counter := x\<rparr>)"
    using inv c(1) x(2) by (simp add: klist_inv_def kl_ahead_def)
  ultimately show ?thesis using nk c(1,4) False by (auto simp: key_ok_def kl_ahead_def)
qed

lemma a_Klist_insert_laws:
  assumes inv: "klist_inv k" and room: "klist_room k" and data: "klist_data_ok k d"
  shows "\<exists>k' key. a_Klist_insert (Some k) d = Some (k', key) \<and> klist_inv k' \<and> key_ok key
     \<and> key \<notin> fst ` set (kl_assoc k) \<and> map_of (kl_assoc k') = (map_of (kl_assoc k))(key \<mapsto> d)"
proof -
  let ?cmp = Klist_node_by_node_cmp
  obtain k1 where k1: "next_key k = Some k1" "kl_List k1 = kl_List k" "key_ok (kl_Counter k1)" "klist_inv k1"
    "kl_ahead k1 = kl_ahead k" "kl_Counter k1 \<notin> kn_Key ` set (dl_list (kl_List k))"
    using next_key_fresh [OF inv room] by blast
  let ?c = "kl_Counter k1"
  let ?n = "\<lparr>kn_Key = ?c, kn_Data = d\<rparr>"
  define k' where "k' = k1\<lparr>kl_List := dList_insert_sorted (kl_List k1) ?n ?cmp\<rparr>"
  have ins: "a_Klist_insert (Some k) d = Some (k', ?c)"
    by (simp add: a_Klist_insert_def k1(1) k'_def)
  have srt: "cmp_sorted ?cmp (dl_list (kl_List k))" "\<forall>n \<in> set (dl_list (kl_List k)). key_ok (kn_Key n)"
    using inv by (auto simp: klist_inv_def)
  have okn: "key_ok (kn_Key ?n)" using k1(3) by simp
  note i = knode.insert_sorted_correct [OF srt okn]
  have m: "mset (dl_list (kl_List k')) = add_mset ?n (mset (dl_list (kl_List k)))"
    using i by (simp add: k'_def k1(2))
  have st: "set (dl_list (kl_List k')) = insert ?n (set (dl_list (kl_List k)))"
    using m by (metis set_mset_add_mset_insert set_mset_mset)
  have mk: "mset (map kn_Key (dl_list (kl_List k'))) = mset (map kn_Key (?n # dl_list (kl_List k)))"
    using m by (metis mset.simps(2) mset_map)
  have d: "distinct (map kn_Key (?n # dl_list (kl_List k)))"
    using k1(6) inv by (simp add: klist_inv_def)
  have dk: "distinct (map kn_Key (dl_list (kl_List k')))"
    using mset_eq_imp_distinct_iff [OF mk] d by blast
  have a': "kl_ahead k' = kl_ahead k1" "kl_Counter k' = ?c" by (simp_all add: k'_def kl_ahead_def)
  have "\<forall>n \<in> set (dl_list (kl_List k')). key_ok (kn_Key n)
      \<and> (if kl_ahead k' then sint (kn_Key n) \<le> sint ?c else kn_Data n \<noteq> None)"
    using st k1(2-5) data unfolding a' by (auto simp: klist_inv_def klist_data_ok_def)
  with dk have "klist_inv k'"
    using i k1(2-4) by (simp add: klist_inv_def a') (simp add: k'_def)
  moreover have "map_of (kl_assoc k') = (map_of (kl_assoc k))(?c \<mapsto> d)"
  proof -
    let ?ps = "(?c, d) # kl_assoc k"
    have "mset (kl_assoc k') = mset ?ps"
      using m by (simp add: kl_assoc_def)
    moreover have "distinct (map fst (kl_assoc k'))"
      using dk by (simp add: kl_assoc_keys)
    ultimately have "map_of (kl_assoc k') = map_of ?ps" by (rule map_of_mset_eq)
    then show ?thesis by simp
  qed
  moreover have "?c \<notin> fst ` set (kl_assoc k)"
    using d by (force simp: kl_assoc_def)
  ultimately show ?thesis using ins k1(3) by blast
qed

text \<open>The search of a removal finds the only node with the key.\<close>

lemma a_Klist_remove_laws:
  assumes inv: "klist_inv k" and key: "key_ok key"
  shows "klist_inv (a_Klist_remove k key)
     \<and> map_of (kl_assoc (a_Klist_remove k key)) = (map_of (kl_assoc k))(key := None)
     \<and> kl_Counter (a_Klist_remove k key) = kl_Counter k"
proof (cases "dList_find_sorted (Some (kl_List k)) key Klist_node_by_key_cmp")
  case None
  with find_node [OF inv key] have "key \<notin> fst ` set (kl_assoc k)" by (auto simp: kl_assoc_def)
  then have "map_of (kl_assoc k) key = None" by (simp add: map_of_eq_None_iff)
  then have "(map_of (kl_assoc k))(key := None) = map_of (kl_assoc k)" by (simp add: fun_upd_idem)
  with None inv show ?thesis
    by (auto simp: a_Klist_remove_def klist_inv_def kl_assoc_def kl_ahead_def dList_length_def Let_def)
next
  case (Some n)
  with find_node [OF inv key] have n: "n \<in> set (dl_list (kl_List k))" "kn_Key n = key" by simp_all
  define l where "l = remove1 n (dl_list (kl_List k))"
  have dk: "distinct (map kn_Key (dl_list (kl_List k)))" using inv by (simp add: klist_inv_def)
  then have dl: "distinct (dl_list (kl_List k))" by (simp add: distinct_map)
  have sl: "set l = set (dl_list (kl_List k)) - {n}" using dl by (simp add: l_def)
  have dkl: "distinct (map kn_Key l)"
    using dk dl sl by (auto simp: l_def distinct_map inj_on_def)
  have r: "dl_list (kl_List (a_Klist_remove k key)) = l"
    "kl_Counter (a_Klist_remove k key) = kl_Counter k"
    "l = [] \<or> kl_ahead (a_Klist_remove k key) = kl_ahead k"
    using Some by (auto simp: a_Klist_remove_def Let_def l_def kl_ahead_def dList_length_def)
  have "klist_inv (a_Klist_remove k key)"
    using inv sl dkl r cmp_sorted_remove1 [of _ "dl_list (kl_List k)" n] by (auto simp: klist_inv_def l_def)
  moreover have "map_of (kl_assoc (a_Klist_remove k key)) = (map_of (kl_assoc k))(key := None)"
    using map_of_remove1 [OF dk n(1), of kn_Data] by (simp add: kl_assoc_def r(1) l_def n(2))
  ultimately show ?thesis using r by blast
qed

interpretation klist: key_store klist_inv klist_room klist_data_ok key_ok "\<lambda>k. a_Klist_get_data (Some k)"
  "\<lambda>k. a_Klist_insert (Some k)" a_Klist_remove
proof unfold_locales
  fix k :: "'a option klist" and d
  assume a: "klist_inv k" "klist_room k" "klist_data_ok k d"
  from a_Klist_insert_laws [OF a] obtain k' key where
    r: "a_Klist_insert (Some k) d = Some (k', key)" "klist_inv k'" "key_ok key"
    "key \<notin> fst ` set (kl_assoc k)" "map_of (kl_assoc k') = (map_of (kl_assoc k))(key \<mapsto> d)" by blast
  then have "map_of (kl_assoc k) key = None" by (simp add: map_of_eq_None_iff)
  with r a(1) show "\<exists>k' key. a_Klist_insert (Some k) d = Some (k', key) \<and> klist_inv k' \<and> key_ok key
      \<and> a_Klist_get_data (Some k) key = None
      \<and> (\<forall>x. key_ok x \<longrightarrow> a_Klist_get_data (Some k') x = (if x = key then d else a_Klist_get_data (Some k) x))"
    by (auto simp: get_data_assoc)
next
  fix k :: "'a option klist" and key
  assume a: "klist_inv k" "key_ok key"
  from a_Klist_remove_laws [OF a] a(1)
  show "klist_inv (a_Klist_remove k key) \<and> (\<forall>x. key_ok x \<longrightarrow>
      a_Klist_get_data (Some (a_Klist_remove k key)) x = (if x = key then None else a_Klist_get_data (Some k) x))"
    by (auto simp: get_data_assoc)
qed

section \<open>Properties\<close>

text \<open>
  C9: An insertion returns, after finitely many rounds of its loop, a positive key that is not in use: in the
  first round of the counter and, after it has wrapped, past the keys kept from the first round. The data is
  found under the key by the binary search, every other key keeps its data, and removing the key gives back the
  old contents. The conditions: the keys in use are positive and the counter is \<open>- 1\<close> or more, with keys left
  up to the largest \<open>int\<close> (what lies in between is behind a signed overflow); once the counter has wrapped,
  the data stored is not the null pointer.
\<close>

theorem Klist_insert_lookup_remove:
  assumes "klist_inv k" "klist_room k" "klist_data_ok k d"
  shows "\<exists>k' key. a_Klist_insert (Some k) d = Some (k', key) \<and> klist_inv k' \<and> key_ok key
    \<and> key \<notin> kn_Key ` set (dl_list (kl_List k))
    \<and> a_Klist_get_data (Some k) key = None \<and> a_Klist_get_data (Some k') key = d
    \<and> (\<forall>x. key_ok x \<and> x \<noteq> key \<longrightarrow> a_Klist_get_data (Some k') x = a_Klist_get_data (Some k) x)
    \<and> (\<forall>x. key_ok x \<longrightarrow> a_Klist_get_data (Some (a_Klist_remove k' key)) x = a_Klist_get_data (Some k) x)"
proof -
  obtain k' key where i: "a_Klist_insert (Some k) d = Some (k', key)" "key \<notin> fst ` set (kl_assoc k)"
    using a_Klist_insert_laws [OF assms] by blast
  from i(2) have "key \<notin> kn_Key ` set (dl_list (kl_List k))" by (force simp: kl_assoc_def)
  with i(1) klist.insert_laws [OF assms i(1)] klist.insert_remove [OF assms i(1)] show ?thesis by blast
qed

text \<open>The counter wraps while the keys 1 and 2 are in use.\<close>

definition sample_wrapping :: "string option klist" where
  "sample_wrapping = \<lparr>kl_List = \<lparr>dl_sz = 4, dl_list = [\<lparr>kn_Key = 1, kn_Data = Some ''a''\<rparr>,
     \<lparr>kn_Key = 2, kn_Data = Some ''b''\<rparr>]\<rparr>, kl_Clean = True, kl_Counter = - 1\<rparr>"

lemma Klist_insert_lookup_remove_witness:
  "\<exists>k' key. a_Klist_insert (Some sample_wrapping) (Some ''x'') = Some (k', key) \<and> klist_inv k' \<and> key \<notin> {1, 2}
     \<and> a_Klist_get_data (Some k') key = Some ''x''"
proof -
  have "klist_inv sample_wrapping" "klist_room sample_wrapping" "klist_data_ok sample_wrapping (Some ''x'')"
    by (simp_all add: sample_wrapping_def klist_inv_def klist_room_def klist_data_ok_def kl_ahead_def key_ok_def
        cmp_sorted_def Klist_node_by_node_cmp_def sorted_wrt.simps)
  from Klist_insert_lookup_remove [OF this] show ?thesis by (auto simp: sample_wrapping_def)
qed

text \<open>
  Two insertions in a row return different keys, and the data of the first is still found.
\<close>

theorem Klist_keys_fresh:
  assumes "klist_inv k" "klist_room k" "klist_data_ok k (Some d)" "a_Klist_insert (Some k) (Some d) = Some (k1, key1)"
    "klist_room k1" "klist_data_ok k1 d2" "a_Klist_insert (Some k1) d2 = Some (k2, key2)"
  shows "key2 \<noteq> key1 \<and> a_Klist_get_data (Some k2) key1 = Some d"
  by (rule klist.insert_fresh [OF assms])

text \<open>The list that the first insertion makes satisfies the conditions.\<close>

lemma Klist_new_list:
  "a_Klist_insert None d = a_Klist_insert (Some \<lparr>kl_List = \<lparr>dl_sz = 32, dl_list = []\<rparr>, kl_Clean = True, kl_Counter = 0\<rparr>) d"
  "klist_inv \<lparr>kl_List = \<lparr>dl_sz = 32, dl_list = []\<rparr>, kl_Clean = True, kl_Counter = 0\<rparr>"
  "klist_room \<lparr>kl_List = \<lparr>dl_sz = 32, dl_list = []\<rparr>, kl_Clean = True, kl_Counter = 0\<rparr>"
  by (simp_all add: a_Klist_insert_def klist_inv_def klist_room_def kl_ahead_def cmp_sorted_def)

end
