(* ===== verification/Url_Parse.thy ===== *)
theory Url_Parse
  imports Dlib_Dstr Dlib_List
begin

text \<open>
  The URL objects of \<^verbatim>\<open>dillo/src/url.c\<close>: parsing into the five components, the string and the
  host name built on demand, comparison, and the hexadecimal escapes. A component is \<open>None\<close>
  when its pointer is null. The components point into \<open>buffer\<close>, whose bytes the parser
  overwrites with terminators; here each component is the string that ends at its terminator,
  \<open>u_buffer\<close> the stripped text before those writes, and \<open>u_query_off\<close> the offset of \<open>query\<close> in
  it. A \<open>Dstr\<close> field is its content.
\<close>

unbundle bit_operations_syntax

section \<open>The object\<close>

record dillo_url =
  u_url_string :: "string option"
  u_buffer :: string
  u_scheme :: "string option"
  u_authority :: "string option"
  u_path :: "string option"
  u_query :: "string option"
  u_fragment :: "string option"
  u_hostname :: "string option"
  u_port :: int
  u_flags :: "32 word"
  u_data :: "string option"
  u_alt :: "string option"
  u_ismap_url_len :: nat
  u_illegal_chars :: nat
  u_illegal_chars_spc :: nat
  u_query_off :: nat

definition URL_Get :: "32 word" where "URL_Get = 1"
definition URL_Ismap :: "32 word" where "URL_Ismap = 8"

definition NPTR2STR :: "string option \<Rightarrow> string" where
  "NPTR2STR p = (case p of Some s \<Rightarrow> s | None \<Rightarrow> [])"

text \<open>\<open>dNew0(DilloUrl, 1)\<close>\<close>

definition url_zero :: dillo_url where
  "url_zero = \<lparr>u_url_string = None, u_buffer = [], u_scheme = None, u_authority = None,
     u_path = None, u_query = None, u_fragment = None, u_hostname = None, u_port = 0,
     u_flags = 0, u_data = None, u_alt = None, u_ismap_url_len = 0, u_illegal_chars = 0,
     u_illegal_chars_spc = 0, u_query_off = 0\<rparr>"

section \<open>The string and the host name\<close>

definition url_build :: "dillo_url \<Rightarrow> string" where
  "url_build u =
     (case u_scheme u of Some s \<Rightarrow> s @ '':'' | None \<Rightarrow> [])
   @ (case u_authority u of Some a \<Rightarrow> ''//'' @ a | None \<Rightarrow> [])
   @ (if u_authority u \<noteq> None \<and> (case u_path u of None \<Rightarrow> True | Some p \<Rightarrow> deref p \<noteq> CHR ''/'')
      then ''/'' else [])
   @ NPTR2STR (u_path u)
   @ (case u_query u of Some q \<Rightarrow> ''?'' @ q | None \<Rightarrow> [])
   @ (case u_fragment u of Some f \<Rightarrow> ''#'' @ f | None \<Rightarrow> [])"

text \<open>The string and the object, whose \<open>url_string\<close> the call initialises.\<close>

definition a_Url_str :: "dillo_url \<Rightarrow> string \<times> dillo_url" where
  "a_Url_str u =
     (case u_url_string u of
        Some s \<Rightarrow> (s, u)
      | None \<Rightarrow> (url_build u, u\<lparr>u_url_string := Some (url_build u)\<rparr>))"

definition a_Url_hostname :: "dillo_url \<Rightarrow> string option \<times> dillo_url" where
  "a_Url_hostname u =
     (case (u_hostname u, u_authority u) of
        (None, Some authority) \<Rightarrow>
          (let u' =
             (case (if deref authority = CHR ''['' then strchr authority CHR '']'' else None) of
                Some p \<Rightarrow>
                  (let u1 = u\<lparr>u_hostname :=
                              Some (take (length authority - length p - 1) (drop 1 authority))\<rparr>
                   in case strchr p CHR '':'' of
                        Some q \<Rightarrow> u1\<lparr>u_port := c_int (fst (strtol (tl q) 10))\<rparr>
                      | None \<Rightarrow> u1)
              | None \<Rightarrow>
                  (case strchr authority CHR '':'' of
                     Some p \<Rightarrow> u\<lparr>u_port := c_int (fst (strtol (tl p) 10)),
                                u_hostname := Some (take (length authority - length p) authority)\<rparr>
                   | None \<Rightarrow> u\<lparr>u_hostname := Some authority\<rparr>))
           in (u_hostname u', u'))
      | (h, _) \<Rightarrow> (h, u))"

definition URL_HOST :: "dillo_url \<Rightarrow> string" where
  "URL_HOST u = NPTR2STR (fst (a_Url_hostname u))"

definition URL_STR :: "dillo_url \<Rightarrow> string" where
  "URL_STR u = fst (a_Url_str u)"

section \<open>Parsing\<close>

text \<open>
  The tail of the parser, from \<open>s = strpbrk(s, "?#")\<close> on: \<open>s\<close> points to the separator, or to
  the end of the buffer.
\<close>

definition Url_parse_tail :: "dillo_url \<Rightarrow> string \<Rightarrow> dillo_url" where
  "Url_parse_tail url s =
     (let p = strpbrk s ''?#'';
          (url1, p1) =
            (case p of
               Some q \<Rightarrow>
                 if deref q = CHR ''?'' then
                   (let s1 = tl q; p' = strpbrk s1 ''#'';
                        query = (case p' of None \<Rightarrow> s1 | Some r \<Rightarrow> take (length s1 - length r) s1)
                    in (url\<lparr>u_query := Some query,
                            u_query_off := length (u_buffer url) - length s1,
                            u_flags := u_flags url OR URL_Get\<rparr>, p'))
                 else (url, p)
             | None \<Rightarrow> (url, p))
      in case p1 of
           Some q \<Rightarrow> if deref q = CHR ''#'' then url1\<lparr>u_fragment := Some (tl q)\<rparr> else url1
         | None \<Rightarrow> url1)"

definition Url_parse_path :: "dillo_url \<Rightarrow> string \<Rightarrow> dillo_url" where
  "Url_parse_path url s =
     (case strpbrk s ''?#'' of
        Some p \<Rightarrow>
          Url_parse_tail
            (if length p < length s then url\<lparr>u_path := Some (take (length s - length p) s)\<rparr> else url) p
      | None \<Rightarrow> if s \<noteq> [] then url\<lparr>u_path := Some s\<rparr> else Url_parse_tail url s)"

definition Url_parse_authority :: "dillo_url \<Rightarrow> string \<Rightarrow> string option \<Rightarrow> dillo_url" where
  "Url_parse_authority url s p =
     (case p of
        Some q \<Rightarrow>
          if length q = length s \<and> deref q = CHR ''/'' \<and> char_at q 1 = CHR ''/'' then
            (let s1 = drop 2 q in
             case strpbrk s1 ''/?#'' of
               Some r \<Rightarrow> Url_parse_path (url\<lparr>u_authority := Some (take (length s1 - length r) s1)\<rparr>) r
             | None \<Rightarrow> if s1 \<noteq> [] then url\<lparr>u_authority := Some s1\<rparr> else Url_parse_path url s1)
          else Url_parse_path url s
      | None \<Rightarrow> Url_parse_path url s)"

definition Url_object_new :: "string \<Rightarrow> dillo_url" where
  "Url_object_new uri_str =
     (let s = dStrstrip uri_str;
          url = url_zero\<lparr>u_buffer := s\<rparr>;
          p = strpbrk s '':/?#''
      in case p of
           Some q \<Rightarrow>
             if deref q = CHR '':'' \<and> length q < length s then
               Url_parse_authority (url\<lparr>u_scheme := Some (take (length s - length q) s)\<rparr>) (tl q) (Some (tl q))
             else Url_parse_authority url s p
         | None \<Rightarrow> Url_parse_authority url s p)"

definition a_Url_dup :: "dillo_url \<Rightarrow> dillo_url" where
  "a_Url_dup ori =
     (Url_object_new (URL_STR ori))
       \<lparr>u_url_string := Some (URL_STR ori), u_port := u_port ori, u_flags := u_flags ori,
        u_alt := dStrdup (u_alt ori), u_ismap_url_len := u_ismap_url_len ori,
        u_illegal_chars := u_illegal_chars ori, u_illegal_chars_spc := u_illegal_chars_spc ori,
        u_data := Some (NPTR2STR (u_data ori))\<rparr>"

definition a_Url_set_flags :: "dillo_url \<Rightarrow> 32 word \<Rightarrow> dillo_url" where
  "a_Url_set_flags u flags = u\<lparr>u_flags := flags\<rparr>"

definition a_Url_set_data :: "dillo_url \<Rightarrow> string option \<Rightarrow> dillo_url" where
  "a_Url_set_data u data = u\<lparr>u_data := data\<rparr>"

definition a_Url_set_alt :: "dillo_url \<Rightarrow> string option \<Rightarrow> dillo_url" where
  "a_Url_set_alt u alt = u\<lparr>u_alt := dStrdup alt\<rparr>"

text \<open>\<open>query\<close> is made to point into \<open>url_string\<close>, one past the base length.\<close>

definition a_Url_set_ismap_coords :: "dillo_url \<Rightarrow> string \<Rightarrow> dillo_url" where
  "a_Url_set_ismap_coords u coord_str =
     (let u1 = (if u_ismap_url_len u = 0 then
                  (let (s, v) = a_Url_str u
                   in a_Url_set_flags (v\<lparr>u_ismap_url_len := length s\<rparr>) (u_flags v OR URL_Ismap))
                else u)
      in case u_url_string u1 of
           Some s \<Rightarrow>
             (let s' = take (u_ismap_url_len u1) s @ coord_str
              in u1\<lparr>u_url_string := Some s', u_query := Some (drop (u_ismap_url_len u1 + 1) s')\<rparr>)
         | None \<Rightarrow> u1)"

section \<open>Comparison\<close>

definition URL_STR_FIELD_CMP :: "string option \<Rightarrow> string option \<Rightarrow> int" where
  "URL_STR_FIELD_CMP s1 s2 =
     (case (s1, s2) of (Some a, Some b) \<Rightarrow> strcmp a b | (None, None) \<Rightarrow> 0 | (Some a, None) \<Rightarrow> 1
      | (None, Some b) \<Rightarrow> -1)"

definition URL_STR_FIELD_I_CMP :: "string option \<Rightarrow> string option \<Rightarrow> int" where
  "URL_STR_FIELD_I_CMP s1 s2 =
     (case (s1, s2) of (Some a, Some b) \<Rightarrow> dStrAsciiCasecmp a b | (None, None) \<Rightarrow> 0
      | (Some a, None) \<Rightarrow> 1 | (None, Some b) \<Rightarrow> -1)"

text \<open>\<open>A->path ? A->path + (*A->path == '/') : ""\<close>\<close>

definition cmp_path :: "string option \<Rightarrow> string" where
  "cmp_path path = (case path of None \<Rightarrow> [] | Some p \<Rightarrow> if deref p = CHR ''/'' then tl p else p)"

definition data_cmp :: "string option \<Rightarrow> string option \<Rightarrow> int" where
  "data_cmp d1 d2 = (case (d1, d2) of (Some a, Some b) \<Rightarrow> dStr_cmp a b | _ \<Rightarrow> 0)"

definition a_Url_cmp :: "dillo_url \<Rightarrow> dillo_url \<Rightarrow> int" where
  "a_Url_cmp A B =
     (let st = URL_STR_FIELD_I_CMP (u_authority A) (u_authority B) in if st \<noteq> 0 then st else
      let st = strcmp (cmp_path (u_path A)) (cmp_path (u_path B)) in if st \<noteq> 0 then st else
      let st = URL_STR_FIELD_CMP (u_query A) (u_query B) in if st \<noteq> 0 then st else
      let st = data_cmp (u_data A) (u_data B) in if st \<noteq> 0 then st else
      URL_STR_FIELD_I_CMP (u_scheme A) (u_scheme B))"

section \<open>Escapes\<close>

definition Url_decode_hex_octet :: "string \<Rightarrow> int" where
  "Url_decode_hex_octet s =
     (if char_at s 0 \<noteq> NUL \<and> char_at s 1 \<noteq> NUL then
        (let (hex_value, tail) = strtol [char_at s 0, char_at s 1] 16
         in if tail = [] then hex_value else -1)
      else -1)"

fun decode_hex_loop :: "string \<Rightarrow> string" where
  "decode_hex_loop [] = []"
| "decode_hex_loop (c # str) =
     (let val = Url_decode_hex_octet str in
      if c = CHR ''%'' \<and> 0 \<le> val then char_of (nat (val mod 256)) # decode_hex_loop (drop 2 str)
      else c # decode_hex_loop str)"

definition a_Url_decode_hex_str :: "string option \<Rightarrow> string option" where
  "a_Url_decode_hex_str str =
     (case str of
        None \<Rightarrow> None
      | Some s \<Rightarrow> if strchr s CHR ''%'' = None then dStrdup (Some s) else Some (decode_hex_loop s))"

definition encode_hex_char :: "char \<Rightarrow> string" where
  "encode_hex_char c =
     (if (isalnum c \<and> isascii c) \<or> strchr ''-_.*'' c \<noteq> None then [c]
      else if c = CHR '' '' then ''+''
      else if c = CHR 0x0A then ''%0D%0A''
      else [CHR ''%'', hex_digit (hi_nibble c), hex_digit (lo_nibble c)])"

definition a_Url_encode_hex_str :: "string option \<Rightarrow> string option" where
  "a_Url_encode_hex_str str = map_option (\<lambda>s. concat (map encode_hex_char s)) str"

definition legal_url_char :: "char \<Rightarrow> bool" where
  "legal_url_char c \<longleftrightarrow> 31 < schar c \<and> schar c < 127 \<and> c \<noteq> CHR '' ''"

definition a_Url_string_strip_delimiters :: "string option \<Rightarrow> string option" where
  "a_Url_string_strip_delimiters str =
     (case str of
        None \<Rightarrow> None
      | Some new_str \<Rightarrow>
          (let t1 = (if strncmp new_str ''URL:'' 4 = 0 then drop 4 new_str else new_str);
               t2 = (if deref t1 = CHR ''<'' then tl t1 else t1);
               p = filter legal_url_char t2
           in Some (if p \<noteq> [] \<and> last p = CHR ''>'' then butlast p else p)))"


section \<open>The grammar of RFC 3986\<close>

text \<open>
  The reference parser: the regular expression quoted at the top of the source file,
  \<open>^(([^:/?#]+):)?(//([^/?#]*))?([^?#]*)(\?([^#]*))?(#(.*))?\<close>, one step per group. The greedy
  groups are determined: each stops at the first character it excludes.
\<close>

definition rfc_scheme :: "string \<Rightarrow> string option \<times> string" where
  "rfc_scheme s =
     (let a = takeWhile (\<lambda>c. c \<notin> set '':/?#'') s; r = dropWhile (\<lambda>c. c \<notin> set '':/?#'') s
      in if a \<noteq> [] \<and> r \<noteq> [] \<and> hd r = CHR '':'' then (Some a, tl r) else (None, s))"

definition rfc_authority :: "string \<Rightarrow> string option \<times> string" where
  "rfc_authority s =
     (if starts_with ''//'' s
      then (Some (takeWhile (\<lambda>c. c \<notin> set ''/?#'') (drop 2 s)), dropWhile (\<lambda>c. c \<notin> set ''/?#'') (drop 2 s))
      else (None, s))"

definition rfc_path :: "string \<Rightarrow> string \<times> string" where
  "rfc_path s = (takeWhile (\<lambda>c. c \<notin> set ''?#'') s, dropWhile (\<lambda>c. c \<notin> set ''?#'') s)"

definition rfc_query :: "string \<Rightarrow> string option \<times> string" where
  "rfc_query s =
     (if starts_with ''?'' s then (Some (takeWhile (\<lambda>c. c \<noteq> CHR ''#'') (tl s)), dropWhile (\<lambda>c. c \<noteq> CHR ''#'') (tl s))
      else (None, s))"

definition rfc_fragment :: "string \<Rightarrow> string option" where
  "rfc_fragment s = (if starts_with ''#'' s then Some (tl s) else None)"

definition rfc_parse ::
    "string \<Rightarrow> string option \<times> string option \<times> string \<times> string option \<times> string option" where
  "rfc_parse s =
     (let (scheme, s1) = rfc_scheme s; (authority, s2) = rfc_authority s1; (path, s3) = rfc_path s2;
          (query, s4) = rfc_query s3
      in (scheme, authority, path, query, rfc_fragment s4))"

lemma strpbrk_cases:
  obtains "strpbrk s acc = None" "dropWhile (\<lambda>x. x \<notin> set acc) s = []" "takeWhile (\<lambda>x. x \<notin> set acc) s = s"
  | q where "strpbrk s acc = Some q" "dropWhile (\<lambda>x. x \<notin> set acc) s = q" "q \<noteq> []"
      "take (length s - length q) s = takeWhile (\<lambda>x. x \<notin> set acc) s"
      "length q < length s \<longleftrightarrow> takeWhile (\<lambda>x. x \<notin> set acc) s \<noteq> []" "hd q \<in> set acc"
proof (cases "dropWhile (\<lambda>x. x \<notin> set acc) s")
  case Nil
  then have "takeWhile (\<lambda>x. x \<notin> set acc) s = s"
    by (metis append.right_neutral takeWhile_dropWhile_id)
  with Nil that(1) show ?thesis by (simp add: strpbrk_def)
next
  case (Cons x t)
  have sp: "s = takeWhile (\<lambda>x. x \<notin> set acc) s @ x # t"
    by (metis Cons takeWhile_dropWhile_id)
  have len: "length s = length (takeWhile (\<lambda>x. x \<notin> set acc) s) + length (x # t)"
    using sp by (metis length_append)
  have "x \<in> set acc" using hd_dropWhile [of "\<lambda>x. x \<notin> set acc" s] Cons by auto
  moreover have "take (length s - length (x # t)) s = takeWhile (\<lambda>x. x \<notin> set acc) s"
    using len by (simp add: takeWhile_eq_take [symmetric])
  moreover have "length (x # t) < length s \<longleftrightarrow> takeWhile (\<lambda>x. x \<notin> set acc) s \<noteq> []"
    using len by (cases "takeWhile (\<lambda>x. x \<notin> set acc) s") auto
  ultimately show ?thesis using Cons that(2) [of "x # t"] by (simp add: strpbrk_def)
qed

lemma strpbrk_here: "s \<noteq> [] \<Longrightarrow> hd s \<in> set acc \<Longrightarrow> strpbrk s acc = Some s"
  by (cases s) (simp_all add: strpbrk_def)


text \<open>What parsing the components after the authority does to the fields.\<close>

definition parsed_tail :: "dillo_url \<Rightarrow> dillo_url \<Rightarrow> string option \<Rightarrow> string \<Rightarrow> bool" where
  "parsed_tail url u path s \<longleftrightarrow>
     u_query u = fst (rfc_query s) \<and> u_fragment u = rfc_fragment (snd (rfc_query s))
     \<and> u_path u = path \<and> u_scheme u = u_scheme url \<and> u_authority u = u_authority url
     \<and> u_buffer u = u_buffer url \<and> u_url_string u = u_url_string url
     \<and> (u_query u \<noteq> None \<longrightarrow> u_query_off u = length (u_buffer url) - length s + 1)"

lemma parsed_tail_cong:
  "parsed_tail url' u path s \<Longrightarrow> u_scheme url' = u_scheme url \<Longrightarrow> u_authority url' = u_authority url
     \<Longrightarrow> u_buffer url' = u_buffer url \<Longrightarrow> u_url_string url' = u_url_string url
     \<Longrightarrow> parsed_tail url u path s"
  by (simp add: parsed_tail_def)

lemma strpbrk_hash:
  "strpbrk s ''#'' = (if dropWhile (\<lambda>c. c \<noteq> CHR ''#'') s = [] then None
     else Some (dropWhile (\<lambda>c. c \<noteq> CHR ''#'') s))"
  by (cases "dropWhile (\<lambda>c. c \<noteq> CHR ''#'') s") (simp_all add: strpbrk_def del: dropWhile_eq_Nil_conv)

lemma take_before: "take (length s - length (dropWhile P s)) s = takeWhile P s"
  by (metis append_eq_conv_conj length_append add_diff_cancel_right' takeWhile_dropWhile_id)

lemma hd_hash: "dropWhile (\<lambda>c. c \<noteq> CHR ''#'') s = x # t \<Longrightarrow> x = CHR ''#''"
  using hd_dropWhile [of "\<lambda>c. c \<noteq> CHR ''#''" s] by auto

lemma Url_parse_tail_rfc:
  assumes "u_query url = None" "u_fragment url = None" "s = [] \<or> hd s \<in> set ''?#''"
    "length s \<le> length (u_buffer url)"
  shows "parsed_tail url (Url_parse_tail url s) (u_path url) s"
proof (cases s)
  case Nil
  with assms show ?thesis
    by (simp add: Url_parse_tail_def parsed_tail_def strpbrk_def rfc_query_def rfc_fragment_def)
next
  case (Cons c t)
  show ?thesis
  proof (cases "c = CHR ''?''")
    case True
    with Cons have p: "strpbrk s ''?#'' = Some s" by (simp add: strpbrk_here)
    show ?thesis
    proof (cases "dropWhile (\<lambda>c. c \<noteq> CHR ''#'') t")
      case Nil
      then have "takeWhile (\<lambda>c. c \<noteq> CHR ''#'') t = t" by (metis append.right_neutral takeWhile_dropWhile_id)
      with Nil have "Url_parse_tail url s = url\<lparr>u_query := Some t,
          u_query_off := length (u_buffer url) - length t, u_flags := u_flags url OR URL_Get\<rparr>"
        "rfc_query s = (Some t, [])"
        using True Cons p
        by (simp_all add: Url_parse_tail_def strpbrk_hash rfc_query_def del: dropWhile_eq_Nil_conv)
      then show ?thesis using assms Cons
        by (simp add: parsed_tail_def rfc_fragment_def Suc_diff_Suc Suc_le_eq)
    next
      case (Cons x r)
      from hd_hash [OF Cons] have x: "x = CHR ''#''" .
      have "take (length t - Suc (length r)) t = takeWhile (\<lambda>c. c \<noteq> CHR ''#'') t"
        using take_before [of t "\<lambda>c. c \<noteq> CHR ''#''"] Cons by simp
      with Cons have "Url_parse_tail url s = url\<lparr>u_query := Some (takeWhile (\<lambda>c. c \<noteq> CHR ''#'') t),
          u_query_off := length (u_buffer url) - length t, u_flags := u_flags url OR URL_Get,
          u_fragment := Some r\<rparr>"
        "rfc_query s = (Some (takeWhile (\<lambda>c. c \<noteq> CHR ''#'') t), x # r)"
        using True \<open>s = c # t\<close> p x
        by (simp_all add: Url_parse_tail_def strpbrk_hash rfc_query_def del: dropWhile_eq_Nil_conv)
      then show ?thesis using assms \<open>s = c # t\<close> x
        by (simp add: parsed_tail_def rfc_fragment_def Suc_diff_Suc Suc_le_eq)
    qed
  next
    case False
    with assms Cons have c: "c = CHR ''#''" by auto
    with Cons have p: "strpbrk s ''?#'' = Some s" by (simp add: strpbrk_here)
    with c Cons assms show ?thesis
      by (simp add: Url_parse_tail_def parsed_tail_def rfc_query_def rfc_fragment_def)
  qed
qed

definition nonempty :: "string \<Rightarrow> string option" where
  "nonempty s = (if s = [] then None else Some s)"

lemma Url_parse_path_rfc:
  assumes "u_query url = None" "u_fragment url = None" "u_path url = None"
    "length s \<le> length (u_buffer url)"
  shows "parsed_tail url (Url_parse_path url s) (nonempty (fst (rfc_path s))) (snd (rfc_path s))"
proof (rule strpbrk_cases [of s "''?#''"])
  assume c: "strpbrk s ''?#'' = None" "dropWhile (\<lambda>x. x \<notin> set ''?#'') s = []"
    "takeWhile (\<lambda>x. x \<notin> set ''?#'') s = s"
  show ?thesis
  proof (cases "s = []")
    case True
    with Url_parse_tail_rfc [OF assms(1,2), of s] assms(3) show ?thesis
      by (simp add: Url_parse_path_def strpbrk_def rfc_path_def nonempty_def)
  next
    case False
    then have "Url_parse_path url s = url\<lparr>u_path := Some s\<rparr>" "rfc_path s = (s, [])"
      unfolding Url_parse_path_def rfc_path_def c by simp_all
    with False assms show ?thesis
      by (simp add: nonempty_def parsed_tail_def rfc_query_def rfc_fragment_def)
  qed
next
  fix q
  assume c: "strpbrk s ''?#'' = Some q" "dropWhile (\<lambda>x. x \<notin> set ''?#'') s = q" "q \<noteq> []"
    "take (length s - length q) s = takeWhile (\<lambda>x. x \<notin> set ''?#'') s"
    "length q < length s \<longleftrightarrow> takeWhile (\<lambda>x. x \<notin> set ''?#'') s \<noteq> []" "hd q \<in> set ''?#''"
  have le: "length q \<le> length s" using c(2) length_dropWhile_le by blast
  define url' where "url' = (if length q < length s then url\<lparr>u_path := Some (take (length s - length q) s)\<rparr> else url)"
  have "parsed_tail url' (Url_parse_tail url' q) (u_path url') q"
    by (rule Url_parse_tail_rfc) (use assms c(6) le in \<open>auto simp: url'_def\<close>)
  moreover have "Url_parse_path url s = Url_parse_tail url' q"
    by (simp add: Url_parse_path_def c(1) url'_def)
  moreover have "u_path url' = nonempty (takeWhile (\<lambda>x. x \<notin> set ''?#'') s)"
    using c(4,5) assms(3) by (auto simp: url'_def nonempty_def)
  moreover have "rfc_path s = (takeWhile (\<lambda>x. x \<notin> set ''?#'') s, q)"
    by (simp only: rfc_path_def c(2))
  ultimately have "parsed_tail url' (Url_parse_path url s) (nonempty (fst (rfc_path s))) (snd (rfc_path s))"
    by simp
  then show ?thesis by (rule parsed_tail_cong) (simp_all add: url'_def)
qed


lemma starts_with_slashes:
  "starts_with ''//'' q \<longleftrightarrow> q \<noteq> [] \<and> deref q = CHR ''/'' \<and> char_at q 1 = CHR ''/''"
proof (cases q)
  case Nil
  then show ?thesis by simp
next
  case (Cons a r)
  then show ?thesis by (cases r) (auto simp: char_at_def)
qed

text \<open>The authority the parser records: the one case in which it differs from the grammar is a
  pair of slashes with nothing after it.\<close>

definition url_authority_of :: "string \<Rightarrow> string option" where
  "url_authority_of s = (if s = ''//'' then None else fst (rfc_authority s))"

lemma rfc_authority_slashes:
  "starts_with ''//'' s \<Longrightarrow> rfc_authority s = (Some (takeWhile (\<lambda>c. c \<notin> set ''/?#'') (drop 2 s)),
     dropWhile (\<lambda>c. c \<notin> set ''/?#'') (drop 2 s))"
  by (simp only: rfc_authority_def if_True)

lemma Url_parse_authority_rfc:
  assumes "u_query url = None" "u_fragment url = None" "u_path url = None" "u_authority url = None"
    "length s \<le> length (u_buffer url)" "starts_with ''//'' s \<Longrightarrow> p = Some s" "\<forall>q. p = Some q \<longrightarrow> (\<exists>a. s = a @ q)"
  shows "parsed_tail (url\<lparr>u_authority := url_authority_of s\<rparr>) (Url_parse_authority url s p)
     (nonempty (fst (rfc_path (snd (rfc_authority s))))) (snd (rfc_path (snd (rfc_authority s))))"
proof (cases "starts_with ''//'' s")
  case False
  have "Url_parse_authority url s p = Url_parse_path url s"
  proof (cases p)
    case (Some q)
    with assms(7) obtain a where "s = a @ q" by blast
    then have "length q = length s \<Longrightarrow> q = s" by simp
    with False Some show ?thesis using starts_with_slashes [of s]
      by (auto simp: Url_parse_authority_def)
  qed (simp add: Url_parse_authority_def)
  moreover have "rfc_authority s = (None, s)" "url_authority_of s = None"
    using False by (simp_all add: rfc_authority_def url_authority_of_def)
  ultimately show ?thesis
    using parsed_tail_cong [OF Url_parse_path_rfc [OF assms(1,2,3,5)]] assms(4) by simp
next
  case True
  define s1 where "s1 = drop 2 s"
  have s: "s = ''//'' @ s1"
    using True by (cases s rule: starts_with.cases [of "(''//'', s)" for s]) (auto simp: starts_with_iff s1_def)
  have le: "length s1 \<le> length (u_buffer url)" using assms(5) by (simp add: s1_def)
  note r = rfc_authority_slashes [OF True, folded s1_def]
  show ?thesis
  proof (rule strpbrk_cases [of s1 "''/?#''"])
    assume c: "strpbrk s1 ''/?#'' = None" "dropWhile (\<lambda>x. x \<notin> set ''/?#'') s1 = []"
      "takeWhile (\<lambda>x. x \<notin> set ''/?#'') s1 = s1"
    then have ra: "rfc_authority s = (Some s1, [])" using r by simp
    show ?thesis
    proof (cases "s1 = []")
      case True
      then have "Url_parse_authority url s p = Url_parse_path url []"
        using assms(6) s c(1) by (simp add: Url_parse_authority_def char_at_def)
      then show ?thesis
        using parsed_tail_cong [OF Url_parse_path_rfc [OF assms(1,2,3), of "[]"]] True s ra assms(4)
        by (simp add: url_authority_of_def)
    next
      case False
      then have "Url_parse_authority url s p = url\<lparr>u_authority := Some s1\<rparr>"
        using assms(6) s c(1) by (simp add: Url_parse_authority_def char_at_def)
      then show ?thesis using False s ra assms
        by (simp add: url_authority_of_def parsed_tail_def rfc_path_def rfc_query_def rfc_fragment_def
            nonempty_def)
    qed
  next
    fix q
    assume c: "strpbrk s1 ''/?#'' = Some q" "dropWhile (\<lambda>x. x \<notin> set ''/?#'') s1 = q" "q \<noteq> []"
      "take (length s1 - length q) s1 = takeWhile (\<lambda>x. x \<notin> set ''/?#'') s1"
    have leq: "length q \<le> length (u_buffer url)"
      using c(2) length_dropWhile_le [of _ s1] le le_trans by blast
    let ?url = "url\<lparr>u_authority := Some (takeWhile (\<lambda>x. x \<notin> set ''/?#'') s1)\<rparr>"
    have "Url_parse_authority url s p = Url_parse_path ?url q"
      using assms(6) s c(1) by (simp add: Url_parse_authority_def char_at_def c(4) del: list.set)
    moreover have "rfc_authority s = (Some (takeWhile (\<lambda>x. x \<notin> set ''/?#'') s1), q)"
      using r c(2) by simp
    moreover have "s \<noteq> ''//''" using s c(1) by (auto simp: strpbrk_def)
    ultimately show ?thesis
      using Url_parse_path_rfc [of ?url q] assms leq by (simp add: url_authority_of_def del: list.set)
  qed
qed


lemma Url_object_new_fields:
  assumes "s = dStrstrip uri" "rfc_scheme s = (scheme, s1)" "rfc_authority s1 = (authority, s2)"
    "rfc_path s2 = (path, s3)"
  shows "parsed_tail (url_zero\<lparr>u_buffer := s, u_scheme := scheme, u_authority := url_authority_of s1\<rparr>)
     (Url_object_new uri) (nonempty path) s3"
proof (rule strpbrk_cases [of s "'':/?#''"])
  assume c: "strpbrk s '':/?#'' = None" "dropWhile (\<lambda>x. x \<notin> set '':/?#'') s = []"
    "takeWhile (\<lambda>x. x \<notin> set '':/?#'') s = s"
  have e: "scheme = None" "s1 = s" using assms(2) by (simp_all only: rfc_scheme_def c Let_def) auto
  have "\<not> starts_with ''//'' s" using c(1) by (cases s) (auto simp: strpbrk_def split: if_splits)
  then show ?thesis
    using Url_parse_authority_rfc [of "url_zero\<lparr>u_buffer := s\<rparr>" s None] assms(3,4) c(1)
    by (simp add: Url_object_new_def assms(1) [symmetric] e url_zero_def)
next
  fix q
  assume c: "strpbrk s '':/?#'' = Some q" "dropWhile (\<lambda>x. x \<notin> set '':/?#'') s = q" "q \<noteq> []"
    "take (length s - length q) s = takeWhile (\<lambda>x. x \<notin> set '':/?#'') s"
    "length q < length s \<longleftrightarrow> takeWhile (\<lambda>x. x \<notin> set '':/?#'') s \<noteq> []" "hd q \<in> set '':/?#''"
  have dq: "deref q = hd q" using c(3) by (cases q) simp_all
  have suf: "\<exists>a. s = a @ q" by (metis c(2) takeWhile_dropWhile_id)
  have le: "length q \<le> length s" using c(2) length_dropWhile_le by blast
  show ?thesis
  proof (cases "deref q = CHR '':'' \<and> length q < length s")
    case True
    let ?sch = "takeWhile (\<lambda>x. x \<notin> set '':/?#'') s"
    have e: "scheme = Some ?sch" "s1 = tl q"
      using assms(2) True c(3,5) dq by (simp_all only: rfc_scheme_def c(2) Let_def) auto
    have n: "Url_object_new uri
        = Url_parse_authority (url_zero\<lparr>u_buffer := s, u_scheme := Some ?sch\<rparr>) (tl q) (Some (tl q))"
      using True by (simp only: Url_object_new_def assms(1) [symmetric] c(1,4) Let_def option.case if_True) simp
    show ?thesis
      using Url_parse_authority_rfc [of "url_zero\<lparr>u_buffer := s, u_scheme := Some ?sch\<rparr>" "tl q" "Some (tl q)"]
        assms(3,4) le unfolding n e by (simp add: url_zero_def del: list.set)
  next
    case False
    then have e: "scheme = None" "s1 = s"
      using assms(2) c(3,5) dq by (simp_all only: rfc_scheme_def c(2) Let_def) auto
    have n: "Url_object_new uri = Url_parse_authority (url_zero\<lparr>u_buffer := s\<rparr>) s (Some q)"
      using False by (simp only: Url_object_new_def assms(1) [symmetric] c(1,4) Let_def option.case if_False)
    have "starts_with ''//'' s \<Longrightarrow> q = s"
      using c(2) by (cases s) auto
    then show ?thesis
      using Url_parse_authority_rfc [of "url_zero\<lparr>u_buffer := s\<rparr>" s "Some q"] suf
        assms(3,4) unfolding n e by (simp add: url_zero_def del: list.set)
  qed
qed

definition url_fields :: "dillo_url \<Rightarrow>
    string option \<times> string option \<times> string option \<times> string option \<times> string option" where
  "url_fields u = (u_scheme u, u_authority u, u_path u, u_query u, u_fragment u)"

definition rfc_fields :: "string \<Rightarrow>
    string option \<times> string option \<times> string option \<times> string option \<times> string option" where
  "rfc_fields s =
     (case rfc_parse s of (scheme, authority, path, query, fragment) \<Rightarrow>
        (scheme,
         if authority = Some [] \<and> path = [] \<and> query = None \<and> fragment = None then None else authority,
         nonempty path, query, fragment))"


lemma rfc_path_split: "rfc_path s = (path, r) \<Longrightarrow> s = path @ r \<and> (r = [] \<or> hd r \<in> set ''?#'')"
  using hd_dropWhile [of "\<lambda>c. c \<notin> set ''?#''" s]
  by (auto simp: rfc_path_def simp del: dropWhile_eq_Nil_conv)

lemma rfc_query_split:
  "rfc_query s = (query, r) \<Longrightarrow> s = (case query of Some q \<Rightarrow> ''?'' @ q | None \<Rightarrow> []) @ r
     \<and> (query \<noteq> None \<longrightarrow> r = [] \<or> hd r = CHR ''#'')"
proof (cases "starts_with ''?'' s")
  case True
  then obtain t where "s = CHR ''?'' # t" by (auto simp: starts_with_iff)
  then show "rfc_query s = (query, r) \<Longrightarrow> ?thesis"
    using hd_dropWhile [of "\<lambda>c. c \<noteq> CHR ''#''" t]
    by (auto simp: rfc_query_def simp del: dropWhile_eq_Nil_conv)
qed (auto simp: rfc_query_def)

lemma rfc_authority_split:
  "rfc_authority s = (authority, r) \<Longrightarrow> s = (case authority of Some a \<Rightarrow> ''//'' @ a | None \<Rightarrow> []) @ r
     \<and> (authority \<noteq> None \<longrightarrow> r = [] \<or> hd r \<in> set ''/?#'')"
proof (cases "starts_with ''//'' s")
  case True
  then obtain t where t: "s = ''//'' @ t" by (auto simp: starts_with_iff)
  have "rfc_authority s = (Some (takeWhile (\<lambda>c. c \<notin> set ''/?#'') t), dropWhile (\<lambda>c. c \<notin> set ''/?#'') t)"
    using rfc_authority_slashes [OF True] t by simp
  then show "rfc_authority s = (authority, r) \<Longrightarrow> ?thesis"
    using hd_dropWhile [of "\<lambda>c. c \<notin> set ''/?#''" t] t
    by (auto simp del: dropWhile_eq_Nil_conv list.set)
qed (simp add: rfc_authority_def)

lemma rfc_scheme_split:
  "rfc_scheme s = (scheme, r) \<Longrightarrow> s = (case scheme of Some a \<Rightarrow> a @ '':'' | None \<Rightarrow> []) @ r"
proof -
  assume a: "rfc_scheme s = (scheme, r)"
  have "s = takeWhile (\<lambda>c. c \<notin> set '':/?#'') s @ dropWhile (\<lambda>c. c \<notin> set '':/?#'') s" by simp
  then show "s = (case scheme of Some a \<Rightarrow> a @ '':'' | None \<Rightarrow> []) @ r"
    using a by (cases "dropWhile (\<lambda>c. c \<notin> set '':/?#'') s")
      (auto simp: rfc_scheme_def Let_def simp del: list.set dropWhile_eq_Nil_conv takeWhile_dropWhile_id
        split: if_splits)
qed

lemma authority_only_slashes:
  assumes "rfc_authority s = (authority, s2)" "rfc_path s2 = (path, s3)" "rfc_query s3 = (query, s4)"
  shows "s = ''//'' \<longleftrightarrow> authority = Some [] \<and> path = [] \<and> query = None \<and> rfc_fragment s4 = None"
proof
  assume "s = ''//''"
  with assms show "authority = Some [] \<and> path = [] \<and> query = None \<and> rfc_fragment s4 = None"
    by (auto simp: rfc_authority_def rfc_path_def rfc_query_def rfc_fragment_def)
next
  assume a: "authority = Some [] \<and> path = [] \<and> query = None \<and> rfc_fragment s4 = None"
  then have "s3 = s2" "s4 = s3" using assms(2,3) rfc_path_split rfc_query_split by fastforce+
  moreover have "s4 = []"
    using a rfc_path_split [OF assms(2)] assms(3) \<open>s4 = s3\<close>
    by (cases s4) (auto simp: rfc_fragment_def rfc_query_def)
  ultimately show "s = ''//''" using rfc_authority_split [OF assms(1)] a by simp
qed

lemma url_fields_rfc:
  "url_fields (Url_object_new uri) = rfc_fields (dStrstrip uri)
   \<and> (u_query (Url_object_new uri) \<noteq> None \<longrightarrow>
        char_at (dStrstrip uri) (u_query_off (Url_object_new uri) - 1) = CHR ''?''
        \<and> 0 < u_query_off (Url_object_new uri))"
proof -
  define s where "s = dStrstrip uri"
  obtain scheme s1 where s1: "rfc_scheme s = (scheme, s1)" by (cases "rfc_scheme s")
  obtain authority s2 where s2: "rfc_authority s1 = (authority, s2)" by (cases "rfc_authority s1")
  obtain path s3 where s3: "rfc_path s2 = (path, s3)" by (cases "rfc_path s2")
  obtain query s4 where s4: "rfc_query s3 = (query, s4)" by (cases "rfc_query s3")
  note o = authority_only_slashes [OF s2 s3 s4]
  note p = Url_object_new_fields [OF s_def s1 s2 s3]
  have "url_fields (Url_object_new uri) = rfc_fields s"
    using p o by (auto simp: parsed_tail_def s4 url_fields_def rfc_fields_def rfc_parse_def s1 s2 s3
        url_authority_of_def)
  moreover have "char_at s (u_query_off (Url_object_new uri) - 1) = CHR ''?''
      \<and> 0 < u_query_off (Url_object_new uri)" if "u_query (Url_object_new uri) \<noteq> None"
  proof -
    have "\<exists>a. s = a @ s3"
      using rfc_scheme_split [OF s1] rfc_authority_split [OF s2] rfc_path_split [OF s3]
      by (metis append_assoc)
    then obtain a where a: "s = a @ s3" by blast
    from p that have off: "u_query_off (Url_object_new uri) = length s - length s3 + 1" "query \<noteq> None"
      by (auto simp: parsed_tail_def s4)
    with rfc_query_split [OF s4] have "s3 \<noteq> [] \<and> hd s3 = CHR ''?''" by (cases query) simp_all
    with a off show ?thesis by (cases s3) (simp_all add: char_at_def)
  qed
  ultimately show ?thesis by (simp add: s_def)
qed


section \<open>Printing and parsing again\<close>

type_synonym rfc = "string option \<times> string option \<times> string \<times> string option \<times> string option"

definition rfc_print :: "rfc \<Rightarrow> string" where
  "rfc_print c = (case c of (scheme, authority, path, query, fragment) \<Rightarrow>
     (case scheme of Some s \<Rightarrow> s @ '':'' | None \<Rightarrow> []) @ (case authority of Some a \<Rightarrow> ''//'' @ a | None \<Rightarrow> [])
     @ path @ (case query of Some q \<Rightarrow> ''?'' @ q | None \<Rightarrow> []) @ (case fragment of Some f \<Rightarrow> ''#'' @ f | None \<Rightarrow> []))"

text \<open>The components that can be read back from their concatenation.\<close>

definition rfc_wf :: "rfc \<Rightarrow> bool" where
  "rfc_wf c = (case c of (scheme, authority, path, query, fragment) \<Rightarrow>
     (case scheme of Some s \<Rightarrow> s \<noteq> [] \<and> set s \<inter> set '':/?#'' = {}
      | None \<Rightarrow> fst (rfc_scheme (rfc_print c)) = None)
     \<and> (case authority of Some a \<Rightarrow> set a \<inter> set ''/?#'' = {} \<and> (path = [] \<or> hd path = CHR ''/'')
        | None \<Rightarrow> \<not> starts_with ''//'' path)
     \<and> set path \<inter> set ''?#'' = {} \<and> (\<forall>q. query = Some q \<longrightarrow> CHR ''#'' \<notin> set q))"

lemma takeWhile_stop: "set a \<inter> X = {} \<Longrightarrow> r = [] \<or> hd r \<in> X \<Longrightarrow>
    takeWhile (\<lambda>c. c \<notin> X) (a @ r) = a \<and> dropWhile (\<lambda>c. c \<notin> X) (a @ r) = r"
  by (cases r) (auto simp: takeWhile_append dropWhile_append disjoint_iff)

lemma rfc_query_print:
  assumes "\<forall>q. query = Some q \<longrightarrow> CHR ''#'' \<notin> set q"
  shows "rfc_query ((case query of Some q \<Rightarrow> ''?'' @ q | None \<Rightarrow> []) @ (case fragment of Some f \<Rightarrow> ''#'' @ f | None \<Rightarrow> []))
    = (query, case fragment of Some f \<Rightarrow> ''#'' @ f | None \<Rightarrow> [])"
proof (cases query)
  case None
  then show ?thesis by (auto simp: rfc_query_def split: option.splits)
next
  case (Some q)
  with assms takeWhile_stop [of q "{CHR ''#''}" "case fragment of Some f \<Rightarrow> ''#'' @ f | None \<Rightarrow> []"]
  show ?thesis by (auto simp: rfc_query_def split: option.splits)
qed

lemma rfc_scheme_None: "fst (rfc_scheme s) = None \<Longrightarrow> rfc_scheme s = (None, s)"
  by (auto simp: rfc_scheme_def Let_def split: if_splits)

lemma rfc_parse_print:
  assumes wf: "rfc_wf c"
  shows "rfc_parse (rfc_print c) = c"
proof (cases c)
  case (fields scheme authority path query fragment)
  define qf where "qf = (case query of Some q \<Rightarrow> ''?'' @ q | None \<Rightarrow> [])
      @ (case fragment of Some f \<Rightarrow> ''#'' @ f | None \<Rightarrow> [])"
  define ap where "ap = (case authority of Some a \<Rightarrow> ''//'' @ a | None \<Rightarrow> []) @ path @ qf"
  have pr: "rfc_print c = (case scheme of Some s \<Rightarrow> s @ '':'' | None \<Rightarrow> []) @ ap"
    by (simp add: rfc_print_def fields ap_def qf_def)
  have qf0: "qf = [] \<or> hd qf \<in> set ''?#''"
    by (auto simp: qf_def split: option.splits)
  have "rfc_scheme (rfc_print c) = (scheme, ap)"
  proof (cases scheme)
    case None
    with wf fields rfc_scheme_None [of "rfc_print c"] pr show ?thesis by (simp add: rfc_wf_def)
  next
    case (Some s)
    with wf fields have s: "s \<noteq> []" "set s \<inter> set '':/?#'' = {}"
      by (simp_all only: rfc_wf_def prod.case option.case) auto
    have t: "takeWhile (\<lambda>c. c \<notin> set '':/?#'') (s @ CHR '':'' # ap) = s
        \<and> dropWhile (\<lambda>c. c \<notin> set '':/?#'') (s @ CHR '':'' # ap) = CHR '':'' # ap"
      by (rule takeWhile_stop [OF s(2)]) simp
    have "rfc_scheme (s @ CHR '':'' # ap) = (Some s, ap)"
      unfolding rfc_scheme_def Let_def conjunct1 [OF t] conjunct2 [OF t] using s(1) by simp
    with Some show ?thesis by (simp add: pr)
  qed
  moreover have "rfc_authority ap = (authority, path @ qf)"
  proof (cases authority)
    case None
    have "\<not> starts_with ''//'' (path @ qf)"
    proof -
      have "\<not> starts_with ''//'' path" using wf fields None by (simp add: rfc_wf_def)
      then show ?thesis
      proof (cases path)
        case Nil
        with qf0 show ?thesis by (cases qf) auto
      next
        case (Cons x p)
        with \<open>\<not> starts_with ''//'' path\<close> qf0 show ?thesis by (cases p; cases qf) auto
      qed
    qed
    with None show ?thesis by (simp add: rfc_authority_def ap_def)
  next
    case (Some a)
    with wf fields have a: "set a \<inter> set ''/?#'' = {}" "path = [] \<or> hd path = CHR ''/''"
      by (simp_all only: rfc_wf_def prod.case option.case)
    have "path @ qf = [] \<or> hd (path @ qf) \<in> set ''/?#''"
      using a(2) qf0 by (cases path) auto
    with takeWhile_stop [OF a(1)] Some show ?thesis
      by (simp add: rfc_authority_def ap_def del: list.set)
  qed
  moreover have "rfc_path (path @ qf) = (path, qf)"
    using takeWhile_stop [of path "set ''?#''" qf] qf0 wf fields
    by (simp add: rfc_path_def rfc_wf_def del: list.set)
  moreover have "rfc_query qf = (query, case fragment of Some f \<Rightarrow> ''#'' @ f | None \<Rightarrow> [])"
    unfolding qf_def using wf fields by (intro rfc_query_print) (simp add: rfc_wf_def)
  moreover have "rfc_fragment (case fragment of Some f \<Rightarrow> ''#'' @ f | None \<Rightarrow> []) = fragment"
    by (simp add: rfc_fragment_def split: option.splits)
  ultimately show ?thesis by (simp add: rfc_parse_def fields)
qed


lemma rfc_print_parse: "rfc_print (rfc_parse s) = s"
proof -
  obtain scheme s1 where s1: "rfc_scheme s = (scheme, s1)" by (cases "rfc_scheme s")
  obtain authority s2 where s2: "rfc_authority s1 = (authority, s2)" by (cases "rfc_authority s1")
  obtain path s3 where s3: "rfc_path s2 = (path, s3)" by (cases "rfc_path s2")
  obtain query s4 where s4: "rfc_query s3 = (query, s4)" by (cases "rfc_query s3")
  have f: "s4 = (case rfc_fragment s4 of Some f \<Rightarrow> ''#'' @ f | None \<Rightarrow> [])"
  proof (cases s4)
    case (Cons c r)
    have "query \<noteq> None \<Longrightarrow> c = CHR ''#''" using rfc_query_split [OF s4] Cons by auto
    moreover have "query = None \<Longrightarrow> c = CHR ''#''"
      using rfc_query_split [OF s4] rfc_path_split [OF s3] s4 Cons by (auto simp: rfc_query_def)
    ultimately show ?thesis using Cons by (auto simp: rfc_fragment_def)
  qed (simp add: rfc_fragment_def)
  have c: "rfc_parse s = (scheme, authority, path, query, rfc_fragment s4)"
    by (simp add: rfc_parse_def s1 s2 s3 s4)
  show ?thesis
    unfolding c using rfc_scheme_split [OF s1] rfc_authority_split [OF s2] rfc_path_split [OF s3]
      rfc_query_split [OF s4] f
    by (simp add: rfc_print_def)
qed

lemma rfc_wf_parse: "rfc_wf (rfc_parse s)"
proof -
  obtain scheme s1 where s1: "rfc_scheme s = (scheme, s1)" by (cases "rfc_scheme s")
  obtain authority s2 where s2: "rfc_authority s1 = (authority, s2)" by (cases "rfc_authority s1")
  obtain path s3 where s3: "rfc_path s2 = (path, s3)" by (cases "rfc_path s2")
  obtain query s4 where s4: "rfc_query s3 = (query, s4)" by (cases "rfc_query s3")
  have c: "rfc_parse s = (scheme, authority, path, query, rfc_fragment s4)"
    by (simp add: rfc_parse_def s1 s2 s3 s4)
  have tw: "set (takeWhile (\<lambda>c. c \<notin> X) t) \<inter> X = {}" for X :: "char set" and t
    by (auto dest: set_takeWhileD)
  have "case scheme of Some s \<Rightarrow> s \<noteq> [] \<and> set s \<inter> set '':/?#'' = {}
      | None \<Rightarrow> fst (rfc_scheme (rfc_print (rfc_parse s))) = None"
    using s1 tw [of "set '':/?#''" s]
    by (auto simp: rfc_print_parse rfc_scheme_def Let_def simp del: list.set split: option.splits if_splits)
  moreover have "case authority of Some a \<Rightarrow> set a \<inter> set ''/?#'' = {} \<and> (path = [] \<or> hd path = CHR ''/'')
      | None \<Rightarrow> \<not> starts_with ''//'' path"
  proof (cases authority)
    case None
    then have n: "\<not> starts_with ''//'' s1" "s2 = s1"
      using s2 by (auto simp: rfc_authority_def split: if_splits)
    then show ?thesis using None rfc_path_split [OF s3] by (auto simp: starts_with_iff)
  next
    case (Some a)
    then have a: "starts_with ''//'' s1" using s2 by (auto simp: rfc_authority_def split: if_splits)
    have "hd path = CHR ''/''" if "path \<noteq> []"
    proof -
      have "hd s2 = hd path" "s2 \<noteq> []" using rfc_path_split [OF s3] that by auto
      moreover have "hd path \<notin> set ''?#''"
      proof -
        have "path = takeWhile (\<lambda>c. c \<notin> set ''?#'') s2" using s3 unfolding rfc_path_def by (rule Pair_inject) simp
        with tw [of "set ''?#''" s2] that show ?thesis by (metis IntI empty_iff hd_in_set)
      qed
      ultimately show ?thesis using rfc_authority_split [OF s2] Some by auto
    qed
    with Some s2 tw [of "set ''/?#''" "drop 2 s1"] rfc_authority_slashes [OF a] show ?thesis
      by (auto simp del: list.set)
  qed
  moreover have "set path \<inter> set ''?#'' = {}"
    using s3 tw [of "set ''?#''" s2] by (auto simp: rfc_path_def simp del: list.set)
  moreover have "CHR ''#'' \<notin> set q" if "query = Some q" for q
    using s4 that by (auto simp: rfc_query_def dest: set_takeWhileD split: if_splits)
  ultimately show ?thesis unfolding c rfc_wf_def by (simp add: c)
qed


text \<open>The empty path of a URL with an authority is printed as a slash, a lone pair of slashes not
  at all.\<close>

definition rfc_norm :: "rfc \<Rightarrow> rfc" where
  "rfc_norm c = (case c of (scheme, authority, path, query, fragment) \<Rightarrow>
     if authority = Some [] \<and> path = [] \<and> query = None \<and> fragment = None
     then (scheme, None, [], None, None)
     else (scheme, authority, if authority \<noteq> None \<and> path = [] then ''/'' else path, query, fragment))"

lemma rfc_wf_norm: "rfc_wf c \<Longrightarrow> rfc_wf (rfc_norm c)"
proof -
  assume wf: "rfc_wf c"
  obtain scheme authority path query fragment where c: "c = (scheme, authority, path, query, fragment)"
    by (cases c)
  have e: "fst (rfc_scheme []) = None" "\<And>r. fst (rfc_scheme (CHR ''/'' # r)) = None"
    by (simp_all add: rfc_scheme_def)
  from wf show "rfc_wf (rfc_norm c)"
    by (cases scheme; cases authority) (auto simp: c rfc_norm_def rfc_wf_def rfc_print_def e)
qed

lemma url_build_norm: "url_build (Url_object_new uri) = rfc_print (rfc_norm (rfc_parse (dStrstrip uri)))"
proof -
  obtain scheme authority path query fragment where
    c: "rfc_parse (dStrstrip uri) = (scheme, authority, path, query, fragment)"
    by (cases "rfc_parse (dStrstrip uri)")
  have wf: "authority \<noteq> None \<Longrightarrow> path \<noteq> [] \<Longrightarrow> deref path = CHR ''/''"
    using rfc_wf_parse [of "dStrstrip uri"] by (cases path) (auto simp: c rfc_wf_def)
  have u: "u_scheme (Url_object_new uri) = scheme" "u_path (Url_object_new uri) = nonempty path"
    "u_authority (Url_object_new uri) =
       (if authority = Some [] \<and> path = [] \<and> query = None \<and> fragment = None then None else authority)"
    "u_query (Url_object_new uri) = query" "u_fragment (Url_object_new uri) = fragment"
    using conjunct1 [OF url_fields_rfc [of uri]] by (simp_all add: url_fields_def rfc_fields_def c)
  show ?thesis
    using wf by (cases authority)
      (auto simp: url_build_def u rfc_print_def rfc_norm_def c nonempty_def NPTR2STR_def)
qed

lemma rfc_fields_norm:
  "rfc_fields (rfc_print (rfc_norm (rfc_parse s)))
     = (case rfc_norm (rfc_parse s) of (scheme, authority, path, query, fragment) \<Rightarrow>
          (scheme, authority, nonempty path, query, fragment))"
  using rfc_parse_print [OF rfc_wf_norm [OF rfc_wf_parse]]
  by (auto simp: rfc_fields_def rfc_norm_def split: prod.splits)

lemma strip_rfc_print_norm:
  assumes "dStrstrip s = s"
  shows "dStrstrip (rfc_print (rfc_norm (rfc_parse s))) = rfc_print (rfc_norm (rfc_parse s))"
proof -
  obtain scheme authority path query fragment where
    c: "rfc_parse s = (scheme, authority, path, query, fragment)" by (cases "rfc_parse s")
  define pre where "pre = (case scheme of Some s \<Rightarrow> s @ '':'' | None \<Rightarrow> [])
     @ (case authority of Some a \<Rightarrow> ''//'' @ a | None \<Rightarrow> [])"
  define post where "post = (case query of Some q \<Rightarrow> ''?'' @ q | None \<Rightarrow> [])
     @ (case fragment of Some f \<Rightarrow> ''#'' @ f | None \<Rightarrow> [])"
  have s: "s = pre @ path @ post" using rfc_print_parse [of s] by (simp add: c rfc_print_def pre_def post_def)
  have h: "s \<noteq> [] \<Longrightarrow> \<not> isspace (hd s)" "s \<noteq> [] \<Longrightarrow> \<not> isspace (last s)"
    using dStrstrip_hd [of s] dStrstrip_last [of s] assms by simp_all
  have sp: "\<not> isspace CHR ''/''" "\<not> isspace CHR '':''" by (simp_all add: isspace_def uchar_def)
  have wf: "scheme \<noteq> Some []" using rfc_wf_parse [of s] by (auto simp: c rfc_wf_def)
  consider (lone) "authority = Some []" "path = []" "query = None" "fragment = None"
    | (slash) "authority \<noteq> None" "path = []" "rfc_norm (rfc_parse s) = (scheme, authority, ''/'', query, fragment)"
    | (same) "rfc_norm (rfc_parse s) = rfc_parse s"
    by (cases "authority = Some [] \<and> path = [] \<and> query = None \<and> fragment = None";
        cases "authority \<noteq> None \<and> path = []")
      (auto simp: c rfc_norm_def)
  then show ?thesis
  proof cases
    case lone
    show ?thesis
    proof (cases scheme)
      case (Some a)
      then have a: "hd s = hd a" "a \<noteq> []" "s \<noteq> []" using s lone wf by (auto simp: pre_def)
      have "rfc_print (rfc_norm (rfc_parse s)) = a @ '':''"
        by (simp add: lone Some c rfc_norm_def rfc_print_def)
      then show ?thesis using h(1) a sp by (simp add: dStrstrip_id)
    qed (use lone in \<open>simp add: c rfc_norm_def rfc_print_def\<close>)
  next
    case slash
    have t: "rfc_print (rfc_norm (rfc_parse s)) = pre @ ''/'' @ post"
      using slash by (simp add: rfc_print_def pre_def post_def)
    have "pre \<noteq> []" using slash by (auto simp: pre_def)
    with h s slash sp show ?thesis unfolding t by (intro dStrstrip_id) (auto simp: last_append)
  next
    case same
    then show ?thesis using assms by (simp add: rfc_print_parse)
  qed
qed


lemma url_string_parsed: "URL_STR (Url_object_new uri) = rfc_print (rfc_norm (rfc_parse (dStrstrip uri)))"
proof -
  have "u_url_string (Url_object_new uri) = None"
    using Url_object_new_fields [OF refl surjective_pairing surjective_pairing surjective_pairing, of uri]
    by (simp add: parsed_tail_def url_zero_def)
  then show ?thesis by (simp add: URL_STR_def a_Url_str_def url_build_norm)
qed

section \<open>Hexadecimal escapes\<close>

lemma encode_char_cases:
  "encode_hex_char c = [c] \<and> c \<noteq> CHR ''%'' \<and> c \<noteq> CHR ''+''
   \<or> encode_hex_char c = ''+'' \<and> c = CHR '' '' \<or> encode_hex_char c = ''%0D%0A'' \<and> c = CHR 0x0A
   \<or> encode_hex_char c = [CHR ''%'', hex_digit (hi_nibble c), hex_digit (lo_nibble c)]
       \<and> c \<noteq> CHR '' '' \<and> c \<noteq> CHR 0x0A"
proof (cases "(isalnum c \<and> isascii c) \<or> strchr ''-_.*'' c \<noteq> None")
  case True
  have "\<not> ((isalnum x \<and> isascii x) \<or> strchr ''-_.*'' x \<noteq> None)" if "x = CHR ''%'' \<or> x = CHR ''+''" for x
    using that by (elim disjE) (simp_all add: strchr_def cchar_simps)
  with True have "c \<noteq> CHR ''%'' \<and> c \<noteq> CHR ''+''" by blast
  moreover have "encode_hex_char c = [c]" using True by (simp only: encode_hex_char_def if_True)
  ultimately show ?thesis by simp
next
  case False
  then have "encode_hex_char c = (if c = CHR '' '' then ''+'' else if c = CHR 0x0A then ''%0D%0A''
      else [CHR ''%'', hex_digit (hi_nibble c), hex_digit (lo_nibble c)])"
    by (simp only: encode_hex_char_def if_False)
  then show ?thesis by (cases "c = CHR '' ''"; cases "c = CHR 0x0A") simp_all
qed

lemma hex_digit_val: "0 \<le> v \<Longrightarrow> v < 16 \<Longrightarrow> digit_val (hex_digit v) = Some v \<and> \<not> isspace (hex_digit v)
    \<and> hex_digit v \<notin> set ''+-xX'' \<and> hex_digit v \<noteq> NUL"
proof -
  assume "0 \<le> v" "v < 16"
  then have "v = 0 \<or> v = 1 \<or> v = 2 \<or> v = 3 \<or> v = 4 \<or> v = 5 \<or> v = 6 \<or> v = 7 \<or> v = 8 \<or> v = 9
    \<or> v = 10 \<or> v = 11 \<or> v = 12 \<or> v = 13 \<or> v = 14 \<or> v = 15" by arith
  then show ?thesis
    by (elim disjE) (simp_all add: hex_digit_def digit_val_def cchar_simps)
qed


lemma decode_octet:
  assumes "0 \<le> h" "h < 16" "0 \<le> l" "l < 16"
  shows "Url_decode_hex_octet (hex_digit h # hex_digit l # r) = 16 * h + l"
proof -
  note hh = hex_digit_val [OF assms(1,2)] and ll = hex_digit_val [OF assms(3,4)]
  have d: "is_digit_in 16 (hex_digit h)" "is_digit_in 16 (hex_digit l)"
    using hh ll assms by (simp_all add: is_digit_in_def)
  have "strtol [hex_digit h, hex_digit l] 16 = (clamp_long (16 * h + l), [])"
    using hh ll d by (auto simp: strtol_def char_at_def digits_value_def Let_def mult.commute)
  moreover have "clamp_long (16 * h + l) = 16 * h + l" using assms by (simp add: clamp_long_def)
  ultimately show ?thesis using hh ll by (simp add: Url_decode_hex_octet_def char_at_def)
qed

lemma decode_escape:
  "decode_hex_loop (CHR ''%'' # hex_digit (hi_nibble c) # hex_digit (lo_nibble c) # r) = c # decode_hex_loop r"
proof -
  have "Url_decode_hex_octet (hex_digit (hi_nibble c) # hex_digit (lo_nibble c) # r) = uchar c"
  proof -
    have "0 \<le> x div 16 \<and> x div 16 < 16 \<and> 0 \<le> x mod 16 \<and> x mod 16 < 16" if "0 \<le> x" "x < 256" for x :: int
      using that by presburger
    from this [OF uchar_ge0 uchar_less, of c]
    have "0 \<le> hi_nibble c" "hi_nibble c < 16" "0 \<le> lo_nibble c" "lo_nibble c < 16"
      by (auto simp: hi_nibble_def lo_nibble_def)
    from decode_octet [OF this] show ?thesis by (simp add: hi_nibble_def lo_nibble_def)
  qed
  then show ?thesis by (simp add: uchar_nat numeral_2_eq_2)
qed

lemma decode_plain: "c \<noteq> CHR ''%'' \<Longrightarrow> decode_hex_loop (c # r) = c # decode_hex_loop r"
  by simp

lemma decode_no_escape: "CHR ''%'' \<notin> set s \<Longrightarrow> decode_hex_loop s = s"
  by (induction s) (auto simp: Let_def)

lemma decode_CRLF: "decode_hex_loop (''%0D%0A'' @ r) = CHR 0x0D # CHR 0x0A # decode_hex_loop r"
proof -
  have "CHR ''0'' = hex_digit 0" "CHR ''D'' = hex_digit 13" "CHR ''A'' = hex_digit 10"
    by (simp_all add: hex_digit_def)
  then have "Url_decode_hex_octet (CHR ''0'' # CHR ''D'' # t) = 13"
    "Url_decode_hex_octet (CHR ''0'' # CHR ''A'' # t) = 10" for t
    using decode_octet [of 0 13 t] decode_octet [of 0 10 t] by simp_all
  moreover have "char_of (13 :: nat) = CHR 0x0D" "char_of (10 :: nat) = CHR 0x0A"
    by (simp_all add: char_of_eq_iff take_bit_eq_mod)
  ultimately show ?thesis by (simp add: numeral_2_eq_2)
qed

text \<open>What a form value becomes: a space is sent as a plus sign, a line end as two bytes.\<close>

definition form_char :: "char \<Rightarrow> string" where
  "form_char c = (if c = CHR '' '' then ''+'' else if c = CHR 0x0A then [CHR 0x0D, CHR 0x0A] else [c])"

lemma decode_encode_char: "decode_hex_loop (encode_hex_char c @ r) = form_char c @ decode_hex_loop r"
  using encode_char_cases [of c]
proof (elim disjE conjE)
  assume "encode_hex_char c = [c]" "c \<noteq> CHR ''%''" "c \<noteq> CHR ''+''"
  moreover have "c \<noteq> CHR '' ''" "c \<noteq> CHR 0x0A"
    using \<open>encode_hex_char c = [c]\<close> by (auto simp: encode_hex_char_def cchar_simps strchr_def)
  ultimately show ?thesis by (simp only: append.simps decode_plain form_char_def if_False not_False_eq_True)
next
  assume "encode_hex_char c = ''+''" "c = CHR '' ''"
  then show ?thesis using decode_plain [of "CHR ''+''" r] by (simp add: form_char_def)
next
  assume "encode_hex_char c = ''%0D%0A''" "c = CHR 0x0A"
  then show ?thesis by (simp only: decode_CRLF form_char_def) simp
next
  assume "encode_hex_char c = [CHR ''%'', hex_digit (hi_nibble c), hex_digit (lo_nibble c)]"
    "c \<noteq> CHR '' ''" "c \<noteq> CHR 0x0A"
  then show ?thesis by (simp only: append.simps decode_escape form_char_def if_False)
qed

lemma decode_encode: "decode_hex_loop (concat (map encode_hex_char s)) = concat (map form_char s)"
  by (induction s) (simp_all add: decode_encode_char)


section \<open>The order of URLs\<close>

text \<open>URLs whose components are C strings and whose data is set and holds no null character.\<close>

definition opt_cstr :: "string option \<Rightarrow> bool" where
  "opt_cstr p = (case p of None \<Rightarrow> True | Some s \<Rightarrow> cstr s)"

definition url_cmp_ok :: "dillo_url \<Rightarrow> bool" where
  "url_cmp_ok u \<longleftrightarrow> opt_cstr (u_authority u) \<and> opt_cstr (u_path u) \<and> opt_cstr (u_query u)
     \<and> opt_cstr (u_scheme u) \<and> u_data u \<noteq> None \<and> opt_cstr (u_data u)"

interpretation strcmp: dcompare cstr strcmp
proof unfold_locales
  fix a b
  show "strcmp b a \<le> 0 \<longleftrightarrow> 0 \<le> strcmp a b" by (subst strcmp_antisym) simp
qed (rule strcmp_le_trans)

interpretation casecmp: dcompare cstr dStrAsciiCasecmp
proof unfold_locales
  fix a b
  show "dStrAsciiCasecmp b a \<le> 0 \<longleftrightarrow> 0 \<le> dStrAsciiCasecmp a b" by (subst casecmp_antisym) simp
qed (rule casecmp_le_trans)

lemma dcompare_field: "dcompare opt_cstr URL_STR_FIELD_CMP"
  unfolding opt_cstr_def [abs_def] URL_STR_FIELD_CMP_def [abs_def]
  by (rule dcompare_option) (rule strcmp.dcompare_axioms)

lemma dcompare_ifield: "dcompare opt_cstr URL_STR_FIELD_I_CMP"
  unfolding opt_cstr_def [abs_def] URL_STR_FIELD_I_CMP_def [abs_def]
  by (rule dcompare_option) (rule casecmp.dcompare_axioms)

lemma dcompare_data: "dcompare (\<lambda>d. d \<noteq> None \<and> opt_cstr d) data_cmp"
proof -
  have e: "data_cmp (Some s) (Some t) = strcmp s t" if "cstr s" "cstr t" for s t
    using that by (simp add: data_cmp_def dStr_cmp_strcmp)
  show ?thesis
  proof unfold_locales
    fix a b :: "string option"
    assume "a \<noteq> None \<and> opt_cstr a" "b \<noteq> None \<and> opt_cstr b"
    then show "data_cmp b a \<le> 0 \<longleftrightarrow> 0 \<le> data_cmp a b"
      using strcmp.cmp_flip [of "the a" "the b"] by (auto simp: opt_cstr_def e)
  next
    fix a b c :: "string option"
    assume "a \<noteq> None \<and> opt_cstr a" "b \<noteq> None \<and> opt_cstr b" "c \<noteq> None \<and> opt_cstr c"
      "data_cmp a b \<le> 0" "data_cmp b c \<le> 0"
    then show "data_cmp a c \<le> 0"
      using strcmp_le_trans [of "the a" "the b" "the c"] by (auto simp: opt_cstr_def e)
  qed
qed

lemma cstr_cmp_path: "opt_cstr p \<Longrightarrow> cstr (cmp_path p)"
  by (cases p) (auto simp: opt_cstr_def cmp_path_def cstr_def dest: list.set_sel(2) [rotated])

interpretation url: dcompare url_cmp_ok a_Url_cmp
  unfolding a_Url_cmp_def [abs_def]
proof (intro dcompare_lex)
  note v = dcompare_mono [OF dcompare_vimage]
  show "dcompare url_cmp_ok (\<lambda>A B. URL_STR_FIELD_I_CMP (u_authority A) (u_authority B))"
    by (rule v [OF dcompare_ifield]) (simp add: url_cmp_ok_def)
  show "dcompare url_cmp_ok (\<lambda>A B. strcmp (cmp_path (u_path A)) (cmp_path (u_path B)))"
    by (rule v [OF strcmp.dcompare_axioms, of _ "\<lambda>u. cmp_path (u_path u)"])
      (simp add: url_cmp_ok_def cstr_cmp_path)
  show "dcompare url_cmp_ok (\<lambda>A B. URL_STR_FIELD_CMP (u_query A) (u_query B))"
    by (rule v [OF dcompare_field]) (simp add: url_cmp_ok_def)
  show "dcompare url_cmp_ok (\<lambda>A B. data_cmp (u_data A) (u_data B))"
    by (rule v [OF dcompare_data]) (simp add: url_cmp_ok_def)
  show "dcompare url_cmp_ok (\<lambda>A B. URL_STR_FIELD_I_CMP (u_scheme A) (u_scheme B))"
    by (rule v [OF dcompare_ifield]) (simp add: url_cmp_ok_def)
qed


section \<open>Properties\<close>

text \<open>
  C1: The parser accepts every string and its five components are the groups of the regular
  expression of RFC 3986 on the string without surrounding white space, with two differences:
  an empty path is the null pointer, and the empty authority of a string that ends right after
  the two slashes is not recorded. The offset kept for the query is that of the byte after its
  question mark.
\<close>

theorem Url_object_new_is_rfc3986:
  "(case rfc_parse (dStrstrip uri) of (scheme, authority, path, query, fragment) \<Rightarrow>
      u_scheme (Url_object_new uri) = scheme
      \<and> u_authority (Url_object_new uri) =
          (if authority = Some [] \<and> path = [] \<and> query = None \<and> fragment = None then None else authority)
      \<and> u_path (Url_object_new uri) = (if path = [] then None else Some path)
      \<and> u_query (Url_object_new uri) = query
      \<and> u_fragment (Url_object_new uri) = fragment)
   \<and> (u_query (Url_object_new uri) = None
      \<or> 0 < u_query_off (Url_object_new uri)
        \<and> char_at (dStrstrip uri) (u_query_off (Url_object_new uri) - 1) = CHR ''?'')"
  using url_fields_rfc [of uri]
  by (auto simp: url_fields_def rfc_fields_def nonempty_def split: prod.splits)

text \<open>
  C2: The string of a parsed URL parses to the same URL, but for the path of a URL with an
  authority, which becomes a slash when it was empty; and printing that again gives the same
  string: the printed form is a normal form.
\<close>

theorem Url_str_reparse:
  "url_fields (Url_object_new (URL_STR (Url_object_new uri))) =
     (u_scheme (Url_object_new uri), u_authority (Url_object_new uri),
      (if u_authority (Url_object_new uri) \<noteq> None \<and> u_path (Url_object_new uri) = None
       then Some ''/'' else u_path (Url_object_new uri)),
      u_query (Url_object_new uri), u_fragment (Url_object_new uri))
   \<and> URL_STR (Url_object_new (URL_STR (Url_object_new uri))) = URL_STR (Url_object_new uri)"
proof -
  define s where "s = dStrstrip uri"
  define t where "t = rfc_print (rfc_norm (rfc_parse s))"
  have st: "dStrstrip t = t" unfolding t_def s_def by (rule strip_rfc_print_norm) simp
  have str: "URL_STR (Url_object_new uri) = t" by (simp add: url_string_parsed t_def s_def)
  have pt: "rfc_parse t = rfc_norm (rfc_parse s)"
    unfolding t_def by (rule rfc_parse_print [OF rfc_wf_norm [OF rfc_wf_parse]])
  have "rfc_norm (rfc_norm c) = rfc_norm c" for c
    by (cases c) (auto simp: rfc_norm_def)
  then have "URL_STR (Url_object_new t) = t" by (simp add: url_string_parsed st pt) (simp add: t_def)
  moreover have "url_fields (Url_object_new t) = rfc_fields t" using url_fields_rfc [of t] st by simp
  moreover have "url_fields (Url_object_new uri) = rfc_fields s" using url_fields_rfc [of uri] s_def by simp
  ultimately show ?thesis
    unfolding str using rfc_fields_norm [of s, folded t_def]
    by (cases "rfc_parse s") (auto simp: url_fields_def rfc_fields_def rfc_norm_def nonempty_def)
qed

text \<open>
  Decoding the hexadecimal form of a string gives the string back, except that a space comes
  back as the plus sign it was sent as and a newline as a carriage return and a newline.
\<close>

theorem Url_hex_roundtrip:
  "Option.bind (a_Url_encode_hex_str (Some s)) (\<lambda>e. a_Url_decode_hex_str (Some e))
     = Some (concat (map (\<lambda>c. if c = CHR '' '' then ''+''
          else if c = CHR 0x0A then [CHR 0x0D, CHR 0x0A] else [c]) s))"
proof -
  have "decode_hex_loop (concat (map encode_hex_char s)) = concat (map form_char s)"
    by (rule decode_encode)
  moreover have "a_Url_decode_hex_str (Some e) = Some (decode_hex_loop e)" for e
    by (simp add: a_Url_decode_hex_str_def strchr_None_iff decode_no_escape dStrdup_def)
  ultimately show ?thesis
    by (simp add: a_Url_encode_hex_str_def form_char_def [abs_def])
qed

end
