(* ===== verification/Url_Resolve.thy ===== *)
theory Url_Resolve
  imports Url_Parse
begin

text \<open>
  Resolution of relative references and construction of URLs, from \<^verbatim>\<open>dillo/src/url.c\<close>
  (\<open>Url_resolve_relative\<close>, \<open>a_Url_new\<close>). The \<open>Dstr\<close> buffers \<open>SolvedUrl\<close> and \<open>Path\<close> are their
  contents; pointers into \<open>Path\<close> are indices.
\<close>

section \<open>Dot segments\<close>

definition str_erase :: "string \<Rightarrow> nat \<Rightarrow> nat \<Rightarrow> string" where
  "str_erase s pos n = (if 0 < n \<and> pos + n \<le> length s then take pos s @ drop (pos + n) s else s)"

text \<open>\<open>while ((p=strstr(Path->str, "./")) && (p == Path->str || p[-1] == '/'))\<close>\<close>

function erase_dot_loop :: "string \<Rightarrow> string" where
  "erase_dot_loop path =
     (case strstr path ''./'' of
        None \<Rightarrow> path
      | Some p \<Rightarrow>
          if p = 0 \<or> char_at path (p - 1) = CHR ''/'' then erase_dot_loop (str_erase path p 2) else path)"
  by pat_completeness auto
termination
  by (relation "measure length") (auto simp: str_erase_def dest!: strstr_bound)

declare erase_dot_loop.simps [simp del]

definition erase_last_dot :: "string \<Rightarrow> string" where
  "erase_last_dot path =
     (if path \<noteq> [] \<and> last path = CHR ''.''
         \<and> (length path = 1 \<or> char_at path (length path - 2) = CHR ''/'')
      then butlast path else path)"

text \<open>\<open>for (e = p + 3 ; p > s && p[-1] != '/'; --p)\<close>\<close>

fun seg_back :: "string \<Rightarrow> nat \<Rightarrow> nat" where
  "seg_back path 0 = 0"
| "seg_back path (Suc p) = (if char_at path p \<noteq> CHR ''/'' then seg_back path p else Suc p)"

lemma seg_back_le: "seg_back path p \<le> p"
  by (induction p) auto

lemma dotdot_bound:
  assumes "strstr (drop p path) ''/..'' = Some j"
  shows "p + j + 3 \<le> length path"
  using strstr_bound [OF assms] by simp

lemma str_erase_len: "0 < n \<Longrightarrow> pos + n \<le> length s \<Longrightarrow> length (str_erase s pos n) = length s - n"
  by (simp add: str_erase_def)

text \<open>\<open>while ((p = strstr(p, "/..")) != NULL)\<close>; \<open>p\<close> is the index the search starts from.\<close>

function dotdot_loop :: "string \<Rightarrow> nat \<Rightarrow> string" where
  "dotdot_loop path p =
     (if length path < p then path else
      (case strstr (drop p path) ''/..'' of
         None \<Rightarrow> path
       | Some j \<Rightarrow>
           (let k = p + j in
            if char_at path (k + 3) = CHR ''/'' \<or> char_at path (k + 3) = NUL then
              (let p' = seg_back path k;
                   path' = str_erase path p'
                     (k + 3 - p' + (if 0 < p' \<and> char_at path (k + 3) \<noteq> NUL then 1 else 0))
               in dotdot_loop path' (if 0 < p' then p' - 1 else p'))
            else dotdot_loop path (k + 3))))"
  by pat_completeness auto

termination
proof (relation "measures [\<lambda>(path, p). length path, \<lambda>(path, p). length path - p]", goal_cases)
  case (2 path p j k p' path')
  from 2 have b: "k + 3 \<le> length path" using dotdot_bound by fastforce
  have le: "p' \<le> k" using 2 seg_back_le by simp
  have c: "char_at path (k + 3) \<noteq> NUL \<Longrightarrow> k + 3 < length path"
    by (auto simp: char_at_def split: if_splits)
  have "length path' < length path"
    using 2 b le c by (auto simp: str_erase_def)
  then show ?case by simp
next
  case (3 path p j k)
  then show ?case using dotdot_bound [of p path j] by simp
qed simp

declare dotdot_loop.simps [simp del]

section \<open>Resolution\<close>

text \<open>The part of the base path up to its last slash.\<close>

definition base_dir :: "string \<Rightarrow> string" where
  "base_dir path = (if CHR ''/'' \<in> set path then rev (dropWhile (\<lambda>c. c \<noteq> CHR ''/'') (rev path)) else path)"

text \<open>The \<open>Path\<close> buffer of the branch without scheme and authority.\<close>

definition resolve_path :: "string option \<Rightarrow> string option \<Rightarrow> string" where
  "resolve_path rel_path base_path =
     (let path0 =
        (if (case rel_path of Some r \<Rightarrow> deref r = CHR ''/'' | None \<Rightarrow> False) then []
         else (case base_path of Some b \<Rightarrow> base_dir b | None \<Rightarrow> []));
          path1 = path0 @ NPTR2STR rel_path
      in dotdot_loop (erase_last_dot (erase_dot_loop path1)) 0)"

definition resolve_step7 :: "dillo_url \<Rightarrow> dillo_url \<Rightarrow> string \<Rightarrow> string" where
  "resolve_step7 RelUrl BaseUrl Path =
     (case u_scheme BaseUrl of Some s \<Rightarrow> s @ '':'' | None \<Rightarrow> [])
   @ (case u_authority RelUrl of
        Some a \<Rightarrow> ''//'' @ a
      | None \<Rightarrow> (case u_authority BaseUrl of Some a \<Rightarrow> ''//'' @ a | None \<Rightarrow> []))
   @ (if (u_authority RelUrl \<noteq> None \<or> u_authority BaseUrl \<noteq> None)
         \<and> ((Path = [] \<and> (u_query RelUrl \<noteq> None \<or> u_fragment RelUrl \<noteq> None))
            \<or> (Path \<noteq> [] \<and> deref Path \<noteq> CHR ''/'')) then ''/'' else [])
   @ Path
   @ (case u_query RelUrl of Some q \<Rightarrow> ''?'' @ q | None \<Rightarrow> [])
   @ (case u_fragment RelUrl of Some f \<Rightarrow> ''#'' @ f | None \<Rightarrow> [])"

text \<open>The branch of a reference without scheme, authority and path.\<close>

definition resolve_same_doc :: "dillo_url \<Rightarrow> dillo_url \<Rightarrow> string \<Rightarrow> string" where
  "resolve_same_doc RelUrl BaseUrl BaseStr =
     (let s1 = (case strchr BaseStr CHR ''#'' of
                  Some p \<Rightarrow> take (length BaseStr - length p) BaseStr | None \<Rightarrow> BaseStr);
          s2 = (if u_path BaseUrl = None then s1 @ ''/'' else s1);
          s3 = (case u_query RelUrl of
                  Some q \<Rightarrow>
                    (if u_query BaseUrl \<noteq> None then take (u_query_off BaseUrl - 1) s2 else s2) @ ''?'' @ q
                | None \<Rightarrow> s2)
      in s3 @ (case u_fragment RelUrl of Some f \<Rightarrow> ''#'' @ f | None \<Rightarrow> []))"

definition Url_resolve_relative :: "string \<Rightarrow> dillo_url option \<Rightarrow> string \<Rightarrow> string" where
  "Url_resolve_relative RelStr BaseUrlPar BaseStr =
     (let RelUrl = Url_object_new RelStr;
          BaseUrl = (case BaseUrlPar of Some b \<Rightarrow> b | None \<Rightarrow> Url_object_new BaseStr)
      in if u_path RelUrl = None \<and> u_scheme RelUrl = None \<and> u_authority RelUrl = None then
           resolve_same_doc RelUrl BaseUrl BaseStr
         else if u_scheme RelUrl \<noteq> None then RelStr
         else if u_authority RelUrl \<noteq> None then
           resolve_step7 RelUrl BaseUrl (NPTR2STR (u_path RelUrl))
         else resolve_step7 RelUrl BaseUrl (resolve_path (u_path RelUrl) (u_path BaseUrl)))"

section \<open>Construction\<close>

definition count_spaces :: "string \<Rightarrow> nat" where
  "count_spaces s = length (filter (\<lambda>c. c = CHR '' '') s)"

definition count_illegal :: "string \<Rightarrow> nat" where
  "count_illegal s = length (filter (\<lambda>c. \<not> (c \<noteq> CHR '' '' \<and> 0x1F < schar c \<and> schar c < 0x7F)) s)"

definition encode_illegal_char :: "char \<Rightarrow> string" where
  "encode_illegal_char c =
     (if 0x1F < schar c \<and> schar c < 0x7F \<and> c \<noteq> CHR '' '' then [c]
      else [CHR ''%'', hex_digit (hi_nibble c), hex_digit (lo_nibble c)])"

definition encode_illegal :: "string \<Rightarrow> string" where
  "encode_illegal s = (if 0 < count_illegal s then concat (map encode_illegal_char s) else s)"

text \<open>The heuristic that makes \<open>http:\<close> the default: the reference and the base to resolve.\<close>

definition default_http :: "string \<Rightarrow> string option \<Rightarrow> string \<times> string" where
  "default_http urlstr base_url =
     (case base_url of
        Some b \<Rightarrow> (urlstr, b)
      | None \<Rightarrow>
         (if char_at urlstr 0 \<noteq> CHR ''/'' then
            (case strpbrk urlstr ''/#?:'' of
               Some p \<Rightarrow> if deref p \<noteq> CHR '':'' then ''//'' @ urlstr else urlstr
             | None \<Rightarrow> ''//'' @ urlstr)
          else if char_at urlstr 1 \<noteq> CHR ''/'' then ''/'' @ urlstr
          else urlstr, ''http:''))"

definition a_Url_new :: "string option \<Rightarrow> string option \<Rightarrow> dillo_url option" where
  "a_Url_new url_str base_url =
     (case url_str of
        None \<Rightarrow> None
      | Some s \<Rightarrow>
          (let (urlstr, base) = default_http (encode_illegal s) base_url;
               SolvedUrl = Url_resolve_relative urlstr None base
           in Some ((Url_object_new SolvedUrl)
                \<lparr>u_data := Some [], u_url_string := Some SolvedUrl,
                 u_illegal_chars := count_illegal s, u_illegal_chars_spc := count_spaces s\<rparr>)))"


section \<open>No parent segment is left\<close>

text \<open>A \<open>"/.."\<close> at index \<open>k\<close> that is a whole segment.\<close>

definition dotdot_at :: "string \<Rightarrow> nat \<Rightarrow> bool" where
  "dotdot_at path k \<longleftrightarrow> starts_with ''/..'' (drop k path)
     \<and> (char_at path (k + 3) = CHR ''/'' \<or> char_at path (k + 3) = NUL)"

lemma starts_dotdot:
  "starts_with ''/..'' (drop k path) \<longleftrightarrow>
     k + 2 < length path \<and> path ! k = CHR ''/'' \<and> path ! (k + 1) = CHR ''.'' \<and> path ! (k + 2) = CHR ''.''"
proof
  assume "starts_with ''/..'' (drop k path)"
  then obtain t where t: "drop k path = ''/..'' @ t" by (auto simp: starts_with_iff)
  then have "length path - k = 3 + length t" by (metis length_append length_drop length_Cons list.size(3) add_Suc numeral_3_eq_3 plus_nat.add_0)
  then have len: "k + 2 < length path" by simp
  have "path ! k = drop k path ! 0" "path ! (k + 1) = drop k path ! 1" "path ! (k + 2) = drop k path ! 2"
    using len by simp_all
  with t len show "k + 2 < length path \<and> path ! k = CHR ''/'' \<and> path ! (k + 1) = CHR ''.'' \<and> path ! (k + 2) = CHR ''.''"
    by simp
next
  assume a: "k + 2 < length path \<and> path ! k = CHR ''/'' \<and> path ! (k + 1) = CHR ''.'' \<and> path ! (k + 2) = CHR ''.''"
  then have "drop k path = path ! k # path ! (k + 1) # path ! (k + 2) # drop (k + 3) path"
    using Cons_nth_drop_Suc [of k path] Cons_nth_drop_Suc [of "k + 1" path]
      Cons_nth_drop_Suc [of "k + 2" path] by (simp add: numeral_3_eq_3)
  with a show "starts_with ''/..'' (drop k path)" by simp
qed

lemma dotdot_at_iff:
  "dotdot_at path k \<longleftrightarrow> k + 2 < length path \<and> path ! k = CHR ''/'' \<and> path ! (k + 1) = CHR ''.''
     \<and> path ! (k + 2) = CHR ''.'' \<and> (char_at path (k + 3) = CHR ''/'' \<or> char_at path (k + 3) = NUL)"
  by (auto simp: dotdot_at_def starts_dotdot)

lemma seg_back_slash: "0 < seg_back path p \<Longrightarrow> char_at path (seg_back path p - 1) = CHR ''/''"
  by (induction p) (auto split: if_splits)

lemma seg_back_between: "seg_back path p \<le> i \<Longrightarrow> i < p \<Longrightarrow> char_at path i \<noteq> CHR ''/''"
  by (induction p) (auto simp: less_Suc_eq split: if_splits)

lemma char_at_erase: "i < pos \<Longrightarrow> pos + n \<le> length s \<Longrightarrow> char_at (str_erase s pos n) i = char_at s i"
  by (auto simp: str_erase_def char_at_def nth_append)

text \<open>Erasing from behind a slash leaves what lies before that slash without parent segments.\<close>

lemma dotdot_at_erase:
  assumes "\<forall>j < q. \<not> dotdot_at path j" "char_at path q = CHR ''/''" "q + 1 + n \<le> length path"
    "j < q"
  shows "\<not> dotdot_at (str_erase path (q + 1) n) j"
proof
  assume "dotdot_at (str_erase path (q + 1) n) j"
  then have d: "char_at (str_erase path (q + 1) n) j = CHR ''/''"
    "char_at (str_erase path (q + 1) n) (j + 1) = CHR ''.''"
    "char_at (str_erase path (q + 1) n) (j + 2) = CHR ''.''"
    "char_at (str_erase path (q + 1) n) (j + 3) = CHR ''/'' \<or> char_at (str_erase path (q + 1) n) (j + 3) = NUL"
    by (auto simp: dotdot_at_iff char_at_def)
  note e = char_at_erase [OF _ assms(3)]
  have "j + 1 \<noteq> q" using d(2) e [of q] assms(2) by auto
  with assms(4) have "j + 2 \<le> q" by simp
  moreover have "j + 2 \<noteq> q" using d(3) e [of q] assms(2) by auto
  ultimately have lt: "j + 3 \<le> q" by simp
  then have "char_at path j = CHR ''/''" "char_at path (j + 1) = CHR ''.''" "char_at path (j + 2) = CHR ''.''"
    "char_at path (j + 3) = CHR ''/'' \<or> char_at path (j + 3) = NUL"
    using d e by simp_all
  then have "dotdot_at path j"
    using lt assms(3) by (auto simp: dotdot_at_iff char_at_def split: if_splits)
  with assms(1,4) show False by blast
qed

lemma dotdot_loop_none:
  assumes "p \<le> length path" "\<forall>j < p. \<not> dotdot_at path j"
  shows "\<not> dotdot_at (dotdot_loop path p) k"
  using assms
proof (induction path p rule: dotdot_loop.induct)
  case (1 path p)
  show ?case
  proof (cases "strstr (drop p path) ''/..''")
    case None
    have "\<not> dotdot_at path k" for k
    proof (cases "k < p")
      case False
      with strstr_None [OF None, of "k - p"] show ?thesis by (simp add: dotdot_at_def)
    qed (use "1.prems" in blast)
    with None "1.prems"(1) show ?thesis by (simp add: dotdot_loop.simps [of path p])
  next
    case (Some i)
    define q where "q = p + i"
    have s: "starts_with ''/..'' (drop q path)" "\<And>j. p \<le> j \<Longrightarrow> j < q \<Longrightarrow> \<not> starts_with ''/..'' (drop j path)"
      using strstr_Some [OF Some]
      by (auto simp: q_def add.commute) (metis add.commute le_add_diff_inverse less_diff_conv2)
    then have before: "\<forall>j < q. \<not> dotdot_at path j"
      using "1.prems"(2) by (metis dotdot_at_def not_less)
    have b: "q + 3 \<le> length path" using dotdot_bound [OF Some] by (simp add: q_def)
    have np: "\<not> length path < p" using "1.prems"(1) by simp
    show ?thesis
    proof (cases "char_at path (q + 3) = CHR ''/'' \<or> char_at path (q + 3) = NUL")
      case True
      define p' where "p' = seg_back path q"
      define n where "n = q + 3 - p' + (if 0 < p' \<and> char_at path (q + 3) \<noteq> NUL then 1 else 0)"
      have le: "p' \<le> q" by (simp add: p'_def seg_back_le)
      have "char_at path (q + 3) \<noteq> NUL \<Longrightarrow> q + 3 < length path"
        by (auto simp: char_at_def split: if_splits)
      then have fits: "p' + n \<le> length path" using b le by (auto simp: n_def)
      have step: "dotdot_loop path p = dotdot_loop (str_erase path p' n) (if 0 < p' then p' - 1 else p')"
        using Some True np by (simp add: dotdot_loop.simps [of path p] Let_def q_def p'_def n_def)
      have len: "(if 0 < p' then p' - 1 else p') \<le> length (str_erase path p' n)"
        using fits by (auto simp: str_erase_def)
      have "\<not> dotdot_at (str_erase path p' n) j" if "j < (if 0 < p' then p' - 1 else p')" for j
      proof -
        from that have pos: "0 < p'" "j < p' - 1" by (auto split: if_splits)
        with seg_back_slash [of path q] have "char_at path (p' - 1) = CHR ''/''" by (simp add: p'_def)
        with dotdot_at_erase [of "p' - 1" path n j] pos before le fits show ?thesis by simp
      qed
      then show ?thesis
        unfolding step
        using "1.IH"(1) [OF np Some q_def True p'_def] len by (simp add: n_def)
    next
      case False
      have step: "dotdot_loop path p = dotdot_loop path (q + 3)"
        using Some False np by (simp add: dotdot_loop.simps [of path p] Let_def q_def)
      have "\<not> dotdot_at path j" if "j < q + 3" for j
      proof -
        from that have "j < q \<or> j = q \<or> j = q + 1 \<or> j = q + 2" by linarith
        then show ?thesis
          using before False s(1) [unfolded starts_dotdot] by (elim disjE) (auto simp: dotdot_at_iff)
      qed
      with "1.IH"(2) [OF np Some q_def False] b step show ?thesis by simp
    qed
  qed
qed


section \<open>The path as a list of segments\<close>

text \<open>A path is its first segment and, for each further segment, a slash and the segment.\<close>

definition join_tail :: "string list \<Rightarrow> string" where
  "join_tail xs = concat (map (\<lambda>x. CHR ''/'' # x) xs)"

definition join_segs :: "string list \<Rightarrow> string" where
  "join_segs xs = tl (join_tail xs)"

definition seg :: "string \<Rightarrow> bool" where
  "seg x \<longleftrightarrow> CHR ''/'' \<notin> set x \<and> cstr x"

lemma join_tail_simps [simp]: "join_tail [] = []" "join_tail (x # xs) = CHR ''/'' # x @ join_tail xs"
  "join_tail (xs @ ys) = join_tail xs @ join_tail ys"
  by (simp_all add: join_tail_def)

lemma join_segs_Cons: "join_segs (x # xs) = x @ join_tail xs"
  by (simp add: join_segs_def)

text \<open>
  The resolution of \<open>".."\<close> on segments: each removes the segment kept last; the first segment of
  the path (empty for an absolute path) is emptied instead of removed, and a \<open>".."\<close> at the end
  leaves an empty last segment.
\<close>

fun pop_dotdot :: "string \<Rightarrow> string list \<Rightarrow> string list \<Rightarrow> string list" where
  "pop_dotdot x0 kept [] = x0 # kept"
| "pop_dotdot x0 kept (x # xs) =
     (if x \<noteq> ''..'' then pop_dotdot x0 (kept @ [x]) xs
      else if kept = [] then pop_dotdot [] [] xs
      else if xs = [] then x0 # butlast kept @ [[]]
      else pop_dotdot x0 (butlast kept) xs)"

lemma dotdot_starts: "dotdot_at path k \<Longrightarrow> starts_with ''/..'' (drop k path)"
  by (simp add: dotdot_at_def)

lemma seg_nth: "seg x \<Longrightarrow> i < length x \<Longrightarrow> x ! i \<noteq> CHR ''/''"
  unfolding seg_def by (metis nth_mem)

lemma seg_last: "seg x \<Longrightarrow> x \<noteq> [] \<Longrightarrow> last x \<noteq> CHR ''/''"
  unfolding seg_def by (metis last_in_set)

lemma slash_boundary:
  assumes "k < length (x0 @ join_tail ts)" "(x0 @ join_tail ts) ! k = CHR ''/''" "seg x0" "\<forall>t \<in> set ts. seg t"
  shows "\<exists>ts1 t ts2. ts = ts1 @ t # ts2 \<and> k = length (x0 @ join_tail ts1)"
  using assms
proof (induction ts arbitrary: x0 k)
  case Nil
  then show ?case using seg_nth [of x0 k] by simp
next
  case (Cons t ts)
  consider "k < length x0" | "k = length x0" | "length x0 < k" by linarith
  then show ?case
  proof cases
    case 1
    with Cons.prems show ?thesis using seg_nth [of x0 k] by (simp add: nth_append)
  next
    case 2
    then show ?thesis by (intro exI [of _ "[]"] exI [of _ t] exI [of _ ts]) simp
  next
    case 3
    define j where "j = k - length x0 - 1"
    have k: "k = length x0 + 1 + j" using 3 by (simp add: j_def)
    have "j < length (t @ join_tail ts)" "(t @ join_tail ts) ! j = CHR ''/''"
      using Cons.prems k by (simp_all add: nth_append)
    from Cons.IH [OF this] Cons.prems obtain ts1 t' ts2 where
      "ts = ts1 @ t' # ts2" "j = length (t @ join_tail ts1)" by auto
    with k show ?thesis by (intro exI [of _ "t # ts1"]) auto
  qed
qed

lemma cstr_join_tail: "\<forall>t \<in> set ts. seg t \<Longrightarrow> cstr (join_tail ts)"
  by (induction ts) (auto simp: seg_def)

lemma char_at_drop: "char_at (drop k s) n = char_at s (k + n)"
  by (auto simp: char_at_def)

lemma dotdot_at_split:
  assumes "cstr path"
  shows "dotdot_at path k \<longleftrightarrow> (\<exists>r. drop k path = ''/..'' @ r \<and> (r = [] \<or> hd r = CHR ''/''))"
proof -
  have "(char_at path (k + 3) = CHR ''/'' \<or> char_at path (k + 3) = NUL) \<longleftrightarrow> r = [] \<or> hd r = CHR ''/''"
    if r: "drop k path = ''/..'' @ r" for r
  proof -
    have "cstr (drop k path)" using assms by simp
    with r have "cstr r" by simp
    moreover have "char_at path (k + 3) = deref r"
      using char_at_drop [of k path 3] r by (cases r) (simp_all add: char_at_def)
    ultimately show ?thesis by (cases r) auto
  qed
  then show ?thesis unfolding dotdot_at_def starts_with_iff by blast
qed

lemma seg_prefix: "seg t \<Longrightarrow> r = [] \<or> hd r = CHR ''/'' \<Longrightarrow> takeWhile (\<lambda>c. c \<noteq> CHR ''/'') (t @ r) = t"
  using takeWhile_stop [of t "{CHR ''/''}" r] by (auto simp: seg_def)

lemma join_tail_hd: "join_tail ts = [] \<or> hd (join_tail ts) = CHR ''/''"
  by (cases ts) auto

text \<open>The parent segments are the segments that are \<open>".."\<close>.\<close>

lemma dotdot_at_segs:
  assumes "seg x0" "\<forall>t \<in> set ts. seg t" "dotdot_at (x0 @ join_tail ts) k"
  shows "\<exists>ts1 ts2. ts = ts1 @ ''..'' # ts2 \<and> k = length (x0 @ join_tail ts1)"
proof -
  let ?s = "x0 @ join_tail ts"
  obtain ts1 t ts2 where t: "ts = ts1 @ t # ts2" "k = length (x0 @ join_tail ts1)"
    using slash_boundary [of k x0 ts] assms(3) [unfolded dotdot_at_iff] assms(1,2) by auto
  have "cstr ?s" using assms(1) cstr_join_tail [OF assms(2)] by (simp add: seg_def)
  with assms(3) obtain r where r: "drop k ?s = ''/..'' @ r" "r = [] \<or> hd r = CHR ''/''"
    by (auto simp: dotdot_at_split)
  have "t @ join_tail ts2 = ''..'' @ r" using t r by simp
  moreover have "seg t" "seg ''..''" using assms(2) t by (auto simp: seg_def)
  ultimately have "t = ''..''"
    using seg_prefix [of t "join_tail ts2"] seg_prefix [of "''..''" r] r(2) join_tail_hd by metis
  with t show ?thesis by blast
qed

lemma dotdot_at_seg:
  assumes "seg x0" "\<forall>t \<in> set ts1. seg t" "\<forall>t \<in> set ts2. seg t"
  shows "dotdot_at (x0 @ join_tail (ts1 @ ''..'' # ts2)) (length (x0 @ join_tail ts1))"
proof -
  have "cstr (x0 @ join_tail (ts1 @ ''..'' # ts2))"
    using assms cstr_join_tail [of ts1] cstr_join_tail [of ts2] by (auto simp: seg_def)
  then show ?thesis using join_tail_hd [of ts2] by (auto simp: dotdot_at_split)
qed

section \<open>The loop on segments\<close>

lemma strstr_dotdot_first:
  assumes "strstr (drop p path) ''/..'' = Some j" "\<forall>i. p \<le> i \<and> i < k \<longrightarrow> \<not> dotdot_at path i"
    "dotdot_at path k" "p \<le> k"
  shows "p + j \<le> k" "p + j < k \<Longrightarrow> p + j + 3 \<le> k \<and> \<not> dotdot_at path (p + j)"
proof -
  note s = strstr_Some [OF assms(1)]
  have "starts_with ''/..'' (drop (k - p) (drop p path))"
    using assms(3,4) dotdot_starts by simp
  with s show le: "p + j \<le> k" by (metis assms(4) le_diff_conv2 linorder_le_less_linear add.commute)
  assume lt: "p + j < k"
  have "starts_with ''/..'' (drop (p + j) path)" using s by (simp add: add.commute)
  then have "path ! (p + j + 1) = CHR ''.''" "path ! (p + j + 2) = CHR ''.''"
    unfolding starts_dotdot by auto
  with assms(3) have "k \<noteq> p + j + 1" "k \<noteq> p + j + 2" by (auto simp: dotdot_at_iff)
  with lt have "p + j + 3 \<le> k" by linarith
  with assms(2) lt show "p + j + 3 \<le> k \<and> \<not> dotdot_at path (p + j)" by simp
qed

lemma dotdot_loop_skip:
  assumes "\<forall>i. p \<le> i \<and> i < k \<longrightarrow> \<not> dotdot_at path i" "dotdot_at path k" "p \<le> k"
  shows "dotdot_loop path p = dotdot_loop path k"
  using assms
proof (induction "k - p" arbitrary: p rule: less_induct)
  case less
  have kl: "k < length path" using less.prems(2) by (simp add: dotdot_at_iff)
  show ?case
  proof (cases "p = k")
    case False
    have "starts_with ''/..'' (drop (k - p) (drop p path))"
      using less.prems dotdot_starts by simp
    then obtain j where j: "strstr (drop p path) ''/..'' = Some j"
      using strstr_None [of "drop p path" "''/..''" "k - p"] by fastforce
    note f = strstr_dotdot_first [OF j less.prems]
    show ?thesis
    proof (cases "p + j = k")
      case True
      have "strstr (drop k path) ''/..'' = Some 0"
        using dotdot_starts [OF less.prems(2)] by (cases "drop k path") auto
      then show ?thesis
        using j True kl less.prems(3) by (simp add: dotdot_loop.simps [of path p] dotdot_loop.simps [of path k] Let_def)
    next
      case neq: False
      with f have g: "p + j + 3 \<le> k" "\<not> dotdot_at path (p + j)" by auto
      have "starts_with ''/..'' (drop (p + j) path)" using strstr_Some [OF j] by (simp add: add.commute)
      with g(2) have "dotdot_loop path p = dotdot_loop path (p + j + 3)"
        using j kl less.prems(3) by (auto simp: dotdot_loop.simps [of path p] Let_def dotdot_at_def)
      also have "\<dots> = dotdot_loop path k" by (rule less.hyps) (use g less.prems in auto)
      finally show ?thesis .
    qed
  qed simp
qed

lemma dotdot_loop_done:
  assumes "\<forall>i. p \<le> i \<longrightarrow> \<not> dotdot_at path i"
  shows "dotdot_loop path p = path"
  using assms
proof (induction path p rule: dotdot_loop.induct)
  case (1 path p)
  show ?case
  proof (cases "length path < p \<or> strstr (drop p path) ''/..'' = None")
    case True
    then show ?thesis by (auto simp: dotdot_loop.simps [of path p])
  next
    case False
    then obtain j where j: "strstr (drop p path) ''/..'' = Some j" and l: "\<not> length path < p" by auto
    have "starts_with ''/..'' (drop (p + j) path)" using strstr_Some [OF j] by (simp add: add.commute)
    with "1.prems" have n: "\<not> (char_at path (p + j + 3) = CHR ''/'' \<or> char_at path (p + j + 3) = NUL)"
      by (metis dotdot_at_def le_add1)
    with j l have "dotdot_loop path p = dotdot_loop path (p + j + 3)"
      by (simp add: dotdot_loop.simps [of path p] Let_def)
    with "1.IH"(2) [OF l j refl n] "1.prems" show ?thesis by simp
  qed
qed


lemma seg_back_join:
  assumes "seg z"
  shows "seg_back (a @ CHR ''/'' # z @ r) (length a + 1 + length z) = length a + 1"
proof -
  have "seg_back (a @ CHR ''/'' # z @ r) (length a + 1 + n) = length a + 1" if "n \<le> length z" for n
    using that
  proof (induction n)
    case (Suc n)
    have "char_at (a @ CHR ''/'' # z @ r) (length a + 1 + n) = z ! n"
      using Suc.prems by (simp add: char_at_def nth_append)
    moreover have "z ! n \<noteq> CHR ''/''" using Suc.prems assms by (simp add: seg_nth)
    ultimately show ?case using Suc by simp
  qed (simp add: char_at_def)
  then show ?thesis by simp
qed

lemma seg_back_first: "seg x0 \<Longrightarrow> seg_back (x0 @ r) (length x0) = 0"
proof -
  assume s: "seg x0"
  have "seg_back (x0 @ r) n = 0" if "n \<le> length x0" for n
    using that
  proof (induction n)
    case (Suc n)
    have "x0 ! n \<noteq> CHR ''/''" using Suc.prems s by (simp add: seg_nth)
    with Suc show ?case by (simp add: char_at_def nth_append)
  qed simp
  then show ?thesis by simp
qed

text \<open>One round at a parent segment.\<close>

lemma dotdot_loop_at:
  assumes "dotdot_at path k"
  shows "dotdot_loop path k =
    (let p' = seg_back path k
     in dotdot_loop (str_erase path p' (k + 3 - p' + (if 0 < p' \<and> char_at path (k + 3) \<noteq> NUL then 1 else 0)))
          (if 0 < p' then p' - 1 else p'))"
proof -
  have "strstr (drop k path) ''/..'' = Some 0"
    using dotdot_starts [OF assms] by (cases "drop k path") auto
  moreover have "k < length path" using assms by (simp add: dotdot_at_iff)
  ultimately show ?thesis
    using assms by (simp add: dotdot_loop.simps [of path k] Let_def dotdot_at_def)
qed

lemma dotdot_loop_segs:
  assumes "seg x0" "\<forall>t \<in> set kept. seg t" "\<forall>t \<in> set xs. seg t" "''..'' \<notin> set kept"
    "p \<le> length (x0 @ join_tail kept)"
  shows "dotdot_loop (x0 @ join_tail kept @ join_tail xs) p = join_segs (pop_dotdot x0 kept xs)"
  using assms
proof (induction x0 kept xs arbitrary: p rule: pop_dotdot.induct)
  case (1 x0 kept)
  have "\<not> dotdot_at (x0 @ join_tail kept) i" for i
    using dotdot_at_segs [of x0 kept i] "1.prems" by auto
  then show ?case by (simp add: dotdot_loop_done join_segs_Cons)
next
  case (2 x0 kept x xs)
  let ?path = "x0 @ join_tail kept @ join_tail (x # xs)"
  let ?k = "length (x0 @ join_tail kept)"
  show ?case
  proof (cases "x = ''..''")
    case False
    have "dotdot_loop (x0 @ join_tail (kept @ [x]) @ join_tail xs) p = join_segs (pop_dotdot x0 (kept @ [x]) xs)"
      by (rule "2.IH"(1)) (use False "2.prems" in auto)
    with False show ?thesis by simp
  next
    case True
    have at: "dotdot_at ?path ?k"
      using dotdot_at_seg [of x0 kept xs] "2.prems" True by simp
    have before: "\<forall>i. p \<le> i \<and> i < ?k \<longrightarrow> \<not> dotdot_at ?path i"
    proof (intro allI impI notI)
      fix i
      assume i: "p \<le> i \<and> i < ?k" "dotdot_at ?path i"
      have "?path = x0 @ join_tail (kept @ x # xs)" by simp
      with dotdot_at_segs [of x0 "kept @ x # xs" i] i(2) "2.prems" obtain t1 t2 where
        t: "kept @ x # xs = t1 @ ''..'' # t2" "i = length (x0 @ join_tail t1)" by auto
      from t(1) have "(\<exists>u. kept = t1 @ ''..'' # u) \<or> (\<exists>u. t1 = kept @ u)"
        by (auto simp: append_eq_append_conv2 Cons_eq_append_conv append_eq_Cons_conv)
      then show False using "2.prems"(4) i(1) t(2) by (elim disjE exE) auto
    qed
    have skip: "dotdot_loop ?path p = dotdot_loop ?path ?k"
      by (rule dotdot_loop_skip [OF before at]) (use "2.prems" in simp)
    show ?thesis
    proof (cases kept rule: rev_cases)
      case Nil
      have sb: "seg_back ?path ?k = 0" using seg_back_first [OF "2.prems"(1)] Nil by simp
      have "str_erase ?path 0 (?k + 3) = join_tail xs"
        using Nil True by (simp add: str_erase_def)
      with sb have "dotdot_loop ?path ?k = dotdot_loop (join_tail xs) 0"
        unfolding dotdot_loop_at [OF at] by (simp add: Let_def)
      moreover have "dotdot_loop ([] @ join_tail [] @ join_tail xs) 0 = join_segs (pop_dotdot [] [] xs)"
        by (rule "2.IH"(2)) (use True Nil "2.prems" in \<open>auto simp: seg_def\<close>)
      ultimately show ?thesis using skip True Nil by simp
    next
      case (snoc kept' z)
      define a where "a = x0 @ join_tail kept'"
      have path: "?path = a @ CHR ''/'' # z @ ''/..'' @ join_tail xs"
        using True snoc by (simp add: a_def)
      have k: "?k = length a + 1 + length z" using snoc by (simp add: a_def)
      have sb: "seg_back ?path ?k = length a + 1"
        unfolding path k by (rule seg_back_join) (use "2.prems" snoc in auto)
      have c3: "char_at ?path (?k + 3) = NUL \<longleftrightarrow> xs = []"
        unfolding path k by (cases xs) (simp_all add: char_at_def nth_append)
      have e: "?k + 3 - (length a + 1) = length z + 3" using k by simp
      have r: "dotdot_loop ?path ?k = dotdot_loop (str_erase ?path (length a + 1)
          (length z + 3 + (if xs = [] then 0 else 1))) (length a)"
        unfolding dotdot_loop_at [OF at] Let_def sb e c3 by simp
      show ?thesis
      proof (cases "xs = []")
        case True
        have "str_erase ?path (length a + 1) (length z + 3) = a @ ''/''"
          unfolding path using True by (simp add: str_erase_def)
        then have "dotdot_loop ?path ?k = dotdot_loop (a @ ''/'') (length a)"
          unfolding r using True by simp
        also have "\<dots> = a @ ''/''"
        proof (rule dotdot_loop_done, intro allI impI)
          fix i
          show "\<not> dotdot_at (a @ ''/'') i"
            using dotdot_at_segs [of x0 "kept' @ [[]]" i] "2.prems" snoc
            by (auto simp: a_def seg_def append_eq_Cons_conv append_eq_append_conv2 Cons_eq_append_conv)
        qed
        finally show ?thesis using skip True \<open>x = ''..''\<close> snoc by (simp add: join_segs_Cons a_def)
      next
        case False
        then obtain y ys where xs: "xs = y # ys" by (cases xs) auto
        have "str_erase ?path (length a + 1) (length z + 4) = a @ join_tail xs"
          unfolding path by (simp add: xs str_erase_def eval_nat_numeral)
        then have "dotdot_loop ?path ?k = dotdot_loop (a @ join_tail xs) (length a)"
          unfolding r using False by (simp add: add.commute)
        moreover have "dotdot_loop (x0 @ join_tail (butlast kept) @ join_tail xs) (length a)
            = join_segs (pop_dotdot x0 (butlast kept) xs)"
          by (rule "2.IH"(3)) (use True False snoc "2.prems" in \<open>auto simp: a_def\<close>)
        ultimately show ?thesis using skip True False snoc by (simp add: a_def)
      qed
    qed
  qed
qed


section \<open>The single dots on segments\<close>

text \<open>
  The loop that erases \<open>"."\<close> segments stops at the first segment that ends in a full stop and
  is not \<open>"."\<close>; in particular at the first \<open>".."\<close>.
\<close>

fun drop_dots :: "string list \<Rightarrow> string list" where
  "drop_dots [] = []"
| "drop_dots [x] = [x]"
| "drop_dots (x # y # ys) =
     (if x = ''.'' then drop_dots (y # ys)
      else if x \<noteq> [] \<and> last x = CHR ''.'' then x # y # ys
      else x # drop_dots (y # ys))"

definition blank_last_dot :: "string list \<Rightarrow> string list" where
  "blank_last_dot xs = (if xs \<noteq> [] \<and> last xs = ''.'' then butlast xs @ [[]] else xs)"

definition no_end_dot :: "string \<Rightarrow> bool" where
  "no_end_dot x \<longleftrightarrow> seg x \<and> (x = [] \<or> last x \<noteq> CHR ''.'')"

text \<open>Segments each followed by a slash.\<close>

definition join_pre :: "string list \<Rightarrow> string" where
  "join_pre xs = concat (map (\<lambda>x. x @ ''/'') xs)"

lemma join_pre_simps [simp]: "join_pre [] = []" "join_pre (x # xs) = x @ CHR ''/'' # join_pre xs"
  "join_pre (xs @ ys) = join_pre xs @ join_pre ys"
  by (simp_all add: join_pre_def)

lemma join_segs_pre: "ys \<noteq> [] \<Longrightarrow> join_segs (xs @ ys) = join_pre xs @ join_segs ys"
proof (induction xs)
  case (Cons x xs)
  then obtain z zs where z: "xs @ ys = z # zs" by (cases "xs @ ys") auto
  have "join_segs (x # xs @ ys) = x @ CHR ''/'' # join_segs (xs @ ys)"
    by (simp add: z join_segs_Cons)
  with Cons show ?case by simp
qed simp

lemma join_segs_snoc: "join_segs (pre @ [x]) = join_pre pre @ x"
  by (simp add: join_segs_pre) (simp add: join_segs_Cons)

lemma strstr_skip_seg:
  assumes "seg x" "x = [] \<or> last x \<noteq> CHR ''.''"
  shows "strstr (x @ CHR ''/'' # r) ''./'' = map_option (\<lambda>i. i + length x + 1) (strstr r ''./'')"
  using assms
proof (induction x)
  case Nil
  then show ?case by (simp add: comp_def)
next
  case (Cons c x)
  have "\<not> starts_with ''./'' (c # x @ CHR ''/'' # r)"
    using Cons.prems by (cases x) (auto simp: seg_def)
  moreover have "seg x" "x = [] \<or> last x \<noteq> CHR ''.''" using Cons.prems by (auto simp: seg_def)
  ultimately show ?case using Cons.IH by (auto simp: option.map_comp comp_def)
qed

lemma strstr_skip:
  "\<forall>x \<in> set pre. no_end_dot x \<Longrightarrow>
     strstr (join_pre pre @ r) ''./'' = map_option (\<lambda>i. i + length (join_pre pre)) (strstr r ''./'')"
  by (induction pre) (auto simp: strstr_skip_seg no_end_dot_def option.map_comp option.map_ident comp_def ac_simps)

lemma strstr_end_dot:
  assumes "seg x" "x \<noteq> []" "last x = CHR ''.''"
  shows "strstr (x @ CHR ''/'' # r) ''./'' = Some (length x - 1)"
  using assms
proof (induction x)
  case (Cons c x)
  then show ?case by (cases x) (auto simp: seg_def)
qed simp

lemma strstr_seg: "seg x \<Longrightarrow> strstr x ''./'' = None"
proof (induction x)
  case (Cons c x)
  then show ?case by (cases x) (auto simp: seg_def)
qed simp

lemma char_at_last: "p \<noteq> [] \<Longrightarrow> char_at (p @ r) (length p - 1) = last p"
  by (cases p rule: rev_cases) (auto simp: char_at_def nth_append)

lemma join_pre_last: "join_pre pre \<noteq> [] \<Longrightarrow> last (join_pre pre) = CHR ''/''"
  by (induction pre) auto

lemma drop_dots_not_Nil: "xs \<noteq> [] \<Longrightarrow> drop_dots xs \<noteq> []"
  by (induction xs rule: drop_dots.induct) auto

lemma erase_dot_loop_segs:
  assumes "\<forall>x \<in> set pre. no_end_dot x" "\<forall>x \<in> set xs. seg x" "xs \<noteq> []"
  shows "erase_dot_loop (join_pre pre @ join_segs xs) = join_pre pre @ join_segs (drop_dots xs)"
  using assms
proof (induction xs arbitrary: pre rule: drop_dots.induct)
  case (2 x)
  then have "strstr (join_pre pre @ join_segs [x]) ''./'' = None"
    by (simp add: strstr_skip strstr_seg join_segs_Cons)
  then show ?case by (simp add: erase_dot_loop.simps [of "join_pre pre @ join_segs [x]"])
next
  case (3 x y ys)
  let ?s = "join_pre pre @ join_segs (x # y # ys)"
  have s: "?s = join_pre pre @ x @ CHR ''/'' # join_segs (y # ys)" by (simp add: join_segs_Cons)
  consider (dot) "x = ''.''" | (stop) "x \<noteq> ''.''" "x \<noteq> []" "last x = CHR ''.''"
    | (keep) "x \<noteq> ''.''" "x = [] \<or> last x \<noteq> CHR ''.''" by blast
  then show ?case
  proof cases
    case dot
    have f: "strstr ?s ''./'' = Some (length (join_pre pre))"
      unfolding s using "3.prems"(1) dot by (simp add: strstr_skip)
    have "length (join_pre pre) = 0 \<or> char_at ?s (length (join_pre pre) - 1) = CHR ''/''"
      using join_pre_last [of pre] char_at_last [of "join_pre pre"] by auto
    then have "erase_dot_loop ?s = erase_dot_loop (str_erase ?s (length (join_pre pre)) 2)"
      using f by (simp add: erase_dot_loop.simps [of ?s])
    also have "str_erase ?s (length (join_pre pre)) 2 = join_pre pre @ join_segs (y # ys)"
      unfolding s using dot by (simp add: str_erase_def)
    finally show ?thesis using "3.IH"(1) [OF dot, of pre] "3.prems" dot by simp
  next
    case stop
    have f: "strstr ?s ''./'' = Some (length (join_pre pre) + (length x - 1))"
      unfolding s using "3.prems" stop by (simp add: strstr_skip strstr_end_dot)
    obtain z where z: "x = z @ ''.''" using stop by (metis append_butlast_last_id)
    with stop(1) have zn: "z \<noteq> []" by simp
    have "seg z" using "3.prems"(2) z by (simp add: seg_def)
    then have "last z \<noteq> CHR ''/''" using zn by (rule seg_last)
    moreover have "char_at ?s (length (join_pre pre) + (length x - 1) - 1) = last z"
      unfolding s using z zn by (cases z rule: rev_cases) (auto simp: char_at_def nth_append)
    ultimately have nc: "\<not> (length (join_pre pre) + (length x - 1) = 0
        \<or> char_at ?s (length (join_pre pre) + (length x - 1) - 1) = CHR ''/'')"
      using z zn by simp
    have "erase_dot_loop ?s = ?s"
      by (subst erase_dot_loop.simps) (simp only: f option.case nc if_False)
    with stop show ?thesis by simp
  next
    case keep
    have "no_end_dot x" using keep "3.prems"(2) by (simp add: no_end_dot_def)
    then have "erase_dot_loop (join_pre (pre @ [x]) @ join_segs (y # ys))
        = join_pre (pre @ [x]) @ join_segs (drop_dots (y # ys))"
      by (intro "3.IH"(2)) (use keep "3.prems" in auto)
    moreover have "drop_dots (y # ys) \<noteq> []" by (simp add: drop_dots_not_Nil del: drop_dots.simps)
    moreover have "drop_dots (x # y # ys) = x # drop_dots (y # ys)" using keep by auto
    ultimately show ?thesis using s join_segs_pre [of "drop_dots (y # ys)" "[x]"]
      by (simp del: drop_dots.simps)
  qed
qed simp


lemma set_drop_dots: "set (drop_dots xs) \<subseteq> set xs"
  by (induction xs rule: drop_dots.induct) auto

lemma erase_last_dot_segs:
  assumes "\<forall>x \<in> set xs. seg x" "xs \<noteq> []"
  shows "erase_last_dot (join_segs xs) = join_segs (blank_last_dot xs)"
proof -
  obtain pre x where xs: "xs = pre @ [x]" using assms(2) by (cases xs rule: rev_cases) auto
  have sx: "seg x" using assms(1) xs by simp
  have pl: "char_at (join_pre pre @ r) (length (join_pre pre) - 1) = CHR ''/''" if "join_pre pre \<noteq> []" for r
    using join_pre_last [OF that] char_at_last [OF that] by simp
  show ?thesis
  proof (cases "x = ''.''")
    case True
    have "length (join_pre pre) = 0 \<or> char_at (join_pre pre @ ''.'') (length (join_pre pre) - 1) = CHR ''/''"
      using pl by auto
    then show ?thesis using True by (auto simp: erase_last_dot_def join_segs_snoc blank_last_dot_def xs butlast_append)
  next
    case False
    have "\<not> (last (join_pre pre @ x) = CHR ''.'' \<and> (length (join_pre pre @ x) = 1
        \<or> char_at (join_pre pre @ x) (length (join_pre pre @ x) - 2) = CHR ''/''))" if "join_pre pre @ x \<noteq> []"
    proof (cases x rule: rev_cases)
      case Nil
      with that join_pre_last [of pre] show ?thesis by simp
    next
      case (snoc z c)
      with False have zc: "c = CHR ''.'' \<Longrightarrow> z \<noteq> []" by auto
      show ?thesis
      proof
        assume a: "last (join_pre pre @ x) = CHR ''.'' \<and> (length (join_pre pre @ x) = 1
          \<or> char_at (join_pre pre @ x) (length (join_pre pre @ x) - 2) = CHR ''/'')"
        with snoc have "c = CHR ''.''" by simp
        with zc have z: "z \<noteq> []" by simp
        have "char_at (join_pre pre @ x) (length (join_pre pre @ x) - 2) = last z"
          using char_at_last [of "join_pre pre @ z" "[c]"] z snoc by simp
        moreover have "last z \<noteq> CHR ''/''" using sx snoc by (intro seg_last z) (simp add: seg_def)
        moreover have "length (join_pre pre @ x) \<noteq> 1" using snoc z by (cases z) auto
        ultimately show False using a by simp
      qed
    qed
    then show ?thesis using False by (auto simp: erase_last_dot_def join_segs_snoc blank_last_dot_def xs)
  qed
qed

lemma set_blank_last_dot: "set (blank_last_dot xs) \<subseteq> insert [] (set xs)"
  by (auto simp: blank_last_dot_def dest: in_set_butlastD)

lemma blank_last_dot_not_Nil: "xs \<noteq> [] \<Longrightarrow> blank_last_dot xs \<noteq> []"
  by (auto simp: blank_last_dot_def)

text \<open>The three passes over the path, as operations on its segments.\<close>

definition resolve_segs :: "string list \<Rightarrow> string list" where
  "resolve_segs xs = (let ys = blank_last_dot (drop_dots xs) in pop_dotdot (hd ys) [] (tl ys))"

lemma dot_passes_segs:
  assumes "\<forall>x \<in> set xs. seg x" "xs \<noteq> []"
  shows "dotdot_loop (erase_last_dot (erase_dot_loop (join_segs xs))) 0 = join_segs (resolve_segs xs)"
proof -
  define ys where "ys = blank_last_dot (drop_dots xs)"
  have d: "\<forall>x \<in> set (drop_dots xs). seg x" "drop_dots xs \<noteq> []"
    using assms set_drop_dots drop_dots_not_Nil by blast+
  have "erase_last_dot (erase_dot_loop (join_segs xs)) = join_segs ys"
    using erase_dot_loop_segs [of "[]" xs] erase_last_dot_segs [OF d] assms by (simp add: ys_def)
  moreover have y: "ys \<noteq> []" "\<forall>y \<in> set ys. seg y"
    using d set_blank_last_dot [of "drop_dots xs"] blank_last_dot_not_Nil by (auto simp: ys_def seg_def)
  then obtain z zs where z: "ys = z # zs" by (cases ys) auto
  have "dotdot_loop (z @ join_tail [] @ join_tail zs) 0 = join_segs (pop_dotdot z [] zs)"
    by (rule dotdot_loop_segs) (use y z in auto)
  ultimately show ?thesis
    by (simp add: resolve_segs_def ys_def [symmetric] z join_segs_Cons)
qed

text \<open>Every path is the join of its segments.\<close>

fun split_segs :: "string \<Rightarrow> string list" where
  "split_segs [] = [[]]"
| "split_segs (c # s) =
     (if c = CHR ''/'' then [] # split_segs s
      else (case split_segs s of [] \<Rightarrow> [[c]] | x # xs \<Rightarrow> (c # x) # xs))"

lemma split_segs_not_Nil [simp]: "split_segs s \<noteq> []"
  by (induction s) (auto split: list.splits)

lemma join_split_segs: "join_segs (split_segs s) = s"
proof (induction s)
  case (Cons c s)
  then show ?case by (cases "split_segs s") (auto simp: join_segs_Cons)
qed (simp add: join_segs_def)

lemma seg_split_segs: "cstr s \<Longrightarrow> x \<in> set (split_segs s) \<Longrightarrow> seg x"
proof (induction s arbitrary: x)
  case (Cons c s)
  then show ?case by (cases "split_segs s") (fastforce simp: seg_def split: if_splits)+
qed (simp add: seg_def)


lemma resolve_path_join:
  assumes "cstr (NPTR2STR rel_path)" "cstr (NPTR2STR base_path)"
  shows "resolve_path rel_path base_path =
    join_segs (resolve_segs (split_segs
      (if deref (NPTR2STR rel_path) = CHR ''/'' then NPTR2STR rel_path
       else base_dir (NPTR2STR base_path) @ NPTR2STR rel_path)))"
proof -
  let ?p = "if deref (NPTR2STR rel_path) = CHR ''/'' then NPTR2STR rel_path
       else base_dir (NPTR2STR base_path) @ NPTR2STR rel_path"
  have "set (base_dir s) \<subseteq> set s" for s
    by (auto simp: base_dir_def dest: set_dropWhileD)
  then have "cstr ?p" using assms by (auto simp: cstr_def)
  then have "\<forall>x \<in> set (split_segs ?p). seg x" using seg_split_segs by blast
  from dot_passes_segs [OF this] have
    "dotdot_loop (erase_last_dot (erase_dot_loop ?p)) 0 = join_segs (resolve_segs (split_segs ?p))"
    by (simp add: join_split_segs)
  moreover have "(if (case rel_path of Some r \<Rightarrow> deref r = CHR ''/'' | None \<Rightarrow> False) then []
      else (case base_path of Some b \<Rightarrow> base_dir b | None \<Rightarrow> [])) @ NPTR2STR rel_path = ?p"
    by (auto simp: NPTR2STR_def base_dir_def split: option.splits)
  ultimately show ?thesis by (simp only: resolve_path_def Let_def)
qed

lemma split_join_segs:
  "xs \<noteq> [] \<Longrightarrow> \<forall>x \<in> set xs. CHR ''/'' \<notin> set x \<Longrightarrow> split_segs (join_segs xs) = xs"
proof (induction xs)
  case (Cons x xs)
  have t: "split_segs (join_tail xs) = (if xs = [] then [[]] else [] # xs)"
  proof (cases xs)
    case (Cons y ys)
    then show ?thesis using Cons.IH Cons.prems(2) by (simp add: join_segs_Cons)
  qed simp
  have "split_segs (w @ join_tail xs) = w # xs" if "CHR ''/'' \<notin> set w" for w
    using that by (induction w) (auto simp: t)
  then show ?case using Cons.prems(2) by (simp add: join_segs_Cons)
qed simp

text \<open>Where a parent segment may be left.\<close>

lemma pop_dotdot_tl: "''..'' \<notin> set kept \<Longrightarrow> ''..'' \<notin> set (tl (pop_dotdot x0 kept xs))"
  by (induction x0 kept xs rule: pop_dotdot.induct) (auto dest: in_set_butlastD)

lemma pop_dotdot_hd: "hd (pop_dotdot x0 kept xs) \<in> {x0, []} \<and> pop_dotdot x0 kept xs \<noteq> []"
  by (induction x0 kept xs rule: pop_dotdot.induct) auto

lemma set_pop_dotdot: "set (pop_dotdot x0 kept xs) \<subseteq> {x0, []} \<union> set kept \<union> set xs"
  by (induction x0 kept xs rule: pop_dotdot.induct) (auto dest: in_set_butlastD)

lemma resolve_segs_parent:
  assumes "xs \<noteq> []"
  shows "resolve_segs xs \<noteq> []" "''..'' \<notin> set (tl (resolve_segs xs))" "set (resolve_segs xs) \<subseteq> insert [] (set xs)"
    "hd (resolve_segs xs) \<in> {hd (drop_dots xs), []}"
proof -
  let ?ys = "blank_last_dot (drop_dots xs)"
  have hb: "hd (butlast zs) = hd zs" if "butlast zs \<noteq> []" for zs :: "string list"
    using that by (cases zs) (auto split: if_splits)
  have y: "?ys \<noteq> []" "set ?ys \<subseteq> insert [] (set xs)" "hd ?ys \<in> {hd (drop_dots xs), []}"
    using blank_last_dot_not_Nil drop_dots_not_Nil [OF assms] set_blank_last_dot [of "drop_dots xs"] set_drop_dots [of xs]
    by (auto simp: blank_last_dot_def hd_append hb)
  show "resolve_segs xs \<noteq> []" "''..'' \<notin> set (tl (resolve_segs xs))"
    using pop_dotdot_hd pop_dotdot_tl [of "[]"] by (simp_all add: resolve_segs_def Let_def)
  have "set (tl ?ys) \<subseteq> set ?ys" "hd ?ys \<in> set ?ys" using y(1) by (auto dest: list.set_sel(2))
  then show "set (resolve_segs xs) \<subseteq> insert [] (set xs)"
    using set_pop_dotdot [of "hd ?ys" "[]" "tl ?ys"] y(2) by (auto simp: resolve_segs_def Let_def)
  show "hd (resolve_segs xs) \<in> {hd (drop_dots xs), []}"
    using pop_dotdot_hd [of "hd ?ys" "[]" "tl ?ys"] y(3) by (auto simp: resolve_segs_def Let_def)
qed

section \<open>Properties\<close>

text \<open>
  C3: The path of a relative reference is resolved segment by segment. With the segments of the
  base path up to its last slash followed by the reference (or of the reference alone when it is
  absolute), the character loops compute: the \<open>"."\<close> segments before the first segment that ends
  in a full stop (and is not \<open>"."\<close>) are dropped, a last \<open>"."\<close> is emptied, and each \<open>".."\<close>
  removes the segment kept before it, the first segment of the path being emptied instead.
\<close>

theorem resolve_path_segments:
  assumes "cstr (NPTR2STR rel_path)" "cstr (NPTR2STR base_path)"
  shows "resolve_path rel_path base_path =
    join_segs (resolve_segs (split_segs
      (if deref (NPTR2STR rel_path) = CHR ''/'' then NPTR2STR rel_path
       else base_dir (NPTR2STR base_path) @ NPTR2STR rel_path)))"
  by (rule resolve_path_join [OF assms])

lemma resolve_path_segments_witness:
  "resolve_path (Some ''../c/./d'') (Some ''/a/b/x'') = ''/a/c/./d''"
  using resolve_path_segments [of "Some ''../c/./d''" "Some ''/a/b/x''"]
  by (simp add: NPTR2STR_def base_dir_def resolve_segs_def blank_last_dot_def join_segs_def join_tail_def)



text \<open>The leading segment that is kept is seen when the base has no path.\<close>

lemma resolve_keeps_leading_parent: "Url_resolve_relative ''../x'' None ''http://h'' = ''http://h/../x''"
  by code_simp

end
