(* ===== verification/Url_Host.thy ===== *)
theory Url_Host
  imports Url_Parse
begin

text \<open>
  Host names and organizations: \<open>Url_host_is_ip\<close>, \<open>Url_host_public_internal_dots\<close>,
  \<open>Url_host_find_public_suffix\<close> and \<open>a_Url_same_organization\<close> of \<^verbatim>\<open>dillo/src/url.c\<close>. A host is a
  nullable C string, pointers into it are indices.
\<close>

definition Url_host_is_ip :: "string option \<Rightarrow> bool" where
  "Url_host_is_ip host =
     (case host of
        None \<Rightarrow> False
      | Some h \<Rightarrow> h \<noteq> []
          \<and> (length h = strspn h ''0123456789.''
             \<or> strchr h CHR '':'' \<noteq> None \<and> length h = strspn h ''0123456789abcdefABCDEF:.''))"

text \<open>\<open>while (start > 0 && host[start - 1] != '.') start--\<close>\<close>

fun label_start :: "string \<Rightarrow> nat \<Rightarrow> nat" where
  "label_start host 0 = 0"
| "label_start host (Suc start) =
     (if char_at host start \<noteq> CHR ''.'' then label_start host start else Suc start)"

definition tlds :: "string list" where
  "tlds = [''bd'',''bn'',''ck'',''cy'',''er'',''fj'',''fk'',''gu'',''il'',''jm'',''ke'',''kh'',''kw'',
     ''mm'',''mz'',''ni'',''np'',''pg'',''ye'',''za'',''zm'',''zw'']"

definition Url_host_public_internal_dots :: "string option \<Rightarrow> nat" where
  "Url_host_public_internal_dots host =
     (case host of
        None \<Rightarrow> 1
      | Some h \<Rightarrow>
          (let after = length h;
               after = (if 0 < after \<and> char_at h (after - 1) = CHR ''.'' then after - 1 else after);
               start = label_start h after;
               tld_len = after - start
           in if 0 < tld_len \<and> list_ex (\<lambda>tld. length tld = tld_len
                  \<and> dStrnAsciiCasecmp tld (drop start h) tld_len = 0) tlds
              then 2 else 1))"

text \<open>The loop over the host from its end: the final \<open>s\<close>.\<close>

fun suffix_loop :: "string \<Rightarrow> nat \<Rightarrow> nat \<Rightarrow> nat" where
  "suffix_loop host 0 dots = 0"
| "suffix_loop host (Suc s) dots =
     (if char_at host s = CHR ''.''
      then (case dots of 0 \<Rightarrow> Suc s | Suc d \<Rightarrow> suffix_loop host s d)
      else suffix_loop host s dots)"

definition suffix_init :: "string \<Rightarrow> nat" where
  "suffix_init h =
     (let s = length h - 1 in if 0 < s \<and> char_at h s = CHR ''.'' then s - 1 else s)"

definition Url_host_find_public_suffix :: "string option \<Rightarrow> string option" where
  "Url_host_find_public_suffix host =
     (case host of
        None \<Rightarrow> None
      | Some h \<Rightarrow>
          if h = [] \<or> Url_host_is_ip (Some h) then Some h
          else Some (drop (suffix_loop h (suffix_init h) (Url_host_public_internal_dots (Some h))) h))"

definition a_Url_same_organization :: "dillo_url option \<Rightarrow> dillo_url option \<Rightarrow> bool" where
  "a_Url_same_organization u1 u2 =
     (case (u1, u2) of
        (Some v1, Some v2) \<Rightarrow>
          dStrAsciiCasecmp (NPTR2STR (Url_host_find_public_suffix (Some (URL_HOST v1))))
            (NPTR2STR (Url_host_find_public_suffix (Some (URL_HOST v2)))) = 0
      | _ \<Rightarrow> False)"

section \<open>The suffix\<close>

definition dots_in :: "string \<Rightarrow> nat" where
  "dots_in s = length (filter (\<lambda>c. c = CHR ''.'') s)"

lemma dots_in_append [simp]: "dots_in (s @ t) = dots_in s + dots_in t"
  by (simp add: dots_in_def)

lemma suffix_loop_le: "suffix_loop h s d \<le> s"
  by (induction h s d rule: suffix_loop.induct) (auto split: nat.split)

text \<open>The loop stops at the leftmost position with at most \<open>d\<close> dots between it and the start.\<close>

lemma suffix_loop_spec:
  "s < length h \<Longrightarrow> dots_in (drop (suffix_loop h s d) (take s h)) \<le> d
     \<and> (0 < suffix_loop h s d \<longrightarrow> dots_in (drop (suffix_loop h s d) (take s h)) = d
          \<and> char_at h (suffix_loop h s d - 1) = CHR ''.'')"
proof (induction h s d rule: suffix_loop.induct)
  case (2 h s d)
  have t: "drop (suffix_loop h s e) (take (Suc s) h) = drop (suffix_loop h s e) (take s h) @ [h ! s]" for e
    using suffix_loop_le [of h s e] "2.prems" by (simp add: take_Suc_conv_app_nth)
  show ?case
    using 2 t by (cases d) (auto simp: dots_in_def char_at_def)
qed (simp add: dots_in_def)

lemma suffix_loop_prefix:
  "d \<le> dots_in (take s h) \<Longrightarrow> s < length h \<Longrightarrow>
     suffix_loop (x @ CHR ''.'' # h) (length x + 1 + s) d = length x + 1 + suffix_loop h s d"
proof (induction h s d rule: suffix_loop.induct)
  case (1 h d)
  then show ?case by (simp add: dots_in_def char_at_def)
next
  case (2 h s d)
  have t: "take (Suc s) h = take s h @ [h ! s]" using "2.prems" by (simp add: take_Suc_conv_app_nth)
  have c: "char_at (x @ CHR ''.'' # h) (length x + 1 + s) = char_at h s"
    using "2.prems" by (simp add: char_at_def nth_append)
  show ?case
  proof (cases "char_at h s = CHR ''.''")
    case True
    then have "d \<le> dots_in (take s h) + 1" using "2.prems" t by (simp add: dots_in_def char_at_def split: if_splits)
    then show ?thesis using True "2.IH"(1) c "2.prems"(2) by (cases d) auto
  next
    case False
    then have "d \<le> dots_in (take s h)" using "2.prems" t by (simp add: dots_in_def char_at_def split: if_splits)
    then show ?thesis using False "2.IH"(2) c "2.prems"(2) by simp
  qed
qed

lemma label_start_prefix:
  "n \<le> length h \<Longrightarrow> label_start (x @ CHR ''.'' # h) (length x + 1 + n) = length x + 1 + label_start h n"
proof (induction n)
  case (Suc n)
  have "char_at (x @ CHR ''.'' # h) (length x + 1 + n) = char_at h n"
    using Suc.prems(1) by (simp add: char_at_def nth_append)
  then show ?case using Suc by simp
qed (simp add: char_at_def)

lemma label_start_le: "label_start h n \<le> n"
  by (induction n) auto


lemma char_at_prefix: "char_at (x @ c # h) (length x + 1 + n) = char_at h n"
  by (simp add: char_at_def nth_append)

lemma char_at_end: "h \<noteq> [] \<Longrightarrow> char_at (x @ CHR ''.'' # h) (length (x @ CHR ''.'' # h) - 1) = char_at h (length h - 1)"
  using char_at_prefix [of x "CHR ''.''" h "length h - 1"] by (cases h) simp_all

lemma internal_dots_prefix:
  assumes "h \<noteq> []"
  shows "Url_host_public_internal_dots (Some (x @ CHR ''.'' # h)) = Url_host_public_internal_dots (Some h)"
proof -
  let ?g = "x @ CHR ''.'' # h"
  define n where "n = (if char_at h (length h - 1) = CHR ''.'' then length h - 1 else length h)"
  have l: "char_at ?g (length ?g - 1) = char_at h (length h - 1)"
    by (rule char_at_end [OF assms])
  have n: "(if 0 < length h \<and> char_at h (length h - 1) = CHR ''.'' then length h - 1 else length h) = n"
    using assms by (simp add: n_def)
  have g: "(if 0 < length ?g \<and> char_at ?g (length ?g - 1) = CHR ''.'' then length ?g - 1 else length ?g)
      = length x + 1 + n"
    using assms unfolding l by (simp add: n_def)
  have "n \<le> length h" by (simp add: n_def)
  note s = label_start_prefix [OF this, of x]
  have d: "drop (length x + 1 + label_start h n) ?g = drop (label_start h n) h" by simp
  show ?thesis unfolding Url_host_public_internal_dots_def option.case Let_def n g s d by simp
qed

lemma not_ip_prefix:
  assumes "\<not> Url_host_is_ip (Some h)" "h \<noteq> []" "CHR '':'' \<notin> set x"
  shows "\<not> Url_host_is_ip (Some (x @ CHR ''.'' # h))"
proof -
  have "length (x @ CHR ''.'' # h) = strspn (x @ CHR ''.'' # h) acc \<longrightarrow> length h = strspn h acc" for acc
    unfolding strspn_all by simp
  moreover have "strchr (x @ CHR ''.'' # h) CHR '':'' \<noteq> None \<longrightarrow> strchr h CHR '':'' \<noteq> None"
    using assms(3) by (simp add: strchr_None_iff)
  ultimately show ?thesis using assms(1,2) unfolding Url_host_is_ip_def option.case by blast
qed

lemma public_suffix_prefix:
  assumes "\<not> Url_host_is_ip (Some h)" "h \<noteq> []" "CHR '':'' \<notin> set x"
    "Url_host_public_internal_dots (Some h) \<le> dots_in (take (suffix_init h) h)"
  shows "Url_host_find_public_suffix (Some (x @ CHR ''.'' # h)) = Url_host_find_public_suffix (Some h)"
proof -
  let ?g = "x @ CHR ''.'' # h"
  have lt: "suffix_init h < length h" using assms(2) by (auto simp: suffix_init_def Let_def)
  have "1 \<le> Url_host_public_internal_dots (Some h)"
    by (simp add: Url_host_public_internal_dots_def Let_def)
  with assms(4) have "0 < dots_in (take (suffix_init h) h)" by simp
  then have "0 < suffix_init h" by (cases "suffix_init h") (simp_all add: dots_in_def)
  then have two: "2 \<le> length h" "0 < length h - 1"
    by (auto simp: suffix_init_def Let_def split: if_splits)
  have "char_at ?g (length ?g - 1) = char_at h (length h - 1)"
    by (rule char_at_end [OF assms(2)])
  moreover have "length ?g - 1 = length x + 1 + (length h - 1)" using two by simp
  ultimately have i: "suffix_init ?g = length x + 1 + suffix_init h"
    using two by (simp add: suffix_init_def Let_def del: length_append) arith
  note s = suffix_loop_prefix [OF assms(4) lt, of x]
  show ?thesis
    using not_ip_prefix [OF assms(1-3)] assms(1,2)
    unfolding Url_host_find_public_suffix_def option.case internal_dots_prefix [OF assms(2)] i s
    by simp
qed


text \<open>Putting labels before a host that has all labels of an organization changes nothing.\<close>

lemma same_organization_subdomain:
  assumes "URL_HOST u = x @ CHR ''.'' # URL_HOST v" "CHR '':'' \<notin> set x"
    "\<not> Url_host_is_ip (Some (URL_HOST v))" "URL_HOST v \<noteq> []"
    "Url_host_public_internal_dots (Some (URL_HOST v)) \<le> dots_in (take (suffix_init (URL_HOST v)) (URL_HOST v))"
  shows "a_Url_same_organization (Some u) (Some v) \<and> a_Url_same_organization (Some v) (Some u)"
  using public_suffix_prefix [OF assms(3,4,2,5)] assms(1)
  by (simp add: a_Url_same_organization_def)

section \<open>Labels\<close>

text \<open>The organization of a host, on its labels: an address is one of its own, and a name belongs to its last
  two labels, or its last three when the last one is a registry that only gives names below its
  second level. A dot at the end is kept.\<close>

fun labels :: "string \<Rightarrow> string list" where
  "labels [] = [[]]"
| "labels (c # s) =
     (if c = CHR ''.'' then [] # labels s
      else (case labels s of [] \<Rightarrow> [[c]] | l # ls \<Rightarrow> (c # l) # ls))"

fun join_labels :: "string list \<Rightarrow> string" where
  "join_labels [] = []"
| "join_labels [l] = l"
| "join_labels (l # ls) = l @ CHR ''.'' # join_labels ls"

definition undot :: "string \<Rightarrow> string" where
  "undot h = (if h \<noteq> [] \<and> last h = CHR ''.'' then butlast h else h)"

text \<open>Bangladesh, Brunei, the Cook Islands, Cyprus, Eritrea, Fiji, the Falkland Islands, Guam, Israel, Jamaica,
  Kenya, Cambodia, Kuwait, Myanmar, Mozambique, Nicaragua, Nepal, Papua New Guinea, Yemen, South
  Africa, Zambia and Zimbabwe.\<close>

definition second_level :: "string set" where
  "second_level = {''bd'', ''bn'', ''ck'', ''cy'', ''er'', ''fj'', ''fk'', ''gu'', ''il'', ''jm'', ''ke'', ''kh'',
     ''kw'', ''mm'', ''mz'', ''ni'', ''np'', ''pg'', ''ye'', ''za'', ''zm'', ''zw''}"

definition organization_labels :: "string list \<Rightarrow> nat" where
  "organization_labels ls = (if map tolow (last ls) \<in> map tolow ` second_level then 3 else 2)"

definition organization :: "string \<Rightarrow> string" where
  "organization h =
     (if h = [] \<or> Url_host_is_ip (Some h) then h
      else (let ls = labels (undot h)
            in join_labels (drop (length ls - organization_labels ls) ls) @ (if last h = CHR ''.'' then ''.'' else [])))"

text \<open>A host is an address or a name that has a last label, which may be followed by one dot.\<close>

definition host_form :: "string \<Rightarrow> bool" where
  "host_form h \<longleftrightarrow> cstr h \<and> (h = [] \<or> Url_host_is_ip (Some h) \<or> last (labels (undot h)) \<noteq> [])"

lemma undot_dot: "h \<noteq> [] \<Longrightarrow> h = undot h @ (if last h = CHR ''.'' then ''.'' else [])"
  unfolding undot_def by (cases h rule: rev_cases) simp_all

lemma labels_not_Nil [simp]: "labels s \<noteq> []"
  by (induction s) (auto split: list.splits)

lemma join_labels_Cons: "ls \<noteq> [] \<Longrightarrow> join_labels (l # ls) = l @ CHR ''.'' # join_labels ls"
  by (cases ls) auto

lemma join_labels_append: "xs \<noteq> [] \<Longrightarrow> ys \<noteq> [] \<Longrightarrow> join_labels (xs @ ys) = join_labels xs @ CHR ''.'' # join_labels ys"
  by (induction xs rule: join_labels.induct) (auto simp: join_labels_Cons)

lemma join_labels_labels: "join_labels (labels s) = s"
proof (induction s)
  case (Cons c s)
  show ?case
  proof (cases "c = CHR ''.''")
    case True
    then show ?thesis using Cons by (simp add: join_labels_Cons)
  next
    case False
    obtain l ls where l: "labels s = l # ls" by (cases "labels s") auto
    then show ?thesis using False Cons by (cases ls) auto
  qed
qed simp

lemma labels_dotfree: "l \<in> set (labels s) \<Longrightarrow> CHR ''.'' \<notin> set l"
proof (induction s arbitrary: l)
  case (Cons c s)
  then show ?case by (cases "labels s") (auto split: if_splits)
qed simp

lemma dots_in_join:
  assumes "\<forall>l \<in> set ls. CHR ''.'' \<notin> set l"
  shows "dots_in (join_labels ls) = length ls - 1"
proof -
  have z: "dots_in l = 0" if "CHR ''.'' \<notin> set l" for l using that by (auto simp: dots_in_def filter_empty_conv)
  show ?thesis using assms
  proof (induction ls rule: join_labels.induct)
    case (3 l m ls)
    then have "dots_in (join_labels (m # ls)) = length ls" "dots_in l = 0" using z by simp_all
    then show ?case by (simp add: dots_in_def)
  next
    case (2 l)
    then show ?case by (simp add: z)
  qed (simp add: dots_in_def)
qed

lemma last_join:
  assumes "ls \<noteq> []" "last ls \<noteq> []"
  shows "join_labels ls \<noteq> [] \<and> last (join_labels ls) = last (last ls)"
  using assms by (induction ls rule: join_labels.induct) auto

lemma dots_in_butlast: "s \<noteq> [] \<Longrightarrow> last s \<noteq> CHR ''.'' \<Longrightarrow> dots_in (butlast s) = dots_in s"
  using dots_in_append [of "butlast s" "[last s]"] by (simp add: dots_in_def)

lemma dots_in_drop: "r \<le> length s \<Longrightarrow> 0 < r \<Longrightarrow> s ! (r - 1) = CHR ''.'' \<Longrightarrow> dots_in (drop r s) < dots_in s"
proof -
  assume r: "r \<le> length s" "0 < r" "s ! (r - 1) = CHR ''.''"
  have "take r s = take (r - 1) s @ [s ! (r - 1)]" using r take_Suc_conv_app_nth [of "r - 1" s] by simp
  then have "s = take (r - 1) s @ [CHR ''.''] @ drop r s" using r(3) append_take_drop_id [of r s] by simp
  from arg_cong [OF this, of dots_in] have "dots_in s = dots_in (take (r - 1) s) + (dots_in ''.'' + dots_in (drop r s))"
    by (simp only: dots_in_append)
  then show ?thesis by (simp add: dots_in_def)
qed

lemma dots_in_position:
  assumes "dots_in (drop r s) = dots_in (drop q s)" "0 < r" "r \<le> length s" "s ! (r - 1) = CHR ''.''"
    and "0 < q" "q \<le> length s" "s ! (q - 1) = CHR ''.''"
  shows "r = q"
proof -
  have lt: "dots_in (drop b s) < dots_in (drop a s)" if "a < b" "b \<le> length s" "s ! (b - 1) = CHR ''.''" for a b
    using dots_in_drop [of "b - a" "drop a s"] that by simp
  show ?thesis using lt [of r q] lt [of q r] assms by (cases r q rule: linorder_cases) auto
qed

lemma label_start_last:
  assumes "CHR ''.'' \<notin> set l" "p = [] \<or> last p = CHR ''.''"
  shows "label_start (p @ l @ t) (length p + length l) = length p"
  using assms(1)
proof (induction l arbitrary: t rule: rev_induct)
  case Nil
  then show ?case using assms(2) by (cases p rule: rev_cases) (auto simp: char_at_def nth_append)
next
  case (snoc c l)
  have "char_at (p @ (l @ [c]) @ t) (length p + length l) = c" by (simp add: char_at_def nth_append)
  then show ?case using snoc.IH [of "c # t"] snoc.prems by auto
qed

text \<open>A host name, with its last label \<open>l\<close> and the dot that may end it.\<close>

lemma internal_dots_labels:
  assumes "cstr h" "h \<noteq> []" "last (labels (undot h)) \<noteq> []"
  shows "Url_host_public_internal_dots (Some h) + 1 = organization_labels (labels (undot h))"
proof -
  let ?g = "undot h" and ?ls = "labels (undot h)"
  define l where "l = last ?ls"
  define p where "p = (if butlast ?ls = [] then [] else join_labels (butlast ?ls) @ ''.'')"
  define t where "t = (if last h = CHR ''.'' then ''.'' else [])"
  have ls: "?ls = butlast ?ls @ [l]" by (simp add: l_def)
  have "?g = join_labels (butlast ?ls @ [l])" using join_labels_labels [of ?g] ls by simp
  then have g: "?g = p @ l" by (cases "butlast ?ls = []") (simp_all add: p_def join_labels_append)
  have "h = undot h @ t" unfolding t_def by (rule undot_dot [OF assms(2)])
  then have h: "h = p @ l @ t" by (simp only: g append_assoc)
  have lf: "CHR ''.'' \<notin> set l" unfolding l_def by (rule labels_dotfree [of _ ?g]) simp
  have after: "(if 0 < length h \<and> char_at h (length h - 1) = CHR ''.'' then length h - 1 else length h) = length p + length l"
  proof -
    have "char_at h (length h - 1) = last h" using assms(2) by (simp add: char_at_def last_conv_nth)
    moreover have "length h = length p + length l + length t" using arg_cong [OF h, of length] by simp
    moreover have "length t = (if last h = CHR ''.'' then 1 else 0)" by (simp add: t_def)
    ultimately show ?thesis using assms(2) by simp
  qed
  have start: "label_start h (length p + length l) = length p"
    unfolding h by (rule label_start_last [OF lf]) (simp add: p_def)
  have cl: "cstr l" "cstr (l @ t)" using assms(1) h by (auto simp: cstr_def)
  have tld: "length m = length l \<and> dStrnAsciiCasecmp m (l @ t) (length l) = 0 \<longleftrightarrow> map tolow m = map tolow l"
    if "m \<in> set tlds" for m
  proof -
    have "cstr m" using that by (auto simp: tlds_def cstr_def)
    note c = casecmpn_eq_0 [OF this cl(2), of "length l"]
    show ?thesis
    proof (cases "length m = length l")
      case False
      then show ?thesis using map_eq_imp_length_eq by blast
    qed (simp add: c)
  qed
  have "set tlds = second_level" by (simp add: tlds_def second_level_def)
  then have ex: "list_ex (\<lambda>m. length m = length l \<and> dStrnAsciiCasecmp m (l @ t) (length l) = 0) tlds
      \<longleftrightarrow> map tolow l \<in> map tolow ` second_level"
    using tld by (auto simp: list_ex_iff image_iff) metis+
  have d: "drop (length p) h = l @ t" by (simp add: h)
  have pos: "0 < length p + length l - length p" using assms(3) by (simp add: l_def)
  show ?thesis
    unfolding Url_host_public_internal_dots_def option.case Let_def after start d
    using pos ex by (simp add: organization_labels_def l_def [symmetric])
qed

lemma suffix_loop_labels:
  assumes "cstr h" "h \<noteq> []" "last (labels (undot h)) \<noteq> []"
  shows "drop (suffix_loop h (suffix_init h) d) h =
     join_labels (drop (length (labels (undot h)) - (d + 1)) (labels (undot h))) @ (if last h = CHR ''.'' then ''.'' else [])"
proof -
  define g where "g = undot h"
  define ls where "ls = labels g"
  define t where "t = (if last h = CHR ''.'' then ''.'' else [])"
  have gj: "join_labels ls = g" by (simp add: ls_def join_labels_labels)
  have free: "\<forall>l \<in> set ls. CHR ''.'' \<notin> set l" using labels_dotfree by (auto simp: ls_def)
  have ne: "ls \<noteq> []" "last ls \<noteq> []" using assms(3) by (simp_all add: ls_def g_def)
  have gl: "g \<noteq> []" "last g \<noteq> CHR ''.''"
    using last_join [OF ne] gj free ne last_in_set [OF ne(2)] by (auto, metis last_in_set)
  have h: "h = g @ t" unfolding g_def t_def by (rule undot_dot [OF assms(2)])
  have init: "suffix_init h = length g - 1"
  proof (cases "last h = CHR ''.''")
    case True
    then have "t = ''.''" by (simp add: t_def)
    with h have "h = g @ ''.''" by (simp only:)
    then show ?thesis using gl(1) by (simp add: suffix_init_def char_at_def nth_append)
  next
    case False
    then have "t = []" by (simp add: t_def)
    with h have "h = g" by (simp only: append_Nil2)
    moreover have "char_at g (length g - 1) = last g" using gl(1) by (simp add: char_at_def last_conv_nth)
    ultimately show ?thesis using gl by (simp add: suffix_init_def)
  qed
  define s where "s = butlast g"
  define r where "r = suffix_loop h (length g - 1) d"
  have s: "take (length g - 1) h = s" using gl(1) by (simp add: h s_def butlast_conv_take)
  have sl: "length s = length g - 1" by (simp add: s_def)
  have r: "r \<le> length s" using suffix_loop_le [of h "length g - 1" d] by (simp add: r_def sl)
  have "length g - 1 < length h" using gl(1) h by (cases g) auto
  note spec = suffix_loop_spec [OF this, of d, folded r_def, unfolded s]
  have at: "s ! (r - 1) = CHR ''.''" if "0 < r"
  proof -
    have "r - 1 < length s" using r that by simp
    then have "char_at h (r - 1) = g ! (r - 1)" "s ! (r - 1) = g ! (r - 1)"
      using sl by (auto simp: h char_at_def nth_append s_def nth_butlast)
    with spec that show ?thesis by simp
  qed
  have ds: "dots_in s = length ls - 1"
    using dots_in_butlast [OF gl] dots_in_join [OF free] gj by (simp add: s_def)
  show ?thesis
  proof (cases "length ls \<le> d + 1")
    case True
    have "r = 0"
    proof (rule ccontr)
      assume "r \<noteq> 0"
      then have "dots_in (drop r s) = d" "dots_in (drop r s) < dots_in s" using spec dots_in_drop [OF r] at by auto
      then show False using ds True by simp
    qed
    then show ?thesis using True h gj unfolding init r_def [symmetric] g_def [symmetric] ls_def [symmetric] t_def [symmetric]
      by simp
  next
    case False
    define pre where "pre = take (length ls - (d + 1)) ls"
    define post where "post = drop (length ls - (d + 1)) ls"
    have pp: "pre \<noteq> []" "post \<noteq> []" "ls = pre @ post" "length post = d + 1" "last post = last ls"
      using False ne(1) by (simp_all add: pre_def post_def last_drop)
    define q where "q = length (join_labels pre) + 1"
    have gq: "g = join_labels pre @ CHR ''.'' # join_labels post" using join_labels_append [OF pp(1,2)] gj pp(3) by simp
    have lp: "join_labels post \<noteq> []" "last (join_labels post) \<noteq> CHR ''.''"
      using last_join [OF pp(2)] gl(2) gq ne(2) pp(5) by auto
    have sq: "s = join_labels pre @ CHR ''.'' # butlast (join_labels post)" using lp by (simp add: s_def gq butlast_append)
    have "dots_in (drop q s) = dots_in (butlast (join_labels post))" by (simp add: q_def sq)
    also have "\<dots> = d" using dots_in_butlast [OF lp] dots_in_join [of post] free pp by auto
    finally have dq: "dots_in (drop q s) = d" .
    have q: "0 < q" "q \<le> length s" "s ! (q - 1) = CHR ''.''" by (simp_all add: q_def sq)
    have r0: "0 < r"
    proof (rule ccontr)
      assume "\<not> 0 < r"
      then show False using spec dots_in_drop [OF q(2,1,3)] dq by simp
    qed
    have "r = q" by (rule dots_in_position [OF _ r0 r at [OF r0] q]) (use spec r0 dq in simp)
    then have "drop r h = join_labels post @ t" by (simp add: h gq q_def)
    then show ?thesis unfolding init r_def [symmetric] g_def [symmetric] ls_def [symmetric] t_def [symmetric] post_def [symmetric]
      by simp
  qed
qed

lemma public_suffix_organization:
  assumes "host_form h"
  shows "Url_host_find_public_suffix (Some h) = Some (organization h)"
proof (cases "h = [] \<or> Url_host_is_ip (Some h)")
  case True
  then show ?thesis by (auto simp: Url_host_find_public_suffix_def organization_def)
next
  case False
  then have l: "cstr h" "h \<noteq> []" "last (labels (undot h)) \<noteq> []" using assms by (auto simp: host_form_def)
  have "organization_labels (labels (undot h)) = Url_host_public_internal_dots (Some h) + 1"
    using internal_dots_labels [OF l] by simp
  then show ?thesis
    using False suffix_loop_labels [OF l, of "Url_host_public_internal_dots (Some h)"]
    by (simp add: Url_host_find_public_suffix_def organization_def Let_def)
qed

section \<open>Properties\<close>

text \<open>
  C5: Two URLs are of the same organization exactly when the organizations of their hosts are the same
  but for case: that of an address (or of no host) is the host itself, that of a name its last two
  labels, or its last three when the last is one of the 22 registries that only give names below their second level; a
  name with fewer labels is its own organization. Hosts that end in an empty label (two dots, or only a
  dot) are excluded.
\<close>

theorem same_organization_iff:
  assumes "host_form (URL_HOST u)" "host_form (URL_HOST v)"
  shows "a_Url_same_organization (Some u) (Some v) \<longleftrightarrow>
     map tolow (organization (URL_HOST u)) = map tolow (organization (URL_HOST v))"
proof -
  have "cstr (organization h)" if "host_form h" for h
  proof -
    have "set (organization h) \<subseteq> set h"
      using public_suffix_organization [OF that, symmetric] set_drop_subset
      by (simp add: Url_host_find_public_suffix_def split: if_splits)
    then show ?thesis using that by (auto simp: host_form_def cstr_def)
  qed
  from casecmp_eq_0 [OF this [OF assms(1)] this [OF assms(2)]] show ?thesis
    by (simp add: a_Url_same_organization_def public_suffix_organization assms NPTR2STR_def)
qed

lemma same_organization_iff_witness:
  "a_Url_same_organization (Some (url_zero\<lparr>u_authority := Some ''a.www.bar.co.za''\<rparr>)) (Some (url_zero\<lparr>u_authority := Some ''BAR.co.za''\<rparr>))
   \<and> \<not> a_Url_same_organization (Some (url_zero\<lparr>u_authority := Some ''foo.co.za''\<rparr>)) (Some (url_zero\<lparr>u_authority := Some ''bar.co.za''\<rparr>))
   \<and> a_Url_same_organization (Some (url_zero\<lparr>u_authority := Some ''foo.co.nz''\<rparr>)) (Some (url_zero\<lparr>u_authority := Some ''bar.co.nz''\<rparr>))
   \<and> \<not> a_Url_same_organization (Some (url_zero\<lparr>u_authority := Some ''a.localhost''\<rparr>)) (Some (url_zero\<lparr>u_authority := Some ''localhost''\<rparr>))"
proof -
  have h: "URL_HOST (url_zero\<lparr>u_authority := Some s\<rparr>) = s" if "CHR '':'' \<notin> set s" "CHR ''['' \<notin> set s" "s \<noteq> []" for s
  proof -
    note h = that
    obtain c t where s: "s = c # t" "c \<noteq> CHR ''[''" using h(2,3) by (cases s) auto
    have "strchr s CHR '':'' = None" using h(1) strchr_None_iff by simp
    then show ?thesis using s(2) unfolding s(1) by (simp add: URL_HOST_def a_Url_hostname_def url_zero_def NPTR2STR_def)
  qed
  let ?hs = "[''a.www.bar.co.za'', ''BAR.co.za'', ''foo.co.za'', ''bar.co.za'', ''foo.co.nz'', ''bar.co.nz'', ''a.localhost'', ''localhost'']"
  have f: "\<forall>s \<in> set ?hs. host_form s" by code_simp
  have "map tolow (organization ''a.www.bar.co.za'') = map tolow (organization ''BAR.co.za'')"
    "map tolow (organization ''foo.co.za'') \<noteq> map tolow (organization ''bar.co.za'')"
    "map tolow (organization ''foo.co.nz'') = map tolow (organization ''bar.co.nz'')"
    "map tolow (organization ''a.localhost'') \<noteq> map tolow (organization ''localhost'')"
    by code_simp+
  then show ?thesis using f by (simp add: same_organization_iff h)
qed

end
