(* ===== verification/Domain.thy ===== *)
theory Domain
  imports Url_Host
begin

text \<open>
  The domain rules of \<^verbatim>\<open>dillo/src/domain.c\<close>: the table of exceptions and the default action (the
  static variables of the file) as a record, the parser of \<^verbatim>\<open>domainrc\<close> and the decision.
  Messages are not modelled.
\<close>

record rule =
  r_origin :: string
  r_destination :: string

record domain_state =
  d_exceptions :: "rule list"
  d_default_deny :: bool

definition domain_init :: domain_state where
  "domain_init = \<lparr>d_exceptions = [], d_default_deny = False\<rparr>"

section \<open>Parsing\<close>

text \<open>The body of the loop for one line.\<close>

definition domain_line :: "domain_state \<Rightarrow> string \<Rightarrow> domain_state" where
  "domain_line st line0 =
     (let line = dStrstrip line0 in
      if line \<noteq> [] \<and> deref line \<noteq> CHR ''#'' then
        (let delim = [CHR '' '', CHR 0x09];
             (tok1, rest1) = strtok line delim;
             (tok2, rest2) = strtok rest1 delim
         in case (tok1, tok2) of
              (Some t1, Some t2) \<Rightarrow>
                if dStrAsciiCasecmp t1 ''default'' = 0 then
                  (if dStrAsciiCasecmp t2 ''deny'' = 0 then st\<lparr>d_default_deny := True\<rparr>
                   else if dStrAsciiCasecmp t2 ''accept'' = 0 then st\<lparr>d_default_deny := False\<rparr>
                   else st)
                else st\<lparr>d_exceptions := d_exceptions st @ [\<lparr>r_origin = t1, r_destination = t2\<rparr>]\<rparr>
            | _ \<Rightarrow> st)
      else st)"

function a_Domain_parse :: "domain_state \<Rightarrow> string \<Rightarrow> domain_state option" where
  "a_Domain_parse st fp =
     (case dGetline fp of
        None \<Rightarrow> None
      | Some (None, rest) \<Rightarrow> Some st
      | Some (Some line, rest) \<Rightarrow> a_Domain_parse (domain_line st line) rest)"
  by pat_completeness auto
termination
proof (relation "measure (\<lambda>(st, fp). length fp)", goal_cases)
  case (2 st fp p o' rest line)
  then show ?case using dGetline_cases [of fp] by auto
qed simp

declare a_Domain_parse.simps [simp del]

section \<open>Matching and the decision\<close>

definition Domain_match :: "string \<Rightarrow> string \<Rightarrow> bool" where
  "Domain_match host pattern =
     (let cmp = strcmp pattern ''*'';
          cmp' =
            (if cmp \<noteq> 0 then
               (if deref pattern \<noteq> CHR ''.'' then dStrAsciiCasecmp host pattern
                else
                  (let diff = int (length host) - int (length pattern) in
                   if diff = -1 then dStrAsciiCasecmp host (drop 1 pattern)
                   else if 0 \<le> diff then dStrAsciiCasecmp (drop (nat diff) host) pattern
                   else cmp))
             else cmp)
      in cmp' = 0)"

fun first_match :: "rule list \<Rightarrow> string \<Rightarrow> string \<Rightarrow> bool \<Rightarrow> bool \<Rightarrow> bool" where
  "first_match [] source_host dest_host default_deny ret = ret"
| "first_match (r # rs) source_host dest_host default_deny ret =
     (if Domain_match source_host (r_origin r) \<and> Domain_match dest_host (r_destination r)
      then default_deny else first_match rs source_host dest_host default_deny ret)"

definition a_Domain_permit :: "domain_state \<Rightarrow> dillo_url \<Rightarrow> dillo_url \<Rightarrow> bool" where
  "a_Domain_permit st source dest =
     (if d_default_deny st = False \<and> length (d_exceptions st) = 0 then True
      else
        (let source_host = URL_HOST source; dest_host = URL_HOST dest in
         if deref dest_host = NUL then
           deref source_host = NUL \<or> dStrAsciiCasecmp (NPTR2STR (u_scheme dest)) ''data'' = 0
         else if a_Url_same_organization (Some source) (Some dest) then True
         else first_match (d_exceptions st) source_host dest_host (d_default_deny st)
                (\<not> d_default_deny st)))"

section \<open>What the patterns mean\<close>

definition ieq :: "string \<Rightarrow> string \<Rightarrow> bool" where
  "ieq s t \<longleftrightarrow> map tolow s = map tolow t"

text \<open>The three forms of patterns, as the comment before the function describes them.\<close>

definition pattern_matches :: "string \<Rightarrow> string \<Rightarrow> bool" where
  "pattern_matches host pattern \<longleftrightarrow>
     pattern = ''*''
     \<or> deref pattern \<noteq> CHR ''.'' \<and> ieq host pattern
     \<or> deref pattern = CHR ''.''
       \<and> (ieq host (tl pattern) \<or> (\<exists>sub dom. host = sub @ dom \<and> ieq dom pattern))"

lemma ieq_length: "ieq s t \<Longrightarrow> length s = length t"
  unfolding ieq_def by (metis length_map)

lemma Domain_match_iff:
  assumes "cstr host" "cstr pattern"
  shows "Domain_match host pattern \<longleftrightarrow> pattern_matches host pattern"
proof -
  have star: "strcmp pattern ''*'' = 0 \<longleftrightarrow> pattern = ''*''" using assms(2) by (simp add: strcmp_eq_0)
  have ci: "dStrAsciiCasecmp s t = 0 \<longleftrightarrow> ieq s t" if "cstr s" "cstr t" for s t
    using casecmp_eq_0 [OF that] by (simp add: ieq_def)
  have suffix: "(\<exists>sub dom. host = sub @ dom \<and> ieq dom pattern) \<longleftrightarrow>
      length pattern \<le> length host \<and> ieq (drop (length host - length pattern) host) pattern"
  proof
    assume "\<exists>sub dom. host = sub @ dom \<and> ieq dom pattern"
    then obtain sub dom where "host = sub @ dom" "ieq dom pattern" by blast
    with ieq_length [of dom pattern] show "length pattern \<le> length host
        \<and> ieq (drop (length host - length pattern) host) pattern" by simp
  next
    assume "length pattern \<le> length host \<and> ieq (drop (length host - length pattern) host) pattern"
    then show "\<exists>sub dom. host = sub @ dom \<and> ieq dom pattern"
      by (metis append_take_drop_id)
  qed
  have nodot: "deref pattern = CHR ''.'' \<Longrightarrow> length host \<noteq> length pattern - 1 \<Longrightarrow> \<not> ieq host (tl pattern)"
    using ieq_length [of host "tl pattern"] by auto
  have dl: "deref pattern = CHR ''.'' \<Longrightarrow> drop 1 pattern = tl pattern \<and> 0 < length pattern"
    by (cases pattern) auto
  show ?thesis
  proof (cases "pattern = ''*''")
    case True
    then show ?thesis by (simp add: Domain_match_def pattern_matches_def)
  next
    case False
    then have "strcmp pattern ''*'' \<noteq> 0" using star by simp
    note m = Domain_match_def [of host pattern] this
    show ?thesis
    proof (cases "deref pattern = CHR ''.''")
      case dot: True
      consider "length host + 1 = length pattern" | "length pattern \<le> length host"
        | "length host + 1 < length pattern" by linarith
      then show ?thesis
      proof cases
        case 1
        then have "int (length host) - int (length pattern) = -1" by simp
        with m dot False dl suffix 1 assms show ?thesis
          by (auto simp: pattern_matches_def Let_def ci cstr_dropI)
      next
        case 2
        then have "nat (int (length host) - int (length pattern)) = length host - length pattern"
          "0 \<le> int (length host) - int (length pattern)" by simp_all
        moreover have "\<not> ieq host (tl pattern)" using nodot [OF dot] dl [OF dot] 2 by linarith
        ultimately show ?thesis using m dot False suffix 2 assms
          by (simp add: pattern_matches_def Let_def ci)
      next
        case 3
        have "\<not> ieq host (tl pattern)" using nodot [OF dot] 3 by linarith
        with m dot False suffix 3 show ?thesis by (simp add: pattern_matches_def Let_def)
      qed
    next
      case False
      with m \<open>pattern \<noteq> ''*''\<close> show ?thesis by (simp add: pattern_matches_def Let_def ci assms)
    qed
  qed
qed

lemma first_match_iff:
  "first_match rs s d dd ret = (if \<exists>r \<in> set rs. Domain_match s (r_origin r) \<and> Domain_match d (r_destination r)
     then dd else ret)"
  by (induction rs) auto


section \<open>Reading back a rule file\<close>

definition word_tok :: "string \<Rightarrow> bool" where
  "word_tok t \<longleftrightarrow> t \<noteq> [] \<and> (\<forall>c \<in> set t. \<not> isspace c)"

definition rule_ok :: "rule \<Rightarrow> bool" where
  "rule_ok r \<longleftrightarrow> word_tok (r_origin r) \<and> word_tok (r_destination r)
     \<and> hd (r_origin r) \<noteq> CHR ''#'' \<and> dStrAsciiCasecmp (r_origin r) ''default'' \<noteq> 0"

definition rule_line :: "rule \<Rightarrow> string" where
  "rule_line r = r_origin r @ '' '' @ r_destination r @ [CHR 0x0A]"

lemma strtok_word:
  assumes "word_tok t" "r = [] \<or> hd r \<in> set [CHR '' '', CHR 0x09]"
  shows "strtok (t @ r) [CHR '' '', CHR 0x09] = (Some t, tl r)"
proof -
  have n: "\<forall>c \<in> set t. c \<notin> set [CHR '' '', CHR 0x09]"
  proof
    fix c
    assume "c \<in> set t"
    with assms(1) have "\<not> isspace c" by (simp add: word_tok_def)
    then have "c \<noteq> CHR '' ''" "c \<noteq> CHR 0x09" by auto
    then show "c \<notin> set [CHR '' '', CHR 0x09]" by simp
  qed
  have "dropWhile (\<lambda>c. c \<in> set [CHR '' '', CHR 0x09]) (t @ r) = t @ r"
    using n assms(1) by (cases t) (auto simp: word_tok_def)
  moreover have "takeWhile (\<lambda>c. c \<notin> set [CHR '' '', CHR 0x09]) (t @ r) = t
      \<and> dropWhile (\<lambda>c. c \<notin> set [CHR '' '', CHR 0x09]) (t @ r) = r"
    by (rule takeWhile_stop) (use n assms(2) in auto)
  ultimately show ?thesis using assms(1) by (simp add: strtok_def word_tok_def del: list.set)
qed

lemma strtok_space: "strtok (CHR '' '' # s) [CHR '' '', CHR 0x09] = strtok s [CHR '' '', CHR 0x09]"
  by (simp add: strtok_def)

lemma domain_line_rule:
  assumes "rule_ok r"
  shows "domain_line st (rule_line r) = st\<lparr>d_exceptions := d_exceptions st @ [r]\<rparr>"
proof -
  let ?l = "r_origin r @ '' '' @ r_destination r"
  have w: "word_tok (r_origin r)" "word_tok (r_destination r)" using assms by (auto simp: rule_ok_def)
  have "dStrstrip (?l @ [CHR 0x0A]) = ?l"
    by (rule dStrstrip_snoc) (use w in \<open>auto simp: word_tok_def\<close>)
  then have s: "dStrstrip (rule_line r) = ?l" by (simp add: rule_line_def)
  have "deref ?l \<noteq> CHR ''#''" using assms w by (cases "r_origin r") (auto simp: rule_ok_def word_tok_def)
  moreover have "strtok ?l [CHR '' '', CHR 0x09] = (Some (r_origin r), r_destination r)"
    using strtok_word [OF w(1), of "'' '' @ r_destination r"] by simp
  moreover have "strtok (r_destination r) [CHR '' '', CHR 0x09] = (Some (r_destination r), [])"
    using strtok_word [OF w(2), of "[]"] by simp
  ultimately show ?thesis
    using assms w by (simp add: domain_line_def s Let_def rule_ok_def word_tok_def)
qed

lemma rule_line_newline: "rule_ok r \<Longrightarrow> CHR 0x0A \<notin> set (r_origin r @ '' '' @ r_destination r)"
  by (auto simp: rule_ok_def word_tok_def)

lemma Domain_parse_rules:
  "\<forall>r \<in> set rs. rule_ok r \<Longrightarrow>
     a_Domain_parse st (concat (map rule_line rs)) = Some (st\<lparr>d_exceptions := d_exceptions st @ rs\<rparr>)"
proof (induction rs arbitrary: st)
  case Nil
  then show ?case by (simp add: a_Domain_parse.simps [of st] dGetline_Nil)
next
  case (Cons r rs)
  have "dGetline (concat (map rule_line (r # rs))) = Some (Some (rule_line r), concat (map rule_line rs))"
    using dGetline_line [OF rule_line_newline [of r], of "concat (map rule_line rs)"] Cons.prems
    by (simp add: rule_line_def)
  with Cons show ?case
    by (simp add: a_Domain_parse.simps [of st "rule_line r @ concat (map rule_line rs)"] domain_line_rule)
qed

section \<open>Properties\<close>

text \<open>
  C6: The decision on a request with a destination host outside the source's organization: under
  a default of accepting (denying), the request is denied (allowed) exactly when some exception's
  two patterns describe the source and the destination, a pattern being the star, a host name,
  or a dot and a domain, which describes the domain itself and its subdomains, in any case of the
  letters.
\<close>

theorem Domain_permit_decision:
  assumes "cstr (URL_HOST source)" "cstr (URL_HOST dest)"
    "\<forall>r \<in> set (d_exceptions st). cstr (r_origin r) \<and> cstr (r_destination r)"
    "URL_HOST dest \<noteq> []" "\<not> a_Url_same_organization (Some source) (Some dest)"
  shows "a_Domain_permit st source dest \<longleftrightarrow>
    (d_default_deny st \<longleftrightarrow> (\<exists>r \<in> set (d_exceptions st).
        pattern_matches (URL_HOST source) (r_origin r) \<and> pattern_matches (URL_HOST dest) (r_destination r)))"
proof -
  have "deref (URL_HOST dest) \<noteq> NUL" using assms(2,4) by (cases "URL_HOST dest") auto
  moreover have "Domain_match (URL_HOST source) (r_origin r) = pattern_matches (URL_HOST source) (r_origin r)"
    "Domain_match (URL_HOST dest) (r_destination r) = pattern_matches (URL_HOST dest) (r_destination r)"
    if "r \<in> set (d_exceptions st)" for r
    using that assms(1-3) Domain_match_iff by blast+
  ultimately show ?thesis using assms(5)
    by (auto simp: a_Domain_permit_def first_match_iff Let_def)
qed

lemma Domain_permit_decision_witness:
  "a_Domain_permit \<lparr>d_exceptions = [\<lparr>r_origin = ''*'', r_destination = ''.ads.com''\<rparr>], d_default_deny = False\<rparr>
     (url_zero\<lparr>u_hostname := Some ''a.org''\<rparr>) (url_zero\<lparr>u_hostname := Some ''x.ads.com''\<rparr>)
   \<longleftrightarrow> (False \<longleftrightarrow> (\<exists>r \<in> {\<lparr>r_origin = ''*'', r_destination = ''.ads.com''\<rparr>}.
        pattern_matches ''a.org'' (r_origin r) \<and> pattern_matches ''x.ads.com'' (r_destination r)))"
proof -
  have h: "URL_HOST (url_zero\<lparr>u_hostname := Some ''a.org''\<rparr>) = ''a.org''"
    "URL_HOST (url_zero\<lparr>u_hostname := Some ''x.ads.com''\<rparr>) = ''x.ads.com''"
    by (simp_all add: URL_HOST_def a_Url_hostname_def NPTR2STR_def)
  have o: "\<not> a_Url_same_organization (Some (url_zero\<lparr>u_hostname := Some ''a.org''\<rparr>))
      (Some (url_zero\<lparr>u_hostname := Some ''x.ads.com''\<rparr>))"
    unfolding a_Url_same_organization_def prod.case option.case h by code_simp
  show ?thesis
    using Domain_permit_decision [of "url_zero\<lparr>u_hostname := Some ''a.org''\<rparr>"
        "url_zero\<lparr>u_hostname := Some ''x.ads.com''\<rparr>"
        "\<lparr>d_exceptions = [\<lparr>r_origin = ''*'', r_destination = ''.ads.com''\<rparr>], d_default_deny = False\<rparr>"] o
    unfolding h by simp
qed

text \<open>
  Reading a rule file gives the rules back in the order of the file, after those already
  known, with the default action unchanged; the parser always returns.
\<close>

theorem Domain_parse_roundtrip:
  assumes "\<forall>r \<in> set rs. rule_ok r"
  shows "a_Domain_parse st (concat (map rule_line rs)) = Some (st\<lparr>d_exceptions := d_exceptions st @ rs\<rparr>)"
  using assms by (rule Domain_parse_rules)

lemma Domain_parse_roundtrip_witness:
  "a_Domain_parse domain_init (concat (map rule_line [\<lparr>r_origin = ''*'', r_destination = ''.ads.com''\<rparr>]))
     = Some \<lparr>d_exceptions = [\<lparr>r_origin = ''*'', r_destination = ''.ads.com''\<rparr>], d_default_deny = False\<rparr>"
  using Domain_parse_roundtrip [of "[\<lparr>r_origin = ''*'', r_destination = ''.ads.com''\<rparr>]" domain_init]
  by (simp add: domain_init_def rule_ok_def word_tok_def cchar_simps D_ASCII_TOLOWER_def)

end
