(* ===== verification/History.thy ===== *)
theory History
  imports Url_Resolve
begin

text \<open>
  The linear history of \<^verbatim>\<open>dillo/src/history.c\<close>: the array of visited URLs with their titles, to
  which the navigation stack keeps indices. The array and its two counters are the list of its
  used items. URLs are compared without their fragments by \<open>a_Url_cmp\<close>.
\<close>

record h_item =
  h_url :: dillo_url
  h_title :: "string option"

type_synonym history = "h_item list"

definition URL_FRAGMENT :: "dillo_url \<Rightarrow> string" where
  "URL_FRAGMENT u = NPTR2STR (u_fragment u)"

definition same_page :: "dillo_url \<Rightarrow> dillo_url \<Rightarrow> bool" where
  "same_page u v \<longleftrightarrow> a_Url_cmp u v = 0 \<and> strcmp (URL_FRAGMENT u) (URL_FRAGMENT v) = 0"

text \<open>The first index from \<open>i\<close> on whose URL satisfies a test.\<close>

fun history_find :: "(dillo_url \<Rightarrow> bool) \<Rightarrow> history \<Rightarrow> nat \<Rightarrow> nat" where
  "history_find t [] i = i"
| "history_find t (h # hs) i = (if t (h_url h) then i else history_find t hs (i + 1))"

definition a_History_add_url :: "history \<Rightarrow> dillo_url \<Rightarrow> nat \<times> history" where
  "a_History_add_url history url =
     (let i = history_find (\<lambda>v. same_page v url) history 0
      in if i < length history then (i, history)
         else (length history, history @ [\<lparr>h_url = a_Url_dup url, h_title = None\<rparr>]))"

definition a_History_get_url :: "history \<Rightarrow> int \<Rightarrow> dillo_url option" where
  "a_History_get_url history idx =
     (if 0 \<le> idx \<and> idx < int (length history) then Some (h_url (history ! nat idx)) else None)"

definition a_History_get_title :: "history \<Rightarrow> int \<Rightarrow> bool \<Rightarrow> string option" where
  "a_History_get_title history idx force =
     (if 0 \<le> idx \<and> idx < int (length history) then
        (case h_title (history ! nat idx) of
           Some t \<Rightarrow> Some t
         | None \<Rightarrow> if force then Some (URL_STR (h_url (history ! nat idx))) else None)
      else None)"

definition a_History_get_title_by_url :: "history \<Rightarrow> dillo_url option \<Rightarrow> bool \<Rightarrow> string option" where
  "a_History_get_title_by_url history url force =
     (case url of
        None \<Rightarrow> None
      | Some u \<Rightarrow>
          (let i = history_find (\<lambda>v. a_Url_cmp u v = 0) history 0 in
           if i < length history \<and> h_title (history ! i) \<noteq> None then h_title (history ! i)
           else if force then Some (URL_STR u) else None))"

text \<open>\<open>for (i = history_size - 1; i >= 0; --i)\<close>: the last index below \<open>n\<close>.\<close>

fun history_find_last :: "(dillo_url \<Rightarrow> bool) \<Rightarrow> history \<Rightarrow> nat \<Rightarrow> nat option" where
  "history_find_last t hs 0 = None"
| "history_find_last t hs (Suc n) = (if t (h_url (hs ! n)) then Some n else history_find_last t hs n)"

definition a_History_set_title_by_url :: "history \<Rightarrow> dillo_url option \<Rightarrow> string option \<Rightarrow> history" where
  "a_History_set_title_by_url history url title =
     (case url of
        None \<Rightarrow> history
      | Some u \<Rightarrow>
          (case history_find_last (\<lambda>v. a_Url_cmp u v = 0) history (length history) of
             Some i \<Rightarrow> history[i := (history ! i)\<lparr>h_title := dStrdup title\<rparr>]
           | None \<Rightarrow> history))"

section \<open>The searches\<close>

lemma history_find_spec:
  "history_find t hs i = i + length (takeWhile (\<lambda>h. \<not> t (h_url h)) hs)"
  by (induction hs arbitrary: i) auto

lemma history_find_le: "history_find t hs 0 \<le> length hs"
  by (simp add: history_find_spec length_takeWhile_le)

lemma history_find_hit: "history_find t hs 0 < length hs \<Longrightarrow> t (h_url (hs ! history_find t hs 0))"
  using nth_length_takeWhile [of "\<lambda>h. \<not> t (h_url h)" hs] by (simp add: history_find_spec)

lemma history_find_before: "i < history_find t hs 0 \<Longrightarrow> \<not> t (h_url (hs ! i))"
  using nth_mem [of i "takeWhile (\<lambda>h. \<not> t (h_url h)) hs"]
  by (auto simp: history_find_spec takeWhile_nth dest: set_takeWhileD)

lemma history_find_none: "history_find t hs 0 = length hs \<longleftrightarrow> (\<forall>h \<in> set hs. \<not> t (h_url h))"
proof
  assume "history_find t hs 0 = length hs"
  then show "\<forall>h \<in> set hs. \<not> t (h_url h)" by (metis history_find_before in_set_conv_nth)
next
  assume "\<forall>h \<in> set hs. \<not> t (h_url h)"
  then have "takeWhile (\<lambda>h. \<not> t (h_url h)) hs = hs" by simp
  then show "history_find t hs 0 = length hs" by (simp only: history_find_spec)
qed

lemma history_find_last_spec:
  "case history_find_last t hs n of
     None \<Rightarrow> \<forall>i < n. \<not> t (h_url (hs ! i))
   | Some k \<Rightarrow> k < n \<and> t (h_url (hs ! k)) \<and> (\<forall>i. k < i \<and> i < n \<longrightarrow> \<not> t (h_url (hs ! i)))"
  by (induction n) (auto split: option.splits simp: less_Suc_eq)

section \<open>Copies of a URL\<close>

text \<open>A URL whose string parses to its components, as those the program creates.\<close>

definition url_coherent :: "dillo_url \<Rightarrow> bool" where
  "url_coherent u \<longleftrightarrow> url_fields (Url_object_new (URL_STR u)) = url_fields u"

lemma a_Url_new_coherent: "a_Url_new s b = Some u \<Longrightarrow> url_coherent u"
  by (cases s) (auto simp: a_Url_new_def url_coherent_def URL_STR_def a_Url_str_def url_fields_def
      Let_def split: prod.splits)

lemma memcmp_refl [simp]: "memcmp s s = 0"
  by (induction s) auto

lemma dStr_cmp_refl [simp]: "dStr_cmp s s = 0"
  by (simp add: dStr_cmp_def)

lemma field_cmp_refl [simp]: "URL_STR_FIELD_CMP p p = 0" "URL_STR_FIELD_I_CMP p p = 0"
  by (cases p; simp add: URL_STR_FIELD_CMP_def URL_STR_FIELD_I_CMP_def)+

lemma cmp_same_fields:
  "url_fields u = url_fields v \<Longrightarrow> data_cmp (u_data u) (u_data v) = 0 \<Longrightarrow> a_Url_cmp u v = 0"
  by (simp add: a_Url_cmp_def url_fields_def)

lemma dup_fields: "url_coherent u \<Longrightarrow> url_fields (a_Url_dup u) = url_fields u"
  by (simp add: url_coherent_def a_Url_dup_def url_fields_def)

lemma dup_same_page: "url_coherent u \<Longrightarrow> same_page (a_Url_dup u) u"
proof -
  assume c: "url_coherent u"
  have "data_cmp (u_data (a_Url_dup u)) (u_data u) = 0"
    by (cases "u_data u") (simp_all add: a_Url_dup_def data_cmp_def NPTR2STR_def)
  with cmp_same_fields [OF dup_fields [OF c]] dup_fields [OF c] show ?thesis
    by (simp add: same_page_def URL_FRAGMENT_def url_fields_def)
qed


section \<open>The invariant\<close>

definition page_ok :: "dillo_url \<Rightarrow> bool" where
  "page_ok u \<longleftrightarrow> url_cmp_ok u \<and> opt_cstr (u_fragment u)"

lemma cstr_fragment: "page_ok u \<Longrightarrow> cstr (URL_FRAGMENT u)"
  by (cases "u_fragment u") (simp_all add: page_ok_def opt_cstr_def URL_FRAGMENT_def NPTR2STR_def)

lemma same_page_sym:
  assumes "page_ok u" "page_ok v" "same_page u v"
  shows "same_page v u"
proof -
  have "url_cmp_ok u" "url_cmp_ok v" using assms by (auto simp: page_ok_def)
  then have "a_Url_cmp v u = 0"
    using url.cmp_flip [of u v] url.cmp_flip [of v u] assms(3) by (simp add: same_page_def)
  moreover have "strcmp (URL_FRAGMENT v) (URL_FRAGMENT u) = 0"
    using assms(3) strcmp_antisym [of "URL_FRAGMENT v" "URL_FRAGMENT u"] by (simp add: same_page_def)
  ultimately show ?thesis by (simp add: same_page_def)
qed

lemma same_page_trans:
  assumes "page_ok u" "page_ok v" "page_ok w" "same_page u v" "same_page v w"
  shows "same_page u w"
proof -
  have ok: "url_cmp_ok u" "url_cmp_ok v" "url_cmp_ok w" using assms by (auto simp: page_ok_def)
  have "a_Url_cmp u w \<le> 0" using url.cmp_trans [OF ok] assms(4,5) by (simp add: same_page_def)
  have "a_Url_cmp w u \<le> 0"
    using url.cmp_trans [OF ok(3,2,1)] same_page_sym [OF assms(1,2,4)] same_page_sym [OF assms(2,3,5)]
    by (simp add: same_page_def)
  then have "0 \<le> a_Url_cmp u w" using url.cmp_flip [OF ok(1,3)] by simp
  with \<open>a_Url_cmp u w \<le> 0\<close> have "a_Url_cmp u w = 0" by simp
  moreover have "URL_FRAGMENT u = URL_FRAGMENT v" "URL_FRAGMENT v = URL_FRAGMENT w"
    using assms(4,5) strcmp_eq_0 [OF cstr_fragment [OF assms(1)] cstr_fragment [OF assms(2)]]
      strcmp_eq_0 [OF cstr_fragment [OF assms(2)] cstr_fragment [OF assms(3)]]
    by (simp_all add: same_page_def)
  ultimately show ?thesis by (simp add: same_page_def)
qed

definition history_inv :: "history \<Rightarrow> bool" where
  "history_inv hs \<longleftrightarrow> (\<forall>h \<in> set hs. page_ok (h_url h))
     \<and> (\<forall>i < length hs. \<forall>j < length hs. same_page (h_url (hs ! i)) (h_url (hs ! j)) \<longrightarrow> i = j)"

lemma dup_page_ok: "url_coherent u \<Longrightarrow> page_ok u \<Longrightarrow> page_ok (a_Url_dup u)"
proof -
  assume c: "url_coherent u" and p: "page_ok u"
  have d: "u_data (a_Url_dup u) = Some (NPTR2STR (u_data u))" by (simp add: a_Url_dup_def)
  have f: "u_authority (a_Url_dup u) = u_authority u" "u_path (a_Url_dup u) = u_path u"
    "u_query (a_Url_dup u) = u_query u" "u_scheme (a_Url_dup u) = u_scheme u"
    "u_fragment (a_Url_dup u) = u_fragment u"
    using dup_fields [OF c] by (simp_all add: url_fields_def)
  have "opt_cstr (Some (NPTR2STR (u_data u)))"
    using p by (cases "u_data u") (simp_all add: page_ok_def url_cmp_ok_def opt_cstr_def NPTR2STR_def)
  with p show "page_ok (a_Url_dup u)" by (simp add: page_ok_def url_cmp_ok_def d f)
qed

lemma history_inv_append:
  assumes inv: "history_inv hs" and ok: "page_ok v"
    and new: "\<And>h. h \<in> set hs \<Longrightarrow> \<not> same_page (h_url h) v"
  shows "history_inv (hs @ [\<lparr>h_url = v, h_title = None\<rparr>])"
proof -
  let ?hs = "hs @ [\<lparr>h_url = v, h_title = None\<rparr>]"
  have "i = j" if ij: "i < length ?hs" "j < length ?hs" "same_page (h_url (?hs ! i)) (h_url (?hs ! j))" for i j
  proof -
    have n: "\<not> same_page (h_url (hs ! k)) v" "\<not> same_page v (h_url (hs ! k))" if "k < length hs" for k
      using new [of "hs ! k"] same_page_sym [OF ok] inv that by (auto simp: history_inv_def)
    from ij consider "i < length hs" "j < length hs" | "i < length hs" "j = length hs"
      | "i = length hs" "j < length hs" | "i = length hs" "j = length hs"
      by (auto simp: less_Suc_eq)
    then show ?thesis
      using ij(3) n inv by cases (auto simp: history_inv_def nth_append)
  qed
  then show ?thesis using inv ok unfolding history_inv_def by simp
qed

section \<open>Properties\<close>

text \<open>
  C7: Adding a URL to the history returns the index of an entry for the same page (equal but for
  the string it was written as, with the same fragment), keeps every older entry at its index,
  keeps the entries pairwise different, and is idempotent: adding the URL again returns the same
  index and changes nothing, although the entry is a copy parsed anew from the URL's string.
\<close>

theorem History_add_url_laws:
  assumes inv: "history_inv hs" and u: "url_coherent u" "page_ok u"
    and add: "a_History_add_url hs u = (i, hs')"
  shows "history_inv hs' \<and> i < length hs' \<and> same_page (h_url (hs' ! i)) u
    \<and> take (length hs) hs' = hs \<and> a_History_add_url hs' u = (i, hs')"
proof -
  let ?t = "\<lambda>v. same_page v u"
  show ?thesis
  proof (cases "history_find ?t hs 0 < length hs")
    case True
    with add have "i = history_find ?t hs 0" "hs' = hs" by (auto simp: a_History_add_url_def Let_def)
    with True history_find_hit [OF True] inv add show ?thesis by simp
  next
    case False
    let ?n = "\<lparr>h_url = a_Url_dup u, h_title = None\<rparr>"
    have none: "\<forall>h \<in> set hs. \<not> ?t (h_url h)"
      using False history_find_le [of ?t hs] history_find_none [of ?t hs] by simp
    have hs': "i = length hs" "hs' = hs @ [?n]"
      using add False by (auto simp: a_History_add_url_def Let_def)
    note d = dup_same_page [OF u(1)] dup_page_ok [OF u]
    have "\<not> same_page (h_url h) (a_Url_dup u)" if "h \<in> set hs" for h
      using none that same_page_trans [OF _ d(2) u(2) _ d(1)] inv by (auto simp: history_inv_def)
    then have "history_inv hs'" unfolding hs' by (rule history_inv_append [OF inv d(2)])
    moreover have "history_find ?t hs' 0 = length hs"
      using none d(1) by (simp add: hs' history_find_spec takeWhile_append2)
    then have "a_History_add_url hs' u = (length hs, hs')"
      by (simp add: a_History_add_url_def hs')
    ultimately show ?thesis using d(1) by (simp add: hs')
  qed
qed

definition sample_url :: "string option \<Rightarrow> string \<Rightarrow> dillo_url" where
  "sample_url fragment str = url_zero\<lparr>u_scheme := Some ''data'', u_path := Some ''x'',
     u_fragment := fragment, u_url_string := Some str, u_data := Some []\<rparr>"

lemma sample_url_ok:
  "page_ok (sample_url (Some ''f'') ''data:x#f'')" "url_coherent (sample_url (Some ''f'') ''data:x#f'')"
proof -
  show "page_ok (sample_url (Some ''f'') ''data:x#f'')"
    by (simp add: page_ok_def url_cmp_ok_def sample_url_def url_zero_def opt_cstr_def)
  have s: "dStrstrip ''data:x#f'' = ''data:x#f''" by (rule dStrstrip_id) (simp add: isspace_def uchar_def)
  show "url_coherent (sample_url (Some ''f'') ''data:x#f'')"
    by (simp add: url_coherent_def sample_url_def URL_STR_def a_Url_str_def url_fields_def
        Url_object_new_def s url_zero_def strpbrk_def Url_parse_authority_def Url_parse_path_def Url_parse_tail_def)
qed

lemma History_add_url_laws_witness:
  "\<exists>i hs'. a_History_add_url [] (sample_url (Some ''f'') ''data:x#f'') = (i, hs')
     \<and> history_inv hs' \<and> a_History_add_url hs' (sample_url (Some ''f'') ''data:x#f'') = (i, hs')"
proof -
  obtain i hs' where a: "a_History_add_url [] (sample_url (Some ''f'') ''data:x#f'') = (i, hs')"
    by (cases "a_History_add_url [] (sample_url (Some ''f'') ''data:x#f'')")
  have "history_inv []" by (simp add: history_inv_def)
  from History_add_url_laws [OF this sample_url_ok(2,1) a] a show ?thesis by blast
qed


lemma set_title_urls [simp]:
  "length (a_History_set_title_by_url hs u t) = length hs"
  "map h_url (a_History_set_title_by_url hs u t) = map h_url hs"
proof -
  have "map h_url (hs[i := (hs ! i)\<lparr>h_title := x\<rparr>]) = map h_url hs" for i x
    by (cases "i < length hs") (simp_all add: map_update list_update_same_conv list_update_beyond)
  then show "map h_url (a_History_set_title_by_url hs u t) = map h_url hs"
    by (simp add: a_History_set_title_by_url_def split: option.split)
  show "length (a_History_set_title_by_url hs u t) = length hs"
    by (simp add: a_History_set_title_by_url_def split: option.split)
qed

lemma history_find_urls: "map h_url hs = map h_url hs' \<Longrightarrow> history_find t hs i = history_find t hs' i"
proof (induction hs arbitrary: hs' i)
  case (Cons h hs)
  then show ?case by (cases hs') auto
qed simp

lemma history_find_firstI:
  assumes "k < length hs" "t (h_url (hs ! k))" "\<forall>i < k. \<not> t (h_url (hs ! i))"
  shows "history_find t hs 0 = k"
proof -
  have "\<not> k < history_find t hs 0" using history_find_before [of k t hs] assms(2) by blast
  moreover have "\<not> history_find t hs 0 < k"
    using history_find_hit [of t hs] assms(1,3) by auto
  ultimately show ?thesis by simp
qed

lemma history_find_lastI:
  assumes "k < length hs" "t (h_url (hs ! k))" "\<forall>i. k < i \<and> i < length hs \<longrightarrow> \<not> t (h_url (hs ! i))"
  shows "history_find_last t hs (length hs) = Some k"
proof (cases "history_find_last t hs (length hs)")
  case None
  with history_find_last_spec [of "length hs" t hs] assms(1,2) show ?thesis by simp
next
  case (Some m)
  with history_find_last_spec [of "length hs" t hs]
  have m: "m < length hs" "t (h_url (hs ! m))" "\<forall>i. m < i \<and> i < length hs \<longrightarrow> \<not> t (h_url (hs ! i))" by simp_all
  then have "m = k" using assms by (meson linorder_neqE_nat)
  with Some show ?thesis by simp
qed

text \<open>
  C8: The titles. Setting the title of a page goes to the last entry that compares equal, asking
  for it reads the first one. With one such entry the title set is the title got; with several
  (visits to different fragments of the page) the title of the first one is still what is got,
  whatever was set.
\<close>

theorem History_title_get_after_set:
  assumes "j \<le> k" "k < length hs" "a_Url_cmp u (h_url (hs ! j)) = 0" "a_Url_cmp u (h_url (hs ! k)) = 0"
    "\<forall>i < j. a_Url_cmp u (h_url (hs ! i)) \<noteq> 0" "\<forall>i. k < i \<and> i < length hs \<longrightarrow> a_Url_cmp u (h_url (hs ! i)) \<noteq> 0"
  shows "a_History_get_title_by_url (a_History_set_title_by_url hs (Some u) (Some title)) (Some u) False
    = (if j = k then Some title else h_title (hs ! j))"
proof -
  let ?t = "\<lambda>v. a_Url_cmp u v = 0" and ?hs = "a_History_set_title_by_url hs (Some u) (Some title)"
  have "history_find_last ?t hs (length hs) = Some k"
    by (rule history_find_lastI) (use assms in auto)
  then have s: "?hs = hs[k := (hs ! k)\<lparr>h_title := Some title\<rparr>]"
    by (simp add: a_History_set_title_by_url_def dStrdup_def)
  have "history_find ?t hs 0 = j" by (rule history_find_firstI) (use assms in auto)
  then have "history_find ?t ?hs 0 = j" by (metis history_find_urls set_title_urls(2))
  then show ?thesis using assms(1,2)
    by (auto simp: a_History_get_title_by_url_def s nth_list_update)
qed

lemma History_title_get_after_set_witness:
  "a_History_get_title_by_url (a_History_set_title_by_url
      [\<lparr>h_url = sample_url None ''data:x'', h_title = None\<rparr>,
       \<lparr>h_url = sample_url (Some ''f'') ''data:x#f'', h_title = None\<rparr>]
      (Some (sample_url (Some ''f'') ''data:x#f'')) (Some ''T'')) (Some (sample_url (Some ''f'') ''data:x#f'')) False
    = None"
proof -
  have c: "a_Url_cmp (sample_url f s) (sample_url g r) = 0" for f s g r
    by (simp add: a_Url_cmp_def sample_url_def data_cmp_def)
  show ?thesis
    using History_title_get_after_set [of 0 1 "[\<lparr>h_url = sample_url None ''data:x'', h_title = None\<rparr>,
       \<lparr>h_url = sample_url (Some ''f'') ''data:x#f'', h_title = None\<rparr>]" "sample_url (Some ''f'') ''data:x#f''" "''T''"]
    by (auto simp: c)
qed

end
