(* ===== verification/Dpip.thy ===== *)
theory Dpip
  imports Dlib_Dstr
begin

text \<open>
  The dillo plugin protocol of \<^verbatim>\<open>dillo/dpip/dpip.c\<close>: building tags, reading attributes out of
  them, and the buffered socket handler. The buffers are their contents. What the operating
  system answers to \<open>read\<close> and \<open>write\<close> is a list of outcomes in the state of the world, which
  also holds the bytes put on the wire, the nonblocking flag of each descriptor and the
  descriptors closed; an operation that would wait for ever returns \<open>None\<close>.
\<close>

unbundle bit_operations_syntax

definition Quote :: char where "Quote = CHR 0x27"
definition DPIP_TAG_END :: string where "DPIP_TAG_END = [CHR '' '', Quote, CHR ''>'']"
definition DPIP_MODE_SWITCH_TAG :: string where
  "DPIP_MODE_SWITCH_TAG = ''cmd='' @ [Quote] @ ''start_send_page'' @ [Quote, CHR '' '']"

section \<open>Building a command\<close>

text \<open>The stuff-copy of an argument.\<close>

fun stuff_copy :: "string \<Rightarrow> string" where
  "stuff_copy [] = []"
| "stuff_copy (c # s) = (if c = Quote then c # c # stuff_copy s else c # stuff_copy s)"

text \<open>The loop over the format; \<open>None\<close> when the format has more \<open>%s\<close> than there are arguments,
  which reads arguments that were not passed.\<close>

function build_loop :: "string \<Rightarrow> string list \<Rightarrow> string \<Rightarrow> string option" where
  "build_loop q argp cmd =
     (if q = [] then Some cmd
      else (case strstr q ''%s'' of
              None \<Rightarrow> Some (cmd @ q)
            | Some p \<Rightarrow>
                (case argp of
                   [] \<Rightarrow> None
                 | s # argp' \<Rightarrow>
                     build_loop (drop (p + 2) q) argp' (cmd @ take p q @ [Quote] @ stuff_copy s @ [Quote]))))"
  by pat_completeness auto
termination
  by (relation "measure (\<lambda>(q, argp, cmd). length q)") auto

declare build_loop.simps [simp del]

definition a_Dpip_build_cmd :: "string \<Rightarrow> string list \<Rightarrow> string option option" where
  "a_Dpip_build_cmd format argp =
     (if strchr format Quote \<noteq> None then Some None
      else (case build_loop format argp ''<'' of
              None \<Rightarrow> None
            | Some cmd \<Rightarrow> Some (Some (cmd @ DPIP_TAG_END))))"

section \<open>Reading an attribute\<close>

datatype DpipTagParsingState = SEEK_NAME | MATCH_NAME | SKIP_VALUE | SKIP_QUOTE | FOUND

text \<open>
  The scan: \<open>prev\<close> is \<open>tag[i-1]\<close>, \<open>rest\<close> the string from \<open>tag[i]\<close> on and \<open>left\<close> is
  \<open>tagsize - i\<close>. The result is the pointer \<open>tag + i\<close> after the loop, when \<open>found\<close> is set.
\<close>

fun tag_scan :: "string \<Rightarrow> DpipTagParsingState \<Rightarrow> nat \<Rightarrow> nat \<Rightarrow> char \<Rightarrow> string \<Rightarrow> string option" where
  "tag_scan attrname state n 0 prev rest = None"
| "tag_scan attrname state n (Suc left) prev rest =
     (let c = deref rest in
      case state of
        SEEK_NAME \<Rightarrow>
          if c = char_at attrname 0 \<and> (prev = CHR '' '' \<or> prev = CHR ''<'')
          then tag_scan attrname MATCH_NAME 1 left c (tl rest)
          else if c = Quote \<and> prev = CHR ''='' then tag_scan attrname SKIP_VALUE n left c (tl rest)
          else tag_scan attrname SEEK_NAME n left c (tl rest)
      | MATCH_NAME \<Rightarrow>
          if c = char_at attrname n then tag_scan attrname MATCH_NAME (n + 1) left c (tl rest)
          else if c = CHR ''='' \<and> char_at attrname n = NUL then tag_scan attrname FOUND n left c (tl rest)
          else tag_scan attrname SEEK_NAME n left c (tl rest)
      | SKIP_VALUE \<Rightarrow>
          if c = Quote then
            tag_scan attrname (if char_at rest 1 = Quote then SKIP_QUOTE else SEEK_NAME) n left c (tl rest)
          else tag_scan attrname SKIP_VALUE n left c (tl rest)
      | SKIP_QUOTE \<Rightarrow> tag_scan attrname SKIP_VALUE n left c (tl rest)
      | FOUND \<Rightarrow> Some (tl rest))"

text \<open>\<open>while ((q = strchr(p, Quote)) && q[1] == Quote) p = q + 2;\<close>: the final \<open>q\<close>.\<close>

function value_end :: "string \<Rightarrow> string option" where
  "value_end p =
     (case strchr p Quote of
        None \<Rightarrow> None
      | Some q \<Rightarrow> if char_at q 1 = Quote then value_end (drop 2 q) else Some q)"
  by pat_completeness auto
termination
proof (relation "measure length", goal_cases)
  case (2 p q)
  have "Quote \<noteq> NUL" by (simp add: Quote_def)
  from strchr_SomeD [OF 2(1) this] show ?case by auto
qed simp

declare value_end.simps [simp del]

text \<open>\<open>for (r = s = val; (*r = *s); ++r, ++s)\<close>: one quote of a pair is left out.\<close>

fun unstuff :: "string \<Rightarrow> string" where
  "unstuff [] = []"
| "unstuff [c] = [c]"
| "unstuff (c # d # s) = (if c = Quote \<and> c = d then c # unstuff s else c # unstuff (d # s))"

definition a_Dpip_get_attr_l :: "string option \<Rightarrow> nat \<Rightarrow> string option \<Rightarrow> string option" where
  "a_Dpip_get_attr_l tag tagsize attrname =
     (case (tag, attrname) of
        (Some t, Some a) \<Rightarrow>
          if tagsize = 0 \<or> a = [] then None
          else
            (case tag_scan a SEEK_NAME 0 (tagsize - 1) (deref t) (tl t) of
               None \<Rightarrow> None
             | Some start \<Rightarrow>
                 (case value_end start of
                    Some q \<Rightarrow>
                      if char_at q 1 = CHR '' '' then Some (unstuff (take (length start - length q) start))
                      else None
                  | None \<Rightarrow> None))
      | _ \<Rightarrow> None)"

definition a_Dpip_get_attr :: "string option \<Rightarrow> string option \<Rightarrow> string option" where
  "a_Dpip_get_attr tag attrname =
     (case tag of Some t \<Rightarrow> a_Dpip_get_attr_l (Some t) (length t) attrname | None \<Rightarrow> None)"

section \<open>Authentication\<close>

definition isxdigit :: "char \<Rightarrow> bool" where
  "isxdigit c \<longleftrightarrow> is_digit_in 16 c"

text \<open>
  \<open>file\<close> is the text of \<^verbatim>\<open>dpid_comm_keys\<close>, \<open>None\<close> when it cannot be opened. The result is \<open>None\<close>
  when the key read does not fit into the 32 bytes of \<open>SharedSecret\<close>.
\<close>

definition a_Dpip_check_auth :: "string option \<Rightarrow> string option \<Rightarrow> int option" where
  "a_Dpip_check_auth auth_tag file =
     (case (a_Dpip_get_attr auth_tag (Some ''cmd''), a_Dpip_get_attr auth_tag (Some ''msg'')) of
        (Some cmd, Some msg) \<Rightarrow>
          if strcmp cmd ''auth'' \<noteq> 0 then Some (-1)
          else
            (case file of
               None \<Rightarrow> Some (-1)
             | Some f \<Rightarrow>
                 (case dGetline f of
                    None \<Rightarrow> None
                  | Some (None, _) \<Rightarrow> Some (-1)
                  | Some (Some rcline, _) \<Rightarrow>
                      (let (port, tail) = strtol rcline 10 in
                       if c_int port \<noteq> 0 then
                         (let SharedSecret = (if tail = [] then [] else takeWhile isxdigit (tl tail)) in
                          if 32 \<le> length SharedSecret then None
                          else Some (if strcmp msg SharedSecret = 0 then 1 else -1))
                       else Some (-1))))
      | _ \<Rightarrow> Some (-1))"


section \<open>Attributes are read back\<close>

definition name_ok :: "string \<Rightarrow> bool" where
  "name_ok a \<longleftrightarrow> a \<noteq> [] \<and> set a \<inter> set [CHR '' '', CHR ''<'', CHR ''='', Quote, CHR ''%'', NUL] = {}"

text \<open>The format of a command and its tag, for attributes with their values.\<close>

fun cmd_format :: "string \<Rightarrow> (string \<times> string) list \<Rightarrow> string" where
  "cmd_format sep [] = []"
| "cmd_format sep ((a, v) # avs) = sep @ a @ ''=%s'' @ cmd_format '' '' avs"

fun tag_body :: "string \<Rightarrow> (string \<times> string) list \<Rightarrow> string" where
  "tag_body sep [] = []"
| "tag_body sep ((a, v) # avs) = sep @ a @ [CHR ''='', Quote] @ stuff_copy v @ [Quote] @ tag_body '' '' avs"

lemma Quote_neq [simp]: "Quote \<noteq> NUL" "Quote \<noteq> CHR '' ''" "Quote \<noteq> CHR ''=''" "Quote \<noteq> CHR ''<''"
  "CHR '' '' \<noteq> Quote" "CHR ''='' \<noteq> Quote" "CHR ''<'' \<noteq> Quote" "CHR ''>'' \<noteq> Quote" "Quote \<noteq> CHR ''>''"
  "CHR ''%'' \<noteq> Quote" "CHR ''s'' \<noteq> Quote" "Quote \<noteq> CHR ''%''" "Quote \<noteq> CHR ''s''"
  by (simp_all add: Quote_def)

lemma strstr_percent: "CHR ''%'' \<notin> set a \<Longrightarrow> strstr (a @ ''%s'' @ t) ''%s'' = Some (length a)"
  by (induction a) auto

lemma build_loop_format:
  assumes "\<forall>(a, v) \<in> set avs. name_ok a" "CHR ''%'' \<notin> set sep"
  shows "build_loop (cmd_format sep avs) (map snd avs) cmd = Some (cmd @ tag_body sep avs)"
  using assms
proof (induction avs arbitrary: sep cmd)
  case Nil
  then show ?case by (simp add: build_loop.simps)
next
  case (Cons av avs)
  obtain a v where av: "av = (a, v)" by (cases av)
  have n: "CHR ''%'' \<notin> set (sep @ a @ ''='')" using Cons.prems av by (auto simp: name_ok_def)
  have f: "cmd_format sep (av # avs) = (sep @ a @ ''='') @ ''%s'' @ cmd_format '' '' avs" by (simp add: av)
  have "build_loop (cmd_format sep (av # avs)) (map snd (av # avs)) cmd
      = build_loop (cmd_format '' '' avs) (map snd avs) (cmd @ (sep @ a @ ''='') @ [Quote] @ stuff_copy v @ [Quote])"
    unfolding f by (subst build_loop.simps) (simp only: strstr_percent [OF n], simp add: av)
  also have "\<dots> = Some ((cmd @ (sep @ a @ ''='') @ [Quote] @ stuff_copy v @ [Quote]) @ tag_body '' '' avs)"
    by (rule Cons.IH) (use Cons.prems in auto)
  finally show ?case by (simp add: av)
qed

lemma format_no_quote: "\<forall>(a, v) \<in> set avs. name_ok a \<Longrightarrow> Quote \<notin> set sep \<Longrightarrow> Quote \<notin> set (cmd_format sep avs)"
proof (induction sep avs rule: cmd_format.induct)
  case (2 sep a v avs)
  then show ?case by (auto simp: name_ok_def)
qed simp

text \<open>The scan over the parts of a tag.\<close>

lemma scan_value:
  "tag_scan a SKIP_VALUE n (length (stuff_copy v @ Quote # CHR '' '' # r)) prev (stuff_copy v @ Quote # CHR '' '' # r)
     = tag_scan a SEEK_NAME n (length (CHR '' '' # r)) Quote (CHR '' '' # r)"
proof (induction v arbitrary: prev)
  case Nil
  then show ?case by (simp add: char_at_def)
next
  case (Cons c v)
  then show ?case by (cases "c = Quote") (simp_all add: char_at_def)
qed

lemma name_char: "name_ok a \<Longrightarrow> k < length a \<Longrightarrow>
    a ! k \<noteq> CHR '' '' \<and> a ! k \<noteq> CHR ''<'' \<and> a ! k \<noteq> CHR ''='' \<and> a ! k \<noteq> Quote \<and> a ! k \<noteq> NUL"
  using nth_mem [of k a] by (auto simp: name_ok_def simp del: nth_mem)

lemma seek_step: "\<not> (c = char_at a 0 \<and> (prev = CHR '' '' \<or> prev = CHR ''<'')) \<Longrightarrow> c \<noteq> Quote \<or> prev \<noteq> CHR ''='' \<Longrightarrow>
    tag_scan a SEEK_NAME n (length (c # r)) prev (c # r) = tag_scan a SEEK_NAME n (length r) c r"
  by auto

lemma match_step: "c \<noteq> char_at a n \<Longrightarrow> c \<noteq> CHR ''='' \<Longrightarrow>
    tag_scan a MATCH_NAME n (length (c # r)) prev (c # r) = tag_scan a SEEK_NAME n (length r) c r"
  by simp

lemma scan_seek_to_value:
  assumes "set m \<inter> set [CHR '' '', CHR ''<'', CHR ''='', Quote, CHR ''%'', NUL] = {}" "name_ok a"
    "prev \<noteq> CHR '' ''" "prev \<noteq> CHR ''<''"
  shows "tag_scan a SEEK_NAME n (length (m @ CHR ''='' # Quote # r)) prev (m @ CHR ''='' # Quote # r)
     = tag_scan a SKIP_VALUE n (length r) Quote r"
  using assms
proof (induction m arbitrary: prev)
  case Nil
  then show ?case by (cases a) (auto simp: name_ok_def char_at_def)
next
  case (Cons c m)
  let ?r = "m @ CHR ''='' # Quote # r"
  have "tag_scan a SEEK_NAME n (length (c # ?r)) prev (c # ?r) = tag_scan a SEEK_NAME n (length ?r) c ?r"
    by (rule seek_step) (use Cons.prems in auto)
  also have "\<dots> = tag_scan a SKIP_VALUE n (length r) Quote r"
    by (rule Cons.IH) (use Cons.prems in auto)
  finally show ?case by simp
qed

lemma scan_match:
  assumes "set m \<inter> set [CHR '' '', CHR ''<'', CHR ''='', Quote, CHR ''%'', NUL] = {}" "name_ok a"
    "k \<le> length a"
  shows "\<exists>n. tag_scan a MATCH_NAME k (length (m @ CHR ''='' # Quote # r)) prev (m @ CHR ''='' # Quote # r)
     = (if m = drop k a then Some r else tag_scan a SKIP_VALUE n (length r) Quote r)"
  using assms
proof (induction m arbitrary: k prev)
  case Nil
  have "char_at a k \<noteq> CHR ''=''"
    using name_char [OF Nil.prems(2), of k] by (simp add: char_at_def)
  moreover have "char_at a k = NUL \<longleftrightarrow> length a \<le> k"
    using name_char [OF Nil.prems(2), of k] by (auto simp: char_at_def)
  moreover have "a \<noteq> [] \<and> char_at a 0 \<noteq> Quote"
    using Nil.prems(2) by (cases a) (auto simp: name_ok_def char_at_def)
  ultimately show ?case using Nil.prems(3) by (auto simp: Let_def)
next
  case (Cons c m)
  let ?r = "m @ CHR ''='' # Quote # r"
  show ?case
  proof (cases "c = char_at a k")
    case True
    then have k: "k < length a" using Cons.prems by (auto simp: char_at_def split: if_splits)
    then have d: "drop k a = c # drop (Suc k) a" using True by (simp add: char_at_def Cons_nth_drop_Suc)
    from Cons.IH [of "Suc k" c] Cons.prems k obtain n where
      "tag_scan a MATCH_NAME (Suc k) (length ?r) c ?r
        = (if m = drop (Suc k) a then Some r else tag_scan a SKIP_VALUE n (length r) Quote r)" by auto
    with True d show ?thesis by auto
  next
    case False
    then have "c # m \<noteq> drop k a"
      by (metis char_at_def drop_all drop_eq_Nil hd_drop_conv_nth list.distinct(1) list.sel(1) not_less)
    moreover have "tag_scan a MATCH_NAME k (length (c # ?r)) prev (c # ?r) = tag_scan a SEEK_NAME k (length ?r) c ?r"
      by (rule match_step) (use False Cons.prems in auto)
    moreover have "tag_scan a SEEK_NAME k (length ?r) c ?r = tag_scan a SKIP_VALUE k (length r) Quote r"
      by (rule scan_seek_to_value) (use Cons.prems in auto)
    ultimately show ?thesis by auto
  qed
qed

lemma scan_name:
  assumes "name_ok m" "name_ok a" "prev = CHR '' '' \<or> prev = CHR ''<''"
  shows "\<exists>n'. tag_scan a SEEK_NAME n (length (m @ CHR ''='' # Quote # r)) prev (m @ CHR ''='' # Quote # r)
     = (if m = a then Some r else tag_scan a SKIP_VALUE n' (length r) Quote r)"
proof -
  obtain c m' where m: "m = c # m'" using assms(1) by (cases m) (auto simp: name_ok_def)
  obtain d a' where a: "a = d # a'" using assms(2) by (cases a) (auto simp: name_ok_def)
  have m': "set m' \<inter> set [CHR '' '', CHR ''<'', CHR ''='', Quote, CHR ''%'', NUL] = {}"
    "c \<notin> set [CHR '' '', CHR ''<'', CHR ''='', Quote, CHR ''%'', NUL]" using assms(1) m by (auto simp: name_ok_def)
  let ?r = "m' @ CHR ''='' # Quote # r"
  show ?thesis
  proof (cases "c = d")
    case True
    have "tag_scan a SEEK_NAME n (length (c # ?r)) prev (c # ?r) = tag_scan a MATCH_NAME 1 (length ?r) c ?r"
      using True assms(3) a by (auto simp: char_at_def)
    moreover obtain n' where "tag_scan a MATCH_NAME 1 (length ?r) c ?r
        = (if m' = drop 1 a then Some r else tag_scan a SKIP_VALUE n' (length r) Quote r)"
      using scan_match [OF m'(1) assms(2), of 1 r c] a by auto
    ultimately show ?thesis using m a True by auto
  next
    case False
    have "tag_scan a SEEK_NAME n (length (c # ?r)) prev (c # ?r) = tag_scan a SEEK_NAME n (length ?r) c ?r"
      by (rule seek_step) (use False a m'(2) in \<open>auto simp: char_at_def\<close>)
    also have "\<dots> = tag_scan a SKIP_VALUE n (length r) Quote r"
      by (rule scan_seek_to_value) (use m' assms(2) in auto)
    finally show ?thesis using m a False by auto
  qed
qed


lemma body_next: "\<exists>r. tag_body '' '' avs @ DPIP_TAG_END = CHR '' '' # r"
  by (cases "('' '', avs)" rule: tag_body.cases) (auto simp: DPIP_TAG_END_def)

text \<open>The scan of the attributes from a space on.\<close>

lemma scan_body:
  assumes "name_ok a" "\<forall>(m, v) \<in> set avs. name_ok m"
  shows "tag_scan a SEEK_NAME n (length (tag_body '' '' avs @ DPIP_TAG_END)) Quote (tag_body '' '' avs @ DPIP_TAG_END)
    = (case map_of avs a of None \<Rightarrow> None
       | Some v \<Rightarrow> Some (stuff_copy v @ Quote # tag_body '' '' (tl (dropWhile (\<lambda>x. fst x \<noteq> a) avs)) @ DPIP_TAG_END))"
  using assms
proof (induction avs arbitrary: n)
  case Nil
  have c0: "char_at a 0 \<noteq> Quote" "char_at a 0 \<noteq> CHR '' ''"
    using assms(1) name_char [OF assms(1), of 0] by (auto simp: name_ok_def char_at_def)
  then show ?case by (simp add: DPIP_TAG_END_def numeral_3_eq_3 Let_def)
next
  case (Cons av avs)
  obtain m v where av: "av = (m, v)" by (cases av)
  have ok: "name_ok m" using Cons.prems av by simp
  obtain r where r: "tag_body '' '' avs @ DPIP_TAG_END = CHR '' '' # r" using body_next by blast
  let ?v = "stuff_copy v @ Quote # CHR '' '' # r"
  let ?n = "m @ CHR ''='' # Quote # ?v"
  have b: "tag_body '' '' (av # avs) @ DPIP_TAG_END = CHR '' '' # ?n" by (simp add: av r)
  have c0: "char_at a 0 \<noteq> CHR '' ''"
    using assms(1) name_char [OF assms(1), of 0] by (auto simp: name_ok_def char_at_def)
  have "tag_scan a SEEK_NAME n (length (CHR '' '' # ?n)) Quote (CHR '' '' # ?n)
      = tag_scan a SEEK_NAME n (length ?n) CHR '' '' ?n"
    by (rule seek_step) (use c0 in auto)
  moreover obtain n' where "tag_scan a SEEK_NAME n (length ?n) CHR '' '' ?n
      = (if m = a then Some ?v else tag_scan a SKIP_VALUE n' (length ?v) Quote ?v)"
    using scan_name [OF ok assms(1)] by blast
  moreover have "tag_scan a SKIP_VALUE n' (length ?v) Quote ?v
      = tag_scan a SEEK_NAME n' (length (CHR '' '' # r)) Quote (CHR '' '' # r)" by (rule scan_value)
  ultimately show ?case
    unfolding b using Cons.IH [of n'] Cons.prems av r by (auto simp del: tag_scan.simps split: option.splits)
qed

lemma scan_tag:
  assumes "name_ok a" "\<forall>(m, v) \<in> set avs. name_ok m" "avs \<noteq> []"
  shows "tag_scan a SEEK_NAME 0 (length (tag_body [] avs @ DPIP_TAG_END)) CHR ''<'' (tag_body [] avs @ DPIP_TAG_END)
    = (case map_of avs a of None \<Rightarrow> None
       | Some v \<Rightarrow> Some (stuff_copy v @ Quote # tag_body '' '' (tl (dropWhile (\<lambda>x. fst x \<noteq> a) avs)) @ DPIP_TAG_END))"
proof -
  obtain m v avs' where avs: "avs = (m, v) # avs'" using assms(3) by (cases avs) auto
  obtain r where r: "tag_body '' '' avs' @ DPIP_TAG_END = CHR '' '' # r" using body_next by blast
  let ?v = "stuff_copy v @ Quote # CHR '' '' # r"
  let ?n = "m @ CHR ''='' # Quote # ?v"
  have b: "tag_body [] avs @ DPIP_TAG_END = ?n" by (simp add: avs r)
  have ok: "name_ok m" using assms(2) avs by simp
  obtain n' where "tag_scan a SEEK_NAME 0 (length ?n) CHR ''<'' ?n
      = (if m = a then Some ?v else tag_scan a SKIP_VALUE n' (length ?v) Quote ?v)"
    using scan_name [OF ok assms(1)] by blast
  moreover have "tag_scan a SKIP_VALUE n' (length ?v) Quote ?v
      = tag_scan a SEEK_NAME n' (length (CHR '' '' # r)) Quote (CHR '' '' # r)" by (rule scan_value)
  ultimately show ?thesis
    unfolding b using scan_body [OF assms(1), of avs' n'] assms(2) avs r
    by (auto simp del: tag_scan.simps split: option.splits)
qed

lemma stuff_no_quote: "Quote \<notin> set v \<Longrightarrow> stuff_copy v = v"
  by (induction v) auto

lemma stuff_append: "stuff_copy (v @ w) = stuff_copy v @ stuff_copy w"
  by (induction v) auto

lemma value_end_stuff: "value_end (stuff_copy v @ Quote # CHR '' '' # r) = Some (Quote # CHR '' '' # r)"
proof (induction "length v" arbitrary: v rule: less_induct)
  case less
  show ?case
  proof (cases "Quote \<in> set v")
    case False
    then show ?thesis
      by (subst value_end.simps) (simp add: stuff_no_quote strchr_append char_at_def)
  next
    case True
    then obtain w v' where v: "v = w @ Quote # v'" "Quote \<notin> set w" by (meson split_list_first)
    have "stuff_copy v @ Quote # CHR '' '' # r
        = w @ Quote # Quote # stuff_copy v' @ Quote # CHR '' '' # r"
      by (simp add: v stuff_append stuff_no_quote)
    then have "value_end (stuff_copy v @ Quote # CHR '' '' # r)
        = value_end (stuff_copy v' @ Quote # CHR '' '' # r)"
      using v(2) by (subst value_end.simps) (simp add: strchr_append char_at_def numeral_2_eq_2)
    with less v show ?thesis by simp
  qed
qed

lemma unstuff_stuff: "unstuff (stuff_copy v) = v"
proof (induction v)
  case (Cons c v)
  then show ?case by (cases "stuff_copy v") auto
qed simp

lemma get_attr_of_tag:
  assumes "name_ok a" "\<forall>(m, v) \<in> set avs. name_ok m" "avs \<noteq> []"
  shows "a_Dpip_get_attr (Some (''<'' @ tag_body [] avs @ DPIP_TAG_END)) (Some a) = map_of avs a"
proof (cases "map_of avs a")
  case None
  with scan_tag [OF assms] assms(1) show ?thesis
    by (simp add: a_Dpip_get_attr_def a_Dpip_get_attr_l_def name_ok_def)
next
  case (Some v)
  obtain r where r: "tag_body '' '' (tl (dropWhile (\<lambda>x. fst x \<noteq> a) avs)) @ DPIP_TAG_END = CHR '' '' # r"
    using body_next by blast
  from scan_tag [OF assms] Some r have
    "tag_scan a SEEK_NAME 0 (length (tag_body [] avs @ DPIP_TAG_END)) CHR ''<'' (tag_body [] avs @ DPIP_TAG_END)
      = Some (stuff_copy v @ Quote # CHR '' '' # r)" by simp
  with Some assms(1) show ?thesis
    by (simp add: a_Dpip_get_attr_def a_Dpip_get_attr_l_def name_ok_def value_end_stuff char_at_def unstuff_stuff)
qed

lemma build_cmd_tag:
  assumes "\<forall>(m, v) \<in> set avs. name_ok m"
  shows "a_Dpip_build_cmd (cmd_format [] avs) (map snd avs) = Some (Some (''<'' @ tag_body [] avs @ DPIP_TAG_END))"
proof -
  have "Quote \<notin> set (cmd_format [] avs)" using format_no_quote [OF assms, of "[]"] by simp
  then show ?thesis
    using build_loop_format [OF assms, of "[]" "''<''"] by (simp add: a_Dpip_build_cmd_def strchr_None_iff)
qed

section \<open>The socket handler\<close>

definition DPIP_TAG :: "32 word" where "DPIP_TAG = 1"
definition DPIP_LAST_TAG :: "32 word" where "DPIP_LAST_TAG = 2"
definition DPIP_RAW :: "32 word" where "DPIP_RAW = 4"
definition DPIP_NONBLOCK :: "32 word" where "DPIP_NONBLOCK = 8"

definition DPIP_EAGAIN :: int where "DPIP_EAGAIN = 0"
definition DPIP_ERROR :: int where "DPIP_ERROR = 1"
definition DPIP_EOF :: int where "DPIP_EOF = 2"

text \<open>The error number of the C library.\<close>

definition EAGAIN :: int where "EAGAIN = 11"

record dsh =
  fd_in :: int
  fd_out :: int
  wrbuf :: string
  rdbuf :: string
  flush_sz :: int
  dsh_mode :: "32 word"
  dsh_status :: int

datatype outcome = Err_EINTR | Err_EAGAIN | Err_other | Done string

text \<open>For a write, \<open>Done s\<close> says that as many bytes as \<open>s\<close> has were taken (at most those offered);
  for a read, that the bytes \<open>s\<close> arrived, none at the end of the stream.\<close>

record world =
  w_nonblock :: "int \<Rightarrow> bool"
  w_reads :: "outcome list"
  w_writes :: "outcome list"
  w_wire :: string
  w_closed :: "int list"

definition a_Dpip_dsh_new :: "world \<Rightarrow> int \<Rightarrow> int \<Rightarrow> int \<Rightarrow> dsh" where
  "a_Dpip_dsh_new w fin fout flush =
     \<lparr>fd_in = fin, fd_out = fout, wrbuf = [], rdbuf = [], flush_sz = flush,
      dsh_mode = (if w_nonblock w fin then DPIP_TAG OR DPIP_NONBLOCK else DPIP_TAG), dsh_status = 0\<rparr>"

text \<open>The loop around \<open>write\<close>: the result, the new status if any, the bytes sent in all, and the
  outcomes left.\<close>

fun write_loop :: "bool \<Rightarrow> string \<Rightarrow> nat \<Rightarrow> outcome list \<Rightarrow> (int \<times> int option \<times> nat \<times> outcome list) option" where
  "write_loop nb Data sent [] = None"
| "write_loop nb Data sent (Err_EINTR # ws) = write_loop nb Data sent ws"
| "write_loop nb Data sent (Err_EAGAIN # ws) = Some (-1, Some DPIP_EAGAIN, sent, ws)"
| "write_loop nb Data sent (Err_other # ws) = Some (-3, Some DPIP_ERROR, sent, ws)"
| "write_loop nb Data sent (Done s # ws) =
     (let sent' = sent + min (length s) (length Data - sent) in
      if nb \<or> sent' = length Data then Some (int sent', None, sent', ws)
      else write_loop nb Data sent' ws)"

definition mode_nb :: "dsh \<Rightarrow> bool" where
  "mode_nb dsh \<longleftrightarrow> dsh_mode dsh AND DPIP_NONBLOCK \<noteq> 0"

definition Dpip_dsh_write :: "dsh \<Rightarrow> world \<Rightarrow> bool \<Rightarrow> string \<Rightarrow> (int \<times> dsh \<times> world) option" where
  "Dpip_dsh_write dsh w nb Data =
     (let old_flags = w_nonblock w (fd_out dsh);
          w1 = (if mode_nb dsh \<noteq> nb then w\<lparr>w_nonblock := (w_nonblock w)(fd_out dsh := nb)\<rparr> else w)
      in case write_loop nb Data 0 (w_writes w1) of
           None \<Rightarrow> None
         | Some (ret, status, sent, ws) \<Rightarrow>
             (let w2 = w1\<lparr>w_writes := ws, w_wire := w_wire w1 @ take sent Data\<rparr>;
                  dsh' = (case status of Some s \<Rightarrow> dsh\<lparr>dsh_status := s\<rparr> | None \<Rightarrow> dsh)
              in Some (ret, dsh',
                   if mode_nb dsh' \<noteq> nb then w2\<lparr>w_nonblock := (w_nonblock w2)(fd_out dsh := old_flags)\<rparr>
                   else w2)))"

definition a_Dpip_dsh_write :: "dsh \<Rightarrow> world \<Rightarrow> bool \<Rightarrow> string \<Rightarrow> (int \<times> dsh \<times> world) option" where
  "a_Dpip_dsh_write dsh0 w flush Data =
     (let dsh = dsh0\<lparr>wrbuf := wrbuf dsh0 @ Data\<rparr> in
      if \<not> flush \<or> wrbuf dsh = [] then Some (0, dsh, w)
      else (case Dpip_dsh_write dsh w False (wrbuf dsh) of
              None \<Rightarrow> None
            | Some (ret, dsh', w') \<Rightarrow>
                if ret = int (length (wrbuf dsh')) then Some (0, dsh'\<lparr>wrbuf := []\<rparr>, w')
                else Some (ret, dsh', w')))"

definition a_Dpip_dsh_tryflush :: "dsh \<Rightarrow> world \<Rightarrow> (int \<times> dsh \<times> world) option" where
  "a_Dpip_dsh_tryflush dsh w =
     (if wrbuf dsh = [] then Some (0, dsh, w)
      else (case Dpip_dsh_write dsh w True (wrbuf dsh) of
              None \<Rightarrow> None
            | Some (st, dsh', w') \<Rightarrow>
                (let dsh'' = (if 0 < st then dsh'\<lparr>wrbuf := drop (nat st) (wrbuf dsh')\<rparr> else dsh')
                 in Some (if wrbuf dsh'' = [] then 0 else st, dsh'', w'))))"

definition a_Dpip_dsh_trywrite :: "dsh \<Rightarrow> world \<Rightarrow> string \<Rightarrow> (int \<times> dsh \<times> world) option" where
  "a_Dpip_dsh_trywrite dsh w Data =
     (case Dpip_dsh_write dsh w True Data of
        None \<Rightarrow> None
      | Some (st, dsh', w') \<Rightarrow>
          Some (st, if 0 < st \<and> nat st < length Data
                    then dsh'\<lparr>wrbuf := wrbuf dsh' @ drop (nat st) Data\<rparr> else dsh', w'))"

definition a_Dpip_dsh_write_str :: "dsh \<Rightarrow> world \<Rightarrow> bool \<Rightarrow> string \<Rightarrow> (int \<times> dsh \<times> world) option" where
  "a_Dpip_dsh_write_str dsh w flush str = a_Dpip_dsh_write dsh w flush str"

definition a_Dpip_dsh_close :: "dsh \<Rightarrow> world \<Rightarrow> (dsh \<times> world) option" where
  "a_Dpip_dsh_close dsh w =
     (case a_Dpip_dsh_write dsh w True [] of
        None \<Rightarrow> None
      | Some (_, dsh', w') \<Rightarrow>
          Some (dsh', w'\<lparr>w_closed := w_closed w' @ (if fd_out dsh \<noteq> fd_in dsh
             then [fd_in dsh, fd_out dsh] else [fd_in dsh])\<rparr>))"

text \<open>The loop around \<open>read\<close>, which appends to the read buffer.\<close>

fun read_loop :: "bool \<Rightarrow> dsh \<Rightarrow> outcome list \<Rightarrow> (dsh \<times> outcome list) option" where
  "read_loop blocking dsh [] = None"
| "read_loop blocking dsh (Err_EINTR # rs) = read_loop blocking dsh rs"
| "read_loop blocking dsh (Err_EAGAIN # rs) = Some (dsh\<lparr>dsh_status := DPIP_EAGAIN\<rparr>, rs)"
| "read_loop blocking dsh (Err_other # rs) = Some (dsh\<lparr>dsh_status := DPIP_ERROR\<rparr>, rs)"
| "read_loop blocking dsh (Done s # rs) =
     (if s = [] then Some (dsh\<lparr>dsh_status := DPIP_EOF\<rparr>, rs)
      else (let dsh' = dsh\<lparr>rdbuf := rdbuf dsh @ s\<rparr> in
            if blocking then Some (dsh', rs) else read_loop blocking dsh' rs))"

text \<open>One call without its final call to itself. The old flags of \<open>fd_in\<close> are restored on
  \<open>fd_out\<close>, as the code has it.\<close>

definition dsh_read_once :: "dsh \<Rightarrow> world \<Rightarrow> bool \<Rightarrow> (dsh \<times> world) option" where
  "dsh_read_once dsh w blocking =
     (let nb = (\<not> blocking); old_flags = w_nonblock w (fd_in dsh);
          w1 = (if mode_nb dsh \<noteq> nb then w\<lparr>w_nonblock := (w_nonblock w)(fd_in dsh := nb)\<rparr> else w)
      in case read_loop blocking dsh (w_reads w1) of
           None \<Rightarrow> None
         | Some (dsh', rs) \<Rightarrow>
             (let w2 = w1\<lparr>w_reads := rs\<rparr>
              in Some (dsh', if mode_nb dsh' \<noteq> nb
                   then w2\<lparr>w_nonblock := (w_nonblock w2)(fd_out dsh := old_flags)\<rparr> else w2)))"

definition dsh_closed :: "dsh \<Rightarrow> bool" where
  "dsh_closed dsh \<longleftrightarrow> dsh_status dsh = DPIP_ERROR \<or> dsh_status dsh = DPIP_EOF"

definition Dpip_dsh_read :: "dsh \<Rightarrow> world \<Rightarrow> bool \<Rightarrow> (dsh \<times> world) option" where
  "Dpip_dsh_read dsh w blocking =
     (if dsh_closed dsh then Some (dsh, w)
      else (case dsh_read_once dsh w blocking of
              None \<Rightarrow> None
            | Some (dsh', w') \<Rightarrow>
                if blocking then (if dsh_closed dsh' then Some (dsh', w') else dsh_read_once dsh' w' False)
                else Some (dsh', w')))"

text \<open>\<open>strstr(dsh->rdbuf->str, ...)\<close> sees the buffer up to its first null character.\<close>

definition c_prefix :: "string \<Rightarrow> string" where
  "c_prefix s = takeWhile (\<lambda>c. c \<noteq> NUL) s"

definition find_tag_end :: "dsh \<Rightarrow> nat option" where
  "find_tag_end dsh = strstr (c_prefix (rdbuf dsh)) DPIP_TAG_END"

text \<open>\<open>do { ... } while (!p && dsh->status == EAGAIN)\<close>\<close>

partial_function (option) wait_tag :: "dsh \<Rightarrow> world \<Rightarrow> (dsh \<times> world) option" where
  "wait_tag dsh w =
     Option.bind (Dpip_dsh_read dsh w True) (\<lambda>(dsh', w').
       if find_tag_end dsh' = None \<and> dsh_status dsh' = EAGAIN then wait_tag dsh' w' else Some (dsh', w'))"

partial_function (option) wait_raw :: "dsh \<Rightarrow> world \<Rightarrow> (dsh \<times> world) option" where
  "wait_raw dsh w =
     (if rdbuf dsh = [] \<and> dsh_status dsh \<noteq> DPIP_ERROR \<and> dsh_status dsh \<noteq> DPIP_EOF
      then Option.bind (Dpip_dsh_read dsh w True) (\<lambda>(dsh', w'). wait_raw dsh' w')
      else Some (dsh, w))"

text \<open>The token and the handler after it is taken off the buffer.\<close>

definition take_token :: "dsh \<Rightarrow> string option \<times> dsh" where
  "take_token dsh =
     (if dsh_mode dsh AND DPIP_TAG \<noteq> 0 then
        (case find_tag_end dsh of
           Some p \<Rightarrow>
             (let ret = take (p + 3) (rdbuf dsh); dsh' = dsh\<lparr>rdbuf := drop (p + 3) (rdbuf dsh)\<rparr>
              in (Some ret, if strstr ret DPIP_MODE_SWITCH_TAG \<noteq> None
                            then dsh'\<lparr>dsh_mode := dsh_mode dsh' OR DPIP_LAST_TAG\<rparr> else dsh'))
         | None \<Rightarrow> (None, dsh))
      else if rdbuf dsh \<noteq> [] then (Some (rdbuf dsh), dsh\<lparr>rdbuf := []\<rparr>)
      else (None, dsh))"

definition a_Dpip_dsh_read_token2 :: "dsh \<Rightarrow> world \<Rightarrow> bool \<Rightarrow> (string option \<times> dsh \<times> world) option" where
  "a_Dpip_dsh_read_token2 dsh0 w0 blocking =
     Option.bind (Dpip_dsh_read dsh0 w0 False) (\<lambda>(dsh1, w1).
       let dsh2 = (if dsh_mode dsh1 AND DPIP_LAST_TAG \<noteq> 0 then dsh1\<lparr>dsh_mode := DPIP_RAW\<rparr> else dsh1) in
       Option.bind
         (if blocking then
            (if dsh_mode dsh2 AND DPIP_TAG \<noteq> 0 then
               (if find_tag_end dsh2 = None then wait_tag dsh2 w1 else Some (dsh2, w1))
             else if dsh_mode dsh2 AND DPIP_RAW \<noteq> 0 then wait_raw dsh2 w1
             else Some (dsh2, w1))
          else Some (dsh2, w1))
         (\<lambda>(dsh3, w3). let (ret, dsh4) = take_token dsh3 in Some (ret, dsh4, w3)))"

definition a_Dpip_dsh_read_token :: "dsh \<Rightarrow> world \<Rightarrow> bool \<Rightarrow> (string option \<times> dsh \<times> world) option" where
  "a_Dpip_dsh_read_token dsh w blocking = a_Dpip_dsh_read_token2 dsh w blocking"


section \<open>No byte is lost\<close>

definition arrived :: "outcome list \<Rightarrow> string" where
  "arrived rs = concat (map (\<lambda>r. case r of Done s \<Rightarrow> s | _ \<Rightarrow> []) rs)"

lemma arrived_simps [simp]: "arrived [] = []" "arrived (r # rs) = (case r of Done s \<Rightarrow> s | _ \<Rightarrow> []) @ arrived rs"
  by (simp_all add: arrived_def)

text \<open>The bytes of the buffer and those still to arrive, which a read only moves.\<close>

definition pending :: "dsh \<Rightarrow> world \<Rightarrow> string" where
  "pending dsh w = rdbuf dsh @ arrived (w_reads w)"

lemma read_loop_arrived:
  "read_loop b dsh rs = Some (dsh', rs') \<Longrightarrow>
     rdbuf dsh' @ arrived rs' = rdbuf dsh @ arrived rs \<and> wrbuf dsh' = wrbuf dsh \<and> dsh_mode dsh' = dsh_mode dsh
     \<and> fd_in dsh' = fd_in dsh \<and> fd_out dsh' = fd_out dsh"
  by (induction b dsh rs rule: read_loop.induct) (auto simp: Let_def split: if_splits)

lemma dsh_read_once_pending:
  "dsh_read_once dsh w b = Some (dsh', w') \<Longrightarrow> pending dsh' w' = pending dsh w \<and> dsh_mode dsh' = dsh_mode dsh"
  by (auto simp: dsh_read_once_def Let_def pending_def split: option.splits if_splits dest!: read_loop_arrived)

lemma Dpip_dsh_read_pending:
  "Dpip_dsh_read dsh w b = Some (dsh', w') \<Longrightarrow> pending dsh' w' = pending dsh w \<and> dsh_mode dsh' = dsh_mode dsh"
  by (auto simp: Dpip_dsh_read_def split: option.splits if_splits dest!: dsh_read_once_pending)

lemma wait_tag_pending:
  "wait_tag dsh w = Some r \<Longrightarrow> pending (fst r) (snd r) = pending dsh w \<and> dsh_mode (fst r) = dsh_mode dsh"
proof (induction rule: wait_tag.raw_induct [rotated, consumes 1, case_names step])
  case (step wt dsh w r)
  from step.hyps obtain d1 w1 where d: "Dpip_dsh_read dsh w True = Some (d1, w1)"
    and c: "(if find_tag_end d1 = None \<and> dsh_status d1 = EAGAIN then wt d1 w1 else Some (d1, w1)) = Some r"
    by (auto simp: bind_eq_Some_conv)
  from c step.IH [of d1 w1 r] Dpip_dsh_read_pending [OF d] show ?case by (auto split: if_splits)
qed

lemma wait_raw_pending:
  "wait_raw dsh w = Some r \<Longrightarrow> pending (fst r) (snd r) = pending dsh w \<and> dsh_mode (fst r) = dsh_mode dsh"
proof (induction rule: wait_raw.raw_induct [rotated, consumes 1, case_names step])
  case (step wr dsh w r)
  show ?case
  proof (cases "rdbuf dsh = [] \<and> dsh_status dsh \<noteq> DPIP_ERROR \<and> dsh_status dsh \<noteq> DPIP_EOF")
    case True
    with step.hyps obtain d1 w1 where d: "Dpip_dsh_read dsh w True = Some (d1, w1)" and c: "wr d1 w1 = Some r"
      by (auto simp: bind_eq_Some_conv)
    from step.IH [OF c] Dpip_dsh_read_pending [OF d] show ?thesis by simp
  qed (use step.hyps in auto)
qed

definition token_bytes :: "string option \<Rightarrow> string" where
  "token_bytes t = (case t of None \<Rightarrow> [] | Some s \<Rightarrow> s)"

lemma take_token_split: "take_token dsh = (t, dsh') \<Longrightarrow> token_bytes t @ rdbuf dsh' = rdbuf dsh"
  by (auto simp: take_token_def token_bytes_def Let_def split: option.splits if_splits)

lemma c_prefix_append: "\<exists>r. s = c_prefix s @ r"
  unfolding c_prefix_def by (metis takeWhile_dropWhile_id)

text \<open>In tag mode a token is a tag: it ends with the end mark, at its first occurrence.\<close>

lemma take_token_tag:
  assumes "take_token dsh = (Some t, dsh')" "dsh_mode dsh AND DPIP_TAG \<noteq> 0"
  shows "\<exists>b. t = b @ DPIP_TAG_END \<and> (\<forall>j < length b. \<not> starts_with DPIP_TAG_END (drop j t))"
proof -
  from assms obtain p where p: "find_tag_end dsh = Some p" "t = take (p + 3) (rdbuf dsh)"
    by (auto simp: take_token_def Let_def split: option.splits)
  let ?c = "c_prefix (rdbuf dsh)"
  obtain r where r: "rdbuf dsh = ?c @ r" using c_prefix_append by blast
  note s = strstr_Some [OF p(1) [unfolded find_tag_end_def]]
  have b: "p + 3 \<le> length ?c"
    using strstr_bound [OF p(1) [unfolded find_tag_end_def]] by (simp add: DPIP_TAG_END_def)
  have t: "t = take (p + 3) ?c" using p(2) b by (subst (asm) r) simp
  obtain u where u: "drop p ?c = DPIP_TAG_END @ u" using s by (auto simp: starts_with_iff)
  have l3: "length DPIP_TAG_END = 3" by (simp add: DPIP_TAG_END_def)
  have "take 3 (drop p ?c) = DPIP_TAG_END" using u l3 by simp
  then have tt: "t = take p ?c @ DPIP_TAG_END" using t by (simp add: take_add)
  moreover have "\<not> starts_with DPIP_TAG_END (drop j t)" if "j < length (take p ?c)" for j
  proof
    assume "starts_with DPIP_TAG_END (drop j t)"
    then obtain v where v: "drop j t = DPIP_TAG_END @ v" by (auto simp: starts_with_iff)
    have "drop j ?c = drop j t @ drop (p + 3) ?c"
      using t b that by (simp add: drop_take)
        (metis add_diff_cancel_left' append_take_drop_id diff_le_self drop_drop le_add_diff_inverse2 less_imp_le_nat min.absorb2 trans_le_add1)
    then have "starts_with DPIP_TAG_END (drop j ?c)" using v by (auto simp: starts_with_iff)
    with s that show False by simp
  qed
  ultimately show ?thesis by blast
qed


lemma write_loop_nb:
  "write_loop True Data sent ws = Some (ret, st, n, ws') \<Longrightarrow>
     n = (if 0 \<le> ret then nat ret else sent) \<and> (0 \<le> ret \<longrightarrow> sent \<le> n \<and> n \<le> max sent (length Data))"
  by (induction True Data sent ws rule: write_loop.induct) (auto simp: Let_def)

lemma Dpip_dsh_write_nb:
  assumes "Dpip_dsh_write dsh w True Data = Some (ret, dsh', w')"
  shows "w_wire w' = w_wire w @ take (nat ret) Data \<and> wrbuf dsh' = wrbuf dsh \<and> nat ret \<le> length Data"
proof -
  define w1 where "w1 = (if mode_nb dsh \<noteq> True then w\<lparr>w_nonblock := (w_nonblock w)(fd_out dsh := True)\<rparr> else w)"
  have w1: "w_wire w1 = w_wire w" by (simp add: w1_def)
  from assms obtain st n ws where l: "write_loop True Data 0 (w_writes w1) = Some (ret, st, n, ws)"
    and r: "w_wire w' = w_wire w1 @ take n Data" "wrbuf dsh' = wrbuf dsh"
    unfolding Dpip_dsh_write_def Let_def w1_def [symmetric]
    by (auto split: option.splits if_splits)
  from write_loop_nb [OF l] r w1 show ?thesis by (cases "0 \<le> ret") auto
qed

lemma Dpip_dsh_read_status:
  assumes "Dpip_dsh_read dsh w b = Some (dsh', w')" "dsh_status dsh' = EAGAIN"
  shows "dsh_status dsh = EAGAIN"
proof -
  have l: "read_loop b d rs = Some (d', rs') \<Longrightarrow> dsh_status d' = EAGAIN \<Longrightarrow> dsh_status d = EAGAIN" for b d rs d' rs'
    by (induction b d rs rule: read_loop.induct)
      (auto simp: Let_def EAGAIN_def DPIP_EAGAIN_def DPIP_ERROR_def DPIP_EOF_def split: if_splits)
  have o: "dsh_read_once d v b = Some (d', v') \<Longrightarrow> dsh_status d' = EAGAIN \<Longrightarrow> dsh_status d = EAGAIN" for d v b d' v'
    by (auto simp: dsh_read_once_def Let_def split: option.splits if_splits dest: l)
  from assms show ?thesis
    by (auto simp: Dpip_dsh_read_def split: option.splits if_splits) (metis o)+
qed

text \<open>The wait for a tag reads once: its loop condition compares the status, one of the
  protocol's own codes, with an error number of the C library.\<close>

lemma wait_tag_once:
  assumes "dsh_status dsh \<noteq> EAGAIN"
  shows "wait_tag dsh w = Dpip_dsh_read dsh w True"
  using Dpip_dsh_read_status [of dsh w True] assms
  by (cases "Dpip_dsh_read dsh w True") (auto simp: wait_tag.simps [of dsh w])

lemma read_once_drained:
  assumes "w_reads w = Err_EAGAIN # rs"
  shows "\<exists>w1. dsh_read_once dsh w b = Some (dsh\<lparr>dsh_status := DPIP_EAGAIN\<rparr>, w1) \<and> w_reads w1 = rs"
  using assms by (auto simp: dsh_read_once_def Let_def)

lemma read_once_data:
  assumes "w_reads w = Done s # rs" "s \<noteq> []"
  shows "\<exists>w1. dsh_read_once dsh w True = Some (dsh\<lparr>rdbuf := rdbuf dsh @ s\<rparr>, w1) \<and> w_reads w1 = rs"
  using assms by (auto simp: dsh_read_once_def Let_def)

section \<open>Properties\<close>

text \<open>
  C12: An attribute of a command built from attribute names and arbitrary values is read back with
  its value, quotes included, and the absent ones are reported as absent: \<open>a_Dpip_get_attr\<close> is
  the lookup in the attributes \<open>a_Dpip_build_cmd\<close> was given.
\<close>

theorem Dpip_attr_roundtrip:
  assumes "\<forall>(m, v) \<in> set avs. name_ok m" "avs \<noteq> []" "name_ok a"
  shows "\<exists>tag. a_Dpip_build_cmd (cmd_format [] avs) (map snd avs) = Some (Some tag)
    \<and> a_Dpip_get_attr (Some tag) (Some a) = map_of avs a"
  using build_cmd_tag [OF assms(1)] get_attr_of_tag [OF assms(3,1,2)] by blast

lemma Dpip_attr_roundtrip_witness:
  "\<exists>tag. a_Dpip_build_cmd ''cmd=%s url=%s'' [''open'', ''it'' @ [Quote] @ ''s''] = Some (Some tag)
     \<and> a_Dpip_get_attr (Some tag) (Some ''url'') = Some (''it'' @ [Quote] @ ''s'')"
  using Dpip_attr_roundtrip [of "[(''cmd'', ''open''), (''url'', ''it'' @ [Quote] @ ''s'')]" "''url''"]
  by (simp add: name_ok_def Quote_def)

text \<open>
  C13: Reading tokens loses, repeats and reorders nothing: the token returned, what stays in the
  buffer and what has not arrived yet are together the bytes that were in the buffer or still to
  arrive before; and in tag mode the token is a whole tag, ending at the first end mark.
\<close>

theorem Dpip_read_token_stream:
  assumes "a_Dpip_dsh_read_token2 dsh w blocking = Some (t, dsh', w')"
  shows "token_bytes t @ pending dsh' w' = pending dsh w
    \<and> (dsh_mode dsh AND DPIP_TAG \<noteq> 0 \<and> dsh_mode dsh AND DPIP_LAST_TAG = 0 \<longrightarrow>
        t = None \<or> (\<exists>b. t = Some (b @ DPIP_TAG_END)
          \<and> (\<forall>j < length b. \<not> starts_with DPIP_TAG_END (drop j (b @ DPIP_TAG_END)))))"
proof -
  from assms obtain d1 w1 where r1: "Dpip_dsh_read dsh w False = Some (d1, w1)"
    by (auto simp: a_Dpip_dsh_read_token2_def bind_eq_Some_conv)
  define d2 where "d2 = (if dsh_mode d1 AND DPIP_LAST_TAG \<noteq> 0 then d1\<lparr>dsh_mode := DPIP_RAW\<rparr> else d1)"
  note p1 = Dpip_dsh_read_pending [OF r1]
  have p2: "pending d2 w1 = pending dsh w" using p1 by (simp add: d2_def pending_def)
  define waited where "waited = (if blocking then
            (if dsh_mode d2 AND DPIP_TAG \<noteq> 0 then
               (if find_tag_end d2 = None then wait_tag d2 w1 else Some (d2, w1))
             else if dsh_mode d2 AND DPIP_RAW \<noteq> 0 then wait_raw d2 w1
             else Some (d2, w1))
          else Some (d2, w1))"
  have "Option.bind waited (\<lambda>(dsh3, w3). let (ret, dsh4) = take_token dsh3 in Some (ret, dsh4, w3))
      = Some (t, dsh', w')"
    using assms by (simp only: a_Dpip_dsh_read_token2_def r1 bind.bind_lunit prod.case Let_def
        d2_def [symmetric] waited_def [symmetric])
  then obtain d3 w3 where w3: "waited = Some (d3, w3)" "take_token d3 = (t, dsh')" "w3 = w'"
    by (cases waited; cases "take_token (fst (the waited))") auto
  then have r3: "pending d3 w' = pending d2 w1" "dsh_mode d3 = dsh_mode d2" "take_token d3 = (t, dsh')"
    by (auto simp: waited_def dest!: wait_tag_pending wait_raw_pending split: if_splits)
  have "token_bytes t @ rdbuf dsh' = rdbuf d3" by (rule take_token_split [OF r3(3)])
  then have "token_bytes t @ pending dsh' w' = pending dsh w"
    using r3(1) p2 by (simp add: pending_def flip: append_assoc)
  moreover have "t = None \<or> (\<exists>b. t = Some (b @ DPIP_TAG_END)
      \<and> (\<forall>j < length b. \<not> starts_with DPIP_TAG_END (drop j (b @ DPIP_TAG_END))))"
    if "dsh_mode dsh AND DPIP_TAG \<noteq> 0" "dsh_mode dsh AND DPIP_LAST_TAG = 0"
    using take_token_tag [of d3 _ dsh'] r3 p1 that by (cases t) (auto simp: d2_def)
  ultimately show ?thesis by blast
qed

definition sample_dsh :: "string \<Rightarrow> dsh" where
  "sample_dsh buf = \<lparr>fd_in = 0, fd_out = 1, wrbuf = [], rdbuf = buf, flush_sz = 0, dsh_mode = 1, dsh_status = 0\<rparr>"

definition sample_world :: "outcome list \<Rightarrow> outcome list \<Rightarrow> world" where
  "sample_world rs ws = \<lparr>w_nonblock = (\<lambda>_. False), w_reads = rs, w_writes = ws, w_wire = [], w_closed = []\<rparr>"

lemmas sample_simps = sample_dsh_def sample_world_def a_Dpip_dsh_read_token2_def Dpip_dsh_read_def dsh_read_once_def
  dsh_closed_def find_tag_end_def c_prefix_def take_token_def DPIP_EAGAIN_def DPIP_ERROR_def DPIP_EOF_def
  DPIP_TAG_def DPIP_LAST_TAG_def DPIP_RAW_def DPIP_NONBLOCK_def mode_nb_def DPIP_TAG_END_def Quote_def
  DPIP_MODE_SWITCH_TAG_def

lemma Dpip_read_token_stream_witness:
  "\<exists>t dsh' w'. a_Dpip_dsh_read_token2 (sample_dsh ''<'') (sample_world [Err_EAGAIN] []) False = Some (t, dsh', w')
     \<and> token_bytes t @ pending dsh' w' = ''<''"
proof -
  obtain t dsh' w' where "a_Dpip_dsh_read_token2 (sample_dsh ''<'') (sample_world [Err_EAGAIN] []) False = Some (t, dsh', w')"
    by (simp add: sample_simps Let_def)
  from this Dpip_read_token_stream [OF this] show ?thesis
    by (auto simp: pending_def sample_dsh_def sample_world_def)
qed

text \<open>
  Flushing without blocking and writing without blocking through an empty buffer keep the
  stream: what is on the wire followed by what is buffered is the old wire and buffer, followed by
  the data if any of it was accepted, whatever part of it the system takes.
\<close>

theorem Dpip_write_stream:
  "(a_Dpip_dsh_tryflush dsh w = Some (st, dsh', w') \<longrightarrow> w_wire w' @ wrbuf dsh' = w_wire w @ wrbuf dsh)
   \<and> (wrbuf dsh = [] \<and> a_Dpip_dsh_trywrite dsh w Data = Some (st, dsh', w') \<longrightarrow>
        w_wire w' @ wrbuf dsh' = w_wire w @ (if 0 < st then Data else []))"
proof (intro conjI impI)
  assume "a_Dpip_dsh_tryflush dsh w = Some (st, dsh', w')"
  then show "w_wire w' @ wrbuf dsh' = w_wire w @ wrbuf dsh"
    by (auto simp: a_Dpip_dsh_tryflush_def Let_def split: if_splits option.splits dest!: Dpip_dsh_write_nb)
next
  assume "wrbuf dsh = [] \<and> a_Dpip_dsh_trywrite dsh w Data = Some (st, dsh', w')"
  then show "w_wire w' @ wrbuf dsh' = w_wire w @ (if 0 < st then Data else [])"
    by (auto simp: a_Dpip_dsh_trywrite_def split: if_splits option.splits dest!: Dpip_dsh_write_nb)
qed

lemma Dpip_write_stream_witness:
  "\<exists>st dsh' w'. a_Dpip_dsh_trywrite (sample_dsh []) (sample_world [] [Done ''ab'']) ''abc'' = Some (st, dsh', w')
     \<and> w_wire w' @ wrbuf dsh' = ''abc''"
proof -
  obtain st dsh' w' where
    r: "a_Dpip_dsh_trywrite (sample_dsh []) (sample_world [] [Done ''ab'']) ''abc'' = Some (st, dsh', w')" "0 < st"
    by (simp add: a_Dpip_dsh_trywrite_def Dpip_dsh_write_def sample_simps Let_def)
  with Dpip_write_stream [of "sample_dsh []" "sample_world [] [Done ''ab'']" st dsh' w' "''abc''"] show ?thesis
    by (auto simp: sample_dsh_def sample_world_def)
qed


text \<open>
  C14: A blocking read of a tag may return without one although the connection is open and the
  rest of the tag arrives later: after the data at hand is read, it waits for more data once, and
  when that does not complete the tag the null pointer is returned.
\<close>

theorem Dpip_blocking_read_gives_up:
  assumes "dsh_mode dsh AND DPIP_TAG \<noteq> 0" "dsh_mode dsh AND DPIP_LAST_TAG = 0" "dsh_status dsh = DPIP_EAGAIN"
    "w_reads w = Err_EAGAIN # Done part # Err_EAGAIN # rest" "part \<noteq> []"
    "strstr (c_prefix (rdbuf dsh @ part)) DPIP_TAG_END = None" "strstr (c_prefix (rdbuf dsh)) DPIP_TAG_END = None"
  shows "\<exists>dsh' w'. a_Dpip_dsh_read_token2 dsh w True = Some (None, dsh', w') \<and> rdbuf dsh' = rdbuf dsh @ part
    \<and> w_reads w' = rest \<and> dsh_status dsh' = DPIP_EAGAIN"
proof -
  have st: "dsh_status dsh \<noteq> EAGAIN" "\<not> dsh_closed dsh"
    using assms(3) by (simp_all add: EAGAIN_def dsh_closed_def DPIP_EAGAIN_def DPIP_ERROR_def DPIP_EOF_def)
  have same: "dsh\<lparr>dsh_status := DPIP_EAGAIN\<rparr> = dsh" using assms(3) by simp
  obtain w1 where r1: "Dpip_dsh_read dsh w False = Some (dsh, w1)" "w_reads w1 = Done part # Err_EAGAIN # rest"
    using read_once_drained [OF assms(4), of dsh False] st(2) unfolding same by (auto simp: Dpip_dsh_read_def)
  let ?d = "dsh\<lparr>rdbuf := rdbuf dsh @ part\<rparr>"
  have nc: "\<not> dsh_closed ?d" "?d\<lparr>dsh_status := DPIP_EAGAIN\<rparr> = ?d"
    using st(2) assms(3) by (simp_all add: dsh_closed_def)
  obtain wd where wd: "dsh_read_once dsh w1 True = Some (?d, wd)" "w_reads wd = Err_EAGAIN # rest"
    using read_once_data [OF r1(2) assms(5), of dsh] by blast
  obtain w2 where r2: "Dpip_dsh_read dsh w1 True = Some (?d, w2)" "w_reads w2 = rest"
    using read_once_drained [OF wd(2), of ?d False] st(2) nc wd(1) unfolding nc(2)
    by (auto simp: Dpip_dsh_read_def)
  have "wait_tag dsh w1 = Some (?d, w2)" using wait_tag_once [OF st(1)] r2(1) by simp
  moreover have "find_tag_end dsh = None" "find_tag_end ?d = None"
    using assms(6,7) by (simp_all add: find_tag_end_def)
  ultimately have "a_Dpip_dsh_read_token2 dsh w True = Some (None, ?d, w2)"
    using r1(1) assms(1,2) by (simp add: a_Dpip_dsh_read_token2_def take_token_def)
  with r2 assms(3) show ?thesis by auto
qed

lemma Dpip_blocking_read_gives_up_witness:
  "\<exists>dsh' w'. a_Dpip_dsh_read_token2 (sample_dsh []) (sample_world
       [Err_EAGAIN, Done ''<cmd='', Err_EAGAIN, Done (Quote # ''x'' @ [Quote, CHR '' '', Quote, CHR ''>''])] []) True
     = Some (None, dsh', w')"
  using Dpip_blocking_read_gives_up [of "sample_dsh []" "sample_world
       [Err_EAGAIN, Done ''<cmd='', Err_EAGAIN, Done (Quote # ''x'' @ [Quote, CHR '' '', Quote, CHR ''>''])] []"
       "''<cmd=''" "[Done (Quote # ''x'' @ [Quote, CHR '' '', Quote, CHR ''>''])]"]
  by (auto simp: sample_simps)

text \<open>
  A read that had to switch its input descriptor to the nonblocking mode leaves it in that
  mode when the output descriptor is another one: the old flags are set on the output descriptor.
\<close>

theorem Dpip_read_restores_wrong_fd:
  assumes "dsh_read_once dsh w False = Some (dsh', w')" "\<not> mode_nb dsh" "fd_in dsh \<noteq> fd_out dsh"
  shows "w_nonblock w' (fd_in dsh) \<and> w_nonblock w' (fd_out dsh) = w_nonblock w (fd_in dsh)"
proof -
  from assms(1) obtain rs where "read_loop False dsh (w_reads w) = Some (dsh', rs)"
    by (auto simp: dsh_read_once_def Let_def split: option.splits if_splits)
  from read_loop_arrived [OF this] have "\<not> mode_nb dsh'" "fd_out dsh' = fd_out dsh" using assms(2) by (simp_all add: mode_nb_def)
  then show ?thesis using assms
    by (auto simp: dsh_read_once_def Let_def split: option.splits)
qed

lemma Dpip_read_restores_wrong_fd_witness:
  "\<exists>dsh' w'. dsh_read_once (sample_dsh []) (sample_world [Err_EAGAIN] []) False = Some (dsh', w')
     \<and> w_nonblock w' 0 \<and> \<not> w_nonblock w' 1"
proof -
  obtain dsh' w' where r: "dsh_read_once (sample_dsh []) (sample_world [Err_EAGAIN] []) False = Some (dsh', w')"
    by (simp add: sample_simps Let_def)
  from Dpip_read_restores_wrong_fd [OF r] r show ?thesis by (auto simp: sample_simps)
qed

end
