(* ===== verification/Decode.thy ===== *)
theory Decode
  imports Dlib_Strings
begin

text \<open>
  The stream decoders of \<^verbatim>\<open>dillo/src/decode.c\<close>: the chunked transfer coding, the compressed
  content codings and the translation of character sets. A decoder is a record like the
  struct, with the function pointers as a datatype; its buffers are their contents. The zlib
  and iconv libraries are parameters. A loop that may not return gives \<open>None\<close>.
\<close>

section \<open>The decoder\<close>

definition bufsize :: nat where "bufsize = 8 * 1024"

definition MAX_WBITS :: int where "MAX_WBITS = 15"

text \<open>The fields of a zlib stream the code reads; \<open>zs\<close> is the state inside the library. The
  other fields (\<open>next_in\<close>, \<open>avail_in\<close>, \<open>next_out\<close>, \<open>avail_out\<close>) are set before every call and
  are arguments of it here.\<close>

record 'z z_stream =
  zs :: 'z
  total_in :: nat
  total_out :: nat

datatype ('z, 'ic) dc_state = Chunk_remaining int | Zstream "'z z_stream" | Iconv 'ic

datatype decode_fn = Decode_chunked_fn | Decode_gzip_fn | Decode_raw_deflate_fn
  | Decode_deflate_fn | Decode_charset_fn

record ('z, 'ic) decode =
  dc_buffer :: string
  dc_leftover :: string
  dc_state :: "('z, 'ic) dc_state"
  dc_decode :: decode_fn

text \<open>What a call does when it returns: its result, or a read outside of the buffers.\<close>

datatype 'a outcome = Returns 'a | Bad_read

section \<open>Chunked transfer coding\<close>

text \<open>The bytes of a buffer as a C string, and \<open>memchr\<close> as the offset found.\<close>

definition c_string :: "string \<Rightarrow> string" where
  "c_string s = takeWhile (\<lambda>c. c \<noteq> NUL) s"

definition memchr :: "string \<Rightarrow> char \<Rightarrow> nat option" where
  "memchr s c = (let n = length (takeWhile (\<lambda>x. x \<noteq> c) s) in if n < length s then Some n else None)"

text \<open>One discarded byte (the CR when 2 bytes of the chunk are left, the LF when 1 is).\<close>

definition discard :: "int \<Rightarrow> int \<times> string \<Rightarrow> int \<times> string" where
  "discard k st = (case st of (chunkRemaining, inp) \<Rightarrow>
     if chunkRemaining = k \<and> inp \<noteq> [] then (chunkRemaining - 1, tl inp) else (chunkRemaining, inp))"

definition chunk_body :: "int \<Rightarrow> string \<Rightarrow> string \<Rightarrow> int \<times> string \<times> string" where
  "chunk_body chunkRemaining inp output =
     (if 2 < chunkRemaining then
        let copylen = min (nat (chunkRemaining - 2)) (length inp)
        in (chunkRemaining - int copylen, drop copylen inp, output @ take copylen inp)
      else (chunkRemaining, inp, output))"

definition chunk_data :: "int \<Rightarrow> string \<Rightarrow> string \<Rightarrow> int \<times> string \<times> string" where
  "chunk_data chunkRemaining inp output =
     (case chunk_body chunkRemaining inp output of (cr, i, out) \<Rightarrow>
        (case discard 1 (discard 2 (cr, i)) of (cr', i') \<Rightarrow> (cr', i', out)))"

text \<open>The length in the header; the \<open>long\<close> of \<open>strtol\<close> is assigned to an \<open>int\<close>. The addition of
  the two bytes of the line end wraps on the platforms the program is built for.\<close>

definition chunk_size :: "string \<Rightarrow> int" where
  "chunk_size inp = c_int (fst (strtol (c_string inp) 16))"

function chunk_loop :: "int \<Rightarrow> string \<Rightarrow> string \<Rightarrow> int \<times> string \<times> string" where
  "chunk_loop chunkRemaining inp output =
     (if inp = [] then (chunkRemaining, inp, output)
      else (case chunk_data chunkRemaining inp output of (cr, i, out) \<Rightarrow>
        (case memchr i (CHR 0x0A) of
           None \<Rightarrow> (cr, i, out)
         | Some eol \<Rightarrow>
             (if chunk_size i = 0 then (0, i, out)
              else chunk_loop (c_int (chunk_size i + 2)) (drop (eol + 1) i) out))))"
  by pat_completeness auto

lemma chunk_data_le: "chunk_data cr inp out = (cr', i, out') \<Longrightarrow> length i \<le> length inp"
  by (auto simp: chunk_data_def chunk_body_def discard_def Let_def split: if_splits prod.splits)

lemma memchr_Some:
  assumes "memchr s c = Some n"
  shows "n < length s \<and> c \<notin> set (take n s) \<and> s ! n = c"
proof -
  let ?t = "takeWhile (\<lambda>x. x \<noteq> c) s"
  have n: "n = length ?t" "n < length s"
    using assms by (auto simp: memchr_def Let_def split: if_splits)
  have "take n s = ?t" unfolding n(1) by (rule takeWhile_eq_take [symmetric])
  moreover have "c \<notin> set ?t" by (auto dest: set_takeWhileD)
  moreover have "s ! n = c" using nth_length_takeWhile [of "\<lambda>x. x \<noteq> c" s] n by auto
  ultimately show ?thesis using n(2) by simp
qed

lemma memchr_line:
  assumes "c \<notin> set l"
  shows "memchr (l @ c # r) c = Some (length l)"
proof -
  have "takeWhile (\<lambda>x. x \<noteq> c) (l @ c # r) = l" using assms
    by (subst takeWhile_append2) auto
  then show ?thesis by (simp add: memchr_def)
qed

lemma memchr_None: "memchr s c = None \<longleftrightarrow> c \<notin> set s"
proof
  assume "c \<notin> set s"
  then have "length (takeWhile (\<lambda>x. x \<noteq> c) s) = length s" by (subst takeWhile_eq_all_conv [THEN iffD2]) auto
  then show "memchr s c = None" by (simp add: memchr_def)
next
  assume n: "memchr s c = None"
  show "c \<notin> set s"
  proof
    assume "c \<in> set s"
    then obtain l r where "s = l @ c # r" "c \<notin> set l" by (meson split_list_first)
    with n show False by (simp add: memchr_line)
  qed
qed

termination chunk_loop
  by (relation "measure (\<lambda>(cr, inp, out). length inp)")
    (auto dest!: memchr_Some chunk_data_le [OF sym])

declare chunk_loop.simps [simp del]

definition Decode_chunked ::
  "('z, 'ic) decode \<Rightarrow> string \<Rightarrow> (string \<times> ('z, 'ic) decode) outcome" where
  "Decode_chunked dc instr =
     (case dc_state dc of
        Chunk_remaining chunkRemaining \<Rightarrow>
          (case chunk_loop chunkRemaining (dc_leftover dc @ instr) [] of (cr, inp, output) \<Rightarrow>
             Returns (output, dc\<lparr>dc_leftover := inp, dc_state := Chunk_remaining cr\<rparr>))
      | _ \<Rightarrow> Bad_read)"

definition a_Decode_transfer_init :: "string option \<Rightarrow> ('z, 'ic) decode option" where
  "a_Decode_transfer_init format =
     (case format of
        Some f \<Rightarrow>
          (if dStrAsciiCasecmp f ''chunked'' = 0
           then Some \<lparr>dc_buffer = [], dc_leftover = [], dc_state = Chunk_remaining 0,
                  dc_decode = Decode_chunked_fn\<rparr>
           else None)
      | None \<Rightarrow> None)"

section \<open>Compressed content codings\<close>

definition Z_OK :: int where "Z_OK = 0"
definition Z_STREAM_END :: int where "Z_STREAM_END = 1"
definition Z_DATA_ERROR :: int where "Z_DATA_ERROR = - 3"

text \<open>\<open>inflate\<close> of zlib: from the state of the library, the input available and the room for the
  output, it gives the return code, the number of input bytes taken, the output and the new
  state. A call adds to the totals of the stream and writes at the start of the buffer, whose
  other bytes stay.\<close>

type_synonym 'z inflater = "'z \<Rightarrow> string \<Rightarrow> nat \<Rightarrow> int \<times> nat \<times> string \<times> 'z"

definition inflate_call ::
  "'z inflater \<Rightarrow> 'z z_stream \<Rightarrow> string \<Rightarrow> string \<Rightarrow> int \<times> 'z z_stream \<times> string" where
  "inflate_call inflate z buffer inp =
     (case inflate (zs z) inp bufsize of (rc, n, out, s) \<Rightarrow>
        (rc, \<lparr>zs = s, total_in = total_in z + n, total_out = total_out z + length out\<rparr>,
         out @ drop (length out) buffer))"

partial_function (option) inflate_loop ::
  "'z inflater \<Rightarrow> 'z z_stream \<Rightarrow> string \<Rightarrow> string \<Rightarrow> int \<Rightarrow> nat \<Rightarrow> string
     \<Rightarrow> (string \<times> 'z z_stream \<times> string) outcome option" where
  "inflate_loop inflate z buffer instr rc inputConsumed output =
     (if rc = Z_OK \<and> inputConsumed < length instr then
        (case inflate_call inflate z buffer (drop inputConsumed instr) of (rc', z', buffer') \<Rightarrow>
           (if bufsize < total_out z' then Some Bad_read
            else if rc' = Z_OK \<or> rc' = Z_STREAM_END then
              inflate_loop inflate (z'\<lparr>total_in := 0, total_out := 0\<rparr>) buffer' instr rc'
                (inputConsumed + total_in z') (output @ take (total_out z') buffer')
            else inflate_loop inflate z' buffer' instr rc' inputConsumed
                (output @ take (total_out z') buffer')))
      else Some (Returns (output, z, buffer)))"

definition put_zstream :: "('z, 'ic) decode \<Rightarrow> string \<times> 'z z_stream \<times> string \<Rightarrow> string \<times> ('z, 'ic) decode" where
  "put_zstream dc r = (case r of (output, z, buffer) \<Rightarrow>
     (output, dc\<lparr>dc_state := Zstream z, dc_buffer := buffer\<rparr>))"

fun map_outcome :: "('a \<Rightarrow> 'b) \<Rightarrow> 'a outcome \<Rightarrow> 'b outcome" where
  "map_outcome f (Returns x) = Returns (f x)"
| "map_outcome f Bad_read = Bad_read"

definition Decode_gzip ::
  "'z inflater \<Rightarrow> ('z, 'ic) decode \<Rightarrow> string \<Rightarrow> (string \<times> ('z, 'ic) decode) outcome option" where
  "Decode_gzip inflate dc instr =
     (case dc_state dc of
        Zstream z \<Rightarrow> map_option (map_outcome (put_zstream dc))
          (inflate_loop inflate z (dc_buffer dc) instr Z_OK 0 [])
      | _ \<Rightarrow> Some Bad_read)"

definition Decode_raw_deflate ::
  "'z inflater \<Rightarrow> ('z, 'ic) decode \<Rightarrow> string \<Rightarrow> (string \<times> ('z, 'ic) decode) outcome option" where
  "Decode_raw_deflate inflate dc instr =
     (case dc_state dc of
        Zstream z \<Rightarrow> map_option (map_outcome (put_zstream dc))
          (inflate_loop inflate z (dc_buffer dc) instr Z_OK 0 [])
      | _ \<Rightarrow> Some Bad_read)"

text \<open>\<open>inflateInit2\<close> gives the initial state of the library for a window size.\<close>

partial_function (option) deflate_loop ::
  "'z inflater \<Rightarrow> (int \<Rightarrow> 'z) \<Rightarrow> ('z, 'ic) decode \<Rightarrow> 'z z_stream \<Rightarrow> string \<Rightarrow> string \<Rightarrow> int \<Rightarrow> nat \<Rightarrow> string
     \<Rightarrow> (string \<times> ('z, 'ic) decode) outcome option" where
  "deflate_loop inflate inflateInit2 dc z buffer instr rc inputConsumed output =
     (if rc = Z_OK \<and> inputConsumed < length instr then
        (case inflate_call inflate z buffer (drop inputConsumed instr) of (rc', z', buffer') \<Rightarrow>
           (if bufsize < total_out z' then Some Bad_read
            else if rc' = Z_OK \<or> rc' = Z_STREAM_END then
              deflate_loop inflate inflateInit2 dc (z'\<lparr>total_in := 0, total_out := 0\<rparr>) buffer' instr rc'
                (inputConsumed + total_in z') (output @ take (total_out z') buffer')
            else if rc' = Z_DATA_ERROR then
              Decode_raw_deflate inflate
                (dc\<lparr>dc_state := Zstream \<lparr>zs = inflateInit2 (- MAX_WBITS), total_in = 0, total_out = 0\<rparr>,
                    dc_buffer := buffer', dc_decode := Decode_raw_deflate_fn\<rparr>) instr
            else deflate_loop inflate inflateInit2 dc z' buffer' instr rc' inputConsumed
                (output @ take (total_out z') buffer')))
      else Some (Returns (put_zstream dc (output, z, buffer))))"

definition Decode_deflate ::
  "'z inflater \<Rightarrow> (int \<Rightarrow> 'z) \<Rightarrow> ('z, 'ic) decode \<Rightarrow> string \<Rightarrow> (string \<times> ('z, 'ic) decode) outcome option" where
  "Decode_deflate inflate inflateInit2 dc instr =
     (case dc_state dc of
        Zstream z \<Rightarrow> deflate_loop inflate inflateInit2 dc z (dc_buffer dc) instr Z_OK 0 []
      | _ \<Rightarrow> Some Bad_read)"

text \<open>The buffer comes from \<open>malloc\<close> with bytes \<open>junk\<close>. \<open>inflateInit\<close> is \<open>inflateInit2\<close> with the
  default window size.\<close>

definition Decode_content_init_common :: "string \<Rightarrow> 'z \<Rightarrow> decode_fn \<Rightarrow> ('z, 'ic) decode" where
  "Decode_content_init_common junk s f =
     \<lparr>dc_buffer = take bufsize junk, dc_leftover = [],
      dc_state = Zstream \<lparr>zs = s, total_in = 0, total_out = 0\<rparr>, dc_decode = f\<rparr>"

definition a_Decode_content_init ::
  "(int \<Rightarrow> 'z) \<Rightarrow> string \<Rightarrow> string option \<Rightarrow> ('z, 'ic) decode option" where
  "a_Decode_content_init inflateInit2 junk format =
     (case format of
        Some f \<Rightarrow>
          (if f = [] then None
           else if dStrAsciiCasecmp f ''gzip'' = 0 \<or> dStrAsciiCasecmp f ''x-gzip'' = 0
           then Some (Decode_content_init_common junk (inflateInit2 (MAX_WBITS + 16)) Decode_gzip_fn)
           else if dStrAsciiCasecmp f ''deflate'' = 0
           then Some (Decode_content_init_common junk (inflateInit2 MAX_WBITS) Decode_deflate_fn)
           else None)
      | None \<Rightarrow> None)"

section \<open>Character sets\<close>

definition utf8_replacement_char :: string where
  "utf8_replacement_char = [CHR 0xEF, CHR 0xBF, CHR 0xBD]"

definition EINVAL :: int where "EINVAL = 22"
definition EILSEQ :: int where "EILSEQ = 84"
definition E2BIG :: int where "E2BIG = 7"

text \<open>\<open>iconv\<close>: from the conversion descriptor, the input and the room for the output, the value
  returned (-1 or a count), \<open>errno\<close>, the number of input bytes taken, the output and the new
  descriptor. The value is assigned to an \<open>int\<close> that also takes the value of \<open>errno\<close>.\<close>

type_synonym 'ic converter = "'ic \<Rightarrow> string \<Rightarrow> nat \<Rightarrow> int \<times> int \<times> nat \<times> string \<times> 'ic"

definition iconv_rc :: "int \<Rightarrow> int \<Rightarrow> int" where
  "iconv_rc r err = (if c_int r = - 1 then err else c_int r)"

partial_function (option) charset_loop ::
  "'ic converter \<Rightarrow> 'ic \<Rightarrow> string \<Rightarrow> int \<Rightarrow> string \<Rightarrow> (string \<times> string \<times> 'ic) outcome option" where
  "charset_loop iconv ic inp rc output =
     (if rc \<noteq> EINVAL \<and> inp \<noteq> [] then
        (case iconv ic inp bufsize of (r, err, n, out, ic') \<Rightarrow>
           let rc' = iconv_rc r err
           in if rc' = EILSEQ then
                (if drop n inp = [] then Some Bad_read
                 else charset_loop iconv ic' (tl (drop n inp)) rc' (output @ out @ utf8_replacement_char))
              else charset_loop iconv ic' (drop n inp) rc' (output @ out))
      else Some (Returns (output, inp, ic)))"

definition Decode_charset ::
  "'ic converter \<Rightarrow> ('z, 'ic) decode \<Rightarrow> string \<Rightarrow> (string \<times> ('z, 'ic) decode) outcome option" where
  "Decode_charset iconv dc instr =
     (case dc_state dc of
        Iconv ic \<Rightarrow> map_option (map_outcome (\<lambda>(output, left, ic').
            (output, dc\<lparr>dc_leftover := left, dc_state := Iconv ic'\<rparr>)))
          (charset_loop iconv ic (dc_leftover dc @ instr) 0 [])
      | _ \<Rightarrow> Some Bad_read)"

definition a_Decode_charset_init ::
  "(string \<Rightarrow> string \<Rightarrow> 'ic option) \<Rightarrow> string option \<Rightarrow> ('z, 'ic) decode option" where
  "a_Decode_charset_init iconv_open format =
     (case format of
        Some f \<Rightarrow>
          (if f \<noteq> [] \<and> dStrAsciiCasecmp f ''UTF-8'' \<noteq> 0 then
             (case iconv_open ''UTF-8'' f of
                Some ic \<Rightarrow> Some \<lparr>dc_buffer = [], dc_leftover = [], dc_state = Iconv ic,
                    dc_decode = Decode_charset_fn\<rparr>
              | None \<Rightarrow> None)
           else None)
      | None \<Rightarrow> None)"

section \<open>Decoding\<close>

definition a_Decode_process ::
  "'z inflater \<Rightarrow> (int \<Rightarrow> 'z) \<Rightarrow> 'ic converter \<Rightarrow> ('z, 'ic) decode \<Rightarrow> string
     \<Rightarrow> (string \<times> ('z, 'ic) decode) outcome option" where
  "a_Decode_process inflate inflateInit2 iconv dc instr =
     (case dc_decode dc of
        Decode_chunked_fn \<Rightarrow> Some (Decode_chunked dc instr)
      | Decode_gzip_fn \<Rightarrow> Decode_gzip inflate dc instr
      | Decode_raw_deflate_fn \<Rightarrow> Decode_raw_deflate inflate dc instr
      | Decode_deflate_fn \<Rightarrow> Decode_deflate inflate inflateInit2 dc instr
      | Decode_charset_fn \<Rightarrow> Decode_charset iconv dc instr)"

text \<open>What a client that appends the results does with the pieces of a stream.\<close>

fun decode_all :: "('d \<Rightarrow> string \<Rightarrow> (string \<times> 'd) outcome option) \<Rightarrow> 'd \<Rightarrow> string list
    \<Rightarrow> (string \<times> 'd) outcome option" where
  "decode_all f dc [] = Some (Returns ([], dc))"
| "decode_all f dc (p # ps) =
     (case f dc p of
        Some (Returns (out, dc')) \<Rightarrow>
          map_option (map_outcome (\<lambda>(rest, d). (out @ rest, d))) (decode_all f dc' ps)
      | r \<Rightarrow> r)"

section \<open>The effect of the discarded bytes\<close>

lemma chunk_data_le0: "cr \<le> 0 \<Longrightarrow> chunk_data cr inp out = (cr, inp, out)"
  by (simp add: chunk_data_def chunk_body_def discard_def)

lemma chunk_data_eq:
  assumes "0 < cr"
  shows "chunk_data cr inp out = (cr - min cr (int (length inp)), drop (nat cr) inp, out @ take (nat (cr - 2)) inp)"
proof -
  consider "cr = 1" | "cr = 2" | "2 < cr" using assms by linarith
  then show ?thesis
  proof cases
    case 1
    then show ?thesis by (cases inp) (auto simp: chunk_data_def chunk_body_def discard_def)
  next
    case 2
    then show ?thesis
      by (cases inp; cases "tl inp") (auto simp: chunk_data_def chunk_body_def discard_def)
  next
    case 3
    define m where "m = nat (cr - 2)"
    have cr: "cr = int m + 2" "0 < m" using 3 by (auto simp: m_def)
    show ?thesis
    proof (cases "length inp \<le> m")
      case True
      with cr show ?thesis
        by (auto simp: chunk_data_def chunk_body_def discard_def Let_def min_def)
    next
      case False
      then obtain a t where d: "drop m inp = a # t" by (metis Cons_nth_drop_Suc not_le)
      have "drop (Suc m) inp = t" using d by (metis drop_Suc list.sel(3) tl_drop)
      moreover have "drop (Suc (Suc m)) inp = tl t" using calculation by (metis drop_Suc tl_drop)
      moreover have "length inp = m + 1 + length t" using d False
        by (metis add.assoc add_diff_inverse_nat length_Cons length_drop nat_le_linear not_le plus_1_eq_Suc)
      ultimately show ?thesis using cr d
        by (cases t) (auto simp: chunk_data_def chunk_body_def discard_def Let_def min_def
            nat_add_distrib numeral_2_eq_2)
    qed
  qed
qed

lemma chunk_data_append:
  assumes "chunk_data cr x out = (cr', x', out')"
  shows "chunk_data cr (x @ y) out = (if x' = [] then chunk_data cr' y out' else (cr', x' @ y, out'))"
    and "x' \<noteq> [] \<Longrightarrow> cr' \<le> 0"
proof -
  show "x' \<noteq> [] \<Longrightarrow> cr' \<le> 0"
    using assms by (cases "0 < cr") (auto simp: chunk_data_eq chunk_data_le0)
  show "chunk_data cr (x @ y) out = (if x' = [] then chunk_data cr' y out' else (cr', x' @ y, out'))"
  proof (cases "0 < cr")
    case False
    with assms show ?thesis by (auto simp: chunk_data_le0)
  next
    case True
    then have e: "cr' = cr - min cr (int (length x))" "x' = drop (nat cr) x"
      "out' = out @ take (nat (cr - 2)) x" using assms by (auto simp: chunk_data_eq)
    show ?thesis
    proof (cases "int (length x) < cr")
      case h: True
      then have "x' = []" "cr' = cr - int (length x)" "nat cr' = nat cr - length x"
        "nat (cr' - 2) = nat (cr - 2) - length x"
        using e by (auto simp: min_def)
      with h True show ?thesis using e by (auto simp: chunk_data_eq min_def)
    next
      case h: False
      then have "cr' = 0" "nat cr - length x = 0" "nat (cr - 2) - length x = 0" using e by auto
      with h True show ?thesis using e by (auto simp: chunk_data_eq chunk_data_le0)
    qed
  qed
qed

section \<open>A chunk header is read from its line\<close>

definition blank :: "string \<Rightarrow> bool" where
  "blank l \<longleftrightarrow> (\<forall>c \<in> set l. isspace c)"

lemma strtol_line:
  assumes "\<not> blank l"
  shows "fst (strtol (l @ CHR 0x0A # r) 16) = fst (strtol l 16)"
proof -
  obtain x where x: "x \<in> set l" "\<not> isspace x" using assms by (auto simp: blank_def)
  define l1 where "l1 = dropWhile isspace l"
  have e1: "dropWhile isspace (l @ CHR 0x0A # r) = l1 @ CHR 0x0A # r"
    unfolding l1_def using x by (rule dropWhile_append1)
  have "l1 \<noteq> []" using x by (auto simp: l1_def)
  then have e2: "deref (l1 @ CHR 0x0A # r) = deref l1" by (cases l1) auto
  define l2 where "l2 = (if deref l1 = CHR ''-'' \<or> deref l1 = CHR ''+'' then tl l1 else l1)"
  have e3: "(if deref l1 = CHR ''-'' \<or> deref l1 = CHR ''+'' then tl (l1 @ CHR 0x0A # r)
      else l1 @ CHR 0x0A # r) = l2 @ CHR 0x0A # r"
    using \<open>l1 \<noteq> []\<close> by (simp add: l2_def)
  define x16 where "x16 s \<longleftrightarrow> deref s = CHR ''0'' \<and> char_at s 1 \<in> {CHR ''x'', CHR ''X''}
      \<and> is_digit_in 16 (char_at s 2)" for s
  have nl: "\<not> is_digit_in 16 (CHR 0x0A)" "\<not> is_digit_in 16 NUL"
    by (simp_all add: is_digit_in_def digit_val_def isdigit_def uchar_def)
  have e4: "x16 (l2 @ CHR 0x0A # r) = x16 l2 \<and> (x16 l2 \<longrightarrow> 2 \<le> length l2)"
    using nl
    by (cases l2; cases "tl l2"; cases "tl (tl l2)")
      (auto simp: x16_def char_at_def numeral_2_eq_2)
  define l3 where "l3 = (if x16 l2 then drop 2 l2 else l2)"
  have e5: "(if x16 l2 then drop 2 (l2 @ CHR 0x0A # r) else l2 @ CHR 0x0A # r) = l3 @ CHR 0x0A # r"
    using e4 by (simp add: l3_def)
  have e6: "takeWhile (is_digit_in 16) (l3 @ CHR 0x0A # r) = takeWhile (is_digit_in 16) l3"
    using nl by (simp add: takeWhile_tail)
  have e4': "x16 (l2 @ CHR 0x0A # r) = x16 l2" using e4 by simp
  show ?thesis
    unfolding strtol_def Let_def e1 e2 e3
    unfolding l1_def [symmetric] l2_def [symmetric]
    unfolding simp_thms x16_def [symmetric] e4' e5
    unfolding l3_def [symmetric] e6 by simp
qed

lemma chunk_size_line:
  assumes "\<not> blank l"
  shows "chunk_size (l @ CHR 0x0A # r) = chunk_size l"
proof (cases "NUL \<in> set l")
  case True
  then have "c_string (l @ CHR 0x0A # r) = c_string l"
    unfolding c_string_def by (intro takeWhile_append1) auto
  then show ?thesis by (simp add: chunk_size_def)
next
  case False
  then have "c_string (l @ x) = l @ c_string x" for x
    unfolding c_string_def by (subst takeWhile_append2) auto
  from this [of "CHR 0x0A # r"] this [of "[]"]
  have "c_string (l @ CHR 0x0A # r) = l @ CHR 0x0A # c_string r" "c_string l = l"
    by (simp_all add: c_string_def)
  then show ?thesis using strtol_line [OF assms] by (simp add: chunk_size_def)
qed

lemma strtol_blank:
  assumes "blank l"
  shows "fst (strtol (c_string l) 16) = 0"
proof -
  have "blank (c_string l)" using assms by (auto simp: blank_def c_string_def dest: set_takeWhileD)
  then have e: "dropWhile isspace (c_string l) = []" by (simp add: blank_def)
  show ?thesis unfolding strtol_def Let_def e by simp
qed

lemma chunk_size_blank: "blank l \<Longrightarrow> chunk_size l = 0"
  by (simp add: chunk_size_def strtol_blank c_int_def)

section \<open>Decoding does not depend on how the input is split\<close>

text \<open>The headers the loop reads on this input are not blank lines.\<close>

function headers_ok :: "int \<Rightarrow> string \<Rightarrow> bool" where
  "headers_ok cr inp =
     (inp = [] \<or> (case chunk_data cr inp [] of (_, i, _) \<Rightarrow>
        (case memchr i (CHR 0x0A) of
           None \<Rightarrow> True
         | Some eol \<Rightarrow> \<not> blank (take eol i)
             \<and> (chunk_size i = 0 \<or> headers_ok (c_int (chunk_size i + 2)) (drop (eol + 1) i)))))"
  by pat_completeness auto
termination
  by (relation "measure (\<lambda>(cr, inp). length inp)")
    (auto dest!: memchr_Some chunk_data_le [OF sym])

declare headers_ok.simps [simp del]

lemma chunk_data_out:
  "chunk_data cr inp out = (case chunk_data cr inp [] of (c, i, o') \<Rightarrow> (c, i, out @ o'))"
  by (cases "0 < cr") (simp_all add: chunk_data_eq chunk_data_le0)

lemma chunk_loop_out:
  "chunk_loop cr inp out = (case chunk_loop cr inp [] of (c, i, o') \<Rightarrow> (c, i, out @ o'))"
proof (induction inp arbitrary: cr out rule: length_induct)
  case (1 inp)
  obtain c i o1 where d: "chunk_data cr inp [] = (c, i, o1)" by (cases "chunk_data cr inp []")
  have d': "chunk_data cr inp out = (c, i, out @ o1)" using d chunk_data_out [of cr inp out] by simp
  show ?case
  proof (cases "inp = [] \<or> memchr i (CHR 0x0A) = None")
    case True
    then show ?thesis using d d' by (auto simp: chunk_loop.simps [of cr inp])
  next
    case False
    then obtain eol where m: "inp \<noteq> []" "memchr i (CHR 0x0A) = Some eol" by auto
    show ?thesis
    proof (cases "chunk_size i = 0")
      case True
      then show ?thesis using d d' m by (simp add: chunk_loop.simps [of cr inp])
    next
      case nz: False
      let ?f = "chunk_loop (c_int (chunk_size i + 2)) (drop (eol + 1) i)"
      have "length (drop (eol + 1) i) < length inp"
        using memchr_Some [OF m(2)] chunk_data_le [OF d] by auto
      then have "?f o' = (case ?f [] of (c, i, o2) \<Rightarrow> (c, i, o' @ o2))" for o'
        using 1 by blast
      from this [of o1] this [of "out @ o1"] show ?thesis using d d' m nz
        by (simp add: chunk_loop.simps [of cr inp] split: prod.splits)
    qed
  qed
qed

lemma memchr_split:
  assumes "memchr i c = Some eol"
  shows "i = take eol i @ c # drop (eol + 1) i" "c \<notin> set (take eol i)" "eol < length i"
  using memchr_Some [OF assms] id_take_nth_drop [of eol i] by auto

lemma chunk_loop_append:
  "headers_ok cr (x @ y) \<Longrightarrow>
   (case chunk_loop cr x out of (cr', l, o') \<Rightarrow>
      chunk_loop cr (x @ y) out = chunk_loop cr' (l @ y) o' \<and> headers_ok cr' (l @ y))"
proof (induction cr x out rule: chunk_loop.induct)
  case (1 cr x out)
  show ?case
  proof (cases "x = []")
    case True
    then show ?thesis using 1(2) by (simp add: chunk_loop.simps [of cr "[]"])
  next
    case False
    obtain cr' x' out' where d: "chunk_data cr x out = (cr', x', out')" by (cases "chunk_data cr x out")
    note dy = chunk_data_append [OF d]
    show ?thesis
    proof (cases "memchr x' (CHR 0x0A)")
      case None
      have L: "chunk_loop cr x out = (cr', x', out')" using False d None by (subst chunk_loop.simps) simp
      show ?thesis
      proof (cases "x' @ y = []")
        case True
        then show ?thesis using 1(2) False d None L by (simp add: headers_ok.simps [of cr' "[]"] chunk_loop.simps [of cr' "[]"])
      next
        case ne: False
        have e: "chunk_data cr' (x' @ y) out' = chunk_data cr (x @ y) out"
          using dy by (cases "x' = []") (auto simp: chunk_data_le0)
        then have "chunk_loop cr (x @ y) out = chunk_loop cr' (x' @ y) out'"
          using False ne by (simp only: chunk_loop.simps [of cr "x @ y"] chunk_loop.simps [of cr' "x' @ y"]) simp
        moreover have "headers_ok cr' (x' @ y)"
        proof -
          obtain a b o2 o3 where "chunk_data cr (x @ y) [] = (a, b, o2)"
            "chunk_data cr' (x' @ y) [] = (a, b, o3)"
            using e chunk_data_out [of cr "x @ y" out] chunk_data_out [of cr' "x' @ y" out']
            by (cases "chunk_data cr (x @ y) []"; cases "chunk_data cr' (x' @ y) []") auto
          then have "headers_ok cr' (x' @ y) = headers_ok cr (x @ y)" using False ne
            by (simp only: headers_ok.simps [of cr "x @ y"] headers_ok.simps [of cr' "x' @ y"]) simp
          then show ?thesis using 1(2) by simp
        qed
        ultimately show ?thesis using L by simp
      qed
    next
      case (Some eol)
      note sp = memchr_split [OF Some]
      have ne: "x' \<noteq> []" using sp by auto
      have m: "memchr (x' @ y) (CHR 0x0A) = Some eol"
        by (subst sp(1)) (use sp(2,3) in \<open>simp add: memchr_line\<close>)
      have dxy: "chunk_data cr (x @ y) out = (cr', x' @ y, out')" using dy ne by simp
      then obtain o2 where dxy0: "chunk_data cr (x @ y) [] = (cr', x' @ y, o2)"
        using chunk_data_out [of cr "x @ y" out] by (cases "chunk_data cr (x @ y) []") auto
      have h: "\<not> blank (take eol x')" "chunk_size (x' @ y) = 0 \<or>
          headers_ok (c_int (chunk_size (x' @ y) + 2)) (drop (eol + 1) x' @ y)"
        using 1(2) False dxy0 m sp(3) by (simp_all add: headers_ok.simps [of cr "x @ y"])
      have sz: "chunk_size (x' @ y) = chunk_size x'"
      proof -
        have "chunk_size (take eol x' @ CHR 0x0A # r) = chunk_size (take eol x')" for r
          by (rule chunk_size_line [OF h(1)])
        then show ?thesis using sp(1) by (metis append.assoc append_Cons)
      qed
      show ?thesis
      proof (cases "chunk_size x' = 0")
        case True
        have L: "chunk_loop cr x out = (0, x', out')" using False d Some True by (subst chunk_loop.simps) simp
        have "chunk_loop cr (x @ y) out = (0, x' @ y, out')"
          using False dxy m sz True by (subst chunk_loop.simps) simp
        moreover have "chunk_loop 0 (x' @ y) out' = (0, x' @ y, out')"
          using ne m sz True by (subst chunk_loop.simps) (simp add: chunk_data_le0)
        moreover have "headers_ok 0 (x' @ y)"
          using ne m sz True h(1) sp(3) by (subst headers_ok.simps) (simp add: chunk_data_le0)
        ultimately show ?thesis using L by simp
      next
        case nz: False
        have L: "chunk_loop cr x out = chunk_loop (c_int (chunk_size x' + 2)) (drop (eol + 1) x') out'"
          using False d Some nz by (subst chunk_loop.simps) simp
        have "chunk_loop cr (x @ y) out
            = chunk_loop (c_int (chunk_size x' + 2)) (drop (eol + 1) x' @ y) out'"
          using False dxy m sz nz sp(3) by (subst chunk_loop.simps) simp
        moreover have "case chunk_loop (c_int (chunk_size x' + 2)) (drop (eol + 1) x') out' of
            (cr'', l, o') \<Rightarrow> chunk_loop (c_int (chunk_size x' + 2)) (drop (eol + 1) x' @ y) out'
               = chunk_loop cr'' (l @ y) o' \<and> headers_ok cr'' (l @ y)"
          by (rule 1(1) [OF False d [symmetric] refl Some nz]) (use h(2) sz nz in simp)
        ultimately show ?thesis using L by (simp split: prod.splits)
      qed
    qed
  qed
qed

section \<open>Chunked streams\<close>

text \<open>A chunk is its header line (without the line end; extensions after the length are part of
  it) and its data. The length of a header is the number it begins with, in hexadecimal.\<close>

definition header_length :: "string \<Rightarrow> int" where
  "header_length h = fst (strtol (c_string h) 16)"

definition chunk_ok :: "string \<times> string \<Rightarrow> bool" where
  "chunk_ok c \<longleftrightarrow> (case c of (h, d) \<Rightarrow> CHR 0x0A \<notin> set h \<and> header_length h = int (length d)
     \<and> d \<noteq> [] \<and> length d < 2147483646)"

definition chunk_bytes :: "string \<times> string \<Rightarrow> string" where
  "chunk_bytes c = (case c of (h, d) \<Rightarrow> h @ [CHR 0x0A] @ d @ [CHR 0x0D, CHR 0x0A])"

definition chunk_stream :: "(string \<times> string) list \<Rightarrow> string" where
  "chunk_stream cs = concat (map chunk_bytes cs)"

lemma c_int_id: "- 2147483648 \<le> x \<Longrightarrow> x < 2147483648 \<Longrightarrow> c_int x = x"
  by (simp add: c_int_def)

lemma header_nonblank:
  assumes "chunk_size h \<noteq> 0"
  shows "\<not> blank h"
  using assms chunk_size_blank by blast

lemma chunk_ok_header:
  assumes "chunk_ok (h, d)"
  shows "memchr (h @ CHR 0x0A # r) (CHR 0x0A) = Some (length h)" "\<not> blank h"
    "chunk_size (h @ CHR 0x0A # r) = int (length d)" "c_int (int (length d) + 2) = int (length d) + 2"
proof -
  have h: "CHR 0x0A \<notin> set h" "header_length h = int (length d)" "d \<noteq> []" "length d < 2147483646"
    using assms by (simp_all add: chunk_ok_def)
  show "memchr (h @ CHR 0x0A # r) (CHR 0x0A) = Some (length h)" using h(1) by (rule memchr_line)
  have s: "chunk_size h = int (length d)"
    unfolding chunk_size_def using h(2,4) by (simp add: header_length_def c_int_id)
  with h(3) show nb: "\<not> blank h" by (intro header_nonblank) simp
  show "chunk_size (h @ CHR 0x0A # r) = int (length d)" using chunk_size_line [OF nb] s by simp
  show "c_int (int (length d) + 2) = int (length d) + 2" using h(4) by (intro c_int_id) auto
qed

lemma chunk_data_whole:
  "chunk_data (int (length d) + 2) (d @ CHR 0x0D # CHR 0x0A # t) out = (0, t, out @ d)"
  by (subst chunk_data_eq) (auto simp: nat_add_distrib)

lemma chunk_data_part:
  "length d < n \<Longrightarrow> chunk_data (int n + 2) d out = (int n + 2 - int (length d), [], out @ d)"
  by (subst chunk_data_eq) (auto simp: nat_add_distrib)

lemma chunk_loop_header:
  assumes "chunk_ok (h, d)"
  shows "chunk_loop 0 (h @ CHR 0x0A # r) out = chunk_loop (int (length d) + 2) r out"
  using chunk_ok_header [OF assms] assms
  by (subst chunk_loop.simps) (simp add: chunk_data_le0 chunk_ok_def)

lemma chunk_loop_data:
  assumes "chunk_data cr inp out = (0, i, out')" "inp \<noteq> []"
  shows "chunk_loop cr inp out = chunk_loop 0 i out'"
proof (cases "i = []")
  case True
  with assms show ?thesis
    by (simp add: chunk_loop.simps [of cr] chunk_loop.simps [of 0 "[]"] memchr_def)
next
  case False
  with assms have "chunk_data 0 i out' = chunk_data cr inp out" by (simp add: chunk_data_le0)
  then show ?thesis using assms(2) False by (simp only: chunk_loop.simps [of cr] chunk_loop.simps [of 0 i]) simp
qed

lemma chunk_loop_chunk:
  assumes "chunk_ok (h, d)"
  shows "chunk_loop 0 (chunk_bytes (h, d) @ t) out = chunk_loop 0 t (out @ d)"
  by (simp add: chunk_bytes_def chunk_loop_header [OF assms] chunk_loop_data [OF chunk_data_whole])

lemma headers_ok_header:
  assumes "chunk_ok (h, d)"
  shows "headers_ok 0 (h @ CHR 0x0A # r) = headers_ok (int (length d) + 2) r"
  using chunk_ok_header [OF assms] assms
  by (subst headers_ok.simps) (simp add: chunk_data_le0 chunk_ok_def)

lemma headers_ok_data:
  assumes "chunk_data cr inp [] = (0, i, out')" "headers_ok 0 i"
  shows "headers_ok cr inp"
proof (cases "inp = [] \<or> i = []")
  case True
  with assms show ?thesis by (subst headers_ok.simps) (auto simp: memchr_def)
next
  case False
  with assms show ?thesis
    by (simp only: headers_ok.simps [of cr] headers_ok.simps [of 0 i]) (simp add: chunk_data_le0)
qed

lemma headers_ok_chunk:
  assumes "chunk_ok (h, d)" "headers_ok 0 t"
  shows "headers_ok 0 (chunk_bytes (h, d) @ t)"
  using headers_ok_data [OF chunk_data_whole assms(2), of d]
  by (simp add: chunk_bytes_def headers_ok_header [OF assms(1)])

lemma chunk_stream_loop:
  assumes "\<forall>c \<in> set cs. chunk_ok c"
  shows "chunk_loop 0 (chunk_stream cs @ t) out = chunk_loop 0 t (out @ concat (map snd cs))"
  using assms
proof (induction cs arbitrary: out)
  case Nil
  then show ?case by (simp add: chunk_stream_def)
next
  case (Cons c cs)
  then show ?case
    using chunk_loop_chunk [of "fst c" "snd c" "chunk_stream cs @ t" out] Cons.IH [of "out @ snd c"]
    by (simp add: chunk_stream_def)
qed

lemma chunk_stream_headers:
  assumes "\<forall>c \<in> set cs. chunk_ok c" "headers_ok 0 t"
  shows "headers_ok 0 (chunk_stream cs @ t)"
  using assms
proof (induction cs)
  case Nil
  then show ?case by (simp add: chunk_stream_def)
next
  case (Cons c cs)
  then show ?case
    using headers_ok_chunk [of "fst c" "snd c" "chunk_stream cs @ t"] by (simp add: chunk_stream_def)
qed

section \<open>Decoding a stream in pieces\<close>

section \<open>Decoding a stream in pieces\<close>

lemma Decode_chunked_pieces:
  fixes dc :: "('z, 'ic) decode"
  assumes "dc_decode dc = Decode_chunked_fn" "dc_state dc = Chunk_remaining cr"
    and "headers_ok cr (dc_leftover dc @ concat ps)"
    and "chunk_loop cr (dc_leftover dc @ concat ps) [] = (cr', l, out)"
    and "ps \<noteq> []"
  shows "decode_all (a_Decode_process inflate inflateInit2 iconv) dc ps =
    Some (Returns (out, dc\<lparr>dc_leftover := l, dc_state := Chunk_remaining cr'\<rparr>))"
  using assms
proof (induction ps arbitrary: dc cr out)
  case Nil
  then show ?case by simp
next
  case (Cons p ps)
  obtain c1 l1 o1 where L: "chunk_loop cr (dc_leftover dc @ p) [] = (c1, l1, o1)"
    by (cases "chunk_loop cr (dc_leftover dc @ p) []")
  let ?d = "dc\<lparr>dc_leftover := l1, dc_state := Chunk_remaining c1\<rparr>"
  have P: "a_Decode_process inflate inflateInit2 iconv dc p = Some (Returns (o1, ?d))"
    using Cons.prems L by (simp add: a_Decode_process_def Decode_chunked_def)
  have A: "chunk_loop cr (dc_leftover dc @ concat (p # ps)) [] = chunk_loop c1 (l1 @ concat ps) o1"
    "headers_ok c1 (l1 @ concat ps)"
    using chunk_loop_append [of cr "dc_leftover dc @ p" "concat ps" "[]"] Cons.prems(3) L by simp_all
  show ?case
  proof (cases "ps = []")
    case True
    then show ?thesis using P L Cons.prems(4) by simp
  next
    case False
    obtain out1 where o: "chunk_loop c1 (l1 @ concat ps) [] = (cr', l, out1)" "out = o1 @ out1"
      using A(1) Cons.prems(4) chunk_loop_out [of c1 "l1 @ concat ps" o1]
      by (cases "chunk_loop c1 (l1 @ concat ps) []") auto
    have "decode_all (a_Decode_process inflate inflateInit2 iconv) ?d ps =
        Some (Returns (out1, ?d\<lparr>dc_leftover := l, dc_state := Chunk_remaining cr'\<rparr>))"
      using Cons.IH [of ?d c1 out1] A(2) o(1) Cons.prems(1) False by simp
    then show ?thesis using P o(2) by simp
  qed
qed

lemma Decode_chunked_stream_init:
  fixes dc :: "('z, 'ic) decode"
  assumes "a_Decode_transfer_init (Some ''chunked'') = Some dc" "\<forall>c \<in> set cs. chunk_ok c"
    and "concat ps = chunk_stream cs @ t" "headers_ok 0 t" "chunk_loop 0 t [] = (cr', l, out)"
  shows "\<exists>dc'. decode_all (a_Decode_process inflate inflateInit2 iconv) dc ps =
    Some (Returns (concat (map snd cs) @ out, dc'))"
proof (cases "ps = []")
  case True
  with assms(3) have "cs = []" "t = []"
    by (cases cs; auto simp: chunk_stream_def chunk_bytes_def split: prod.splits)+
  with True assms(5) show ?thesis by (simp add: chunk_loop.simps)
next
  case False
  have i: "dc_decode dc = Decode_chunked_fn" "dc_state dc = Chunk_remaining 0" "dc_leftover dc = []"
    using assms(1) by (auto simp: a_Decode_transfer_init_def split: if_splits)
  have "chunk_loop 0 (dc_leftover dc @ concat ps) [] = (cr', l, concat (map snd cs) @ out)"
    using chunk_stream_loop [OF assms(2), of t "[]"] chunk_loop_out [of 0 t "concat (map snd cs)"]
      assms(3,5) i(3) by simp
  moreover have "headers_ok 0 (dc_leftover dc @ concat ps)"
    using chunk_stream_headers [OF assms(2,4)] assms(3) i(3) by simp
  ultimately show ?thesis using Decode_chunked_pieces [OF i(1,2) _ _ False] by blast
qed

lemma chunk_loop_last:
  assumes "CHR 0x0A \<notin> set h" "\<not> blank h" "chunk_size h = 0"
  shows "chunk_loop 0 (h @ CHR 0x0A # r) out = (0, h @ CHR 0x0A # r, out)"
    and "headers_ok 0 (h @ CHR 0x0A # r)"
  using assms chunk_size_line [OF assms(2), of r] memchr_line [OF assms(1), of r]
  by (subst chunk_loop.simps headers_ok.simps, simp add: chunk_data_le0)+

section \<open>Properties of the chunked decoder\<close>

text \<open>
  C25: a stream of chunks, closed by a chunk of length 0 and followed by anything (the trailer),
  decodes to the data of the chunks in order, in whatever pieces the network delivers it, even
  when a piece ends inside a header, a line end or the data.\<close>

theorem Decode_chunked_stream:
  fixes dc :: "('z, 'ic) decode"
  assumes "a_Decode_transfer_init (Some ''chunked'') = Some dc"
    and "\<forall>c \<in> set chunks. chunk_ok c"
    and "CHR 0x0A \<notin> set h" "\<not> blank h" "header_length h = 0"
    and "concat pieces = chunk_stream chunks @ h @ CHR 0x0A # trailer"
  shows "\<exists>dc'. decode_all (a_Decode_process inflate inflateInit2 iconv) dc pieces =
    Some (Returns (concat (map snd chunks), dc'))"
proof -
  have "chunk_size h = 0" using assms(5) by (simp add: chunk_size_def header_length_def c_int_def)
  note l = chunk_loop_last [OF assms(3,4) this]
  show ?thesis using Decode_chunked_stream_init [OF assms(1,2,6) l(2) l(1)] by simp
qed

lemma header_lits:
  "header_length ''5'' = 5" "header_length ''3;x=y'' = 3" "header_length ''0'' = 0"
  "header_length ''100000000'' = 4294967296"
  by (simp_all add: header_length_def c_string_def strtol_def isspace_def uchar_def is_digit_in_def
      digit_val_def isdigit_def digits_value_def clamp_long_def char_at_def)

theorem Decode_chunked_stream_witness:
  "\<exists>dc'. decode_all (a_Decode_process (\<lambda>z i n. (0, 0, [], z)) (\<lambda>_. ()) (\<lambda>c i n. (0, 0, 0, [], c)))
     \<lparr>dc_buffer = [], dc_leftover = [], dc_state = Chunk_remaining 0 :: (unit, unit) dc_state,
      dc_decode = Decode_chunked_fn\<rparr>
     [''5'' @ [CHR 0x0A], ''hel'', ''lo'' @ [CHR 0x0D], CHR 0x0A # ''3;x'', ''=y'' @ [CHR 0x0A],
      ''abc'' @ [CHR 0x0D, CHR 0x0A], ''0'', [CHR 0x0A], [CHR 0x0D, CHR 0x0A]] =
   Some (Returns (''helloabc'', dc'))"
  using Decode_chunked_stream [of "\<lparr>dc_buffer = [], dc_leftover = [],
      dc_state = Chunk_remaining 0 :: (unit, unit) dc_state, dc_decode = Decode_chunked_fn\<rparr>"
      "[(''5'', ''hello''), (''3;x=y'', ''abc'')]" "''0''"
      "[''5'' @ [CHR 0x0A], ''hel'', ''lo'' @ [CHR 0x0D], CHR 0x0A # ''3;x'', ''=y'' @ [CHR 0x0A],
      ''abc'' @ [CHR 0x0D, CHR 0x0A], ''0'', [CHR 0x0A], [CHR 0x0D, CHR 0x0A]]"
      "[CHR 0x0D, CHR 0x0A]" "\<lambda>z i n. (0, 0, [], z)" "\<lambda>_. ()" "\<lambda>c i n. (0, 0, 0, [], c)"]
  by (simp add: a_Decode_transfer_init_def chunk_ok_def header_lits blank_def
      isspace_def uchar_def chunk_stream_def chunk_bytes_def)

text \<open>
  C26: the decoder holds nothing back: when a stream has arrived up to some point inside the data
  of a chunk, all the bytes of data that have arrived have been put out.\<close>

theorem Decode_chunked_progress:
  fixes dc :: "('z, 'ic) decode"
  assumes "a_Decode_transfer_init (Some ''chunked'') = Some dc"
    and "\<forall>c \<in> set chunks. chunk_ok c" "chunk_ok (h, got @ missing)" "missing \<noteq> []"
    and "concat pieces = chunk_stream chunks @ h @ CHR 0x0A # got"
  shows "\<exists>dc'. decode_all (a_Decode_process inflate inflateInit2 iconv) dc pieces =
    Some (Returns (concat (map snd chunks) @ got, dc'))"
proof -
  let ?n = "length (got @ missing)"
  have d: "chunk_data (int ?n + 2) got out = (int ?n + 2 - int (length got), [], out @ got)" for out
    using assms(4) by (intro chunk_data_part) simp
  have "chunk_loop 0 (h @ CHR 0x0A # got) [] = chunk_loop (int ?n + 2) got []"
    by (rule chunk_loop_header [OF assms(3)])
  also have "\<dots> = (int ?n + 2 - int (length got), [], got)"
    using d [of "[]"] by (subst chunk_loop.simps) (simp add: memchr_def)
  finally have l: "chunk_loop 0 (h @ CHR 0x0A # got) [] = (int ?n + 2 - int (length got), [], got)" .
  have "headers_ok 0 (h @ CHR 0x0A # got)"
    unfolding headers_ok_header [OF assms(3)] using d [of "[]"]
    by (subst headers_ok.simps) (simp add: memchr_def)
  from Decode_chunked_stream_init [OF assms(1,2,5) this l] show ?thesis .
qed

theorem Decode_chunked_progress_witness:
  "\<exists>dc'. decode_all (a_Decode_process (\<lambda>z i n. (0, 0, [], z)) (\<lambda>_. ()) (\<lambda>c i n. (0, 0, 0, [], c)))
     \<lparr>dc_buffer = [], dc_leftover = [], dc_state = Chunk_remaining 0 :: (unit, unit) dc_state,
      dc_decode = Decode_chunked_fn\<rparr>
     [''3;x=y'' @ [CHR 0x0A], ''abc'' @ [CHR 0x0D], [CHR 0x0A] @ ''5'', [CHR 0x0A] @ ''h'', ''el''] =
   Some (Returns (''abchel'', dc'))"
  using Decode_chunked_progress [of "\<lparr>dc_buffer = [], dc_leftover = [],
      dc_state = Chunk_remaining 0 :: (unit, unit) dc_state, dc_decode = Decode_chunked_fn\<rparr>"
      "[(''3;x=y'', ''abc'')]" "''5''" "''hel''" "''lo''"
      "[''3;x=y'' @ [CHR 0x0A], ''abc'' @ [CHR 0x0D], [CHR 0x0A] @ ''5'', [CHR 0x0A] @ ''h'', ''el'']"
      "\<lambda>z i n. (0, 0, [], z)" "\<lambda>_. ()" "\<lambda>c i n. (0, 0, 0, [], c)"]
  by (simp add: a_Decode_transfer_init_def chunk_ok_def header_lits
      chunk_stream_def chunk_bytes_def)

text \<open>
  The length of a chunk is kept in 32 bits: a chunk whose length is a multiple of 2 to the
  32nd is taken for the last one, and nothing that follows is decoded.\<close>

theorem Decode_chunked_size_truncated:
  fixes dc :: "('z, 'ic) decode"
  assumes "a_Decode_transfer_init (Some ''chunked'') = Some dc"
    and "\<forall>c \<in> set chunks. chunk_ok c"
    and "CHR 0x0A \<notin> set h" "header_length h = k * 4294967296" "0 < k"
    and "concat pieces = chunk_stream chunks @ h @ CHR 0x0A # rest"
  shows "\<exists>dc'. decode_all (a_Decode_process inflate inflateInit2 iconv) dc pieces =
    Some (Returns (concat (map snd chunks), dc'))"
proof -
  have "chunk_size h = 0" using assms(4) by (simp add: chunk_size_def header_length_def c_int_def)
  moreover have "\<not> blank h" using assms(4,5) strtol_blank [of h] by (auto simp: header_length_def)
  ultimately show ?thesis
    using Decode_chunked_stream_init [OF assms(1,2,6)] chunk_loop_last [OF assms(3)] by fastforce
qed

theorem Decode_chunked_size_truncated_witness:
  "\<exists>dc'. decode_all (a_Decode_process (\<lambda>z i n. (0, 0, [], z)) (\<lambda>_. ()) (\<lambda>c i n. (0, 0, 0, [], c)))
     \<lparr>dc_buffer = [], dc_leftover = [], dc_state = Chunk_remaining 0 :: (unit, unit) dc_state,
      dc_decode = Decode_chunked_fn\<rparr>
     [''3;x=y'' @ [CHR 0x0A], ''abc'' @ [CHR 0x0D], [CHR 0x0A] @ ''100000000'', [CHR 0x0A] @ ''lost''] =
   Some (Returns (''abc'', dc'))"
  using Decode_chunked_size_truncated [of "\<lparr>dc_buffer = [], dc_leftover = [],
      dc_state = Chunk_remaining 0 :: (unit, unit) dc_state, dc_decode = Decode_chunked_fn\<rparr>"
      "[(''3;x=y'', ''abc'')]" "''100000000''" 1
      "[''3;x=y'' @ [CHR 0x0A], ''abc'' @ [CHR 0x0D], [CHR 0x0A] @ ''100000000'', [CHR 0x0A] @ ''lost'']"
      "''lost''" "\<lambda>z i n. (0, 0, [], z)" "\<lambda>_. ()" "\<lambda>c i n. (0, 0, 0, [], c)"]
  by (simp add: a_Decode_transfer_init_def chunk_ok_def header_lits
      chunk_stream_def chunk_bytes_def)

section \<open>Character sets as iconv documents them\<close>

text \<open>A character set gives for the bytes at hand the first character of them (its number of
  bytes and its UTF-8), or that they are illegal, or that they are only a part of a character;
  more input does not change the first two.\<close>

datatype first_char = Char nat string | Illegal | Incomplete

type_synonym charset = "string \<Rightarrow> first_char"

definition charset_ok :: "charset \<Rightarrow> bool" where
  "charset_ok u \<longleftrightarrow> (\<forall>s k c. s \<noteq> [] \<longrightarrow>
     (u s = Char k c \<longrightarrow> 0 < k \<and> k \<le> length s \<and> length c \<le> bufsize \<and> (\<forall>y. u (s @ y) = Char k c))
     \<and> (u s = Illegal \<longrightarrow> (\<forall>y. u (s @ y) = Illegal)))"

text \<open>What the translation of a text is: an illegal byte becomes a replacement character, an
  incomplete character at the end is left.\<close>

function utf8_text :: "charset \<Rightarrow> string \<Rightarrow> string \<times> string" where
  "utf8_text u s =
     (if s = [] then ([], [])
      else (case u s of
              Char k c \<Rightarrow> (if k = 0 then ([], s)
                 else (case utf8_text u (drop k s) of (out, left) \<Rightarrow> (c @ out, left)))
            | Illegal \<Rightarrow> (case utf8_text u (tl s) of (out, left) \<Rightarrow> (utf8_replacement_char @ out, left))
            | Incomplete \<Rightarrow> ([], s)))"
  by pat_completeness auto
termination
  by (relation "measure (\<lambda>(u, s). length s)") auto

declare utf8_text.simps [simp del]

text \<open>The whole characters that the first \<open>n\<close> bytes hold, and their UTF-8.\<close>

inductive whole_chars :: "charset \<Rightarrow> string \<Rightarrow> nat \<Rightarrow> string \<Rightarrow> bool" for u where
  none: "whole_chars u inp 0 []"
| char: "inp \<noteq> [] \<Longrightarrow> u inp = Char k c \<Longrightarrow> whole_chars u (drop k inp) n out
    \<Longrightarrow> whole_chars u inp (k + n) (c @ out)"

text \<open>The documented behaviour of \<open>iconv\<close> for a character set without shift states whose
  characters all convert reversibly.\<close>

definition iconv_ok :: "charset \<Rightarrow> 'ic converter \<Rightarrow> bool" where
  "iconv_ok u iconv \<longleftrightarrow> (\<forall>ic inp r e n out ic'. inp \<noteq> [] \<longrightarrow> iconv ic inp bufsize = (r, e, n, out, ic') \<longrightarrow>
     n \<le> length inp \<and> whole_chars u inp n out
     \<and> (if r = - 1
        then n < length inp \<and> (e = EILSEQ \<and> u (drop n inp) = Illegal
           \<or> e = EINVAL \<and> u (drop n inp) = Incomplete
           \<or> e = E2BIG \<and> (\<exists>k c. u (drop n inp) = Char k c \<and> bufsize < length out + length c))
        else r = 0 \<and> n = length inp))"

lemma whole_chars_text:
  assumes "whole_chars u inp n out" "charset_ok u"
  shows "utf8_text u inp = (case utf8_text u (drop n inp) of (o2, l) \<Rightarrow> (out @ o2, l))"
  using assms
proof induction
  case (none inp)
  then show ?case by simp
next
  case (char inp k c n out)
  then have "0 < k" by (auto simp: charset_ok_def)
  with char show ?case
    by (subst utf8_text.simps) (simp add: add.commute split: prod.splits)
qed

lemma whole_chars_0:
  assumes "whole_chars u inp 0 out" "charset_ok u"
  shows "out = []"
  using assms(1)
proof cases
  case (char k c n out')
  with assms(2) show ?thesis by (auto simp: charset_ok_def)
qed

lemma utf8_text_append:
  assumes "charset_ok u"
  shows "utf8_text u (x @ y) =
    (case utf8_text u x of (out, l) \<Rightarrow> case utf8_text u (l @ y) of (out', l') \<Rightarrow> (out @ out', l'))"
proof (induction x rule: length_induct)
  case (1 x)
  show ?case
  proof (cases "x = []")
    case True
    then show ?thesis by (simp add: utf8_text.simps [of u "[]"])
  next
    case False
    note ok = assms [unfolded charset_ok_def, rule_format, OF False]
    show ?thesis
    proof (cases "u x")
      case (Char k c)
      with ok have k: "0 < k" "k \<le> length x" "u (x @ y) = Char k c" by auto
      then have "length (drop k x) < length x" by simp
      with 1 have "utf8_text u (drop k x @ y) = (case utf8_text u (drop k x) of (out, l) \<Rightarrow>
          case utf8_text u (l @ y) of (out', l') \<Rightarrow> (out @ out', l'))" by blast
      with k Char False show ?thesis
        by (simp add: utf8_text.simps [of u "x @ y"] utf8_text.simps [of u x] split: prod.splits)
    next
      case Illegal
      with ok have k: "u (x @ y) = Illegal" by auto
      from False have "length (tl x) < length x" by simp
      with 1 have "utf8_text u (tl x @ y) = (case utf8_text u (tl x) of (out, l) \<Rightarrow>
          case utf8_text u (l @ y) of (out', l') \<Rightarrow> (out @ out', l'))" by blast
      with k Illegal False show ?thesis
        by (simp add: utf8_text.simps [of u "x @ y"] utf8_text.simps [of u x] split: prod.splits)
    next
      case Incomplete
      with False have "utf8_text u x = ([], x)" by (simp add: utf8_text.simps)
      then show ?thesis by simp
    qed
  qed
qed

lemma charset_loop_stop:
  "rc = EINVAL \<or> inp = [] \<Longrightarrow> charset_loop iconv ic inp rc out = Some (Returns (out, inp, ic))"
  by (subst charset_loop.simps) auto

lemma charset_loop_step:
  assumes "rc \<noteq> EINVAL" "inp \<noteq> []" "iconv ic inp bufsize = (r, e, n, out, ic')"
  shows "iconv_rc r e = EILSEQ \<Longrightarrow> drop n inp \<noteq> [] \<Longrightarrow> charset_loop iconv ic inp rc out0 =
      charset_loop iconv ic' (tl (drop n inp)) (iconv_rc r e) (out0 @ out @ utf8_replacement_char)"
    and "iconv_rc r e = EILSEQ \<Longrightarrow> drop n inp = [] \<Longrightarrow> charset_loop iconv ic inp rc out0 = Some Bad_read"
    and "iconv_rc r e \<noteq> EILSEQ \<Longrightarrow> charset_loop iconv ic inp rc out0 =
      charset_loop iconv ic' (drop n inp) (iconv_rc r e) (out0 @ out)"
  using assms by (subst charset_loop.simps, simp add: Let_def)+

lemma errno_distinct: "EILSEQ \<noteq> EINVAL" "E2BIG \<noteq> EINVAL" "E2BIG \<noteq> EILSEQ" "EINVAL \<noteq> EILSEQ"
  "0 \<noteq> EINVAL" "0 \<noteq> EILSEQ"
  by (simp_all add: E2BIG_def EINVAL_def EILSEQ_def)

lemma charset_loop_text:
  assumes "charset_ok u" "iconv_ok u iconv" "rc \<noteq> EINVAL"
  shows "\<exists>ic'. charset_loop iconv ic inp rc out0 =
    Some (Returns (out0 @ fst (utf8_text u inp), snd (utf8_text u inp), ic'))"
  using assms(3)
proof (induction inp arbitrary: ic rc out0 rule: length_induct)
  case (1 inp)
  show ?case
  proof (cases "inp = []")
    case True
    then show ?thesis by (subst charset_loop.simps) (simp add: utf8_text.simps)
  next
    case False
    obtain r e n out ic' where i: "iconv ic inp bufsize = (r, e, n, out, ic')"
      by (cases "iconv ic inp bufsize") auto
    note law = assms(2) [unfolded iconv_ok_def, rule_format, OF False i]
    then have n: "n \<le> length inp" and w: "whole_chars u inp n out" by auto
    note t = whole_chars_text [OF w assms(1)]
    have c: "iconv_rc (- 1) e = e" "iconv_rc 0 e = 0" by (simp_all add: iconv_rc_def c_int_def)
    note step = charset_loop_step [where iconv = iconv and ic = ic and ?out0.0 = out0, OF "1.prems" False i]
    consider "r = 0" "n = length inp" | "r = - 1" "e = EILSEQ" "n < length inp" "u (drop n inp) = Illegal"
      | "r = - 1" "e = EINVAL" "n < length inp" "u (drop n inp) = Incomplete"
      | k ch where "r = - 1" "e = E2BIG" "n < length inp" "u (drop n inp) = Char k ch" "bufsize < length out + length ch"
      using law by (auto split: if_splits)
    then show ?thesis
    proof cases
      case 1
      then have "utf8_text u inp = (out, [])" using t by (simp add: utf8_text.simps [of u "[]"])
      then show ?thesis using 1 step(3) c errno_distinct by (simp add: charset_loop_stop)
    next
      case 2
      have len: "length (tl (drop n inp)) < length inp" using False by auto
      have ne: "drop n inp \<noteq> []" using 2 by simp
      obtain ic2 where r: "charset_loop iconv ic' (tl (drop n inp)) EILSEQ (out0 @ out @ utf8_replacement_char)
          = Some (Returns ((out0 @ out @ utf8_replacement_char) @ fst (utf8_text u (tl (drop n inp))),
              snd (utf8_text u (tl (drop n inp))), ic2))"
        using "1.IH" len errno_distinct(1) by blast
      have "utf8_text u inp = (out @ utf8_replacement_char @ fst (utf8_text u (tl (drop n inp))),
          snd (utf8_text u (tl (drop n inp))))"
        using t 2 ne by (simp add: utf8_text.simps [of u "drop n inp"] split: prod.splits)
      then show ?thesis using 2 step(1) c r ne by simp
    next
      case 3
      have "utf8_text u (drop n inp) = ([], drop n inp)" using 3 by (simp add: utf8_text.simps [of u "drop n inp"])
      then show ?thesis using 3 step(3) c t errno_distinct by (simp add: charset_loop_stop)
    next
      case 4
      have "n \<noteq> 0"
      proof
        assume "n = 0"
        with w whole_chars_0 [OF _ assms(1)] have "out = []" by blast
        with 4 \<open>n = 0\<close> assms(1) show False by (fastforce simp: charset_ok_def)
      qed
      with 4 have "length (drop n inp) < length inp" by simp
      then obtain ic2 where r: "charset_loop iconv ic' (drop n inp) E2BIG (out0 @ out)
          = Some (Returns ((out0 @ out) @ fst (utf8_text u (drop n inp)), snd (utf8_text u (drop n inp)), ic2))"
        using "1.IH" errno_distinct(2) by blast
      then show ?thesis using 4 step(3) c t errno_distinct by (simp split: prod.splits)
    qed
  qed
qed

lemma Decode_charset_pieces:
  fixes dc :: "('z, 'ic) decode"
  assumes "charset_ok u" "iconv_ok u iconv"
    and "dc_decode dc = Decode_charset_fn" "dc_state dc = Iconv ic" "ps \<noteq> []"
  shows "\<exists>dc'. decode_all (a_Decode_process inflate inflateInit2 iconv) dc ps =
    Some (Returns (fst (utf8_text u (dc_leftover dc @ concat ps)), dc'))
    \<and> dc_leftover dc' = snd (utf8_text u (dc_leftover dc @ concat ps))"
  using assms(3-5)
proof (induction ps arbitrary: dc ic)
  case Nil
  then show ?case by simp
next
  case (Cons p ps)
  obtain out l where t: "utf8_text u (dc_leftover dc @ p) = (out, l)" by fastforce
  obtain ic' where "charset_loop iconv ic (dc_leftover dc @ p) 0 [] = Some (Returns (out, l, ic'))"
    using charset_loop_text [OF assms(1,2), of 0 ic "dc_leftover dc @ p" "[]"] errno_distinct t by auto
  then have P: "a_Decode_process inflate inflateInit2 iconv dc p =
      Some (Returns (out, dc\<lparr>dc_leftover := l, dc_state := Iconv ic'\<rparr>))"
    using Cons.prems by (simp add: a_Decode_process_def Decode_charset_def)
  have A: "utf8_text u (dc_leftover dc @ concat (p # ps)) =
      (case utf8_text u (l @ concat ps) of (out', l') \<Rightarrow> (out @ out', l'))"
    using utf8_text_append [OF assms(1), of "dc_leftover dc @ p" "concat ps"] t by simp
  show ?case
  proof (cases "ps = []")
    case True
    then show ?thesis using P t by simp
  next
    case False
    from Cons.IH [of "dc\<lparr>dc_leftover := l, dc_state := Iconv ic'\<rparr>" ic'] False Cons.prems(1)
    obtain dc' where "decode_all (a_Decode_process inflate inflateInit2 iconv)
        (dc\<lparr>dc_leftover := l, dc_state := Iconv ic'\<rparr>) ps = Some (Returns (fst (utf8_text u (l @ concat ps)), dc'))"
      "dc_leftover dc' = snd (utf8_text u (l @ concat ps))" by auto
    with P A show ?thesis by (simp split: prod.splits)
  qed
qed

text \<open>
  C27: for a character set as iconv documents it, a document that arrives in any pieces is
  translated to UTF-8 as a whole would be: characters split between pieces are put together,
  every illegal byte becomes one replacement character, an incomplete character at the end is
  kept, and the loop returns.\<close>

theorem Decode_charset_is_translation:
  fixes dc :: "('z, 'ic) decode"
  assumes "charset_ok u" "iconv_ok u iconv"
    and "a_Decode_charset_init iconv_open (Some charset) = Some dc"
  shows "\<exists>dc'. decode_all (a_Decode_process inflate inflateInit2 iconv) dc pieces =
    Some (Returns (fst (utf8_text u (concat pieces)), dc'))
    \<and> dc_leftover dc' = snd (utf8_text u (concat pieces))"
proof -
  obtain ic where i: "dc_decode dc = Decode_charset_fn" "dc_state dc = Iconv ic" "dc_leftover dc = []"
    using assms(3) by (auto simp: a_Decode_charset_init_def split: if_splits option.splits)
  show ?thesis
  proof (cases "pieces = []")
    case True
    then show ?thesis using i(3) by (simp add: utf8_text.simps)
  next
    case False
    then show ?thesis using Decode_charset_pieces [OF assms(1,2) i(1,2) False] i(3) by simp
  qed
qed

text \<open>A character set with one byte characters below 0x80, and a two byte one after 0xC0.\<close>

definition sample_charset :: charset where
  "sample_charset s =
     (case s of
        [] \<Rightarrow> Incomplete
      | c # t \<Rightarrow>
          (if uchar c < 128 then Char 1 [c]
           else if c = CHR 0xC0 then (case t of [] \<Rightarrow> Incomplete | d # _ \<Rightarrow> Char 2 [c, d])
           else Illegal))"

fun sample_conv :: "string \<Rightarrow> nat \<Rightarrow> int \<times> int \<times> nat \<times> string" where
  "sample_conv [] room = (0, 0, 0, [])"
| "sample_conv (c # s) room =
     (if uchar c < 128 then
        (if room = 0 then (- 1, E2BIG, 0, [])
         else (case sample_conv s (room - 1) of (r, e, n, out) \<Rightarrow> (r, e, n + 1, c # out)))
      else if c = CHR 0xC0 then
        (case s of
           [] \<Rightarrow> (- 1, EINVAL, 0, [])
         | d # t \<Rightarrow> (if room < 2 then (- 1, E2BIG, 0, [])
             else (case sample_conv t (room - 2) of (r, e, n, out) \<Rightarrow> (r, e, n + 2, c # d # out))))
      else (- 1, EILSEQ, 0, []))"

definition sample_iconv :: "unit converter" where
  "sample_iconv ic inp room = (case sample_conv inp room of (r, e, n, out) \<Rightarrow> (r, e, n, out, ic))"

lemma sample_charset_ok: "charset_ok sample_charset"
  unfolding charset_ok_def sample_charset_def bufsize_def by (auto split: list.splits if_splits)

lemma sample_conv_ok:
  "sample_conv inp room = (r, e, n, out) \<Longrightarrow> n \<le> length inp \<and> whole_chars sample_charset inp n out
     \<and> (if r = - 1
        then n < length inp \<and> (e = EILSEQ \<and> sample_charset (drop n inp) = Illegal
           \<or> e = EINVAL \<and> sample_charset (drop n inp) = Incomplete
           \<or> e = E2BIG \<and> (\<exists>k c. sample_charset (drop n inp) = Char k c \<and> room < length out + length c))
        else r = 0 \<and> n = length inp)"
proof (induction inp room arbitrary: r e n out rule: sample_conv.induct)
  case (1 room)
  then show ?case by (auto intro: whole_chars.none)
next
  case (2 c s room)
  consider "uchar c < 128" "room = 0" | "uchar c < 128" "0 < room"
    | "\<not> uchar c < 128" "c = CHR 0xC0" "s = []"
    | d t where "\<not> uchar c < 128" "c = CHR 0xC0" "s = d # t" "room < 2"
    | d t where "\<not> uchar c < 128" "c = CHR 0xC0" "s = d # t" "2 \<le> room"
    | "\<not> uchar c < 128" "c \<noteq> CHR 0xC0"
    by (cases s; cases "uchar c < 128"; cases "c = CHR 0xC0"; cases "room < 2") (fastforce simp: not_less)+
  then show ?case
  proof cases
    case 2: 2
    obtain r1 e1 n1 o1 where q: "sample_conv s (room - 1) = (r1, e1, n1, o1)" by (cases "sample_conv s (room - 1)") auto
    with 2 have v: "r = r1" "e = e1" "n = n1 + 1" "out = c # o1" using "2.prems" by auto
    have u: "sample_charset (c # s) = Char 1 [c]" using 2 by (simp add: sample_charset_def)
    have h: "n1 \<le> length s \<and> whole_chars sample_charset s n1 o1
     \<and> (if r1 = - 1
        then n1 < length s \<and> (e1 = EILSEQ \<and> sample_charset (drop n1 s) = Illegal
           \<or> e1 = EINVAL \<and> sample_charset (drop n1 s) = Incomplete
           \<or> e1 = E2BIG \<and> (\<exists>k c. sample_charset (drop n1 s) = Char k c \<and> room - 1 < length o1 + length c))
        else r1 = 0 \<and> n1 = length s)" by (rule "2.IH"(1)) (use 2 q in auto)
    have "whole_chars sample_charset (c # s) (1 + n1) ([c] @ o1)"
      by (rule whole_chars.char) (use u h in simp_all)
    with h v 2 show ?thesis by (auto split: if_splits)
  next
    case 5: (5 d t)
    obtain r1 e1 n1 o1 where q: "sample_conv t (room - 2) = (r1, e1, n1, o1)" by (cases "sample_conv t (room - 2)") auto
    with 5 have v: "r = r1" "e = e1" "n = n1 + 2" "out = c # d # o1" using "2.prems" by auto
    have u: "sample_charset (c # s) = Char 2 [c, d]" using 5 by (simp add: sample_charset_def)
    have h: "n1 \<le> length t \<and> whole_chars sample_charset t n1 o1
     \<and> (if r1 = - 1
        then n1 < length t \<and> (e1 = EILSEQ \<and> sample_charset (drop n1 t) = Illegal
           \<or> e1 = EINVAL \<and> sample_charset (drop n1 t) = Incomplete
           \<or> e1 = E2BIG \<and> (\<exists>k c. sample_charset (drop n1 t) = Char k c \<and> room - 2 < length o1 + length c))
        else r1 = 0 \<and> n1 = length t)" using "2.IH"(2) [OF 5(1,2,3)] 5 q by simp
    have "whole_chars sample_charset (c # s) (2 + n1) ([c, d] @ o1)"
      by (rule whole_chars.char) (use u h 5 in simp_all)
    with h v 5 show ?thesis by (auto split: if_splits)
  qed (use "2.prems" in \<open>auto simp: sample_charset_def intro: whole_chars.none\<close>)
qed

lemma sample_iconv_ok: "iconv_ok sample_charset sample_iconv"
  unfolding iconv_ok_def
proof (intro allI impI)
  fix ic :: unit and inp r e n out ic'
  assume "sample_iconv ic inp bufsize = (r, e, n, out, ic')"
  then have "sample_conv inp bufsize = (r, e, n, out)"
    by (auto simp: sample_iconv_def split: prod.splits)
  from sample_conv_ok [OF this] show "n \<le> length inp \<and> whole_chars sample_charset inp n out
     \<and> (if r = - 1
        then n < length inp \<and> (e = EILSEQ \<and> sample_charset (drop n inp) = Illegal
           \<or> e = EINVAL \<and> sample_charset (drop n inp) = Incomplete
           \<or> e = E2BIG \<and> (\<exists>k c. sample_charset (drop n inp) = Char k c \<and> bufsize < length out + length c))
        else r = 0 \<and> n = length inp)" .
qed

theorem Decode_charset_is_translation_witness:
  "\<exists>dc'. decode_all (a_Decode_process (\<lambda>z i n. (0, 0, [], z)) (\<lambda>_. ()) sample_iconv)
     \<lparr>dc_buffer = [], dc_leftover = [], dc_state = Iconv () :: (unit, unit) dc_state,
      dc_decode = Decode_charset_fn\<rparr>
     [''ab'' @ [CHR 0xC0], ''x'' @ [CHR 0xFF], ''c'' @ [CHR 0xC0]] =
   Some (Returns (''ab'' @ [CHR 0xC0, CHR ''x'', CHR 0xEF, CHR 0xBF, CHR 0xBD, CHR ''c''], dc'))
   \<and> dc_leftover dc' = [CHR 0xC0]"
proof -
  let ?dc = "\<lparr>dc_buffer = [], dc_leftover = [], dc_state = Iconv () :: (unit, unit) dc_state,
      dc_decode = Decode_charset_fn\<rparr>"
  have i: "a_Decode_charset_init (\<lambda>to from. Some ()) (Some ''SAMPLE'') = Some ?dc"
    by (simp add: a_Decode_charset_init_def D_ASCII_TOLOWER_def schar_def uchar_def)
  have t: "utf8_text sample_charset (concat [''ab'' @ [CHR 0xC0], ''x'' @ [CHR 0xFF], ''c'' @ [CHR 0xC0]]) =
      (''ab'' @ [CHR 0xC0, CHR ''x'', CHR 0xEF, CHR 0xBF, CHR 0xBD, CHR ''c''], [CHR 0xC0])"
    by (simp add: utf8_text.simps sample_charset_def uchar_def utf8_replacement_char_def)
  show ?thesis
    using Decode_charset_is_translation [OF sample_charset_ok sample_iconv_ok i,
        of "\<lambda>z i n. (0, 0, [], z)" "\<lambda>_. ()" "[''ab'' @ [CHR 0xC0], ''x'' @ [CHR 0xFF], ''c'' @ [CHR 0xC0]]"]
    unfolding t fst_conv snd_conv .
qed

text \<open>The count \<open>iconv\<close> returns shares the variable with \<open>errno\<close>: when 84 characters were
  converted irreversibly, the decoder steps past the end of its buffer.\<close>

lemma Decode_charset_count_is_EILSEQ:
  assumes "dc_state dc = Iconv ic" "dc_leftover dc @ instr \<noteq> []"
    and "iconv ic (dc_leftover dc @ instr) bufsize = (84, e, length (dc_leftover dc @ instr), out, ic')"
  shows "Decode_charset iconv dc instr = Some Bad_read"
proof -
  have "iconv_rc 84 e = EILSEQ" by (simp add: iconv_rc_def c_int_def EILSEQ_def)
  then show ?thesis
    using assms charset_loop_step(2) [where iconv = iconv and ic = ic, OF errno_distinct(5) assms(2,3)]
    by (simp add: Decode_charset_def)
qed

section \<open>Compressed content as zlib documents it\<close>

text \<open>\<open>doc z xs\<close> is the document that the library in state \<open>z\<close> gives for the rest \<open>xs\<close> of a
  stream, \<open>None\<close> when the stream is corrupt. On the beginning of a stream that is not, a call
  gives a prefix of the document; it takes input or reduces the output it holds (\<open>held\<close>), or
  it has reached the end, after which it ignores what follows.\<close>

definition inflate_ok :: "('z \<Rightarrow> string \<Rightarrow> string option) \<Rightarrow> ('z \<Rightarrow> nat) \<Rightarrow> 'z inflater \<Rightarrow> bool" where
  "inflate_ok doc held inflate \<longleftrightarrow> (\<forall>z inp rc n out z' ys. inp \<noteq> [] \<longrightarrow> inflate z inp bufsize = (rc, n, out, z')
     \<longrightarrow> doc z (inp @ ys) \<noteq> None \<longrightarrow>
     n \<le> length inp \<and> length out \<le> bufsize
     \<and> doc z (inp @ ys) = map_option ((@) out) (doc z' (drop n inp @ ys))
     \<and> (rc = Z_OK \<and> (0 < n \<or> held z' < held z) \<or> rc = Z_STREAM_END \<and> (\<forall>xs. doc z' xs = Some [])))"

lemma inflate_call_eq:
  assumes "inflate (zs z) inp bufsize = (rc, n, out, s)"
  shows "inflate_call inflate z buffer inp = (rc, \<lparr>zs = s, total_in = total_in z + n,
    total_out = total_out z + length out\<rparr>, out @ drop (length out) buffer)"
  using assms by (simp add: inflate_call_def)

lemma inflate_loop_stop:
  "rc \<noteq> Z_OK \<or> length instr \<le> k \<Longrightarrow> inflate_loop inflate z buffer instr rc k out = Some (Returns (out, z, buffer))"
  by (subst inflate_loop.simps) auto

lemma inflate_loop_document:
  assumes ok: "inflate_ok doc held inflate"
    and "doc (zs z) (drop k instr @ ys) = Some t" "total_in z = 0" "total_out z = 0"
  shows "\<exists>out z' buffer' t'. inflate_loop inflate z buffer instr Z_OK k out0 = Some (Returns (out0 @ out, z', buffer'))
     \<and> t = out @ t' \<and> doc (zs z') ys = Some t' \<and> total_in z' = 0 \<and> total_out z' = 0"
  using assms(2-4)
proof (induction "(length instr - k, held (zs z))" arbitrary: z k buffer out0 t
    rule: wf_induct_rule [OF wf_lex_prod [OF wf_less_than wf_less_than]])
  case (1 z k buffer out0 t)
  show ?case
  proof (cases "k < length instr")
    case False
    then show ?thesis using 1(2-4) by (auto simp: inflate_loop_stop)
  next
    case True
    obtain rc n out s where c: "inflate (zs z) (drop k instr) bufsize = (rc, n, out, s)"
      by (cases "inflate (zs z) (drop k instr) bufsize") auto
    have ne: "drop k instr \<noteq> []" using True by simp
    have d: "doc (zs z) (drop k instr @ ys) \<noteq> None" using 1(2) by simp
    from ok [unfolded inflate_ok_def, rule_format, OF ne c d] have
      n: "n \<le> length instr - k" "length out \<le> bufsize" and
      t: "doc (zs z) (drop k instr @ ys) = map_option ((@) out) (doc s (drop n (drop k instr) @ ys))" and
      cs: "rc = Z_OK \<and> (0 < n \<or> held s < held (zs z)) \<or> rc = Z_STREAM_END \<and> (\<forall>xs. doc s xs = Some [])"
      by auto
    let ?z = "\<lparr>zs = s, total_in = 0, total_out = 0\<rparr>" and ?b = "out @ drop (length out) buffer"
    from t 1(2) obtain t1 where t1: "doc s (drop (k + n) instr @ ys) = Some t1" "t = out @ t1"
      by (cases "doc s (drop (k + n) instr @ ys)") (auto simp: add.commute)
    have step: "inflate_loop inflate z buffer instr Z_OK k out0 = inflate_loop inflate ?z ?b instr rc (k + n) (out0 @ out)"
      using True 1(3,4) n cs by (subst inflate_loop.simps) (auto simp: inflate_call_eq [where inflate = inflate, OF c])
    from cs show ?thesis
    proof
      assume h: "rc = Z_OK \<and> (0 < n \<or> held s < held (zs z))"
      then have "((length instr - (k + n), held s), (length instr - k, held (zs z))) \<in> less_than <*lex*> less_than"
        using n True by auto
      then have "\<exists>out' z' buffer' t'. inflate_loop inflate ?z ?b instr Z_OK (k + n) (out0 @ out)
          = Some (Returns ((out0 @ out) @ out', z', buffer'))
         \<and> t1 = out' @ t' \<and> doc (zs z') ys = Some t' \<and> total_in z' = 0 \<and> total_out z' = 0"
        by (intro 1(1)) (use t1 in simp_all)
      then show ?thesis using step h t1(2) by fastforce
    next
      assume h: "rc = Z_STREAM_END \<and> (\<forall>xs. doc s xs = Some [])"
      then have "rc \<noteq> Z_OK" by (simp add: Z_OK_def Z_STREAM_END_def)
      then show ?thesis using step h t1 by (auto simp: inflate_loop_stop)
    qed
  qed
qed

lemma Decode_gzip_pieces:
  fixes dc :: "('z, 'ic) decode"
  assumes ok: "inflate_ok doc held inflate"
    and "dc_decode dc = Decode_gzip_fn" "dc_state dc = Zstream z" "total_in z = 0" "total_out z = 0"
    and "doc (zs z) (concat ps @ ys) = Some t"
  shows "\<exists>out dc' z' t'. decode_all (a_Decode_process inflate inflateInit2 iconv) dc ps = Some (Returns (out, dc'))
     \<and> t = out @ t' \<and> dc_state dc' = Zstream z' \<and> doc (zs z') ys = Some t'"
  using assms(2-6)
proof (induction ps arbitrary: dc z t)
  case Nil
  then show ?case by auto
next
  case (Cons p ps)
  have "doc (zs z) (drop 0 p @ (concat ps @ ys)) = Some t" using Cons.prems(5) by simp
  from inflate_loop_document [OF ok this Cons.prems(3,4), of "dc_buffer dc" "[]"]
  obtain out z1 b1 t1 where l: "inflate_loop inflate z (dc_buffer dc) p Z_OK 0 [] = Some (Returns (out, z1, b1))"
    "t = out @ t1" "doc (zs z1) (concat ps @ ys) = Some t1" "total_in z1 = 0" "total_out z1 = 0" by auto
  let ?d = "dc\<lparr>dc_state := Zstream z1, dc_buffer := b1\<rparr>"
  have P: "a_Decode_process inflate inflateInit2 iconv dc p = Some (Returns (out, ?d))"
    using Cons.prems(1,2) l(1) by (simp add: a_Decode_process_def Decode_gzip_def put_zstream_def)
  have "dc_decode ?d = Decode_gzip_fn" "dc_state ?d = Zstream z1" using Cons.prems(1) by simp_all
  from Cons.IH [OF this l(4,5,3)] obtain out' dc' z' t' where
    "decode_all (a_Decode_process inflate inflateInit2 iconv) ?d ps = Some (Returns (out', dc'))"
    "t1 = out' @ t'" "dc_state dc' = Zstream z'" "doc (zs z') ys = Some t'" by blast
  with P l(2) show ?case by fastforce
qed

text \<open>
  C28: for a compressed document as zlib documents it, what the gzip decoder has put out after any
  pieces of it is a prefix of the document, and the rest of the document is what the library
  gives from its state for the rest of the stream: no byte is lost, repeated or reordered, and
  the loop returns.\<close>

theorem Decode_gzip_is_prefix:
  fixes dc :: "('z, 'ic) decode"
  assumes "inflate_ok doc held inflate"
    and "a_Decode_content_init inflateInit2 junk (Some ''gzip'') = Some dc"
    and "doc (inflateInit2 (MAX_WBITS + 16)) (concat pieces @ rest) = Some document"
  shows "\<exists>out dc' z' left. decode_all (a_Decode_process inflate inflateInit2 iconv) dc pieces = Some (Returns (out, dc'))
     \<and> document = out @ left \<and> dc_state dc' = Zstream z' \<and> doc (zs z') rest = Some left"
proof -
  have "dc_decode dc = Decode_gzip_fn"
    "dc_state dc = Zstream \<lparr>zs = inflateInit2 (MAX_WBITS + 16), total_in = 0, total_out = 0\<rparr>"
    using assms(2) by (auto simp: a_Decode_content_init_def Decode_content_init_common_def)
  from Decode_gzip_pieces [OF assms(1) this] assms(3) show ?thesis by simp
qed

definition twice :: "string \<Rightarrow> string" where
  "twice s = concat (map (\<lambda>c. [c, c]) s)"

definition sample_inflate :: "unit inflater" where
  "sample_inflate z inp room =
     (let n = min (length inp) (room div 2) in (Z_OK, n, twice (take n inp), z))"

lemma sample_inflate_ok: "inflate_ok (\<lambda>z xs. Some (twice xs)) (\<lambda>z. 0) sample_inflate"
proof -
  have l: "length (twice s) = 2 * length s" for s by (induction s) (auto simp: twice_def)
  have "twice (inp @ ys) = twice (take n inp) @ twice (drop n inp @ ys)" for n inp ys
    unfolding twice_def by (metis append.assoc append_take_drop_id concat_append map_append)
  then show ?thesis
    by (auto simp: inflate_ok_def sample_inflate_def Let_def l bufsize_def)
qed

theorem Decode_gzip_is_prefix_witness:
  "\<exists>out dc' z' left. decode_all (a_Decode_process sample_inflate (\<lambda>_. ()) (\<lambda>c i n. (0, 0, 0, [], c)))
      (Decode_content_init_common [] () Decode_gzip_fn :: (unit, unit) decode) [''ab'', ''c''] = Some (Returns (out, dc'))
     \<and> ''aabbccdd'' = out @ left \<and> dc_state dc' = Zstream z' \<and> twice ''d'' = left"
  using Decode_gzip_is_prefix [OF sample_inflate_ok, of "\<lambda>_. ()" "[]"
      "Decode_content_init_common [] () Decode_gzip_fn :: (unit, unit) decode" "[''ab'', ''c'']" "''d''" "''aabbccdd''"
      "\<lambda>c i n. (0, 0, 0, [], c)"]
  by (simp add: a_Decode_content_init_def) (simp add: twice_def)

text \<open>The output counter is reset after a successful call only: after a data error every further
  piece appends the bytes of the failed call once more.\<close>

lemma Decode_gzip_error_repeats:
  assumes "dc_decode dc = Decode_gzip_fn" "dc_state dc = Zstream z" "total_out z = 0"
    and "inflate (zs z) p bufsize = (Z_DATA_ERROR, n, out, s)" "length out \<le> bufsize" "p \<noteq> []"
    and "inflate s q bufsize = (Z_DATA_ERROR, 0, [], s')" "q \<noteq> []"
  shows "\<exists>dc'. decode_all (a_Decode_process inflate inflateInit2 iconv) dc [p, q] = Some (Returns (out @ out, dc'))"
proof -
  have e: "Z_DATA_ERROR \<noteq> Z_OK" "Z_DATA_ERROR \<noteq> Z_STREAM_END"
    by (simp_all add: Z_DATA_ERROR_def Z_OK_def Z_STREAM_END_def)
  let ?z1 = "\<lparr>zs = s, total_in = total_in z + n, total_out = length out\<rparr>"
  let ?z2 = "\<lparr>zs = s', total_in = total_in z + n, total_out = length out\<rparr>"
  have 1: "inflate_loop inflate z b p Z_OK 0 [] = Some (Returns (out, ?z1, out @ drop (length out) b))" for b
    using assms e by (subst inflate_loop.simps) (simp add: inflate_call_eq [where inflate = inflate, OF assms(4)] inflate_loop_stop)
  have "inflate (zs ?z1) q bufsize = (Z_DATA_ERROR, 0, [], s')" using assms(7) by simp
  note c2 = inflate_call_eq [where inflate = inflate, OF this]
  have 2: "inflate_loop inflate ?z1 (out @ b) q Z_OK 0 [] = Some (Returns (out, ?z2, out @ b))" for b
    using assms(5,8) e by (subst inflate_loop.simps) (simp add: c2 inflate_loop_stop)
  show ?thesis using assms(1,2)
    by (simp add: a_Decode_process_def Decode_gzip_def put_zstream_def 1 2)
qed

end
