(* ===== verification/Utf8.thy ===== *)
theory Utf8
  imports Prelude
begin

text \<open>
  The UTF-8 routines the browser uses for its text: \<^verbatim>\<open>fltk/src/fl_utf.c\<close>, with the wrappers of
  \<^verbatim>\<open>dillo/src/utf8.cc\<close>. A pointer into a text is the list of the bytes up to \<open>end\<close>; a code point
  is an integer. Destination arrays are lists, and a write outside of one gives \<open>None\<close>.
\<close>

unbundle bit_operations_syntax

section \<open>Bytes\<close>

definition byte :: "int \<Rightarrow> char" where
  "byte i = char_of i"

lemma uchar_byte [simp]: "uchar (byte i) = i mod 256"
  by (simp add: uchar_def byte_def of_char_of)

lemma byte_uchar [simp]: "byte (uchar c) = c"
  by (simp add: uchar_def byte_def)

lemma byte_eq: "0 \<le> i \<Longrightarrow> i < 256 \<Longrightarrow> byte i = c \<longleftrightarrow> i = uchar c"
  by (metis byte_uchar mod_pos_pos_trivial uchar_byte)

lemma and_masks:
  fixes x :: int
  shows "x AND 1023 = x mod 1024" "x AND 63 = x mod 64" "x AND 31 = x mod 32" "x AND 15 = x mod 16"
    "x AND 7 = x mod 8"
proof -
  have m: "x AND mask n = x mod 2 ^ n" for n by (simp add: take_bit_eq_mask [symmetric] take_bit_eq_mod)
  show "x AND 1023 = x mod 1024" "x AND 63 = x mod 64" "x AND 31 = x mod 32" "x AND 15 = x mod 16"
    "x AND 7 = x mod 8"
    using m [of 10] m [of 6] m [of 5] m [of 4] m [of 3] by (simp_all add: mask_eq_exp_minus_1)
qed

lemma or_disjoint:
  fixes b :: int
  assumes "0 \<le> b" "b < 2 ^ n"
  shows "push_bit n k OR b = push_bit n k + b"
proof -
  have "take_bit n b = b" using assms by (simp add: take_bit_eq_mod)
  then have "\<not> bit b m" if "n \<le> m" for m using that bit_take_bit_iff [of n b m] by simp
  then have "push_bit n k + b = push_bit n k OR b"
    by (intro disjunctive_add) (auto simp: bit_push_bit_iff)
  then show ?thesis by simp
qed

lemma or_lits:
  fixes b :: int
  shows "0 \<le> b \<Longrightarrow> b < 32 \<Longrightarrow> 192 OR b = 192 + b" "0 \<le> b \<Longrightarrow> b < 64 \<Longrightarrow> 128 OR b = 128 + b"
    "0 \<le> b \<Longrightarrow> b < 16 \<Longrightarrow> 224 OR b = 224 + b" "0 \<le> b \<Longrightarrow> b < 8 \<Longrightarrow> 240 OR b = 240 + b"
    "0 \<le> b \<Longrightarrow> b < 1024 \<Longrightarrow> b OR 55296 = 55296 + b" "0 \<le> b \<Longrightarrow> b < 1024 \<Longrightarrow> b OR 56320 = 56320 + b"
  using or_disjoint [of b 5 6] or_disjoint [of b 6 2] or_disjoint [of b 4 14] or_disjoint [of b 3 30]
    or_disjoint [of b 10 54] or_disjoint [of b 10 55]
  by (simp_all add: push_bit_eq_mult or.commute)

lemma and_push_mask: "x AND push_bit n (mask k) = 2 ^ n * (x div 2 ^ n mod 2 ^ k)" for x :: int
proof -
  have "x AND push_bit n (mask k) = push_bit n (drop_bit n x AND mask k)"
    by (rule bit_eqI) (auto simp: bit_simps)
  then show ?thesis
    by (simp add: take_bit_eq_mask [symmetric] take_bit_eq_mod push_bit_eq_mult drop_bit_eq_div mult.commute)
qed

lemma and_high:
  fixes x :: int
  shows "x AND 192 = 64 * (x div 64 mod 4)" "x AND 128 = 128 * (x div 128 mod 2)"
    "x AND 64 = 64 * (x div 64 mod 2)"
  using and_push_mask [of x 6 2] and_push_mask [of x 7 1] and_push_mask [of x 6 1]
  by (simp_all add: mask_eq_exp_minus_1 push_bit_eq_mult)

section \<open>Decoding a character\<close>

definition cp1252 :: "int list" where
  "cp1252 =
    [0x20ac, 0x0081, 0x201a, 0x0192, 0x201e, 0x2026, 0x2020, 0x2021,
     0x02c6, 0x2030, 0x0160, 0x2039, 0x0152, 0x008d, 0x017d, 0x008f,
     0x0090, 0x2018, 0x2019, 0x201c, 0x201d, 0x2022, 0x2013, 0x2014,
     0x02dc, 0x2122, 0x0161, 0x203a, 0x0153, 0x009d, 0x017e, 0x0178]"

text \<open>\<open>p\<close> is the text from \<open>p\<close> to \<open>end\<close>, or to the terminator of the string when \<open>end\<close> is
  null (\<open>bounded\<close> false). The result is the character and its length.\<close>

definition past :: "bool \<Rightarrow> string \<Rightarrow> nat \<Rightarrow> bool" where
  "past bounded p i \<longleftrightarrow> bounded \<and> length p \<le> i"

definition no_cont :: "string \<Rightarrow> nat \<Rightarrow> bool" where
  "no_cont p i \<longleftrightarrow> uchar (char_at p i) AND 0xc0 \<noteq> 0x80"

definition decode_fail :: "string \<Rightarrow> int \<times> nat" where
  "decode_fail p = (uchar (deref p), 1)"

definition decode_utf8_3 :: "bool \<Rightarrow> string \<Rightarrow> int \<times> nat" where
  "decode_utf8_3 bounded p =
     (if past bounded p 2 \<or> no_cont p 2 then decode_fail p
      else (push_bit 12 (uchar (char_at p 0) AND 0x0f) + push_bit 6 (uchar (char_at p 1) AND 0x3f)
            + (uchar (char_at p 2) AND 0x3f), 3))"

definition decode_utf8_4 :: "bool \<Rightarrow> string \<Rightarrow> int \<times> nat" where
  "decode_utf8_4 bounded p =
     (if past bounded p 3 \<or> no_cont p 2 \<or> no_cont p 3 then decode_fail p
      else (push_bit 18 (uchar (char_at p 0) AND 0x07) + push_bit 12 (uchar (char_at p 1) AND 0x3f)
            + push_bit 6 (uchar (char_at p 2) AND 0x3f) + (uchar (char_at p 3) AND 0x3f), 4))"

definition fl_utf8decode :: "bool \<Rightarrow> string \<Rightarrow> int \<times> nat" where
  "fl_utf8decode bounded p =
     (let c = uchar (deref p); p1 = uchar (char_at p 1)
      in if c < 0x80 then (c, 1)
         else if c < 0xa0 then (cp1252 ! nat (c - 0x80), 1)
         else if c < 0xc2 then decode_fail p
         else if past bounded p 1 \<or> no_cont p 1 then decode_fail p
         else if c < 0xe0 then (push_bit 6 (c AND 0x1f) + (p1 AND 0x3f), 2)
         else if c = 0xe0 then (if p1 < 0xa0 then decode_fail p else decode_utf8_3 bounded p)
         else if c < 0xf0 then decode_utf8_3 bounded p
         else if c = 0xf0 then (if p1 < 0x90 then decode_fail p else decode_utf8_4 bounded p)
         else if c < 0xf4 then decode_utf8_4 bounded p
         else if c = 0xf4 then (if 0x8f < p1 then decode_fail p else decode_utf8_4 bounded p)
         else decode_fail p)"

section \<open>Encoding a character\<close>

definition fl_utf8bytes :: "int \<Rightarrow> nat" where
  "fl_utf8bytes ucs =
     (if ucs < 0x80 then 1 else if ucs < 0x800 then 2 else if ucs < 0x10000 then 3
      else if ucs \<le> 0x10ffff then 4 else 3)"

definition fl_utf8encode :: "int \<Rightarrow> string" where
  "fl_utf8encode ucs =
     (if ucs < 0x80 then [byte ucs]
      else if ucs < 0x800 then [byte (0xc0 OR drop_bit 6 ucs), byte (0x80 OR (ucs AND 0x3f))]
      else if ucs < 0x10000 then
        [byte (0xe0 OR drop_bit 12 ucs), byte (0x80 OR (drop_bit 6 ucs AND 0x3f)), byte (0x80 OR (ucs AND 0x3f))]
      else if ucs \<le> 0x10ffff then
        [byte (0xf0 OR drop_bit 18 ucs), byte (0x80 OR (drop_bit 12 ucs AND 0x3f)),
         byte (0x80 OR (drop_bit 6 ucs AND 0x3f)), byte (0x80 OR (ucs AND 0x3f))]
      else [byte 0xef, byte 0xbf, byte 0xbd])"

lemma fl_utf8bytes_encode: "length (fl_utf8encode ucs) = fl_utf8bytes ucs"
  by (simp add: fl_utf8encode_def fl_utf8bytes_def)

section \<open>Arithmetic of the encoding\<close>

definition code_point :: "int \<Rightarrow> bool" where
  "code_point u \<longleftrightarrow> 0 \<le> u \<and> u \<le> 0x10ffff"

text \<open>The encoding in base 64.\<close>

lemma encode_arith:
  assumes "code_point u"
  shows "fl_utf8encode u =
    (if u < 128 then [byte u]
     else if u < 2048 then [byte (192 + u div 64), byte (128 + u mod 64)]
     else if u < 65536 then [byte (224 + u div 4096), byte (128 + u div 64 mod 64), byte (128 + u mod 64)]
     else [byte (240 + u div 262144), byte (128 + u div 4096 mod 64), byte (128 + u div 64 mod 64), byte (128 + u mod 64)])"
proof -
  have u: "0 \<le> u" "u \<le> 1114111" using assms by (auto simp: code_point_def)
  have 1: "192 OR u div 64 = 192 + u div 64" if "u < 2048" using u that by (intro or_lits) auto
  have 2: "224 OR u div 4096 = 224 + u div 4096" if "u < 65536" using u that by (intro or_lits) auto
  have 3: "240 OR u div 262144 = 240 + u div 262144" using u by (intro or_lits) auto
  have 4: "128 OR x mod 64 = 128 + x mod 64" for x :: int by (intro or_lits) auto
  show ?thesis using 1 2 3 4 u
    by (simp add: fl_utf8encode_def drop_bit_eq_div and_masks)
qed

lemma high_bits: "0 \<le> (x :: int) \<Longrightarrow> x < 256 \<Longrightarrow> x div 64 mod 4 = 2 \<longleftrightarrow> 128 \<le> x \<and> x < 192"
proof -
  assume x: "0 \<le> x" "x < 256"
  have d: "x = 64 * (x div 64) + x mod 64" "0 \<le> x mod 64" "x mod 64 < 64" by simp_all
  then have "0 \<le> x div 64" "x div 64 < 4" using x by linarith+
  then have "x div 64 mod 4 = x div 64" by (rule mod_pos_pos_trivial)
  then show ?thesis using d by linarith
qed

lemma no_cont_arith: "no_cont p i \<longleftrightarrow> uchar (char_at p i) < 128 \<or> 192 \<le> uchar (char_at p i)"
  using high_bits [of "uchar (char_at p i)"] by (auto simp: no_cont_def and_high)

lemma char_at_simps [simp]: "char_at (c # s) 0 = c" "char_at (c # s) (Suc i) = char_at s i"
  "char_at (c # s) (numeral n) = char_at s (pred_numeral n)" "char_at [] i = NUL"
  by (simp_all add: char_at_def numeral_eq_Suc)

lemma decode_utf8_3_arith:
  "decode_utf8_3 bounded p =
     (if past bounded p 2 \<or> uchar (char_at p 2) < 128 \<or> 192 \<le> uchar (char_at p 2) then decode_fail p
      else (uchar (char_at p 0) mod 16 * 4096 + uchar (char_at p 1) mod 64 * 64 + uchar (char_at p 2) mod 64, 3))"
  by (auto simp: decode_utf8_3_def no_cont_arith and_masks push_bit_eq_mult)

lemma decode_utf8_4_arith:
  "decode_utf8_4 bounded p =
     (if past bounded p 3 \<or> uchar (char_at p 2) < 128 \<or> 192 \<le> uchar (char_at p 2)
         \<or> uchar (char_at p 3) < 128 \<or> 192 \<le> uchar (char_at p 3) then decode_fail p
      else (uchar (char_at p 0) mod 8 * 262144 + uchar (char_at p 1) mod 64 * 4096
            + uchar (char_at p 2) mod 64 * 64 + uchar (char_at p 3) mod 64, 4))"
  by (auto simp: decode_utf8_4_def no_cont_arith and_masks push_bit_eq_mult)

lemma decode_arith:
  "fl_utf8decode bounded p =
     (let c = uchar (deref p); p1 = uchar (char_at p 1)
      in if c < 128 then (c, 1)
         else if c < 160 then (cp1252 ! nat (c - 128), 1)
         else if c < 194 then decode_fail p
         else if past bounded p 1 \<or> p1 < 128 \<or> 192 \<le> p1 then decode_fail p
         else if c < 224 then (c mod 32 * 64 + p1 mod 64, 2)
         else if c = 224 then (if p1 < 160 then decode_fail p else decode_utf8_3 bounded p)
         else if c < 240 then decode_utf8_3 bounded p
         else if c = 240 then (if p1 < 144 then decode_fail p else decode_utf8_4 bounded p)
         else if c < 244 then decode_utf8_4 bounded p
         else if c = 244 then (if 143 < p1 then decode_fail p else decode_utf8_4 bounded p)
         else decode_fail p)"
  unfolding fl_utf8decode_def no_cont_arith and_masks push_bit_eq_mult Let_def
  by (simp add: mult.commute)

lemma add_mult_mod: "0 \<le> a \<Longrightarrow> a < n \<Longrightarrow> (k * n + a) mod n = (a :: int)"
  by (simp add: mod_pos_pos_trivial)

lemma cont_byte:
  fixes x :: int
  shows "(128 + x mod 64) mod 256 = 128 + x mod 64" "(128 + x mod 64) mod 64 = x mod 64" "128 + x mod 64 < 192"
proof -
  have b: "0 \<le> x mod 64" "x mod 64 < 64" by simp_all
  then show "128 + x mod 64 < 192" by linarith
  show "(128 + x mod 64) mod 256 = 128 + x mod 64" by (rule mod_pos_pos_trivial) (use b in linarith)+
  show "(128 + x mod 64) mod 64 = x mod 64" using add_mult_mod [OF b, of 2] by simp
qed

text \<open>The parts of a code point in base 64.\<close>

lemma split_64:
  fixes u :: int
  shows "u = u div 64 * 64 + u mod 64" "u = u div 4096 * 4096 + u div 64 mod 64 * 64 + u mod 64"
    "u = u div 262144 * 262144 + u div 4096 mod 64 * 4096 + u div 64 mod 64 * 64 + u mod 64"
proof -
  have d: "x = x div 64 * 64 + x mod 64" for x :: int by simp
  have e: "u div 64 div 64 = u div 4096" "u div 4096 div 64 = u div 262144"
    by (simp_all add: zdiv_zmult2_eq [symmetric])
  from d [of u] d [of "u div 64"] d [of "u div 4096"] e
  show "u = u div 64 * 64 + u mod 64" "u = u div 4096 * 4096 + u div 64 mod 64 * 64 + u mod 64"
    "u = u div 262144 * 262144 + u div 4096 mod 64 * 4096 + u div 64 mod 64 * 64 + u mod 64"
    by linarith+
qed

lemma digit_mods:
  fixes a :: int
  shows "0 \<le> a \<Longrightarrow> a < 32 \<Longrightarrow> (192 + a) mod 32 = a" "0 \<le> a \<Longrightarrow> a < 16 \<Longrightarrow> (224 + a) mod 16 = a"
    "0 \<le> a \<Longrightarrow> a < 8 \<Longrightarrow> (240 + a) mod 8 = a" "0 \<le> a \<Longrightarrow> a < 64 \<Longrightarrow> (128 + a) mod 64 = a"
  using add_mult_mod [of a 32 6] add_mult_mod [of a 16 14] add_mult_mod [of a 8 30] add_mult_mod [of a 64 2]
  by simp_all

lemma decode_2:
  assumes "uchar c0 = 192 + a" "uchar c1 = 128 + b" "2 \<le> a" "a < 32" "0 \<le> b" "b < 64"
  shows "fl_utf8decode bounded (c0 # c1 # s) = (a * 64 + b, 2)"
  using assms by (simp add: decode_arith past_def digit_mods Let_def)

lemma decode_3:
  assumes "uchar c0 = 224 + a" "uchar c1 = 128 + b" "uchar c2 = 128 + c" "0 \<le> a" "a < 16"
    "0 \<le> b" "b < 64" "0 \<le> c" "c < 64" "a = 0 \<longrightarrow> 32 \<le> b"
  shows "fl_utf8decode bounded (c0 # c1 # c2 # s) = (a * 4096 + b * 64 + c, 3)"
proof -
  have "decode_utf8_3 bounded (c0 # c1 # c2 # s) = (a * 4096 + b * 64 + c, 3)"
    using assms by (simp add: decode_utf8_3_arith past_def digit_mods)
  then show ?thesis using assms by (auto simp: decode_arith past_def Let_def)
qed

lemma decode_4:
  assumes "uchar c0 = 240 + a" "uchar c1 = 128 + b" "uchar c2 = 128 + c" "uchar c3 = 128 + d" "0 \<le> a" "a \<le> 4"
    "0 \<le> b" "b < 64" "0 \<le> c" "c < 64" "0 \<le> d" "d < 64" "a = 0 \<longrightarrow> 16 \<le> b" "a = 4 \<longrightarrow> b < 16"
  shows "fl_utf8decode bounded (c0 # c1 # c2 # c3 # s) = (a * 262144 + b * 4096 + c * 64 + d, 4)"
proof -
  have "decode_utf8_4 bounded (c0 # c1 # c2 # c3 # s) = (a * 262144 + b * 4096 + c * 64 + d, 4)"
    using assms by (simp add: decode_utf8_4_arith past_def digit_mods)
  then show ?thesis using assms by (auto simp: decode_arith past_def Let_def)
qed

lemma div_mod_64:
  fixes a :: int
  assumes "0 \<le> b" "b < 64"
  shows "(a * 64 + b) div 64 = a" "(a * 64 + b) mod 64 = b"
  using assms by simp_all

lemma encode_2:
  assumes "2 \<le> a" "a < 32" "0 \<le> b" "b < 64" "u = a * 64 + b"
  shows "fl_utf8encode u = [byte (192 + a), byte (128 + b)]" "fl_utf8bytes u = 2" "code_point u" "128 \<le> u"
proof -
  have u: "128 \<le> u" "u < 2048" using assms by linarith+
  then show cp: "code_point u" "fl_utf8bytes u = 2" "128 \<le> u" by (simp_all add: code_point_def fl_utf8bytes_def)
  have "u div 64 = a" "u mod 64 = b" unfolding assms(5) by (rule div_mod_64 [OF assms(3,4)])+
  with encode_arith [OF cp(1)] u show "fl_utf8encode u = [byte (192 + a), byte (128 + b)]" by simp
qed

lemma encode_3:
  assumes "0 \<le> a" "a < 16" "0 \<le> b" "b < 64" "0 \<le> c" "c < 64" "a = 0 \<longrightarrow> 32 \<le> b" "u = a * 4096 + b * 64 + c"
  shows "fl_utf8encode u = [byte (224 + a), byte (128 + b), byte (128 + c)]" "fl_utf8bytes u = 3" "code_point u" "128 \<le> u"
proof -
  have u: "2048 \<le> u" "u < 65536" using assms by (cases "a = 0", linarith+)
  then show cp: "code_point u" "fl_utf8bytes u = 3" "128 \<le> u" by (simp_all add: code_point_def fl_utf8bytes_def)
  have u2: "u = (a * 64 + b) * 64 + c" using assms(8) by simp
  have d: "u div 64 = a * 64 + b" "u mod 64 = c" unfolding u2 by (rule div_mod_64 [OF assms(5,6)])+
  have "u div 4096 = u div 64 div 64" by (simp add: zdiv_zmult2_eq [symmetric])
  then have "u div 4096 = a" "u div 64 mod 64 = b" using d div_mod_64 [OF assms(3,4), of a] by simp_all
  with encode_arith [OF cp(1)] u d(2) show "fl_utf8encode u = [byte (224 + a), byte (128 + b), byte (128 + c)]"
    by simp
qed

lemma encode_4:
  assumes "0 \<le> a" "a \<le> 4" "0 \<le> b" "b < 64" "0 \<le> c" "c < 64" "0 \<le> d" "d < 64" "a = 0 \<longrightarrow> 16 \<le> b"
    "a = 4 \<longrightarrow> b < 16" "u = a * 262144 + b * 4096 + c * 64 + d"
  shows "fl_utf8encode u = [byte (240 + a), byte (128 + b), byte (128 + c), byte (128 + d)]" "fl_utf8bytes u = 4"
    "code_point u" "128 \<le> u"
proof -
  have u: "65536 \<le> u" using assms by (cases "a = 0", linarith+)
  have "u \<le> 1114111" using assms by (cases "a = 4", linarith+)
  with u show cp: "code_point u" "fl_utf8bytes u = 4" "128 \<le> u" by (simp_all add: code_point_def fl_utf8bytes_def)
  have u2: "u = ((a * 64 + b) * 64 + c) * 64 + d" using assms(11) by simp
  have d1: "u div 64 = (a * 64 + b) * 64 + c" "u mod 64 = d" unfolding u2 by (rule div_mod_64 [OF assms(7,8)])+
  have "u div 4096 = u div 64 div 64" by (simp add: zdiv_zmult2_eq [symmetric])
  then have d2: "u div 4096 = a * 64 + b" "u div 64 mod 64 = c" using d1 div_mod_64 [OF assms(5,6), of "a * 64 + b"] by simp_all
  have "u div 262144 = u div 4096 div 64" by (simp add: zdiv_zmult2_eq [symmetric])
  then have "u div 262144 = a" "u div 4096 mod 64 = b" using d2 div_mod_64 [OF assms(3,4), of a] by simp_all
  with encode_arith [OF cp(1)] u d1(2) d2(2) show "fl_utf8encode u = [byte (240 + a), byte (128 + b), byte (128 + c), byte (128 + d)]"
    by simp
qed

lemma code_point_cases:
  assumes "code_point u"
  obtains (1) "0 \<le> u" "u < 128"
  | (2) a b where "2 \<le> a" "a < 32" "0 \<le> b" "b < 64" "u = a * 64 + b"
  | (3) a b c where "0 \<le> a" "a < 16" "0 \<le> b" "b < 64" "0 \<le> c" "c < 64" "a = 0 \<longrightarrow> 32 \<le> b" "u = a * 4096 + b * 64 + c"
  | (4) a b c d where "0 \<le> a" "a \<le> 4" "0 \<le> b" "b < 64" "0 \<le> c" "c < 64" "0 \<le> d" "d < 64" "a = 0 \<longrightarrow> 16 \<le> b"
      "a = 4 \<longrightarrow> b < 16" "u = a * 262144 + b * 4096 + c * 64 + d"
proof -
  have u: "0 \<le> u" "u \<le> 1114111" using assms by (auto simp: code_point_def)
  have r: "0 \<le> x mod 64" "x mod 64 < 64" for x :: int by simp_all
  consider "u < 128" | "128 \<le> u" "u < 2048" | "2048 \<le> u" "u < 65536" | "65536 \<le> u" by linarith
  then show thesis
  proof cases
    case h: 1
    with u show thesis by (intro 1) simp_all
  next
    case h: 2
    have "2 \<le> u div 64" "u div 64 < 32" using h split_64(1) [of u] r [of u] by linarith+
    from 2 [OF this r [of u] split_64(1)] show thesis .
  next
    case h: 3
    have "0 \<le> u div 4096" "u div 4096 < 16" "u div 4096 = 0 \<longrightarrow> 32 \<le> u div 64 mod 64"
      using h split_64(2) [of u] r [of u] r [of "u div 64"] by linarith+
    from 3 [OF this(1,2) r [of "u div 64"] r [of u] this(3) split_64(2)] show thesis .
  next
    case h: 4
    have "0 \<le> u div 262144" "u div 262144 \<le> 4" "u div 262144 = 0 \<longrightarrow> 16 \<le> u div 4096 mod 64"
      "u div 262144 = 4 \<longrightarrow> u div 4096 mod 64 < 16"
      using h u split_64(3) [of u] r [of u] r [of "u div 64"] r [of "u div 4096"] by linarith+
    from 4 [OF this(1,2) r [of "u div 4096"] r [of "u div 64"] r [of u] this(3,4) split_64(3)] show thesis .
  qed
qed

lemma utf8_decode_encode:
  assumes "code_point u"
  shows "fl_utf8decode bounded (fl_utf8encode u @ s) = (u, fl_utf8bytes u)"
  using assms
proof (cases rule: code_point_cases)
  case 1
  then show ?thesis by (simp add: encode_arith [OF assms] decode_arith fl_utf8bytes_def)
next
  case (2 a b)
  show ?thesis unfolding encode_2 [OF 2] append.simps
    by (subst decode_2 [of _ a _ b]) (use 2 in simp_all)
next
  case (3 a b c)
  show ?thesis unfolding encode_3 [OF 3] append.simps
    by (subst decode_3 [of _ a _ b _ c]) (use 3 in simp_all)
next
  case (4 a b c d)
  show ?thesis unfolding encode_4 [OF 4] append.simps
    by (subst decode_4 [of _ a _ b _ c _ d]) (use 4 in simp_all)
qed

text \<open>A length above 1 is that of the encoding of the character decoded.\<close>

lemma decode_long:
  assumes "fl_utf8decode bounded p = (u, n)" "1 < n"
  shows "code_point u \<and> 128 \<le> u \<and> (\<exists>s. p = fl_utf8encode u @ s) \<and> n = fl_utf8bytes u"
proof -
  define b where "b i = uchar (char_at p i)" for i
  have 0: "uchar (deref p) = b 0" "uchar (char_at p 1) = b 1" by (simp_all add: b_def deref_char_at)
  have bb: "0 \<le> b i" "b i < 256" for i by (simp_all add: b_def)
  have df: "decode_fail p = (u, n) \<longleftrightarrow> False" using assms(2) by (auto simp: decode_fail_def)
  note arith = assms(1) [unfolded decode_arith Let_def 0]
  have len: "i < length p \<and> byte (b i) = p ! i" if "b i \<noteq> 0" for i
    using that by (auto simp: b_def char_at_def split: if_splits)
  have c: "194 \<le> b 0" "128 \<le> b 1" "b 1 < 192"
    using arith df assms(2) by (auto simp: not_less simp del: One_nat_def split: if_splits)
  consider (2) "b 0 < 224" "(u, n) = (b 0 mod 32 * 64 + b 1 mod 64, 2)"
    | (3) "224 \<le> b 0" "b 0 < 240" "b 0 = 224 \<longrightarrow> 160 \<le> b 1" "decode_utf8_3 bounded p = (u, n)"
    | (4) "240 \<le> b 0" "b 0 \<le> 244" "b 0 = 240 \<longrightarrow> 144 \<le> b 1" "b 0 = 244 \<longrightarrow> b 1 \<le> 143" "decode_utf8_4 bounded p = (u, n)"
    using arith c df by (auto simp: not_less simp del: One_nat_def split: if_splits)
  then show ?thesis
  proof cases
    case 2
    have m: "b 0 mod 32 = b 0 - 192" "b 1 mod 64 = b 1 - 128" 
      using digit_mods(1) [of "b 0 - 192"] digit_mods(4) [of "b 1 - 128"] c 2(1) by simp_all
    have "u = (b 0 - 192) * 64 + (b 1 - 128)" "n = 2" using 2(2) m by simp_all
    with encode_2 [of "b 0 - 192" "b 1 - 128" u] c 2(1)
    have e: "fl_utf8encode u = [byte (b 0), byte (b 1)]" "fl_utf8bytes u = n" "code_point u" "128 \<le> u" by simp_all
    have "p = fl_utf8encode u @ drop 2 p"
      using len [of 0] len [of 1] c unfolding e(1)
      by (simp add: Cons_nth_drop_Suc numeral_2_eq_2)
    with e show ?thesis by blast
  next
    case 3
    have d: "128 \<le> b 2" "b 2 < 192" "u = b 0 mod 16 * 4096 + b 1 mod 64 * 64 + b 2 mod 64" "n = 3"
      using 3(4) df unfolding decode_utf8_3_arith b_def by (auto simp: not_less simp del: One_nat_def split: if_splits)
    have m: "b 0 mod 16 = b 0 - 224" "b 1 mod 64 = b 1 - 128" "b 2 mod 64 = b 2 - 128"
      using digit_mods(2) [of "b 0 - 224"] digit_mods(4) [of "b 1 - 128"] digit_mods(4) [of "b 2 - 128"] c 3 d by simp_all
    with encode_3 [of "b 0 - 224" "b 1 - 128" "b 2 - 128" u] c 3 d
    have e: "fl_utf8encode u = [byte (b 0), byte (b 1), byte (b 2)]" "fl_utf8bytes u = n" "code_point u" "128 \<le> u"
      by simp_all
    have "p = fl_utf8encode u @ drop 3 p"
      using len [of 0] len [of 1] len [of 2] c d(1,2) unfolding e(1)
      by (simp add: Cons_nth_drop_Suc numeral_2_eq_2 numeral_3_eq_3)
    with e show ?thesis by blast
  next
    case 4
    have d: "128 \<le> b 2" "b 2 < 192" "128 \<le> b 3" "b 3 < 192" "n = 4"
      "u = b 0 mod 8 * 262144 + b 1 mod 64 * 4096 + b 2 mod 64 * 64 + b 3 mod 64"
      using 4(5) df unfolding decode_utf8_4_arith b_def by (auto simp: not_less simp del: One_nat_def split: if_splits)
    have m: "b 0 mod 8 = b 0 - 240" "b 1 mod 64 = b 1 - 128" "b 2 mod 64 = b 2 - 128" "b 3 mod 64 = b 3 - 128"
      using digit_mods(3) [of "b 0 - 240"] digit_mods(4) [of "b 1 - 128"] digit_mods(4) [of "b 2 - 128"]
        digit_mods(4) [of "b 3 - 128"] c 4 d by simp_all
    moreover have "b 0 = 244 \<longrightarrow> b 1 < 144" using 4(4) by linarith
    ultimately have e: "fl_utf8encode u = [byte (b 0), byte (b 1), byte (b 2), byte (b 3)]" "fl_utf8bytes u = n"
      "code_point u" "128 \<le> u"
      using encode_4 [of "b 0 - 240" "b 1 - 128" "b 2 - 128" "b 3 - 128" u] c 4 d
      by simp_all
    have "p = fl_utf8encode u @ drop 4 p"
      using len [of 0] len [of 1] len [of 2] len [of 3] c d(1-4) unfolding e(1)
      by (simp add: Cons_nth_drop_Suc numeral_2_eq_2 numeral_3_eq_3 eval_nat_numeral)
    with e show ?thesis by blast
  qed
qed

section \<open>Testing a text\<close>

lemma decode_len: "fl_utf8decode bounded p = (u, n) \<Longrightarrow> 0 < n \<and> n \<le> 4"
  by (auto simp: fl_utf8decode_def decode_fail_def decode_utf8_3_def decode_utf8_4_def Let_def split: if_splits)

text \<open>The loop moves past the character at \<open>p\<close>; in a text whose end is known a character ends
  before it.\<close>

function utf8test_loop :: "int \<Rightarrow> string \<Rightarrow> int" where
  "utf8test_loop ret p =
     (if p = [] then ret
      else if uchar (deref p) AND 0x80 \<noteq> 0 then
        (case fl_utf8decode True p of (_, len) \<Rightarrow>
           (if len < 2 then 0 else utf8test_loop (max ret (int len)) (drop len p)))
      else utf8test_loop ret (tl p))"
  by pat_completeness auto
termination
  by (relation "measure (\<lambda>(ret, p). length p)") auto

declare utf8test_loop.simps [simp del]

definition fl_utf8test :: "string \<Rightarrow> int" where
  "fl_utf8test src = utf8test_loop 1 src"

lemma high_bit: "uchar c AND 128 \<noteq> 0 \<longleftrightarrow> 128 \<le> uchar c"
proof -
  have "uchar c = 128 * (uchar c div 128) + uchar c mod 128" "0 \<le> uchar c mod 128" "uchar c mod 128 < 128" by simp_all
  moreover have "0 \<le> uchar c" "uchar c < 256" by simp_all
  ultimately have "uchar c div 128 = 0 \<and> uchar c < 128 \<or> uchar c div 128 = 1 \<and> 128 \<le> uchar c" by linarith
  then show ?thesis by (auto simp: and_high)
qed

definition utf8_of :: "int list \<Rightarrow> string" where
  "utf8_of us = concat (map fl_utf8encode us)"

lemma utf8_of_simps [simp]: "utf8_of [] = []" "utf8_of (u # us) = fl_utf8encode u @ utf8_of us"
  by (simp_all add: utf8_of_def)

text \<open>The first byte of an encoding tells ASCII from the rest.\<close>

lemma encode_first:
  assumes "code_point u"
  shows "u < 128 \<and> fl_utf8encode u = [byte u] \<and> uchar (byte u) = u
    \<or> 128 \<le> u \<and> 1 < fl_utf8bytes u \<and> 192 \<le> uchar (deref (fl_utf8encode u))
      \<and> fl_utf8encode u \<noteq> [] \<and> (\<forall>c \<in> set (tl (fl_utf8encode u)). 128 \<le> uchar c \<and> uchar c < 192)"
  using assms
proof (cases rule: code_point_cases)
  case 1
  then show ?thesis by (simp add: encode_arith [OF assms])
next
  case (2 a b)
  from encode_2 [OF 2] 2 show ?thesis by auto
next
  case (3 a b c)
  from encode_3 [OF 3] 3 show ?thesis by auto
next
  case (4 a b c d)
  from encode_4 [OF 4] 4 show ?thesis by auto
qed

lemma deref_append: "s \<noteq> [] \<Longrightarrow> deref (s @ t) = deref s"
  by (cases s) auto

lemma utf8test_loop_valid:
  "\<forall>u \<in> set us. code_point u \<Longrightarrow> 1 \<le> ret
   \<Longrightarrow> utf8test_loop ret (utf8_of us) = fold max (map (int \<circ> fl_utf8bytes) us) ret"
proof (induction us arbitrary: ret)
  case Nil
  then show ?case by (simp add: utf8test_loop.simps)
next
  case (Cons u us)
  then have u: "code_point u" and us: "\<forall>u \<in> set us. code_point u" by auto
  from encode_first [OF u] show ?case
  proof
    assume h: "u < 128 \<and> fl_utf8encode u = [byte u] \<and> uchar (byte u) = u"
    then have "utf8test_loop ret (utf8_of (u # us)) = utf8test_loop ret (utf8_of us)"
      using high_bit [of "byte u"] by (subst utf8test_loop.simps) simp
    moreover have "fl_utf8bytes u = 1" using h by (simp add: fl_utf8bytes_def)
    ultimately show ?thesis using Cons.IH [OF us Cons.prems(2)] Cons.prems(2) by (simp add: max_def)
  next
    assume h: "128 \<le> u \<and> 1 < fl_utf8bytes u \<and> 192 \<le> uchar (deref (fl_utf8encode u))
      \<and> fl_utf8encode u \<noteq> [] \<and> (\<forall>c \<in> set (tl (fl_utf8encode u)). 128 \<le> uchar c \<and> uchar c < 192)"
    then have "utf8test_loop ret (utf8_of (u # us)) = utf8test_loop (max ret (int (fl_utf8bytes u))) (utf8_of us)"
      using high_bit [of "deref (fl_utf8encode u)"] utf8_decode_encode [OF u, of True "utf8_of us"] fl_utf8bytes_encode [of u]
      by (subst utf8test_loop.simps) (simp add: deref_append)
    then show ?thesis using Cons.IH [OF us, of "max ret (int (fl_utf8bytes u))"] Cons.prems(2)
      by (simp add: max.commute)
  qed
qed

lemma utf8test_loop_invalid:
  "utf8test_loop ret p \<noteq> 0 \<Longrightarrow> \<exists>us. (\<forall>u \<in> set us. code_point u) \<and> p = utf8_of us"
proof (induction ret p rule: utf8test_loop.induct)
  case (1 ret p)
  show ?case
  proof (cases p)
    case Nil
    then show ?thesis by (intro exI [of _ "[]"]) simp
  next
    case (Cons c s)
    show ?thesis
    proof (cases "uchar c AND 128 \<noteq> 0")
      case False
      then have c: "uchar c < 128" using high_bit by auto
      have "utf8test_loop ret s \<noteq> 0" using 1(3) Cons False by (simp add: utf8test_loop.simps [of ret "c # s"])
      with 1(2) Cons False obtain us where us: "\<forall>u \<in> set us. code_point u" "s = utf8_of us" by auto
      have "fl_utf8encode (uchar c) = [c]" using c by (simp add: fl_utf8encode_def)
      with c us Cons show ?thesis by (intro exI [of _ "uchar c # us"]) (simp add: code_point_def)
    next
      case True
      obtain u n where d: "fl_utf8decode True p = (u, n)" by (cases "fl_utf8decode True p")
      have p: "p \<noteq> []" "uchar (deref p) AND 128 \<noteq> 0" using Cons True by simp_all
      then have "utf8test_loop ret p = (if n < 2 then 0 else utf8test_loop (max ret (int n)) (drop n p))"
        using d by (subst utf8test_loop.simps) simp
      with 1(3) have n: "\<not> n < 2" "utf8test_loop (max ret (int n)) (drop n p) \<noteq> 0"
        by (metis (full_types))+
      have "1 < n" using n(1) by simp
      from decode_long [OF d this] obtain s' where u: "code_point u" "p = fl_utf8encode u @ s'" "n = fl_utf8bytes u"
        by blast
      then have s': "drop n p = s'" by (simp add: fl_utf8bytes_encode [symmetric])
      from 1(1) [OF p d [symmetric] n] obtain us where
        "\<forall>u \<in> set us. code_point u" "drop n p = utf8_of us" by auto
      with u s' show ?thesis by (intro exI [of _ "u # us"]) simp
    qed
  qed
qed

text \<open>
  C30: a text passes the test exactly when it is a sequence of encoded characters up to 0x10ffff,
  and the verdict is then the length of the longest encoding in it (1 for the empty text).\<close>

theorem utf8test_decides:
  "0 < fl_utf8test src \<longleftrightarrow>
    (\<exists>us. list_all code_point us \<and> src = utf8_of us \<and> fl_utf8test src = fold max (map (int \<circ> fl_utf8bytes) us) 1)"
proof -
  have ge: "x \<le> fold max ys x" for x :: int and ys
  proof (induction ys arbitrary: x)
    case (Cons a ys)
    from Cons.IH [of "max a x"] show ?case by simp
  qed simp
  have "0 < fold max ys (1 :: int)" for ys using ge [of 1 ys] by simp
  then show ?thesis
    using utf8test_loop_valid [of _ 1] utf8test_loop_invalid [of 1 src]
    unfolding fl_utf8test_def list_all_iff by (metis less_irrefl order_refl)
qed

lemma cp1252_high: "i < 32 \<Longrightarrow> 128 \<le> cp1252 ! i"
proof -
  assume "i < 32"
  moreover have "length cp1252 = 32" by (simp add: cp1252_def)
  ultimately have "cp1252 ! i \<in> set cp1252" by (intro nth_mem) simp
  moreover have "\<forall>x \<in> set cp1252. 128 \<le> x" by (simp add: cp1252_def)
  ultimately show ?thesis by blast
qed

lemma decode_ascii:
  assumes "fl_utf8decode bounded p = (u, 1)" "u < 128"
  shows "uchar (deref p) = u"
proof -
  let ?c = "uchar (deref p)"
  have "nat (?c - 128) < 32" if "?c < 160" using that by simp
  then show ?thesis
    using assms cp1252_high [of "nat (?c - 128)"]
    by (auto simp: fl_utf8decode_def decode_fail_def decode_utf8_3_def decode_utf8_4_def Let_def
        split: if_splits)
qed

text \<open>
  C29: decoding is the inverse of encoding: for every code point up to 0x10ffff, a text decodes to
  it with the length of its encoding exactly when the text starts with its encoding.\<close>

theorem utf8_roundtrip:
  assumes "code_point u" "p \<noteq> []"
  shows "fl_utf8decode bounded p = (u, fl_utf8bytes u) \<longleftrightarrow> (\<exists>t. p = fl_utf8encode u @ t)"
proof
  assume d: "fl_utf8decode bounded p = (u, fl_utf8bytes u)"
  show "\<exists>t. p = fl_utf8encode u @ t"
  proof (cases "1 < fl_utf8bytes u")
    case True
    with decode_long [OF d] show ?thesis by auto
  next
    case False
    then have u: "u < 128" "fl_utf8bytes u = 1" by (auto simp: fl_utf8bytes_def split: if_splits)
    with decode_ascii [of bounded p u] d have "uchar (deref p) = u" by simp
    then have "byte u = deref p" by auto
    with u(1) assms(2) show ?thesis by (cases p) (auto simp: fl_utf8encode_def)
  qed
next
  assume "\<exists>t. p = fl_utf8encode u @ t"
  with utf8_decode_encode [OF assms(1)] show "fl_utf8decode bounded p = (u, fl_utf8bytes u)" by auto
qed

theorem utf8_roundtrip_witness:
  "fl_utf8decode True [CHR 0xE2, CHR 0x82, CHR 0xAC, CHR ''x''] = (0x20ac, 3)
   \<longleftrightarrow> (\<exists>t. [CHR 0xE2, CHR 0x82, CHR 0xAC, CHR ''x''] = fl_utf8encode 0x20ac @ t)"
  using utf8_roundtrip [where u = "0x20ac" and p = "[CHR 0xE2, CHR 0x82, CHR 0xAC, CHR ''x'']" and bounded = True]
  by (simp add: code_point_def fl_utf8bytes_def)

section \<open>Moving to the start of a character\<close>

text \<open>The scan backwards from \<open>a = p - 1\<close> to the start of the text; \<open>None\<close> for the early
  returns of \<open>p\<close>.\<close>

fun scan_back :: "string \<Rightarrow> nat \<Rightarrow> nat option" where
  "scan_back buf 0 = None"
| "scan_back buf (Suc a) =
     (if uchar (char_at buf a) AND 0x80 = 0 then None
      else if uchar (char_at buf a) AND 0x40 \<noteq> 0 then Some a
      else scan_back buf a)"

definition fl_utf8fwd :: "string \<Rightarrow> nat \<Rightarrow> nat" where
  "fl_utf8fwd buf p =
     (if uchar (char_at buf p) AND 0xc0 \<noteq> 0x80 then p
      else (case scan_back buf p of
              None \<Rightarrow> p
            | Some a \<Rightarrow> (case fl_utf8decode True (drop a buf) of (_, len) \<Rightarrow> if p < a + len then a + len else p)))"

definition fl_utf8back :: "string \<Rightarrow> nat \<Rightarrow> nat" where
  "fl_utf8back buf p =
     (if uchar (char_at buf p) AND 0xc0 \<noteq> 0x80 then p
      else (case scan_back buf p of
              None \<Rightarrow> p
            | Some a \<Rightarrow> (case fl_utf8decode True (drop a buf) of (_, len) \<Rightarrow> if p < a + len then a else p)))"

lemma scan_back_in_char:
  assumes "buf = x @ c # conts @ y" "192 \<le> uchar c" "\<forall>d \<in> set conts. 128 \<le> uchar d \<and> uchar d < 192"
    and "k \<le> length conts"
  shows "scan_back buf (length x + Suc k) = Some (length x)"
  using assms(4)
proof (induction k)
  case 0
  have "char_at buf (length x) = c" using assms(1) by (simp add: char_at_def)
  moreover have "uchar c div 64 mod 2 = 1"
  proof -
    have "uchar c = 64 * (uchar c div 64) + uchar c mod 64" "0 \<le> uchar c mod 64" "uchar c mod 64 < 64" by simp_all
    then have "uchar c div 64 = 3" using assms(2) uchar_less [of c] by linarith
    then show ?thesis by simp
  qed
  ultimately show ?case using high_bit [of c] assms(2) by (simp add: and_high(3))
next
  case (Suc k)
  let ?d = "conts ! k"
  have d: "char_at buf (length x + Suc k) = ?d" using assms(1) Suc.prems
    by (simp add: char_at_def nth_append)
  have "128 \<le> uchar ?d" "uchar ?d < 192" using assms(3) Suc.prems by (simp_all add: Suc_le_lessD)
  moreover from this have "uchar ?d AND 64 = 0"
  proof -
    assume h: "128 \<le> uchar ?d" "uchar ?d < 192"
    have "uchar ?d = 64 * (uchar ?d div 64) + uchar ?d mod 64" "0 \<le> uchar ?d mod 64" "uchar ?d mod 64 < 64" by simp_all
    then have "uchar ?d div 64 = 2" using h by linarith
    then show ?thesis by (simp add: and_high(3))
  qed
  ultimately show ?case using high_bit [of ?d] d Suc by simp
qed

lemma and_c0: "uchar c AND 0xc0 = 0x80 \<longleftrightarrow> 128 \<le> uchar c \<and> uchar c < 192"
  using high_bits [of "uchar c"] by (simp add: and_high)

text \<open>
  From any byte of an encoded character, wherever it stands in a text, moving backwards gives
  the first byte of the character, and moving forwards that of the next one (or stays, on a first
  byte).\<close>

theorem utf8_fwd_back:
  assumes "code_point u" "k < fl_utf8bytes u"
  shows "fl_utf8back (x @ fl_utf8encode u @ s) (length x + k) = length x
    \<and> fl_utf8fwd (x @ fl_utf8encode u @ s) (length x + k) = (if k = 0 then length x else length x + fl_utf8bytes u)"
proof -
  let ?buf = "x @ fl_utf8encode u @ s"
  from encode_first [OF assms(1)] show ?thesis
  proof
    assume h: "u < 128 \<and> fl_utf8encode u = [byte u] \<and> uchar (byte u) = u"
    then have "k = 0" using assms(2) by (simp add: fl_utf8bytes_def)
    moreover have "char_at ?buf (length x) = byte u" using h by (simp add: char_at_def)
    ultimately show ?thesis using h and_c0 [of "byte u"] by (simp add: fl_utf8back_def fl_utf8fwd_def)
  next
    assume h: "128 \<le> u \<and> 1 < fl_utf8bytes u \<and> 192 \<le> uchar (deref (fl_utf8encode u))
      \<and> fl_utf8encode u \<noteq> [] \<and> (\<forall>c \<in> set (tl (fl_utf8encode u)). 128 \<le> uchar c \<and> uchar c < 192)"
    then obtain c conts where e: "fl_utf8encode u = c # conts" by (cases "fl_utf8encode u") auto
    with h have c: "192 \<le> uchar c" "\<forall>d \<in> set conts. 128 \<le> uchar d \<and> uchar d < 192" by simp_all
    have len: "fl_utf8bytes u = Suc (length conts)" using fl_utf8bytes_encode [of u] e by simp
    have d: "fl_utf8decode True (drop (length x) ?buf) = (u, fl_utf8bytes u)"
      using utf8_decode_encode [OF assms(1)] by simp
    show ?thesis
    proof (cases k)
      case 0
      have "char_at ?buf (length x) = c" using e by (simp add: char_at_def)
      with 0 c and_c0 [of c] show ?thesis by (simp add: fl_utf8back_def fl_utf8fwd_def)
    next
      case (Suc j)
      then have j: "j < length conts" using assms(2) len by simp
      have "char_at ?buf (length x + k) = conts ! j" using e Suc j by (simp add: char_at_def nth_append)
      moreover have "uchar (conts ! j) AND 0xc0 = 0x80" using c(2) j and_c0 [of "conts ! j"] by simp
      moreover have "scan_back ?buf (length x + k) = Some (length x)"
        using scan_back_in_char [OF _ c, of ?buf x s j] e Suc j by simp
      ultimately show ?thesis using d Suc assms(2) by (simp add: fl_utf8back_def fl_utf8fwd_def)
    qed
  qed
qed

theorem utf8_fwd_back_witness:
  "fl_utf8back [CHR ''x'', CHR 0xE2, CHR 0x82, CHR 0xAC, CHR ''y''] 2 = 1
   \<and> fl_utf8fwd [CHR ''x'', CHR 0xE2, CHR 0x82, CHR 0xAC, CHR ''y''] 2 = 4"
proof -
  have e: "fl_utf8encode 8364 = [CHR 0xE2, CHR 0x82, CHR 0xAC]"
    by (simp add: encode_arith code_point_def byte_eq uchar_def)
  have "code_point 8364" "(1 :: nat) < fl_utf8bytes 8364" by (simp_all add: code_point_def fl_utf8bytes_def)
  from utf8_fwd_back [OF this, of "''x''" "''y''"] show ?thesis by (simp add: e fl_utf8bytes_def numeral_2_eq_2)
qed

section \<open>The wrappers of the browser\<close>

text \<open>The index of the last byte of the character \<open>str + i\<close> points to or into; the scan stops
  after four bytes.\<close>

fun end_of_char_loop :: "nat \<Rightarrow> string \<Rightarrow> nat \<Rightarrow> nat \<Rightarrow> nat" where
  "end_of_char_loop 0 str i internal_bytes = i"
| "end_of_char_loop (Suc fuel) str i internal_bytes =
     (if uchar (char_at str (i + 1)) AND 0xc0 = 0x80 \<and> internal_bytes + 1 < 4
      then end_of_char_loop fuel str (i + 1) (internal_bytes + 1) else i)"

definition a_Utf8_end_of_char :: "string option \<Rightarrow> nat \<Rightarrow> nat" where
  "a_Utf8_end_of_char str i =
     (case str of
        None \<Rightarrow> i
      | Some s \<Rightarrow>
          (if deref s \<noteq> NUL \<and> uchar (char_at s i) AND 0x80 \<noteq> 0
           then end_of_char_loop 4 s i (if uchar (char_at s i) AND 0x40 \<noteq> 0 then 0 else 1) else i))"

definition a_Utf8_decode :: "bool \<Rightarrow> string \<Rightarrow> int \<times> nat" where
  "a_Utf8_decode bounded str = fl_utf8decode bounded str"

definition a_Utf8_encode :: "int \<Rightarrow> string" where
  "a_Utf8_encode ucs = fl_utf8encode ucs"

definition a_Utf8_test :: "string \<Rightarrow> int" where
  "a_Utf8_test src = fl_utf8test src"

definition a_Utf8_ideographic :: "string \<Rightarrow> bool \<times> nat" where
  "a_Utf8_ideographic s =
     (if 0xe2 \<le> uchar (deref s) then
        (case a_Utf8_decode True s of (unicode, len) \<Rightarrow>
           (0x2e80 \<le> unicode \<and> (unicode \<le> 0xa4cf \<or> (0xf900 \<le> unicode \<and> unicode \<le> 0xfaff)
              \<or> (0xff00 \<le> unicode \<and> unicode \<le> 0xff9f)), len))
      else (False, 1 + a_Utf8_end_of_char (Some s) 0))"

definition a_Utf8_combining_char :: "int \<Rightarrow> bool" where
  "a_Utf8_combining_char unicode \<longleftrightarrow>
     (0x0300 \<le> unicode \<and> unicode \<le> 0x036f) \<or> (0x1dc0 \<le> unicode \<and> unicode \<le> 0x1dff)
     \<or> (0x20d0 \<le> unicode \<and> unicode \<le> 0x20ff) \<or> (0xfe20 \<le> unicode \<and> unicode \<le> 0xfe2f)"

end
