(* ===== verification/Utf8_Convert.thy ===== *)
theory Utf8_Convert
  imports Utf8
begin

text \<open>
  The conversions between UTF-8 and arrays of wide characters, UTF-16 words or bytes of
  \<^verbatim>\<open>fltk/src/fl_utf.c\<close>. Five functions share one scheme: fill the destination up to its length and
  terminate it, then go on counting what would not fit. The scheme is defined once, with the
  step that reads a character and gives the units to write as a parameter, and its contract is
  proved in a locale that each function's steps interpret.
\<close>

section \<open>Writing into an array\<close>

text \<open>\<open>None\<close> is a write outside of the array.\<close>

definition put :: "'a list \<Rightarrow> nat \<Rightarrow> 'a \<Rightarrow> 'a list option" where
  "put dst i v = (if i < length dst then Some (dst[i := v]) else None)"

fun puts :: "'a list \<Rightarrow> nat \<Rightarrow> 'a list \<Rightarrow> 'a list option" where
  "puts dst i [] = Some dst"
| "puts dst i (v # vs) = Option.bind (put dst i v) (\<lambda>d. puts d (i + 1) vs)"

section \<open>The scheme\<close>

text \<open>The first loop: one unit is written and then overwritten by the terminator when it was in
  the last place; several units are written only when there is room for the terminator after
  them.\<close>

partial_function (option) fill ::
  "'a \<Rightarrow> ('p list \<Rightarrow> 'a list \<times> 'p list) \<Rightarrow> nat \<Rightarrow> 'p list \<Rightarrow> nat \<Rightarrow> 'a list
     \<Rightarrow> (nat \<times> 'a list \<times> 'p list) option" where
  "fill zero step dstlen p cnt dst =
     (if p = [] then map_option (\<lambda>d. (cnt, d, p)) (put dst cnt zero)
      else (case step p of (us, p') \<Rightarrow>
        (if length us = 1 then
           (case put dst cnt (hd us) of
              None \<Rightarrow> None
            | Some d \<Rightarrow>
                (if dstlen \<le> cnt + 1 then map_option (\<lambda>d'. (cnt + 1, d', p')) (put d cnt zero)
                 else fill zero step dstlen p' (cnt + 1) d))
         else if dstlen \<le> cnt + length us then
           map_option (\<lambda>d. (cnt + length us, d, p')) (put dst cnt zero)
         else
           (case puts dst cnt us of
              None \<Rightarrow> None
            | Some d \<Rightarrow> fill zero step dstlen p' (cnt + length us) d))))"

text \<open>The second loop: \<open>we filled dst, measure the rest\<close>.\<close>

partial_function (option) measure_rest :: "('p list \<Rightarrow> nat \<times> 'p list) \<Rightarrow> 'p list \<Rightarrow> nat \<Rightarrow> nat option" where
  "measure_rest sz p cnt =
     (if p = [] then Some cnt
      else (case sz p of (n, p') \<Rightarrow> measure_rest sz p' (cnt + n)))"

definition convert ::
  "'a \<Rightarrow> ('p list \<Rightarrow> 'a list \<times> 'p list) \<Rightarrow> ('p list \<Rightarrow> nat \<times> 'p list) \<Rightarrow> 'p list \<Rightarrow> 'a list \<Rightarrow> nat
     \<Rightarrow> (nat \<times> 'a list) option" where
  "convert zero step sz src dst dstlen =
     (case (if 0 < dstlen then fill zero step dstlen src 0 dst else Some (0, dst, src)) of
        None \<Rightarrow> None
      | Some (cnt, d, p) \<Rightarrow> map_option (\<lambda>n. (n, d)) (measure_rest sz p cnt))"

section \<open>The conversion functions\<close>

definition next_char :: "string \<Rightarrow> int \<times> string" where
  "next_char p =
     (if uchar (deref p) AND 0x80 = 0 then (uchar (deref p), tl p)
      else (case fl_utf8decode True p of (ucs, len) \<Rightarrow> (ucs, drop len p)))"

definition towc_step :: "string \<Rightarrow> int list \<times> string" where
  "towc_step p = (case next_char p of (ucs, p') \<Rightarrow> ([ucs], p'))"

definition towc_size :: "string \<Rightarrow> nat \<times> string" where
  "towc_size p = (1, snd (next_char p))"

definition fl_utf8towc :: "string \<Rightarrow> int list \<Rightarrow> nat \<Rightarrow> (nat \<times> int list) option" where
  "fl_utf8towc src dst dstlen = convert 0 towc_step towc_size src dst dstlen"

definition utf16_step :: "string \<Rightarrow> int list \<times> string" where
  "utf16_step p =
     (case next_char p of (ucs, p') \<Rightarrow>
        (if ucs < 0x10000 then [ucs]
         else [(drop_bit 10 (ucs - 0x10000) AND 0x3ff) OR 0xd800, (ucs AND 0x3ff) OR 0xdc00], p'))"

definition utf16_size :: "string \<Rightarrow> nat \<times> string" where
  "utf16_size p = (case next_char p of (ucs, p') \<Rightarrow> (if 0x10000 \<le> ucs then 2 else 1, p'))"

definition fl_utf8toUtf16 :: "string \<Rightarrow> int list \<Rightarrow> nat \<Rightarrow> (nat \<times> int list) option" where
  "fl_utf8toUtf16 src dst dstlen = convert 0 utf16_step utf16_size src dst dstlen"

definition toa_step :: "string \<Rightarrow> string \<times> string" where
  "toa_step p =
     (if uchar (deref p) < 0xC2 then ([deref p], tl p)
      else (case fl_utf8decode True p of (ucs, len) \<Rightarrow>
        ([if ucs < 0x100 then byte ucs else CHR ''?''], drop len p)))"

definition fl_utf8toa :: "string \<Rightarrow> string \<Rightarrow> nat \<Rightarrow> (nat \<times> string) option" where
  "fl_utf8toa src dst dstlen = convert NUL toa_step towc_size src dst dstlen"

definition fromwc_step :: "int list \<Rightarrow> string \<times> int list" where
  "fromwc_step src =
     (let ucs = hd src
      in (if ucs < 0x80 then [byte ucs]
          else if ucs < 0x800 then [byte (0xc0 OR drop_bit 6 ucs), byte (0x80 OR (ucs AND 0x3F))]
          else if 0x10000 \<le> ucs \<and> ucs \<le> 0x10ffff then
            [byte (0xf0 OR drop_bit 18 ucs), byte (0x80 OR (drop_bit 12 ucs AND 0x3F)),
             byte (0x80 OR (drop_bit 6 ucs AND 0x3F)), byte (0x80 OR (ucs AND 0x3F))]
          else
            (let c = (if 0x10000 \<le> ucs then 0xfffd else ucs)
             in [byte (0xe0 OR drop_bit 12 c), byte (0x80 OR (drop_bit 6 c AND 0x3F)), byte (0x80 OR (c AND 0x3F))]),
          tl src))"

definition fromwc_size :: "int list \<Rightarrow> nat \<times> int list" where
  "fromwc_size src =
     (let ucs = hd src
      in (if ucs < 0x80 then 1 else if ucs < 0x800 then 2
          else if 0x10000 \<le> ucs \<and> ucs \<le> 0x10ffff then 4 else 3, tl src))"

definition fl_utf8fromwc :: "string \<Rightarrow> nat \<Rightarrow> int list \<Rightarrow> (nat \<times> string) option" where
  "fl_utf8fromwc dst dstlen src = convert NUL fromwc_step fromwc_size src dst dstlen"

definition froma_step :: "string \<Rightarrow> string \<times> string" where
  "froma_step p =
     (let ucs = uchar (deref p)
      in (if ucs < 0x80 then [byte ucs] else [byte (0xc0 OR drop_bit 6 ucs), byte (0x80 OR (ucs AND 0x3F))], tl p))"

definition froma_size :: "string \<Rightarrow> nat \<times> string" where
  "froma_size p = (if uchar (deref p) < 0x80 then 1 else 2, tl p)"

definition fl_utf8froma :: "string \<Rightarrow> nat \<Rightarrow> string \<Rightarrow> (nat \<times> string) option" where
  "fl_utf8froma dst dstlen src = convert NUL froma_step froma_size src dst dstlen"

text \<open>A single code point as UTF-16; the array has \<open>dstlen\<close> places. The units are written to a
  scratch array of four when there is no destination.\<close>

definition fl_ucs_to_Utf16 :: "int \<Rightarrow> int list option \<Rightarrow> nat \<Rightarrow> (nat \<times> int list option) option" where
  "fl_ucs_to_Utf16 ucs dst dstlen =
     (let scratch = (dstlen = 0 \<or> dst = None);
          out = (if scratch then replicate 4 0 else the dst);
          us = (if 0x10FFFF < ucs \<or> (0xD7FF < ucs \<and> ucs < 0xE000) then [0xFFFD]
                else if ucs < 0x10000 then [ucs]
                else if dstlen < 2 then [0xFFFD]
                else [(drop_bit 10 (ucs - 0x10000) AND 0x3FF) + 0xD800, (ucs AND 0x3FF) + 0xDC00]);
          cnt = (if 0x10FFFF < ucs \<or> (0xD7FF < ucs \<and> ucs < 0xE000) \<or> ucs < 0x10000 then 1 else 2)
      in (case puts out 0 us of
            None \<Rightarrow> None
          | Some d \<Rightarrow>
              (case (if cnt < dstlen then put d cnt 0 else Some d) of
                 None \<Rightarrow> None
               | Some d' \<Rightarrow> Some (cnt, if scratch then dst else Some d'))))"

section \<open>The contract of the scheme\<close>

text \<open>All the units of a text.\<close>

fun units_upto :: "('p list \<Rightarrow> 'a list \<times> 'p list) \<Rightarrow> nat \<Rightarrow> 'p list \<Rightarrow> 'a list" where
  "units_upto step 0 p = []"
| "units_upto step (Suc n) p = (if p = [] then [] else case step p of (us, p') \<Rightarrow> us @ units_upto step n p')"

definition units :: "('p list \<Rightarrow> 'a list \<times> 'p list) \<Rightarrow> 'p list \<Rightarrow> 'a list" where
  "units step p = units_upto step (length p) p"

locale conversion =
  fixes step :: "'p list \<Rightarrow> 'a list \<times> 'p list" and sz :: "'p list \<Rightarrow> nat \<times> 'p list" and width :: nat
  assumes step_rest: "p \<noteq> [] \<Longrightarrow> length (snd (step p)) < length p"
    and step_units: "p \<noteq> [] \<Longrightarrow> 0 < length (fst (step p)) \<and> length (fst (step p)) \<le> width"
    and step_size: "p \<noteq> [] \<Longrightarrow> sz p = (length (fst (step p)), snd (step p))"
begin

lemma units_upto_enough: "length p \<le> n \<Longrightarrow> units_upto step n p = units step p"
proof (induction n arbitrary: p rule: less_induct)
  case (less n)
  show ?case
  proof (cases "p = []")
    case True
    then show ?thesis by (cases n) (simp_all add: units_def)
  next
    case False
    then obtain m k where mk: "n = Suc m" "length p = Suc k" using less.prems by (cases n; cases p) auto
    from step_rest [OF False] mk less.prems have "length (snd (step p)) \<le> k" "k < n" "length (snd (step p)) \<le> m" "m < n"
      by auto
    then have "units_upto step m (snd (step p)) = units_upto step k (snd (step p))"
      using less.IH [of m "snd (step p)"] less.IH [of k "snd (step p)"] by simp
    then show ?thesis using mk False by (cases "step p") (simp add: units_def)
  qed
qed

lemma units_Nil: "units step [] = []"
  by (simp add: units_def)

lemma units_step: "p \<noteq> [] \<Longrightarrow> units step p = fst (step p) @ units step (snd (step p))"
proof -
  assume p: "p \<noteq> []"
  then obtain k where k: "length p = Suc k" by (cases p) auto
  with step_rest [OF p] have "units_upto step k (snd (step p)) = units step (snd (step p))"
    by (intro units_upto_enough) simp
  then show ?thesis using p k by (cases "step p") (simp add: units_def)
qed

lemma measure_rest_units: "measure_rest sz p cnt = Some (cnt + length (units step p))"
proof (induction p arbitrary: cnt rule: length_induct)
  case (1 p)
  show ?case
  proof (cases "p = []")
    case True
    then show ?thesis by (subst measure_rest.simps) (simp add: units_Nil)
  next
    case False
    have "measure_rest sz p cnt = measure_rest sz (snd (step p)) (cnt + length (fst (step p)))"
      using False step_size [OF False] by (subst measure_rest.simps) simp
    also have "\<dots> = Some (cnt + length (fst (step p)) + length (units step (snd (step p))))"
      using 1 step_rest [OF False] by blast
    finally show ?thesis using units_step [OF False] by simp
  qed
qed

lemma puts_take:
  "cnt + length us \<le> length dst
   \<Longrightarrow> puts dst cnt us = Some (take cnt dst @ us @ drop (cnt + length us) dst)"
proof (induction us arbitrary: cnt dst)
  case Nil
  then show ?case by simp
next
  case (Cons u us)
  then have "puts dst cnt (u # us) = puts (dst[cnt := u]) (cnt + 1) us" by (simp add: put_def)
  also have "\<dots> = Some (take (cnt + 1) (dst[cnt := u]) @ us @ drop (cnt + 1 + length us) (dst[cnt := u]))"
    using Cons.prems by (intro Cons.IH) simp
  finally show ?case using Cons.prems
    by (simp add: take_Suc_conv_app_nth take_update_cancel)
qed

lemma put_take: "cnt < length dst \<Longrightarrow> put dst cnt u = Some (take cnt dst @ u # drop (cnt + 1) dst)"
  by (simp add: put_def upd_conv_take_nth_drop)

text \<open>The result of the first loop: the units written are a prefix of those of the text, all of
  them when they fit, and otherwise as many as leave no room for one more character.\<close>

lemma fill_units:
  assumes "cnt < dstlen" "dstlen \<le> length dst"
  shows "\<exists>k m rest. fill zero step dstlen p cnt dst =
      Some (cnt + m, take cnt dst @ take k (units step p) @ zero # drop (cnt + k + 1) dst, rest)
    \<and> m + length (units step rest) = length (units step p) \<and> cnt + k < dstlen \<and> k \<le> length (units step p)
    \<and> (k = length (units step p) \<or> dstlen \<le> cnt + k + width)
    \<and> (cnt + length (units step p) < dstlen \<longrightarrow> k = length (units step p))"
  using assms
proof (induction p arbitrary: cnt dst rule: length_induct)
  case (1 p)
  show ?case
  proof (cases "p = []")
    case True
    then have "fill zero step dstlen p cnt dst = Some (cnt, take cnt dst @ zero # drop (cnt + 1) dst, [])"
      using 1(2,3) by (subst fill.simps) (simp add: put_take)
    then show ?thesis using True 1(2) by (intro exI [of _ 0] exI [of _ "[]"]) (simp add: units_Nil)
  next
    case False
    obtain us p' where s: "step p = (us, p')" by (cases "step p")
    have us: "0 < length us" "length us \<le> width" and len: "length p' < length p" 
      and up: "units step p = us @ units step p'"
      using step_units [OF False] step_rest [OF False] units_step [OF False] s by simp_all
    note loop = fill.simps [of zero step dstlen p cnt dst]
    consider (last) "length us = 1" "dstlen \<le> cnt + 1" | (full) "length us \<noteq> 1" "dstlen \<le> cnt + length us"
      | (go) "cnt + length us < dstlen" by linarith
    then show ?thesis
    proof cases
      case last
      then have d: "cnt = dstlen - 1" using 1(2) by simp
      obtain u where u: "us = [u]" using last(1) by (cases us) auto
      have "put (take cnt dst @ u # drop (cnt + 1) dst) cnt zero = Some (take cnt dst @ zero # drop (cnt + 1) dst)"
        using 1(2,3) by (simp add: put_def list_update_append)
      then have "fill zero step dstlen p cnt dst = Some (cnt + 1, take cnt dst @ zero # drop (cnt + 1) dst, p')"
        using False s u last 1(2,3) by (subst loop) (simp add: put_take)
      then show ?thesis using up u 1(2) us(2) last
        by (intro exI [of _ 0] exI [of _ 1] exI [of _ p']) simp
    next
      case full
      then have "fill zero step dstlen p cnt dst = Some (cnt + length us, take cnt dst @ zero # drop (cnt + 1) dst, p')"
        using False s 1(2,3) by (subst loop) (simp add: put_take)
      then show ?thesis using up 1(2) us(2) full
        by (intro exI [of _ 0] exI [of _ "length us"] exI [of _ p']) simp
    next
      case go
      let ?d = "take cnt dst @ us @ drop (cnt + length us) dst"
      have "fill zero step dstlen p cnt dst = fill zero step dstlen p' (cnt + length us) ?d"
      proof (cases "length us = 1")
        case True
        then obtain u where u: "us = [u]" by (cases us) auto
        with False s go 1(3) show ?thesis by (subst loop) (simp add: put_take)
      next
        case h: False
        with False s go 1(3) show ?thesis by (subst loop) (simp add: puts_take)
      qed
      moreover have "cnt + length us < dstlen" "dstlen \<le> length ?d" using go 1(3) by simp_all
      with 1(1) len obtain k m rest where
        "fill zero step dstlen p' (cnt + length us) ?d = Some (cnt + length us + m,
            take (cnt + length us) ?d @ take k (units step p') @ zero # drop (cnt + length us + k + 1) ?d, rest)"
        "m + length (units step rest) = length (units step p')" "cnt + length us + k < dstlen"
        "k \<le> length (units step p')" "k = length (units step p') \<or> dstlen \<le> cnt + length us + k + width"
        "cnt + length us + length (units step p') < dstlen \<longrightarrow> k = length (units step p')"
        by meson
      moreover have "take (cnt + length us) ?d = take cnt dst @ us"
        "drop (cnt + length us + k + 1) ?d = drop (cnt + length us + k + 1) dst"
        using go 1(3) by (simp_all add: ac_simps)
      ultimately show ?thesis using up
        by (intro exI [of _ "length us + k"] exI [of _ "length us + m"] exI [of _ rest]) (auto simp: add.assoc)
    qed
  qed
qed

lemma convert_units:
  assumes "dstlen \<le> length dst"
  shows "convert zero step sz src dst 0 = Some (length (units step src), dst)"
    and "0 < dstlen \<Longrightarrow> \<exists>k. convert zero step sz src dst dstlen =
        Some (length (units step src), take k (units step src) @ zero # drop (k + 1) dst)
      \<and> k < dstlen \<and> k \<le> length (units step src) \<and> (k = length (units step src) \<or> dstlen \<le> k + width)
      \<and> (length (units step src) < dstlen \<longrightarrow> k = length (units step src))"
proof -
  show "convert zero step sz src dst 0 = Some (length (units step src), dst)"
    by (simp add: convert_def measure_rest_units)
  assume h: "0 < dstlen"
  from fill_units [OF h assms, of zero src] obtain k m rest where
    "fill zero step dstlen src 0 dst = Some (m, take k (units step src) @ zero # drop (k + 1) dst, rest)"
    "m + length (units step rest) = length (units step src)" "k < dstlen" "k \<le> length (units step src)"
    "k = length (units step src) \<or> dstlen \<le> k + width"
    "length (units step src) < dstlen \<longrightarrow> k = length (units step src)" by auto
  then show "\<exists>k. convert zero step sz src dst dstlen =
        Some (length (units step src), take k (units step src) @ zero # drop (k + 1) dst)
      \<and> k < dstlen \<and> k \<le> length (units step src) \<and> (k = length (units step src) \<or> dstlen \<le> k + width)
      \<and> (length (units step src) < dstlen \<longrightarrow> k = length (units step src))"
    using h by (intro exI [of _ k]) (simp add: convert_def measure_rest_units)
qed

lemma convert_fits:
  assumes "dstlen \<le> length dst" "length (units step src) < dstlen"
  shows "convert zero step sz src dst dstlen =
    Some (length (units step src), units step src @ zero # drop (length (units step src) + 1) dst)"
  using convert_units(2) [OF assms(1), of zero src] assms(2) by auto

end

section \<open>The conversions keep the contract\<close>

lemma next_char_rest: "p \<noteq> [] \<Longrightarrow> length (snd (next_char p)) < length p"
proof -
  assume "p \<noteq> []"
  obtain u n where "fl_utf8decode True p = (u, n)" by (cases "fl_utf8decode True p")
  with decode_len [OF this] \<open>p \<noteq> []\<close> show ?thesis by (auto simp: next_char_def)
qed

interpretation towc: conversion towc_step towc_size 1
  by unfold_locales
    (use next_char_rest in \<open>force simp: towc_step_def towc_size_def split: prod.splits\<close>)+

interpretation utf16: conversion utf16_step utf16_size 2
  by unfold_locales
    (use next_char_rest in \<open>force simp: utf16_step_def utf16_size_def split: prod.splits\<close>)+

interpretation fromwc: conversion fromwc_step fromwc_size 4
  by unfold_locales (auto simp: fromwc_step_def fromwc_size_def Let_def)

interpretation froma: conversion froma_step froma_size 2
  by unfold_locales (auto simp: froma_step_def froma_size_def Let_def)

interpretation toa: conversion toa_step towc_size 1
proof
  fix p :: string
  assume p: "p \<noteq> []"
  obtain u n where d: "fl_utf8decode True p = (u, n)" by (cases "fl_utf8decode True p")
  have n: "0 < n" using decode_len [OF d] by simp
  have hb: "uchar (deref p) AND 128 = 0 \<longleftrightarrow> uchar (deref p) < 128" using high_bit [of "deref p"] by auto
  have short: "n = 1" if "128 \<le> uchar (deref p)" "uchar (deref p) < 194"
    using d that by (auto simp: fl_utf8decode_def decode_fail_def Let_def split: if_splits)
  have rest: "snd (toa_step p) = snd (next_char p)"
    using d short p by (auto simp: toa_step_def next_char_def hb drop_Suc)
  then show "length (snd (toa_step p)) < length p" using next_char_rest [OF p] by simp
  show "0 < length (fst (toa_step p)) \<and> length (fst (toa_step p)) \<le> 1"
    by (auto simp: toa_step_def split: prod.splits)
  show "towc_size p = (length (fst (toa_step p)), snd (toa_step p))"
    unfolding towc_size_def rest by (auto simp: toa_step_def split: prod.splits)
qed

text \<open>The units of a conversion of a valid text.\<close>

lemma next_char_encode: "code_point u \<Longrightarrow> next_char (fl_utf8encode u @ s) = (u, s)"
proof -
  assume u: "code_point u"
  have d: "drop (fl_utf8bytes u) (fl_utf8encode u @ s) = s" by (simp add: fl_utf8bytes_encode [symmetric])
  from encode_first [OF u] show ?thesis
  proof
    assume "u < 128 \<and> fl_utf8encode u = [byte u] \<and> uchar (byte u) = u"
    then show ?thesis using high_bit [of "byte u"] by (simp add: next_char_def)
  next
    assume "128 \<le> u \<and> 1 < fl_utf8bytes u \<and> 192 \<le> uchar (deref (fl_utf8encode u))
      \<and> fl_utf8encode u \<noteq> [] \<and> (\<forall>c \<in> set (tl (fl_utf8encode u)). 128 \<le> uchar c \<and> uchar c < 192)"
    then show ?thesis using high_bit [of "deref (fl_utf8encode u)"] utf8_decode_encode [OF u, of True s] d
      by (simp add: next_char_def deref_append)
  qed
qed

lemma encode_nonempty: "fl_utf8encode u \<noteq> []"
  by (simp add: fl_utf8encode_def)

lemma towc_units: "list_all code_point us \<Longrightarrow> units towc_step (utf8_of us) = us"
proof (induction us)
  case Nil
  then show ?case by (simp add: towc.units_Nil)
next
  case (Cons u us)
  then have "towc_step (utf8_of (u # us)) = ([u], utf8_of us)" by (simp add: towc_step_def next_char_encode)
  with Cons show ?case using towc.units_step [of "utf8_of (u # us)"] by (simp add: encode_nonempty)
qed

lemma fromwc_step_encode: "fst (fromwc_step (u # us)) = fl_utf8encode u"
proof -
  have "byte (224 OR drop_bit 12 65533) = byte 239" "byte (128 OR (drop_bit 6 65533 AND 63)) = byte 191"
    "byte (128 OR (65533 AND 63)) = byte 189" by simp_all
  then show ?thesis by (simp add: fromwc_step_def fl_utf8encode_def Let_def)
qed

lemma fromwc_units: "units fromwc_step us = utf8_of us"
proof (induction us)
  case Nil
  then show ?case by (simp add: fromwc.units_Nil)
next
  case (Cons u us)
  have "snd (fromwc_step (u # us)) = us" by (simp add: fromwc_step_def Let_def)
  with Cons show ?case using fromwc.units_step [of "u # us"] by (simp add: fromwc_step_encode)
qed

text \<open>
  C31: converting code points to UTF-8 never writes outside of the destination, returns the
  length of the whole UTF-8 text whatever the length of the destination (0 included), and leaves
  in a destination of at least one byte a prefix of that text and a terminator: all of it when it
  fits, and otherwise a prefix too long for one more character of up to four bytes.\<close>

theorem fromwc_bounds:
  assumes "dstlen \<le> length dst"
  shows "\<exists>k d. fl_utf8fromwc dst dstlen src = Some (length (utf8_of src), d)
    \<and> d = (if dstlen = 0 then dst else take k (utf8_of src) @ NUL # drop (k + 1) dst)
    \<and> (if length (utf8_of src) < dstlen then k = length (utf8_of src)
       else dstlen \<le> k + 4 \<and> (dstlen = 0 \<or> k < dstlen))"
proof (cases "dstlen = 0")
  case True
  then show ?thesis
    using fromwc.convert_units(1) [OF assms, of NUL src] by (simp add: fl_utf8fromwc_def fromwc_units)
next
  case False
  with fromwc.convert_units(2) [OF assms, of NUL src] obtain k where
    "convert NUL fromwc_step fromwc_size src dst dstlen =
       Some (length (utf8_of src), take k (utf8_of src) @ NUL # drop (k + 1) dst)"
    "k < dstlen" "k \<le> length (utf8_of src)" "k = length (utf8_of src) \<or> dstlen \<le> k + 4"
    "length (utf8_of src) < dstlen \<longrightarrow> k = length (utf8_of src)"
    unfolding fromwc_units by auto
  then show ?thesis using False by (intro exI [of _ k]) (auto simp: fl_utf8fromwc_def)
qed

theorem fromwc_bounds_witness:
  "\<exists>k d. fl_utf8fromwc (replicate 4 CHR ''.'') 4 [0x78, 0x20ac] = Some (length (utf8_of [0x78, 0x20ac]), d)
    \<and> d = (if (4 :: nat) = 0 then replicate 4 CHR ''.'' else take k (utf8_of [0x78, 0x20ac]) @ NUL # drop (k + 1) (replicate 4 CHR ''.''))
    \<and> (if length (utf8_of [0x78, 0x20ac]) < 4 then k = length (utf8_of [0x78, 0x20ac])
       else 4 \<le> k + 4 \<and> ((4 :: nat) = 0 \<or> k < 4))"
  by (rule fromwc_bounds) simp

text \<open>
  Wide characters survive the way through UTF-8: converted into a byte array and back into an
  array of wide characters, both long enough, code points up to 0x10ffff come back as they were,
  with their count and a terminating zero.\<close>

theorem wide_utf8_roundtrip:
  assumes "list_all code_point us"
    and "length (utf8_of us) < dstlen" "dstlen \<le> length dst" "length us < wlen" "wlen \<le> length wdst"
  shows "\<exists>n d. fl_utf8fromwc dst dstlen us = Some (n, d)
    \<and> fl_utf8towc (take n d) wdst wlen = Some (length us, us @ 0 # drop (length us + 1) wdst)"
proof -
  have f: "fl_utf8fromwc dst dstlen us =
      Some (length (utf8_of us), utf8_of us @ NUL # drop (length (utf8_of us) + 1) dst)"
    using fromwc.convert_fits [OF assms(3), of us NUL] assms(2) by (simp add: fl_utf8fromwc_def fromwc_units)
  have u: "units towc_step (utf8_of us) = us" by (rule towc_units [OF assms(1)])
  have "fl_utf8towc (utf8_of us) wdst wlen = Some (length us, us @ 0 # drop (length us + 1) wdst)"
    using towc.convert_fits [OF assms(5), of "utf8_of us" 0] assms(4) by (simp add: fl_utf8towc_def u)
  with f show ?thesis by simp
qed

theorem wide_utf8_roundtrip_witness:
  "\<exists>n d. fl_utf8fromwc (replicate 9 CHR ''.'') 9 [0x78, 0x20ac, 0x1f600] = Some (n, d)
    \<and> fl_utf8towc (take n d) (replicate 4 1) 4 = Some (Suc 2, [0x78, 0x20ac, 0x1f600] @ [0])"
  using wide_utf8_roundtrip [of "[0x78, 0x20ac, 0x1f600]" 9 "replicate 9 CHR ''.''" 4 "replicate 4 1"]
  by (simp add: code_point_def fl_utf8bytes_encode fl_utf8bytes_def numeral_2_eq_2)

text \<open>The UTF-16 words of valid text.\<close>

definition utf16_words :: "int \<Rightarrow> int list" where
  "utf16_words u = (if u < 0x10000 then [u] else [0xd800 + (u - 0x10000) div 0x400, 0xdc00 + (u - 0x10000) mod 0x400])"

lemma utf16_step_encode:
  assumes "code_point u"
  shows "utf16_step (fl_utf8encode u @ s) = (utf16_words u, s)"
proof -
  let ?v = "u - 65536"
  have "?v div 1024 mod 1024 = ?v div 1024" "?v mod 1024 = u mod 1024" if "65536 \<le> u"
  proof -
    have "?v = 1024 * (?v div 1024) + ?v mod 1024" "0 \<le> ?v mod 1024" "?v mod 1024 < 1024" by simp_all
    then have "0 \<le> ?v div 1024" "?v div 1024 < 1024" using assms that by (auto simp: code_point_def)
    then show "?v div 1024 mod 1024 = ?v div 1024" by (rule mod_pos_pos_trivial)
    have "u mod 1024 = (?v + 64 * 1024) mod 1024" by simp
    then show "?v mod 1024 = u mod 1024" by (simp only: mod_mult_self1)
  qed
  moreover have "(x mod 1024) OR 55296 = 55296 + x mod 1024" "(x mod 1024) OR 56320 = 56320 + x mod 1024" for x :: int
    by (rule or_lits; simp)+
  moreover from this(1) [of "?v div 1024"] calculation
  have "65536 \<le> u \<Longrightarrow> ?v div 1024 OR 55296 = 55296 + ?v div 1024" by simp
  ultimately show ?thesis
    by (simp add: utf16_step_def next_char_encode [OF assms] utf16_words_def and_masks drop_bit_eq_div)
qed

lemma utf16_units: "list_all code_point us \<Longrightarrow> units utf16_step (utf8_of us) = concat (map utf16_words us)"
proof (induction us)
  case Nil
  then show ?case by (simp add: utf16.units_Nil)
next
  case (Cons u us)
  then show ?case using utf16.units_step [of "utf8_of (u # us)"]
    by (simp add: encode_nonempty utf16_step_encode)
qed

lemma toUtf16_valid:
  assumes "list_all code_point us" "length (concat (map utf16_words us)) < dstlen" "dstlen \<le> length dst"
  shows "fl_utf8toUtf16 (utf8_of us) dst dstlen = Some (length (concat (map utf16_words us)),
    concat (map utf16_words us) @ 0 # drop (length (concat (map utf16_words us)) + 1) dst)"
  using utf16.convert_fits [OF assms(3), of "utf8_of us" 0] assms(2)
  unfolding fl_utf8toUtf16_def utf16_units [OF assms(1)] by simp

lemma ucs_to_Utf16_valid:
  assumes "code_point u" "u < 0xd800 \<or> 0xdfff < u" "2 < dstlen" "dstlen \<le> length dst"
  shows "fl_ucs_to_Utf16 u (Some dst) dstlen =
    Some (length (utf16_words u), Some (utf16_words u @ 0 # drop (length (utf16_words u) + 1) dst))"
proof -
  let ?v = "u - 65536"
  obtain a b c r where d: "dst = a # b # c # r"
    using assms(3,4) by (metis length_Suc_conv Suc_le_length_iff less_le_trans Suc_leI numeral_2_eq_2 order_less_imp_le)
  have "?v div 1024 mod 1024 = ?v div 1024" "?v mod 1024 = u mod 1024" if "65536 \<le> u"
  proof -
    have "?v = 1024 * (?v div 1024) + ?v mod 1024" "0 \<le> ?v mod 1024" "?v mod 1024 < 1024" by simp_all
    then have "0 \<le> ?v div 1024" "?v div 1024 < 1024" using assms(1) that by (auto simp: code_point_def)
    then show "?v div 1024 mod 1024 = ?v div 1024" by (rule mod_pos_pos_trivial)
    have "u mod 1024 = (?v + 64 * 1024) mod 1024" by simp
    then show "?v mod 1024 = u mod 1024" by (simp only: mod_mult_self1)
  qed
  then show ?thesis using assms d
    by (auto simp: fl_ucs_to_Utf16_def Let_def utf16_words_def put_def and_masks drop_bit_eq_div code_point_def)
qed

end
