(* ===== verification/Misc.thy ===== *)
theory Misc
  imports Utf8 Url_Parse
begin

text \<open>
  The helpers of \<^verbatim>\<open>dillo/src/misc.c\<close>: escaping, tab expansion, content types (detection, parsing,
  comparison and the check of the server's type), window geometry, search URLs and base64.
\<close>

section \<open>Escaping\<close>

definition escape_char :: "string \<Rightarrow> char \<Rightarrow> string" where
  "escape_char esc_set c =
     (if schar c \<le> 0x1F \<or> schar c = 0x7F \<or> strchr esc_set c \<noteq> None
      then [CHR ''%'', hex_digit (drop_bit 4 (schar c) AND 15), hex_digit (schar c AND 15)]
      else [c])"

definition a_Misc_escape_chars :: "string \<Rightarrow> string \<Rightarrow> string" where
  "a_Misc_escape_chars str esc_set = concat (map (escape_char esc_set) str)"

section \<open>Tabs\<close>

definition TAB_SIZE :: nat where "TAB_SIZE = 8"
definition combining_char_space :: nat where "combining_char_space = 32"

text \<open>\<open>s\<close> is the text from \<open>*start\<close> to \<open>end\<close> and \<open>out\<close> what was written to \<open>buf\<close>.\<close>

function expand_loop :: "int \<Rightarrow> string \<Rightarrow> nat \<Rightarrow> string \<Rightarrow> string \<times> string" where
  "expand_loop buflen s pos out =
     (if s \<noteq> [] \<and> int (length out) < buflen - int TAB_SIZE - int combining_char_space then
        (case a_Utf8_decode True s of (code, char_len) \<Rightarrow>
           (if code = 9 then
              let pos' = pos + (TAB_SIZE - pos mod TAB_SIZE)
              in expand_loop buflen (drop char_len s) pos' (out @ replicate (pos' - pos) (CHR '' ''))
            else expand_loop buflen (drop char_len s) (pos + 1) (out @ take char_len s)))
      else (out, s))"
  by pat_completeness auto
termination
proof (relation "measure (\<lambda>(buflen, s, pos, out). length s)")
qed (auto simp: a_Utf8_decode_def dest!: decode_len [OF sym])

function combining_loop :: "int \<Rightarrow> string \<Rightarrow> string \<Rightarrow> string \<times> string" where
  "combining_loop buflen s out =
     (if s \<noteq> [] \<and> int (length out) < buflen - 4 then
        (case a_Utf8_decode True s of (code, char_len) \<Rightarrow>
           (if a_Utf8_combining_char code
            then combining_loop buflen (drop char_len s) (out @ take char_len s) else (out, s)))
      else (out, s))"
  by pat_completeness auto
termination
proof (relation "measure (\<lambda>(buflen, s, out). length s)")
qed (auto simp: a_Utf8_decode_def dest!: decode_len [OF sym])

declare expand_loop.simps [simp del] combining_loop.simps [simp del]

text \<open>What is written and the new \<open>*start\<close>.\<close>

definition a_Misc_expand_tabs :: "string \<Rightarrow> int \<Rightarrow> string \<times> string" where
  "a_Misc_expand_tabs s buflen =
     (case expand_loop buflen s 0 [] of (out, s') \<Rightarrow> combining_loop buflen s' out)"

section \<open>Content types\<close>

definition MimeTypes :: "(string \<times> nat) list" where
  "MimeTypes =
    [(''application/octet-stream'', 24), (''application/xhtml+xml'', 21), (''text/html'', 9),
     (''text/plain'', 10), (''image/gif'', 9), (''image/png'', 9), (''image/jpeg'', 10)]"

datatype DetectedContentType = DT_OCTET_STREAM | DT_PLACEHOLDER | DT_TEXT_HTML | DT_TEXT_PLAIN
  | DT_IMAGE_GIF | DT_IMAGE_PNG | DT_IMAGE_JPG

fun DT_index :: "DetectedContentType \<Rightarrow> nat" where
  "DT_index DT_OCTET_STREAM = 0"
| "DT_index DT_PLACEHOLDER = 1"
| "DT_index DT_TEXT_HTML = 2"
| "DT_index DT_TEXT_PLAIN = 3"
| "DT_index DT_IMAGE_GIF = 4"
| "DT_index DT_IMAGE_PNG = 5"
| "DT_index DT_IMAGE_JPG = 6"

definition looks_like_html :: "string \<Rightarrow> bool" where
  "looks_like_html p =
     (let q = dropWhile isspace p; n = length q
      in (5 \<le> n \<and> dStrnAsciiCasecmp q ''<html'' 5 = 0) \<or> (5 \<le> n \<and> dStrnAsciiCasecmp q ''<head'' 5 = 0)
         \<or> (6 \<le> n \<and> dStrnAsciiCasecmp q ''<title'' 6 = 0) \<or> (14 \<le> n \<and> dStrnAsciiCasecmp q ''<!doctype html'' 14 = 0)
         \<or> (17 \<le> n \<and> dStrnAsciiCasecmp q ''<!-- HTML listing'' 17 = 0))"

text \<open>The three counters of the text heuristic over the first bytes.\<close>

fun count_bytes :: "string \<Rightarrow> nat \<times> nat \<times> nat \<Rightarrow> nat \<times> nat \<times> nat" where
  "count_bytes [] st = st"
| "count_bytes (c # p) (bin_chars, non_ascci, non_ascci_text) =
     count_bytes p
       (if uchar c < 32 \<and> \<not> isspace c then bin_chars + 1 else bin_chars,
        if 126 < uchar c then non_ascci + 1 else non_ascci,
        if 190 < uchar c then non_ascci_text + 1 else non_ascci_text)"

text \<open>The text branch: the type and the size after it.\<close>

definition detect_text :: "string \<Rightarrow> DetectedContentType \<times> nat" where
  "detect_text p =
     (let sz = min (length p) 256 in
      case count_bytes (take sz p) (0, 0, 0) of (bin_chars, non_ascci, non_ascci_text) \<Rightarrow>
        (if bin_chars = 0 \<and> non_ascci - non_ascci_text \<le> sz div 10 then (DT_TEXT_PLAIN, sz)
         else if 0 < sz then
           (let sz' = a_Utf8_end_of_char (Some p) (sz - 1) + 1
            in (if 0 < a_Utf8_test (take sz' p) then DT_TEXT_PLAIN else DT_OCTET_STREAM, sz'))
         else (DT_OCTET_STREAM, sz)))"

definition a_Misc_get_content_type_from_data :: "string \<Rightarrow> int \<times> string" where
  "a_Misc_get_content_type_from_data p =
     (case (if looks_like_html p then (DT_TEXT_HTML, 0)
            else if 4 \<le> length p \<and> strncmp p ''GIF8'' 4 = 0 then (DT_IMAGE_GIF, 0)
            else if 4 \<le> length p \<and> strncmp p (CHR 0x89 # ''PNG'') 4 = 0 then (DT_IMAGE_PNG, 0)
            else if 2 \<le> length p \<and> strncmp p [CHR 0xFF, CHR 0xD8] 2 = 0 then (DT_IMAGE_JPG, 0)
            else (case detect_text p of (t, sz) \<Rightarrow> (t, if 256 \<le> sz then 0 else 1)))
      of (t, st) \<Rightarrow> (st, fst (MimeTypes ! DT_index t)))"

definition tspecials_space :: string where
  "tspecials_space = ''()<>@,;:'' @ [CHR 0x5C, CHR 0x22] @ ''/[]?= ''"

definition token_char :: "char \<Rightarrow> bool" where
  "token_char c \<longleftrightarrow> c \<noteq> NUL \<and> isascii c \<and> \<not> iscntrl c \<and> strchr tspecials_space c = None"

text \<open>The charset parameter in what follows the type, from the first \<open>charset\<close> on.\<close>

definition charset_terminators :: string where "charset_terminators = '' ;'' @ [CHR 0x09]"

definition blank_char :: "char \<Rightarrow> bool" where
  "blank_char c \<longleftrightarrow> c = CHR '' '' \<or> c = CHR 0x09"

definition charset_value :: "string \<Rightarrow> string option" where
  "charset_value s0 =
     (let s = dropWhile blank_char s0
      in if deref s = CHR ''='' then
           (let s = dropWhile blank_char (tl s); len = strcspn s charset_terminators
            in if len \<noteq> 0 then
                 (if deref s = CHR 0x22 \<and> char_at s (len - 1) = CHR 0x22 \<and> 1 < len
                  then Some (take (len - 2) (tl s)) else Some (take len s))
               else None)
         else None)"

definition charset_param :: "string \<Rightarrow> string option" where
  "charset_param str =
     (case dStriAsciiStr (Some str) (Some ''charset'') of
        None \<Rightarrow> None
      | Some i \<Rightarrow>
          (if i = 0 \<or> strchr charset_terminators (char_at str (i - 1)) \<noteq> None
           then charset_value (drop (i + 7) str) else None))"

definition a_Misc_parse_content_type :: "string option \<Rightarrow> string option \<times> string option \<times> string option" where
  "a_Misc_parse_content_type type =
     (case type of
        None \<Rightarrow> (None, None, None)
      | Some t \<Rightarrow>
          (let major = takeWhile token_char t; s = dropWhile token_char t;
               slash = (deref s = CHR ''/'');
               str = (if slash then tl s else t);
               minor = (if slash then Some (takeWhile token_char str) else None);
               s' = (if slash then dropWhile token_char str else s)
           in (Some major, minor,
               if s' \<noteq> [] \<and> (dStrnAsciiCasecmp t ''text/'' 5 = 0 \<or> dStrnAsciiCasecmp t ''application/xhtml+xml'' 21 = 0)
               then charset_param str else None)))"

definition empty_type :: "string option \<Rightarrow> bool" where
  "empty_type ct \<longleftrightarrow> ct = None \<or> ct = Some []"

definition same_word :: "string option \<Rightarrow> string option \<Rightarrow> bool" where
  "same_word a b = (case (a, b) of (Some x, Some y) \<Rightarrow> dStrAsciiCasecmp x y = 0 | _ \<Rightarrow> False)"

definition same_charset :: "string option \<Rightarrow> string option \<Rightarrow> bool" where
  "same_charset charset1 charset2 =
     (case (charset1, charset2) of
        (None, None) \<Rightarrow> True
      | (Some a, Some b) \<Rightarrow> dStrAsciiCasecmp a b = 0
      | (None, Some b) \<Rightarrow> dStrAsciiCasecmp b ''UTF-8'' = 0
      | (Some a, None) \<Rightarrow> dStrAsciiCasecmp a ''UTF-8'' = 0)"

definition a_Misc_content_type_cmp :: "string option \<Rightarrow> string option \<Rightarrow> int" where
  "a_Misc_content_type_cmp ct1 ct2 =
     (if empty_type ct1 \<and> empty_type ct2 then 0
      else if empty_type ct1 \<or> empty_type ct2 then 1
      else (case (a_Misc_parse_content_type ct1, a_Misc_parse_content_type ct2) of
              ((major1, minor1, charset1), (major2, minor2, charset2)) \<Rightarrow>
                (if same_word major1 major2 \<and> same_word minor1 minor2 \<and> same_charset charset1 charset2
                 then 0 else 1)))"

text \<open>The first known type from index 1 on that the server's type starts with.\<close>

definition known_type :: "string \<Rightarrow> (string \<times> nat) option" where
  "known_type t = List.find (\<lambda>(m, n). dStrnAsciiCasecmp t m n = 0) (tl MimeTypes)"

definition a_Misc_content_type_check :: "string option \<Rightarrow> string \<Rightarrow> int" where
  "a_Misc_content_type_check EntryType DetectedType =
     (case EntryType of
        None \<Rightarrow> 0
      | Some e \<Rightarrow>
          (case known_type e of
             None \<Rightarrow> 0
           | Some (m, n) \<Rightarrow>
               (if dStrnAsciiCasecmp e ''image/'' 6 = 0 \<and> dStrnAsciiCasecmp DetectedType m n = 0 then 0
                else if dStrnAsciiCasecmp e ''text/'' 5 \<noteq> 0 \<or> dStrnAsciiCasecmp DetectedType ''application/'' 12 \<noteq> 0
                then 0
                else if dStrnAsciiCasecmp e ''application/xhtml+xml'' 21 \<noteq> 0
                     \<and> dStrnAsciiCasecmp DetectedType ''text/html'' 9 \<noteq> 0
                then 0 else - 1)))"

section \<open>Geometry and search URLs\<close>

text \<open>The result and the new values of \<open>*x\<close>, \<open>*y\<close>, \<open>*w\<close> and \<open>*h\<close>, \<open>None\<close> where they are left.\<close>

definition a_Misc_parse_geometry ::
  "string \<Rightarrow> bool \<times> (int \<times> int) option \<times> (int \<times> int) option" where
  "a_Misc_parse_geometry str =
     (case (case strchr str (CHR ''x'') of Some p \<Rightarrow> Some p | None \<Rightarrow> strchr str (CHR ''X'')) of
        None \<Rightarrow> (False, None, None)
      | Some p0 \<Rightarrow>
          (let p = tl p0 in
           case (strtol str 10, strtol p 10) of ((n1, t1), (n2, t2)) \<Rightarrow>
             (if t1 \<noteq> str \<and> t2 \<noteq> p then
                (case strtol t2 10 of (n1', t1') \<Rightarrow>
                 case strtol t1' 10 of (n2', t2') \<Rightarrow>
                   (True, if t1' \<noteq> t2 \<and> t2' \<noteq> t1' then Some (c_int n1', c_int n2') else None,
                    Some (c_int n1, c_int n2)))
              else (False, None, None))))"

text \<open>The pointer \<open>p\<close> to the first slash and the pointer \<open>q\<close> to the next one after the host.\<close>

definition host_slash :: "string \<Rightarrow> (string \<times> string) option" where
  "host_slash source =
     (case strchr source (CHR ''/'') of
        None \<Rightarrow> None
      | Some p \<Rightarrow>
          (if char_at p 1 = NUL then None
           else map_option (\<lambda>q. (p, q)) (strchr (drop 2 p) (CHR ''/''))))"

text \<open>The result, the label (the content of the static buffer, \<open>buf\<close> before) and the URL.\<close>

definition a_Misc_parse_search_url :: "string \<Rightarrow> string \<Rightarrow> int \<times> string \<times> string option" where
  "a_Misc_parse_search_url buf source =
     (case strrchr source (CHR '' '') of
        Some p \<Rightarrow>
          (let label = take (min (length source - length p) 31) source; url = tl p
           in if host_slash url \<noteq> None then (0, label, Some url) else (- 1, label, None))
      | None \<Rightarrow>
          (case host_slash source of
             Some (p, q) \<Rightarrow> (0, take (min (length p - length q - 2) 31) (drop 2 p), Some source)
           | None \<Rightarrow> (- 1, buf, None)))"

section \<open>Base64\<close>

definition base64_hex :: string where
  "base64_hex = ''ABCDEFGHIJKLMNOPQRSTUVWXYZabcdefghijklmnopqrstuvwxyz0123456789+/''"

text \<open>\<open>base64_hex[i]\<close>; the terminator of the literal can be read, anything else is out of bounds.\<close>

definition base64_at :: "int \<Rightarrow> char option" where
  "base64_at i =
     (if i < 0 then None
      else if i < 64 then Some (base64_hex ! nat i) else if i = 64 then Some NUL else None)"

fun all_some :: "'a option list \<Rightarrow> 'a list option" where
  "all_some [] = Some []"
| "all_some (x # xs) = Option.bind x (\<lambda>a. map_option ((#) a) (all_some xs))"

text \<open>The loop over groups of three and the fragment after it; \<open>in\<close> is an array of plain \<open>char\<close>,
  and \<open>fragment\<close> an \<open>unsigned char\<close>.\<close>

fun base64_loop :: "string \<Rightarrow> char option list" where
  "base64_loop (a # b # c # r) =
     base64_at (drop_bit 2 (schar a))
     # base64_at ((push_bit 4 (schar a) AND 0x30) OR drop_bit 4 (schar b))
     # base64_at ((push_bit 2 (schar b) AND 0x3c) OR drop_bit 6 (schar c))
     # base64_at (schar c AND 0x3f) # base64_loop r"
| "base64_loop [a, b] =
     [base64_at (drop_bit 2 (schar a)),
      base64_at (((push_bit 4 (schar a) AND 0x30) OR drop_bit 4 (schar b)) mod 256),
      base64_at (push_bit 2 (schar b) AND 0x3c), Some (CHR ''='')]"
| "base64_loop [a] =
     [base64_at (drop_bit 2 (schar a)), base64_at ((push_bit 4 (schar a) AND 0x30) mod 256), Some (CHR ''=''),
      Some (CHR ''='')]"
| "base64_loop [] = []"

text \<open>\<open>None\<close>: a read outside of the table.\<close>

definition a_Misc_encode_base64 :: "string option \<Rightarrow> string option option" where
  "a_Misc_encode_base64 s =
     (case s of None \<Rightarrow> Some None | Some t \<Rightarrow> map_option Some (all_some (base64_loop t)))"

section \<open>Escaped text reads back\<close>

lemma schar_nibbles: "drop_bit 4 (schar c) AND 15 = hi_nibble c" "schar c AND 15 = lo_nibble c"
proof -
  have u: "uchar c = 16 * (uchar c div 16) + uchar c mod 16" "0 \<le> uchar c mod 16" "uchar c mod 16 < 16" by simp_all
  have "0 \<le> uchar c" "uchar c < 256" by simp_all
  with u have "0 \<le> uchar c div 16" "uchar c div 16 < 16" by linarith+
  then have h: "uchar c div 16 mod 16 = uchar c div 16" by (rule mod_pos_pos_trivial)
  have "(uchar c - 256) div 16 = uchar c div 16 + - 16" using div_mult_self1 [of 16 "uchar c" "- 16"] by simp
  moreover have "(uchar c div 16 + - 16) mod 16 = uchar c div 16 mod 16" using mod_mult_self1 [of "uchar c div 16" "- 1" 16] by simp
  ultimately show "drop_bit 4 (schar c) AND 15 = hi_nibble c"
    using h by (simp add: and_masks drop_bit_eq_div schar_def hi_nibble_def)
  have "(uchar c - 256) mod 16 = uchar c mod 16" using mod_mult_self1 [of "uchar c" "- 16" 16] by simp
  then show "schar c AND 15 = lo_nibble c" by (simp add: and_masks schar_def lo_nibble_def)
qed

lemma escape_char_decodes:
  assumes "CHR ''%'' \<in> set esc_set"
  shows "decode_hex_loop (escape_char esc_set c @ r) = c # decode_hex_loop r"
proof (cases "schar c \<le> 0x1F \<or> schar c = 0x7F \<or> strchr esc_set c \<noteq> None")
  case True
  then have "escape_char esc_set c = [CHR ''%'', hex_digit (hi_nibble c), hex_digit (lo_nibble c)]"
    unfolding escape_char_def schar_nibbles by (simp only: if_True)
  then show ?thesis using decode_escape [of c r] by (simp only: append.simps)
next
  case False
  then have "escape_char esc_set c = [c]" unfolding escape_char_def by (simp only: if_False)
  moreover have ne: "c \<noteq> CHR ''%''" using False assms strchr_None_iff [of "CHR ''%''" esc_set] by auto
  ultimately show ?thesis using decode_plain [OF ne, of r] by (simp only: append.simps)
qed

lemma escape_chars_decode:
  "CHR ''%'' \<in> set esc_set \<Longrightarrow> decode_hex_loop (a_Misc_escape_chars str esc_set) = str"
proof (induction str)
  case Nil
  then show ?case by (simp add: a_Misc_escape_chars_def)
next
  case (Cons c str)
  then show ?case using escape_char_decodes [of esc_set c "a_Misc_escape_chars str esc_set"]
    by (simp add: a_Misc_escape_chars_def)
qed

text \<open>
  Text whose escapes include the percent sign reads back exactly as it was with the decoder
  of URLs, whatever its bytes and the other characters escaped.\<close>

theorem Misc_escape_roundtrip:
  assumes "CHR ''%'' \<in> set esc_set"
  shows "a_Url_decode_hex_str (Some (a_Misc_escape_chars str esc_set)) = Some str"
proof -
  have "a_Url_decode_hex_str (Some e) = Some (decode_hex_loop e)" for e
    by (simp add: a_Url_decode_hex_str_def strchr_None_iff decode_no_escape dStrdup_def)
  then show ?thesis using escape_chars_decode [OF assms] by simp
qed

theorem Misc_escape_roundtrip_witness:
  "a_Url_decode_hex_str (Some (a_Misc_escape_chars ''a%b c#'' ''% #'')) = Some ''a%b c#''"
  by (rule Misc_escape_roundtrip) simp

section \<open>The check of the server's type\<close>

lemma first_letters_differ:
  assumes "dStrnAsciiCasecmp e (a # s) (Suc n) = 0" "tolow a \<noteq> 0" "tolow a \<noteq> tolow b" "tolow b \<noteq> 0"
  shows "dStrnAsciiCasecmp e (b # t) (Suc m) \<noteq> 0"
  using assms by (cases e) (auto simp: Let_def split: if_splits)

text \<open>
  The check of the content type sent by the server against the one detected finds no mismatch,
  whatever the two types are: a binary stream sent as text passes, and so does an image of
  another kind.\<close>

theorem Misc_content_type_check_passes_all:
  "a_Misc_content_type_check EntryType DetectedType = 0"
proof -
  have low: "tolow CHR ''t'' = 116" "tolow CHR ''a'' = 97" by (simp_all add: D_ASCII_TOLOWER_def schar_def uchar_def)
  have "dStrnAsciiCasecmp e ''application/xhtml+xml'' 21 \<noteq> 0" if "dStrnAsciiCasecmp e ''text/'' 5 = 0" for e
    using first_letters_differ [of e "CHR ''t''" "''ext/''" 4 "CHR ''a''" "''pplication/xhtml+xml''" 20] that low
    by (simp add: eval_nat_numeral)
  moreover have "dStrnAsciiCasecmp d ''text/html'' 9 \<noteq> 0" if "dStrnAsciiCasecmp d ''application/'' 12 = 0" for d
    using first_letters_differ [of d "CHR ''a''" "''pplication/''" 11 "CHR ''t''" "''ext/html''" 8] that low
    by (simp add: eval_nat_numeral)
  ultimately show ?thesis
    by (auto simp: a_Misc_content_type_check_def split: option.splits)
qed

section \<open>Base64\<close>

text \<open>The encoding of RFC 4648, section 4, by groups of 24 bits: the values 0 to 25 are the letters from A,
  26 to 51 the letters from a, 52 to 61 the digits from 0, 62 is the plus and 63 the slash.\<close>

definition b64_digit :: "int \<Rightarrow> char" where
  "b64_digit v =
     (if v < 26 then char_of (nat v + of_char (CHR ''A''))
      else if v < 52 then char_of (nat (v - 26) + of_char (CHR ''a''))
      else if v < 62 then char_of (nat (v - 52) + of_char (CHR ''0''))
      else if v = 62 then CHR ''+'' else CHR ''/'')"

fun rfc4648 :: "string \<Rightarrow> string" where
  "rfc4648 (a # b # c # r) =
     (let n = uchar a * 65536 + uchar b * 256 + uchar c
      in b64_digit (n div 262144) # b64_digit (n div 4096 mod 64) # b64_digit (n div 64 mod 64)
         # b64_digit (n mod 64) # rfc4648 r)"
| "rfc4648 [a, b] =
     (let n = uchar a * 65536 + uchar b * 256
      in [b64_digit (n div 262144), b64_digit (n div 4096 mod 64), b64_digit (n div 64 mod 64), CHR ''=''])"
| "rfc4648 [a] =
     (let n = uchar a * 65536
      in [b64_digit (n div 262144), b64_digit (n div 4096 mod 64), CHR ''='', CHR ''=''])"
| "rfc4648 [] = []"

text \<open>The table of the code is this alphabet.\<close>

lemma base64_hex_alphabet: "base64_hex = map (\<lambda>v. b64_digit (int v)) [0..<64]"
  by code_simp

lemma base64_at_digit: "0 \<le> i \<Longrightarrow> i < 64 \<Longrightarrow> base64_at i = Some (b64_digit i)"
  by (simp add: base64_at_def base64_hex_alphabet nat_less_iff)

text \<open>The test vectors of RFC 4648, section 10.\<close>

lemma rfc4648_test_vectors:
  "rfc4648 [] = []" "rfc4648 ''f'' = ''Zg==''" "rfc4648 ''fo'' = ''Zm8=''" "rfc4648 ''foo'' = ''Zm9v''"
  "rfc4648 ''foob'' = ''Zm9vYg==''" "rfc4648 ''fooba'' = ''Zm9vYmE=''" "rfc4648 ''foobar'' = ''Zm9vYmFy''"
  by code_simp+

text \<open>The table indices of ASCII bytes, as digits of the group in base 64.\<close>

lemma base64_indices:
  fixes a b c :: int
  assumes "0 \<le> a" "a < 128" "0 \<le> b" "b < 128" "0 \<le> c" "c < 128"
  defines "n \<equiv> a * 65536 + b * 256 + c"
  shows "drop_bit 2 a = n div 262144" "(push_bit 4 a AND 0x30) OR drop_bit 4 b = n div 4096 mod 64"
    "(push_bit 2 b AND 0x3c) OR drop_bit 6 c = n div 64 mod 64" "c AND 0x3f = n mod 64"
    "0 \<le> n div 262144" "n div 262144 < 64"
proof -
  define a1 a0 where "a1 = a div 4" and "a0 = a mod 4"
  define b1 b0 where "b1 = b div 16" and "b0 = b mod 16"
  define c1 c0 where "c1 = c div 64" and "c0 = c mod 64"
  have a: "a = 4 * a1 + a0" "0 \<le> a0" "a0 < 4" by (simp_all add: a1_def a0_def)
  have b: "b = 16 * b1 + b0" "0 \<le> b0" "b0 < 16" by (simp_all add: b1_def b0_def)
  have c: "c = 64 * c1 + c0" "0 \<le> c0" "c0 < 64" by (simp_all add: c1_def c0_def)
  have a1: "0 \<le> a1" "a1 < 32" using a assms by linarith+
  have b1: "0 \<le> b1" "b1 < 8" using b assms by linarith+
  have c1: "0 \<le> c1" "c1 < 2" using c assms by linarith+
  let ?v = "16 * a0 + b1" and ?w = "4 * b0 + c1"
  have n: "n = ((a1 * 64 + ?v) * 64 + ?w) * 64 + c0" unfolding n_def a(1) b(1) c(1) by simp
  have v: "0 \<le> ?v" "?v < 64" "0 \<le> ?w" "?w < 64" using a b1 b c1 by linarith+
  have d1: "n div 64 = (a1 * 64 + ?v) * 64 + ?w" "n mod 64 = c0"
    unfolding n by (rule div_mod_64 [OF c(2,3)])+
  have "n div 4096 = n div 64 div 64" by (simp add: zdiv_zmult2_eq [symmetric])
  then have d2: "n div 4096 = a1 * 64 + ?v" "n div 64 mod 64 = ?w"
    by (simp_all only: d1 div_mod_64 [OF v(3,4)])
  have "n div 262144 = n div 4096 div 64" by (simp add: zdiv_zmult2_eq [symmetric])
  then have d3: "n div 262144 = a1" "n div 4096 mod 64 = ?v"
    by (simp_all only: d2 div_mod_64 [OF v(1,2)])
  show "drop_bit 2 a = n div 262144" using d3 by (simp add: drop_bit_eq_div a1_def)
  show "c AND 0x3f = n mod 64" using d1 by (simp add: and_masks c0_def)
  have "push_bit 4 a AND 0x30 = push_bit 4 a0"
    using and_push_mask [of "push_bit 4 a" 4 2] by (simp add: push_bit_eq_mult mask_eq_exp_minus_1 a0_def mult.commute)
  moreover have "push_bit 4 a0 OR b1 = push_bit 4 a0 + b1" using b1 by (intro or_disjoint) auto
  ultimately show "(push_bit 4 a AND 0x30) OR drop_bit 4 b = n div 4096 mod 64"
    using d3 by (simp add: drop_bit_eq_div push_bit_eq_mult b1_def)
  have "push_bit 2 b AND 0x3c = push_bit 2 b0"
    using and_push_mask [of "push_bit 2 b" 2 4] by (simp add: push_bit_eq_mult mask_eq_exp_minus_1 b0_def mult.commute)
  moreover have "push_bit 2 b0 OR c1 = push_bit 2 b0 + c1" using c1 by (intro or_disjoint) auto
  ultimately show "(push_bit 2 b AND 0x3c) OR drop_bit 6 c = n div 64 mod 64"
    using d2 by (simp add: drop_bit_eq_div push_bit_eq_mult c1_def)
  show "0 \<le> n div 262144" "n div 262144 < 64" using d3 a1 by simp_all
qed

lemma base64_negative: "i < 0 \<Longrightarrow> base64_at i = None"
  by (simp add: base64_at_def)

lemma schar_ascii: "isascii c \<Longrightarrow> schar c = uchar c \<and> 0 \<le> uchar c \<and> uchar c < 128"
  by (simp add: schar_def isascii_def)

lemma schar_negative: "\<not> isascii c \<Longrightarrow> schar c < 0 \<and> - 128 \<le> schar c"
  by (simp add: schar_def isascii_def)

lemma or_negative: "i OR j < 0 \<longleftrightarrow> i < 0 \<or> j < 0" for i j :: int
  by (metis not_less or_nonnegative_int_iff)

lemma fragment_negative:
  fixes x y :: int
  assumes "- 8 \<le> y" "y < 0"
  shows "base64_at ((x OR y) mod 256) = None"
proof -
  have "x OR y < 0" using assms by (simp add: or_negative)
  moreover have "- 8 \<le> x OR y"
  proof -
    have "NOT (x OR y) = NOT x AND NOT y" by (rule bit_eqI) (simp add: bit_simps)
    moreover have "0 \<le> NOT y" "NOT y < 2 ^ 3" using assms by (simp_all add: not_int_def)
    ultimately have "NOT (x OR y) \<le> NOT y" by (simp add: AND_upper2)
    then show ?thesis using assms by (simp add: not_int_def)
  qed
  ultimately have "(x OR y) mod 256 = (x OR y) + 256"
    by (smt (verit) mod_add_self2 mod_pos_pos_trivial)
  with \<open>- 8 \<le> x OR y\<close> show ?thesis by (simp add: base64_at_def)
qed

lemma all_some_None: "None \<in> set xs \<Longrightarrow> all_some xs = None"
  by (induction xs) (auto split: Option.bind_splits)

lemma base64_loop_ascii: "list_all isascii t \<Longrightarrow> base64_loop t = map Some (rfc4648 t)"
proof (induction t rule: base64_loop.induct)
  case (1 a b c r)
  then have s: "schar a = uchar a" "schar b = uchar b" "schar c = uchar c"
    and u: "0 \<le> uchar a" "uchar a < 128" "0 \<le> uchar b" "uchar b < 128" "0 \<le> uchar c" "uchar c < 128"
    using schar_ascii by auto
  note i = base64_indices [OF u]
  show ?case using 1 i(5,6) unfolding base64_loop.simps rfc4648.simps Let_def s i(1-4)
    by (simp add: base64_at_digit)
next
  case (2 a b)
  then have s: "schar a = uchar a" "schar b = uchar b"
    and u: "0 \<le> uchar a" "uchar a < 128" "0 \<le> uchar b" "uchar b < 128"
    using schar_ascii by auto
  let ?n = "uchar a * 65536 + uchar b * 256"
  have z: "push_bit 2 (uchar b) AND 0x3c = ?n div 64 mod 64"
    using base64_indices(3) [OF u, of 0] by simp
  have i: "drop_bit 2 (uchar a) = ?n div 262144"
    "(push_bit 4 (uchar a) AND 0x30) OR drop_bit 4 (uchar b) = ?n div 4096 mod 64"
    "0 \<le> ?n div 262144" "?n div 262144 < 64"
    using base64_indices(1,2,5,6) [OF u, of 0] by simp_all
  have m: "?n div 4096 mod 64 mod 256 = ?n div 4096 mod 64"
    by (rule mod_pos_pos_trivial) (use pos_mod_bound [of 64 "?n div 4096"] in linarith)+
  show ?case using i(3,4) unfolding base64_loop.simps rfc4648.simps Let_def s i(1,2) m z
    by (simp add: base64_at_digit)
next
  case (3 a)
  then have s: "schar a = uchar a" and u: "0 \<le> uchar a" "uchar a < 128" using schar_ascii by auto
  let ?n = "uchar a * 65536"
  have i: "drop_bit 2 (uchar a) = ?n div 262144" "push_bit 4 (uchar a) AND 0x30 = ?n div 4096 mod 64"
    "0 \<le> ?n div 262144" "?n div 262144 < 64"
    using base64_indices(1,2,5,6) [OF u, of 0 0] by simp_all
  have m: "?n div 4096 mod 64 mod 256 = ?n div 4096 mod 64"
    by (rule mod_pos_pos_trivial) (use pos_mod_bound [of 64 "?n div 4096"] in linarith)+
  show ?case using i(3,4) unfolding base64_loop.simps rfc4648.simps Let_def s i(1,2) m
    by (simp add: base64_at_digit)
next
  case 4
  then show ?case by simp
qed

lemma drop_bit_negative: "i < 0 \<Longrightarrow> drop_bit n i < 0" for i :: int
  by simp

lemma base64_loop_not_ascii: "\<not> list_all isascii t \<Longrightarrow> None \<in> set (base64_loop t)"
proof (induction t rule: base64_loop.induct)
  case (1 a b c r)
  show ?case
  proof (cases "isascii a \<and> isascii b \<and> isascii c")
    case True
    with 1 show ?thesis by simp
  next
    case False
    then consider "schar a < 0" | "schar b < 0" | "schar c < 0" using schar_negative by blast
    then show ?thesis
      by cases (simp_all add: base64_negative or_negative)
  qed
next
  case (2 a b)
  then consider "schar a < 0" | "schar b < 0" "- 128 \<le> schar b" using schar_negative by auto
  then show ?case
  proof cases
    case 1
    then show ?thesis by (simp add: base64_negative)
  next
    case 2
    then have "drop_bit 4 (schar b) < 0" "- 8 \<le> drop_bit 4 (schar b)" by (auto simp: drop_bit_eq_div)
    then show ?thesis by (simp add: fragment_negative)
  qed
next
  case (3 a)
  then show ?case using schar_negative [of a] by (simp add: base64_negative)
qed simp

text \<open>
  C32: a string is encoded as RFC 4648 prescribes when it is ASCII; with any other byte the table
  is read outside of its bounds, since plain \<open>char\<close> is signed.\<close>

theorem Misc_encode_base64_ascii:
  "a_Misc_encode_base64 (Some t) = (if list_all isascii t then Some (Some (rfc4648 t)) else None)"
proof -
  have "all_some (map Some xs) = Some xs" for xs :: string by (induction xs) simp_all
  then show ?thesis
    using base64_loop_ascii [of t] all_some_None [OF base64_loop_not_ascii, of t]
    by (auto simp: a_Misc_encode_base64_def)
qed

theorem Misc_encode_base64_ascii_witness:
  "a_Misc_encode_base64 (Some ''foobar'') = Some (Some ''Zm9vYmFy'')"
proof -
  have "list_all isascii ''foobar''" by code_simp
  then show ?thesis unfolding Misc_encode_base64_ascii rfc4648_test_vectors by (rule if_P)
qed

section \<open>Expanded tabs fit the buffer\<close>

lemma bounded_len:
  assumes "fl_utf8decode True p = (u, n)" "p \<noteq> []"
  shows "n \<le> length p"
proof (cases "1 < n")
  case True
  with decode_long [OF assms(1)] show ?thesis by (auto simp: fl_utf8bytes_encode)
next
  case False
  with assms(2) show ?thesis by (cases p) auto
qed

lemma expand_loop_bound:
  "int (length out) \<le> max 0 (buflen - 32) \<Longrightarrow> expand_loop buflen s pos out = (out', s')
   \<Longrightarrow> int (length out') \<le> max 0 (buflen - 32)"
proof (induction buflen s pos out rule: expand_loop.induct)
  case (1 buflen s pos out)
  show ?case
  proof (cases "s \<noteq> [] \<and> int (length out) < buflen - int TAB_SIZE - int combining_char_space")
    case False
    with 1 show ?thesis by (simp add: expand_loop.simps [of buflen s pos out])
  next
    case True
    obtain code n where d: "a_Utf8_decode True s = (code, n)" by (cases "a_Utf8_decode True s")
    then have n: "n \<le> 4" using decode_len [of True s code n] by (simp add: a_Utf8_decode_def)
    have b: "int (length out) < buflen - 40" using True by (simp add: TAB_SIZE_def combining_char_space_def)
    show ?thesis
    proof (cases "code = 9")
      case h: True
      let ?p = "pos + (TAB_SIZE - pos mod TAB_SIZE)"
      have "int (length (out @ replicate (?p - pos) (CHR '' ''))) \<le> max 0 (buflen - 32)"
        using b by (simp add: TAB_SIZE_def)
      then show ?thesis using 1(1) [OF True d [symmetric] h refl] 1(4) True d h
        by (simp add: expand_loop.simps [of buflen s pos out] Let_def)
    next
      case h: False
      have "int (length (out @ take n s)) \<le> max 0 (buflen - 32)" using b n by simp
      then show ?thesis using 1(2) [OF True d [symmetric] h] 1(4) True d h
        by (simp add: expand_loop.simps [of buflen s pos out])
    qed
  qed
qed

lemma combining_loop_bound:
  "int (length out) \<le> max 0 buflen \<Longrightarrow> combining_loop buflen s out = (out', s')
   \<Longrightarrow> int (length out') \<le> max 0 buflen"
proof (induction buflen s out rule: combining_loop.induct)
  case (1 buflen s out)
  obtain code n where d: "a_Utf8_decode True s = (code, n)" by (cases "a_Utf8_decode True s")
  then have n: "n \<le> 4" using decode_len [of True s code n] by (simp add: a_Utf8_decode_def)
  show ?case
  proof (cases "(s \<noteq> [] \<and> int (length out) < buflen - 4) \<and> a_Utf8_combining_char code")
    case False
    with 1(2,3) d show ?thesis
      by (simp add: combining_loop.simps [of buflen s out] split: if_splits)
  next
    case True
    then have "int (length out) + int (min (length s) n) \<le> buflen" using n by linarith
    then have "int (length (out @ take n s)) \<le> max 0 buflen" by simp
    moreover have "combining_loop buflen (drop n s) (out @ take n s) = (out', s')"
      using 1(3) True d by (simp add: combining_loop.simps [of buflen s out])
    ultimately show ?thesis using 1(1) [OF conjunct1 [OF True] d [symmetric]] True by blast
  qed
qed

lemma Misc_expand_tabs_bound:
  assumes "a_Misc_expand_tabs s buflen = (out, s')" "0 \<le> buflen"
  shows "int (length out) \<le> buflen"
proof -
  obtain o1 s1 where e: "expand_loop buflen s 0 [] = (o1, s1)" by (cases "expand_loop buflen s 0 []")
  have "int (length o1) \<le> max 0 (buflen - 32)" by (rule expand_loop_bound [OF _ e]) simp
  then have "int (length o1) \<le> max 0 buflen" by linarith
  from combining_loop_bound [OF this] e assms show ?thesis
    by (simp add: a_Misc_expand_tabs_def)
qed

section \<open>Content types are compared symmetrically\<close>

lemma casecmp_zero_sym: "dStrAsciiCasecmp a b = 0 \<longleftrightarrow> dStrAsciiCasecmp b a = 0"
  using casecmp_antisym [of a b] by simp

lemma same_word_sym: "same_word a b = same_word b a"
  using casecmp_zero_sym by (auto simp: same_word_def split: option.splits)

lemma same_charset_sym: "same_charset a b = same_charset b a"
  using casecmp_zero_sym by (auto simp: same_charset_def split: option.splits)

lemma Misc_content_type_cmp_sym: "a_Misc_content_type_cmp a b = a_Misc_content_type_cmp b a"
proof -
  obtain ma na ca where a: "a_Misc_parse_content_type a = (ma, na, ca)" by (cases "a_Misc_parse_content_type a")
  obtain mb nb cb where b: "a_Misc_parse_content_type b = (mb, nb, cb)" by (cases "a_Misc_parse_content_type b")
  show ?thesis unfolding a_Misc_content_type_cmp_def a b
    by (simp add: same_word_sym [of ma mb] same_word_sym [of na nb] same_charset_sym [of ca cb] conj_commute disj_commute)
qed

section \<open>The charset of a type is found\<close>

lemma char_classes:
  "list_all token_char ''text''" "list_all token_char ''html''" "\<not> token_char (CHR ''/'')" "\<not> token_char (CHR '';'')"
  by (simp_all add: token_char_def isascii_def iscntrl_def uchar_def tspecials_space_def strchr_def)

lemma takeWhile_list_all: "list_all P xs \<Longrightarrow> \<not> P y \<Longrightarrow> takeWhile P (xs @ y # ys) = xs \<and> dropWhile P (xs @ y # ys) = y # ys"
  by (induction xs) auto

lemma html_charset_found: "dStriAsciiStr (Some (''html; charset='' @ cs)) (Some ''charset'') = Some 6"
  by (simp add: dStriAsciiStr_def stri_loop.simps D_ASCII_TOLOWER_def schar_def uchar_def)

lemma Misc_parse_html_charset:
  assumes "cs \<noteq> []" "\<forall>c \<in> set cs. c \<notin> set charset_terminators" "hd cs \<noteq> CHR 0x22"
  shows "a_Misc_parse_content_type (Some (''text/html; charset='' @ cs)) = (Some ''text'', Some ''html'', Some cs)"
proof -
  have t: "takeWhile token_char (''text'' @ CHR ''/'' # ''html; charset='' @ cs) = ''text''"
    "dropWhile token_char (''text'' @ CHR ''/'' # ''html; charset='' @ cs) = CHR ''/'' # ''html; charset='' @ cs"
    "takeWhile token_char (''html'' @ CHR '';'' # '' charset='' @ cs) = ''html''"
    "dropWhile token_char (''html'' @ CHR '';'' # '' charset='' @ cs) = CHR '';'' # '' charset='' @ cs"
    using takeWhile_list_all [OF char_classes(1,3)] takeWhile_list_all [OF char_classes(2,4)] by simp_all
  have "\<not> blank_char (hd cs)" using assms(1,2) by (cases cs) (auto simp: blank_char_def charset_terminators_def)
  then have b: "dropWhile blank_char cs = cs" using assms(1) by (cases cs) auto
  have len: "strcspn cs charset_terminators = length cs"
    unfolding strcspn_def using assms(2) by (subst takeWhile_eq_all_conv [THEN iffD2]) auto
  have v: "charset_value (CHR ''='' # cs) = Some cs"
    using b len assms(1,3) by (cases cs) (simp_all add: charset_value_def blank_char_def Let_def)
  have "strchr charset_terminators (CHR '' '') \<noteq> None" by (simp add: charset_terminators_def strchr_def)
  then have c: "charset_param (''html; charset='' @ cs) = Some cs"
    unfolding charset_param_def html_charset_found using v by (simp add: char_at_def)
  have "dStrnAsciiCasecmp (''text/html; charset='' @ cs) ''text/'' 5 = 0" by (simp add: eval_nat_numeral)
  with t c show ?thesis by (simp add: a_Misc_parse_content_type_def Let_def)
qed

section \<open>Search URLs\<close>

lemma Misc_search_url_label_bound:
  "a_Misc_parse_search_url buf source = (0, label, url) \<Longrightarrow> length label \<le> 31"
  by (auto simp: a_Misc_parse_search_url_def Let_def split: option.splits if_splits)

lemma Misc_search_url_pair:
  assumes "CHR '' '' \<notin> set url" "length label \<le> 31" "host_slash url \<noteq> None"
  shows "a_Misc_parse_search_url buf (label @ CHR '' '' # url) = (0, label, Some url)"
proof -
  have "takeWhile (\<lambda>x. x \<noteq> CHR '' '') (rev url @ CHR '' '' # rev label) = rev url"
    using assms(1) by (subst takeWhile_append2) auto
  then have "strrchr (label @ CHR '' '' # url) (CHR '' '') = Some (CHR '' '' # url)"
    by (simp add: strrchr_def)
  with assms(2,3) show ?thesis by (simp add: a_Misc_parse_search_url_def Let_def)
qed

end
