(* ===== verification/Chain.thy ===== *)
theory Chain
  imports Prelude
begin

text \<open>
  The concomitant control chain of \<^verbatim>\<open>dillo/src/chain.c\<close>: links between the modules that handle a
  connection, and the callbacks that travel along them. The links live in a heap; a callback is
  a value of a type of function names, and what it does is a parameter. \<open>None\<close> stands for an
  access to a link that is not allocated. The last part is the machine the modules see: the
  callbacks are events, any operations may happen while one runs, and links are freed under the discipline of
  the modules.
\<close>

unbundle bit_operations_syntax

section \<open>Links\<close>

definition OpStart :: int where "OpStart = 1"
definition OpSend :: int where "OpSend = 2"
definition OpStop :: int where "OpStop = 3"
definition OpEnd :: int where "OpEnd = 4"
definition OpAbort :: int where "OpAbort = 5"

definition CCC_Ended :: int where "CCC_Ended = 2"
definition CCC_Aborted :: int where "CCC_Aborted = 4"

datatype direction = FWD | BCK

type_synonym addr = nat

record 'f chain_link =
  Flags :: int
  FcbInfo :: "addr option"
  Fcb :: "'f option"
  FcbBranch :: int
  BcbInfo :: "addr option"
  Bcb :: "'f option"
  BcbBranch :: int

type_synonym 'f links = "addr \<Rightarrow> 'f chain_link option"

text \<open>A new link, at an address the allocator picks.\<close>

definition a_Chain_new :: "'f chain_link" where
  "a_Chain_new = \<lparr>Flags = 0, FcbInfo = None, Fcb = None, FcbBranch = 0, BcbInfo = None, Bcb = None, BcbBranch = 0\<rparr>"

definition a_Chain_link_new ::
  "addr \<Rightarrow> addr \<Rightarrow> 'f \<Rightarrow> direction \<Rightarrow> 'f \<Rightarrow> int \<Rightarrow> int \<Rightarrow> 'f links \<Rightarrow> 'f links option" where
  "a_Chain_link_new NewLink AInfo AFunc Direction BFunc AtoB_branch BtoA_branch h =
     (case h AInfo of
        None \<Rightarrow> None
      | Some OldLink \<Rightarrow>
          Some (case Direction of
            BCK \<Rightarrow> h(NewLink \<mapsto> a_Chain_new\<lparr>Fcb := Some AFunc, FcbInfo := Some AInfo, FcbBranch := BtoA_branch\<rparr>,
                     AInfo \<mapsto> OldLink\<lparr>Bcb := Some BFunc, BcbInfo := Some NewLink, BcbBranch := AtoB_branch\<rparr>)
          | FWD \<Rightarrow> h(NewLink \<mapsto> a_Chain_new\<lparr>Bcb := Some AFunc, BcbInfo := Some AInfo, BcbBranch := BtoA_branch\<rparr>,
                     AInfo \<mapsto> OldLink\<lparr>Fcb := Some BFunc, FcbInfo := Some NewLink, FcbBranch := AtoB_branch\<rparr>)))"

definition a_Chain_unlink :: "addr \<Rightarrow> direction \<Rightarrow> 'f links \<Rightarrow> 'f links option" where
  "a_Chain_unlink Info Direction h =
     map_option (\<lambda>l. h(Info \<mapsto> (case Direction of
         FWD \<Rightarrow> l\<lparr>Fcb := None, FcbInfo := None, FcbBranch := 0\<rparr>
       | BCK \<Rightarrow> l\<lparr>Bcb := None, BcbInfo := None, BcbBranch := 0\<rparr>))) (h Info)"

definition a_Chain_check :: "addr \<Rightarrow> 'f links \<Rightarrow> int option" where
  "a_Chain_check Info h =
     map_option (\<lambda>l. if Flags l AND (CCC_Ended + CCC_Aborted) \<noteq> 0 then 0 else 1) (h Info)"

section \<open>Callbacks\<close>

text \<open>A call of a module: the function, the operation, the branch, the direction, the link it is
  given (a pointer that the caller does not follow) and the two data pointers.\<close>

record ('f, 'd) call =
  c_func :: 'f
  c_op :: int
  c_branch :: int
  c_dir :: direction
  c_info :: "addr option"
  c_data :: "'d \<times> 'd"

text \<open>The caller is flagged when the operation ends or aborts the chain.\<close>

definition flag_caller :: "int \<Rightarrow> int \<Rightarrow> int" where
  "flag_caller Op flags =
     (if Op = OpEnd then flags OR CCC_Ended else if Op = OpAbort then flags OR CCC_Aborted else flags)"

definition unflag_caller :: "int \<Rightarrow> int \<Rightarrow> int" where
  "unflag_caller Op flags =
     (if Op = OpEnd then flags AND NOT CCC_Ended else if Op = OpAbort then flags AND NOT CCC_Aborted else flags)"

text \<open>What a callback operation does before it calls: \<open>Some (None, h)\<close> when there is no call.\<close>

definition issue :: "direction \<Rightarrow> int \<Rightarrow> addr \<Rightarrow> 'd \<times> 'd \<Rightarrow> 'f links
    \<Rightarrow> (('f, 'd) call option \<times> 'f links) option" where
  "issue dir Op Info data h =
     (case h Info of
        None \<Rightarrow> None
      | Some l \<Rightarrow>
          (if Flags l AND (CCC_Ended + CCC_Aborted) \<noteq> 0 then Some (None, h)
           else (case (case dir of FWD \<Rightarrow> Fcb l | BCK \<Rightarrow> Bcb l) of
                   None \<Rightarrow> Some (None, h)
                 | Some f \<Rightarrow>
                     Some (Some \<lparr>c_func = f, c_op = Op, c_branch = (case dir of FWD \<Rightarrow> FcbBranch l | BCK \<Rightarrow> BcbBranch l),
                                c_dir = dir, c_info = (case dir of FWD \<Rightarrow> FcbInfo l | BCK \<Rightarrow> BcbInfo l), c_data = data\<rparr>,
                           h(Info \<mapsto> l\<lparr>Flags := flag_caller Op (Flags l)\<rparr>)))))"

text \<open>\<open>run\<close> is what the modules do when they are called.\<close>

definition a_Chain_fcb :: "(('f, 'd) call \<Rightarrow> 'f links \<Rightarrow> 'f links) \<Rightarrow> int \<Rightarrow> addr \<Rightarrow> 'd \<times> 'd \<Rightarrow> 'f links
    \<Rightarrow> (int \<times> 'f links) option" where
  "a_Chain_fcb run Op Info data h =
     map_option (\<lambda>(c, h'). case c of None \<Rightarrow> (0, h') | Some c \<Rightarrow> (1, run c h')) (issue FWD Op Info data h)"

definition a_Chain_bcb :: "(('f, 'd) call \<Rightarrow> 'f links \<Rightarrow> 'f links) \<Rightarrow> int \<Rightarrow> addr \<Rightarrow> 'd \<times> 'd \<Rightarrow> 'f links
    \<Rightarrow> (int \<times> 'f links) option" where
  "a_Chain_bcb run Op Info data h =
     map_option (\<lambda>(c, h'). case c of None \<Rightarrow> (0, h') | Some c \<Rightarrow> (1, run c h')) (issue BCK Op Info data h)"

definition clear_flag :: "int \<Rightarrow> addr \<Rightarrow> 'f links \<Rightarrow> 'f links option" where
  "clear_flag Op Info h = map_option (\<lambda>l. h(Info \<mapsto> l\<lparr>Flags := unflag_caller Op (Flags l)\<rparr>)) (h Info)"

definition a_Chain_bfcb :: "(('f, 'd) call \<Rightarrow> 'f links \<Rightarrow> 'f links) \<Rightarrow> int \<Rightarrow> addr \<Rightarrow> 'd \<times> 'd \<Rightarrow> 'f links
    \<Rightarrow> (int \<times> 'f links) option" where
  "a_Chain_bfcb run Op Info data h =
     Option.bind (a_Chain_bcb run Op Info data h) (\<lambda>(ret, h1).
       if ret = 1 then Option.bind (if Op = OpEnd \<or> Op = OpAbort then clear_flag Op Info h1 else Some h1)
                         (\<lambda>h2. a_Chain_fcb run Op Info data h2)
       else Some (ret, h1))"

record dbuf =
  db_Buf :: "char list"
  db_Size :: int
  db_Code :: int

definition a_Chain_dbuf_new :: "char list \<Rightarrow> int \<Rightarrow> int \<Rightarrow> dbuf" where
  "a_Chain_dbuf_new buf sz code = \<lparr>db_Buf = buf, db_Size = sz, db_Code = code\<rparr>"

section \<open>Flags\<close>

text \<open>The only flags the chain sets.\<close>

definition flags_ok :: "int \<Rightarrow> bool" where
  "flags_ok f \<longleftrightarrow> f = 0 \<or> f = CCC_Ended \<or> f = CCC_Aborted \<or> f = CCC_Ended + CCC_Aborted"

definition operative :: "'f chain_link \<Rightarrow> bool" where
  "operative l \<longleftrightarrow> Flags l AND (CCC_Ended + CCC_Aborted) = 0"

definition terminal :: "int \<Rightarrow> bool" where
  "terminal Op \<longleftrightarrow> Op = OpEnd \<or> Op = OpAbort"

lemmas chain_consts = OpEnd_def OpAbort_def CCC_Ended_def CCC_Aborted_def

lemma operative_iff: "flags_ok (Flags l) \<Longrightarrow> operative l \<longleftrightarrow> Flags l = 0"
  by (auto simp: flags_ok_def operative_def chain_consts)

lemma flag_caller_ok: "flags_ok f \<Longrightarrow> flags_ok (flag_caller Op f)"
  by (auto simp: flags_ok_def flag_caller_def chain_consts)

lemma unflag_caller_ok: "flags_ok f \<Longrightarrow> flags_ok (unflag_caller Op f)"
  by (auto simp: flags_ok_def unflag_caller_def chain_consts)

lemma flag_caller_stops: "terminal Op \<Longrightarrow> flags_ok f \<Longrightarrow> flag_caller Op f \<noteq> 0"
  by (auto simp: flags_ok_def flag_caller_def terminal_def chain_consts)

lemma flag_caller_keeps: "flags_ok f \<Longrightarrow> f \<noteq> 0 \<Longrightarrow> flag_caller Op f \<noteq> 0"
  by (auto simp: flags_ok_def flag_caller_def chain_consts)

section \<open>The machine the modules see\<close>

text \<open>The links that are allocated and those that were freed (an address stands for one allocation
  and is not used again), the operations of \<^verbatim>\<open>a_Chain_bfcb\<close> whose backward call is running (the
  innermost first), the calls made so far with the link they were made from (the latest first), and
  the links that \<^verbatim>\<open>a_Chain_bfcb\<close> ended backwards only, there being no forward call to make.\<close>

record ('f, 'd) chain_state =
  links :: "'f links"
  freed :: "addr set"
  pend :: "(addr \<times> int) list"
  calls :: "(addr \<times> ('f, 'd) call) list"
  half_ended :: "addr set"

definition log_call :: "addr \<Rightarrow> ('f, 'd) call option \<Rightarrow> (addr \<times> ('f, 'd) call) list \<Rightarrow> (addr \<times> ('f, 'd) call) list" where
  "log_call i c cs = (case c of None \<Rightarrow> cs | Some c \<Rightarrow> (i, c) # cs)"

text \<open>Link \<open>k\<close> has made a call that ends or aborts the chain, in direction \<open>d\<close>, given link \<open>j\<close>.\<close>

definition ended_on :: "(addr \<times> ('f, 'd) call) list \<Rightarrow> addr \<Rightarrow> direction \<Rightarrow> addr \<Rightarrow> bool" where
  "ended_on cs k d j \<longleftrightarrow> (\<exists>(i, c) \<in> set cs. i = k \<and> c_dir c = d \<and> terminal (c_op c) \<and> c_info c = Some j)"

text \<open>The discipline of the modules (\<^verbatim>\<open>a_IO_ccc\<close>, \<^verbatim>\<open>a_Http_ccc\<close>, \<^verbatim>\<open>a_Dpi_ccc\<close>, \<^verbatim>\<open>a_Capi_ccc\<close>): a
  module frees a link once every link that still points to it has ended or aborted the chain on it,
  the neighbours it ended itself having been freed by their own modules, and not in the middle of an
  \<^verbatim>\<open>a_Chain_bfcb\<close> on that link.\<close>

definition may_free :: "('f, 'd) chain_state \<Rightarrow> addr \<Rightarrow> bool" where
  "may_free s i \<longleftrightarrow> links s i \<noteq> None \<and> i \<notin> fst ` set (pend s)
     \<and> (\<forall>k l. links s k = Some l \<longrightarrow> (FcbInfo l = Some i \<longrightarrow> ended_on (calls s) k FWD i)
                                   \<and> (BcbInfo l = Some i \<longrightarrow> ended_on (calls s) k BCK i))"

inductive chain_step :: "('f, 'd) chain_state \<Rightarrow> ('f, 'd) chain_state \<Rightarrow> bool" where
  new: "links s n = None \<Longrightarrow> n \<notin> freed s \<Longrightarrow> chain_step s (s\<lparr>links := (links s)(n \<mapsto> a_Chain_new)\<rparr>)"
| link: "links s n = None \<Longrightarrow> n \<notin> freed s \<Longrightarrow> a_Chain_link_new n a f d g x y (links s) = Some h
    \<Longrightarrow> chain_step s (s\<lparr>links := h\<rparr>)"
| unlink: "a_Chain_unlink i d (links s) = Some h \<Longrightarrow> chain_step s (s\<lparr>links := h\<rparr>)"
| free: "may_free s i \<Longrightarrow> chain_step s (s\<lparr>links := (links s)(i := None), freed := insert i (freed s)\<rparr>)"
| call: "issue dir Op i data (links s) = Some (c, h)
    \<Longrightarrow> chain_step s (s\<lparr>links := h, calls := log_call i c (calls s)\<rparr>)"
| bf_start: "issue BCK Op i data (links s) = Some (Some c, h)
    \<Longrightarrow> chain_step s (s\<lparr>links := h, pend := (i, Op) # pend s, calls := (i, c) # calls s\<rparr>)"
| bf_finish: "pend s = (i, Op) # ps \<Longrightarrow> (if terminal Op then clear_flag Op i (links s) else Some (links s)) = Some h1
    \<Longrightarrow> issue FWD Op i data h1 = Some (c, h)
    \<Longrightarrow> chain_step s (s\<lparr>links := h, pend := ps, calls := log_call i c (calls s),
          half_ended := (if terminal Op \<and> c = None then insert i (half_ended s) else half_ended s)\<rparr>)"

inductive chain_reachable :: "('f, 'd) chain_state \<Rightarrow> bool" where
  init: "chain_reachable \<lparr>links = \<lambda>_. None, freed = {}, pend = [], calls = [], half_ended = {}\<rparr>"
| step: "chain_reachable s \<Longrightarrow> chain_step s s' \<Longrightarrow> chain_reachable s'"

inductive_cases chain_step_cases: "chain_step s s'"

section \<open>Links and pointers\<close>

text \<open>The type of a link: a callback is set exactly when its link is, and the flags are those of the
  chain. The pointers: a partner is allocated unless the chain was ended on it.\<close>

definition link_ok :: "'f chain_link \<Rightarrow> bool" where
  "link_ok l \<longleftrightarrow> flags_ok (Flags l) \<and> (Fcb l = None \<longleftrightarrow> FcbInfo l = None) \<and> (Bcb l = None \<longleftrightarrow> BcbInfo l = None)"

definition links_ok :: "'f links \<Rightarrow> bool" where
  "links_ok h \<longleftrightarrow> (\<forall>i l. h i = Some l \<longrightarrow> link_ok l)"

definition partners_ok :: "'f links \<Rightarrow> (addr \<times> ('f, 'd) call) list \<Rightarrow> bool" where
  "partners_ok h cs \<longleftrightarrow> (\<forall>k l. h k = Some l \<longrightarrow>
       (\<forall>j. FcbInfo l = Some j \<longrightarrow> h j \<noteq> None \<or> ended_on cs k FWD j)
     \<and> (\<forall>j. BcbInfo l = Some j \<longrightarrow> h j \<noteq> None \<or> ended_on cs k BCK j))"

lemma ended_on_mono: "ended_on cs k d j \<Longrightarrow> set cs \<subseteq> set cs' \<Longrightarrow> ended_on cs' k d j"
  by (auto simp: ended_on_def)

lemma log_call_mono: "set cs \<subseteq> set (log_call i c cs)"
  by (auto simp: log_call_def split: option.splits)

lemma links_okD: "links_ok h \<Longrightarrow> h i = Some l \<Longrightarrow> link_ok l"
  by (auto simp: links_ok_def)

lemma links_ok_upd: "links_ok h \<Longrightarrow> link_ok l \<Longrightarrow> links_ok (h(i \<mapsto> l))"
  by (simp add: links_ok_def)

lemma link_ok_new [simp]: "link_ok a_Chain_new"
  by (simp add: link_ok_def a_Chain_new_def flags_ok_def)

lemma partners_okD:
  assumes "partners_ok h cs" "h k = Some l"
  shows "FcbInfo l = Some j \<Longrightarrow> h j \<noteq> None \<or> ended_on cs k FWD j"
    "BcbInfo l = Some j \<Longrightarrow> h j \<noteq> None \<or> ended_on cs k BCK j"
  using assms by (simp_all add: partners_ok_def)

text \<open>Every step but a free only adds links and calls, and gives a pointer only to what is allocated.\<close>

lemma partners_ok_mono:
  assumes ok: "partners_ok h cs" and d: "dom h \<subseteq> dom h'" and c: "set cs \<subseteq> set cs'"
    and p: "\<And>k l'. h' k = Some l' \<Longrightarrow> (FcbInfo l' \<in> insert None (Some ` dom h') \<or> (\<exists>l. h k = Some l \<and> FcbInfo l' = FcbInfo l))
      \<and> (BcbInfo l' \<in> insert None (Some ` dom h') \<or> (\<exists>l. h k = Some l \<and> BcbInfo l' = BcbInfo l))"
  shows "partners_ok h' cs'"
proof -
  have "h' j \<noteq> None \<or> ended_on cs' k FWD j" if k: "h' k = Some l'" and j: "FcbInfo l' = Some j" for k l' j
  proof (cases "FcbInfo l' \<in> insert None (Some ` dom h')")
    case True
    then show ?thesis using j by auto
  next
    case False
    with p [OF k] obtain l where "h k = Some l" "FcbInfo l = Some j" using j by auto
    with partners_okD(1) [OF ok] have "h j \<noteq> None \<or> ended_on cs k FWD j" by blast
    with d ended_on_mono [OF _ c] show ?thesis by blast
  qed
  moreover have "h' j \<noteq> None \<or> ended_on cs' k BCK j" if k: "h' k = Some l'" and j: "BcbInfo l' = Some j" for k l' j
  proof (cases "BcbInfo l' \<in> insert None (Some ` dom h')")
    case True
    then show ?thesis using j by auto
  next
    case False
    with p [OF k] obtain l where "h k = Some l" "BcbInfo l = Some j" using j by auto
    with partners_okD(2) [OF ok] have "h j \<noteq> None \<or> ended_on cs k BCK j" by blast
    with d ended_on_mono [OF _ c] show ?thesis by blast
  qed
  ultimately show ?thesis by (auto simp: partners_ok_def)
qed

lemma a_Chain_link_new_ok:
  assumes "links_ok h" "h n = None" "a_Chain_link_new n a f d g x y h = Some h'"
  shows "links_ok h'" "dom h' = insert n (dom h)" "\<And>i l. h i = Some l \<Longrightarrow> \<exists>l'. h' i = Some l' \<and> Flags l' = Flags l"
    "\<And>i l'. h i = None \<Longrightarrow> h' i = Some l' \<Longrightarrow> Flags l' = 0"
    "partners_ok h cs \<Longrightarrow> partners_ok h' cs"
proof -
  obtain l where l: "h a = Some l" using assms(3) by (auto simp: a_Chain_link_new_def split: option.splits)
  then have na: "n \<noteq> a" using assms(2) by auto
  have lok: "link_ok l" using links_okD [OF assms(1) l] .
  let ?nf = "a_Chain_new\<lparr>Bcb := Some f, BcbInfo := Some a, BcbBranch := y\<rparr>"
  let ?of = "l\<lparr>Fcb := Some g, FcbInfo := Some n, FcbBranch := x\<rparr>"
  let ?nb = "a_Chain_new\<lparr>Fcb := Some f, FcbInfo := Some a, FcbBranch := y\<rparr>"
  let ?ob = "l\<lparr>Bcb := Some g, BcbInfo := Some n, BcbBranch := x\<rparr>"
  have h': "h' = (case d of FWD \<Rightarrow> h(n \<mapsto> ?nf, a \<mapsto> ?of) | BCK \<Rightarrow> h(n \<mapsto> ?nb, a \<mapsto> ?ob))"
    using assms(3) l by (cases d) (simp_all add: a_Chain_link_new_def)
  have "link_ok ?nf" "link_ok ?of" "link_ok ?nb" "link_ok ?ob"
    using lok by (simp_all add: link_ok_def a_Chain_new_def flags_ok_def)
  then show "links_ok h'" unfolding h' by (cases d) (simp_all add: links_ok_upd assms(1))
  show dm: "dom h' = insert n (dom h)" using l unfolding h' by (cases d) auto
  show "\<exists>l'. h' i = Some l' \<and> Flags l' = Flags k" if "h i = Some k" for i k
    using that assms(2) l na unfolding h' by (cases d) auto
  show "Flags l' = 0" if "h i = None" "h' i = Some l'" for i l'
    using that l na unfolding h' by (cases d) (auto simp: a_Chain_new_def split: if_splits)
  show "partners_ok h' cs" if "partners_ok h cs"
  proof (rule partners_ok_mono [OF that])
    show "dom h \<subseteq> dom h'" using dm by auto
    fix k l'
    assume k: "h' k = Some l'"
    have an: "a \<in> dom h'" "n \<in> dom h'" using dm l by auto
    show "(FcbInfo l' \<in> insert None (Some ` dom h') \<or> (\<exists>l. h k = Some l \<and> FcbInfo l' = FcbInfo l))
      \<and> (BcbInfo l' \<in> insert None (Some ` dom h') \<or> (\<exists>l. h k = Some l \<and> BcbInfo l' = BcbInfo l))"
      using k l na an
      by (cases d; cases "k = n"; cases "k = a") (auto simp: h' a_Chain_new_def simp del: domIff)
  qed simp
qed

lemma a_Chain_unlink_ok:
  assumes "links_ok h" "a_Chain_unlink i d h = Some h'"
  shows "links_ok h'" "dom h' = dom h" "\<And>k l'. h' k = Some l' \<Longrightarrow> \<exists>l. h k = Some l \<and> Flags l' = Flags l
      \<and> FcbInfo l' \<in> {None, FcbInfo l} \<and> BcbInfo l' \<in> {None, BcbInfo l}"
proof -
  obtain l where l: "h i = Some l" using assms(2) by (auto simp: a_Chain_unlink_def)
  have lok: "link_ok l" using links_okD [OF assms(1) l] .
  let ?l = "case d of FWD \<Rightarrow> l\<lparr>Fcb := None, FcbInfo := None, FcbBranch := 0\<rparr>
      | BCK \<Rightarrow> l\<lparr>Bcb := None, BcbInfo := None, BcbBranch := 0\<rparr>"
  have h': "h' = h(i \<mapsto> ?l)" using assms(2) l by (simp add: a_Chain_unlink_def)
  show "links_ok h'" unfolding h'
    by (rule links_ok_upd [OF assms(1)]) (use lok in \<open>cases d; auto simp: link_ok_def\<close>)
  show "dom h' = dom h" using l by (auto simp: h')
  show "\<exists>l. h k = Some l \<and> Flags l' = Flags l \<and> FcbInfo l' \<in> {None, FcbInfo l} \<and> BcbInfo l' \<in> {None, BcbInfo l}"
    if "h' k = Some l'" for k l'
    using that l by (cases d) (auto simp: h' split: if_splits)
qed

lemma issue_ok:
  assumes "links_ok h" "issue dir Op i data h = Some (c, h')"
  shows "links_ok h'" "dom h' = dom h"
    and "\<And>k l'. h' k = Some l' \<Longrightarrow> \<exists>l. h k = Some l \<and> FcbInfo l' = FcbInfo l \<and> BcbInfo l' = BcbInfo l \<and> (k \<noteq> i \<longrightarrow> Flags l' = Flags l)"
    and "c = None \<Longrightarrow> h' = h"
    and "\<And>b. c = Some b \<Longrightarrow> c_op b = Op \<and> c_dir b = dir \<and> (\<exists>l. h i = Some l \<and> Flags l = 0
          \<and> h' i = Some (l\<lparr>Flags := flag_caller Op 0\<rparr>) \<and> c_info b = (case dir of FWD \<Rightarrow> FcbInfo l | BCK \<Rightarrow> BcbInfo l))"
proof -
  obtain l where l: "h i = Some l" using assms(2) by (auto simp: issue_def split: option.splits)
  have lok: "link_ok l" using links_okD [OF assms(1) l] .
  have op: "Flags l AND (CCC_Ended + CCC_Aborted) = 0 \<longleftrightarrow> Flags l = 0"
    using lok operative_iff [of l] by (simp add: link_ok_def operative_def)
  show nc: "c = None \<Longrightarrow> h' = h"
    using assms(2) l by (cases dir) (auto simp: issue_def split: if_splits option.splits)
  have sc: "Flags l = 0 \<and> h' = h(i \<mapsto> l\<lparr>Flags := flag_caller Op 0\<rparr>) \<and> c_op b = Op \<and> c_dir b = dir
      \<and> c_info b = (case dir of FWD \<Rightarrow> FcbInfo l | BCK \<Rightarrow> BcbInfo l)" if "c = Some b" for b
    using assms(2) l lok that op
    by (cases dir) (auto simp: issue_def link_ok_def split: if_splits option.splits)
  have lk: "link_ok (l\<lparr>Flags := flag_caller Op 0\<rparr>)"
    using lok flag_caller_ok [of 0 Op] by (auto simp: link_ok_def flags_ok_def)
  show "links_ok h'" using nc sc assms(1) links_ok_upd [OF assms(1) lk] by (cases c) auto
  show "dom h' = dom h" using nc sc l by (cases c) auto
  show "\<exists>l. h k = Some l \<and> FcbInfo l' = FcbInfo l \<and> BcbInfo l' = BcbInfo l \<and> (k \<noteq> i \<longrightarrow> Flags l' = Flags l)"
    if "h' k = Some l'" for k l'
    using that nc sc l by (cases c; cases "k = i") auto
  show "c_op b = Op \<and> c_dir b = dir \<and> (\<exists>l. h i = Some l \<and> Flags l = 0
          \<and> h' i = Some (l\<lparr>Flags := flag_caller Op 0\<rparr>) \<and> c_info b = (case dir of FWD \<Rightarrow> FcbInfo l | BCK \<Rightarrow> BcbInfo l))" if "c = Some b" for b
    using sc [OF that] l by simp
qed

lemma clear_flag_ok:
  assumes "links_ok h" "clear_flag Op i h = Some h'"
  shows "links_ok h'" "dom h' = dom h" "\<And>k. k \<noteq> i \<Longrightarrow> h' k = h k"
    "\<And>k l'. h' k = Some l' \<Longrightarrow> \<exists>l. h k = Some l \<and> FcbInfo l' = FcbInfo l \<and> BcbInfo l' = BcbInfo l"
proof -
  obtain l where l: "h i = Some l" and h': "h' = h(i \<mapsto> l\<lparr>Flags := unflag_caller Op (Flags l)\<rparr>)"
    using assms(2) by (auto simp: clear_flag_def)
  have lok: "link_ok l" using links_okD [OF assms(1) l] .
  show "links_ok h'" unfolding h'
    by (rule links_ok_upd [OF assms(1)]) (use lok unflag_caller_ok in \<open>auto simp: link_ok_def\<close>)
  show "dom h' = dom h" "\<And>k. k \<noteq> i \<Longrightarrow> h' k = h k" using l by (auto simp: h')
  show "\<exists>l. h k = Some l \<and> FcbInfo l' = FcbInfo l \<and> BcbInfo l' = BcbInfo l" if "h' k = Some l'" for k l'
    using that l by (auto simp: h' split: if_splits)
qed

lemma partners_ok_same:
  assumes "partners_ok h cs" "dom h' = dom h" "set cs \<subseteq> set cs'"
    and "\<And>k l'. h' k = Some l' \<Longrightarrow> \<exists>l. h k = Some l \<and> FcbInfo l' \<in> {None, FcbInfo l} \<and> BcbInfo l' \<in> {None, BcbInfo l}"
  shows "partners_ok h' cs'"
  by (rule partners_ok_mono [OF assms(1) _ assms(3)]) (use assms(2,4) in fastforce)+

lemma partners_ok_free:
  assumes "partners_ok (links s) (calls s)" "may_free s i"
  shows "partners_ok ((links s)(i := None)) (calls s)"
  using assms unfolding partners_ok_def may_free_def by (auto split: if_splits)

section \<open>The invariant of the machine\<close>

definition flags_at :: "'f links \<Rightarrow> addr \<Rightarrow> int" where
  "flags_at h i = (case h i of None \<Rightarrow> 0 | Some l \<Rightarrow> Flags l)"

definition tpend :: "(addr \<times> int) list \<Rightarrow> addr \<Rightarrow> nat" where
  "tpend ps i = length (filter (\<lambda>(j, Op). j = i \<and> terminal Op) ps)"

definition forward_end :: "('f, 'd) call \<Rightarrow> bool" where
  "forward_end c \<longleftrightarrow> c_dir c = FWD \<and> terminal (c_op c)"

definition backward_end :: "('f, 'd) call \<Rightarrow> bool" where
  "backward_end c \<longleftrightarrow> c_dir c = BCK \<and> terminal (c_op c)"

fun final_ok :: "(addr \<times> ('f, 'd) call) list \<Rightarrow> bool" where
  "final_ok [] = True"
| "final_ok ((i, c) # cs) = (final_ok cs \<and> (\<forall>(j, c') \<in> set cs. j = i \<longrightarrow> \<not> forward_end c'))"

definition chain_inv :: "'f links \<Rightarrow> addr set \<Rightarrow> (addr \<times> int) list \<Rightarrow> (addr \<times> ('f, 'd) call) list \<Rightarrow> bool" where
  "chain_inv h fr ps cs \<longleftrightarrow> links_ok h \<and> fr \<inter> dom h = {}
     \<and> (\<forall>i. tpend ps i \<le> 1 \<and> (0 < tpend ps i \<longrightarrow> flags_at h i \<noteq> 0))
     \<and> (\<forall>(i, c) \<in> set cs. forward_end c \<longrightarrow> (flags_at h i \<noteq> 0 \<or> i \<in> fr) \<and> tpend ps i = 0)
     \<and> final_ok cs"

text \<open>A link that has ended or aborted the chain backwards is flagged, unless \<^verbatim>\<open>a_Chain_bfcb\<close> cleared
  the flag and had no forward call to set it again.\<close>

definition bck_inv :: "'f links \<Rightarrow> addr set \<Rightarrow> (addr \<times> ('f, 'd) call) list \<Rightarrow> addr set \<Rightarrow> bool" where
  "bck_inv h fr cs hs \<longleftrightarrow> (\<forall>(i, c) \<in> set cs. backward_end c \<longrightarrow> flags_at h i \<noteq> 0 \<or> i \<in> fr \<or> i \<in> hs)"

lemma chain_invD:
  assumes "chain_inv h fr ps cs"
  shows "links_ok h" "tpend ps i \<le> 1" "0 < tpend ps i \<Longrightarrow> flags_at h i \<noteq> 0"
    "(i, c) \<in> set cs \<Longrightarrow> forward_end c \<Longrightarrow> (flags_at h i \<noteq> 0 \<or> i \<in> fr) \<and> tpend ps i = 0"
    "i \<in> fr \<Longrightarrow> h i = None" "final_ok cs" "fr \<inter> dom h = {}"
  using assms by (auto simp: chain_inv_def)

lemma chain_inv_frame:
  assumes "chain_inv h fr ps cs" "links_ok h'" "fr \<inter> dom h' = {}" "\<And>i. flags_at h' i = flags_at h i"
  shows "chain_inv h' fr ps cs"
  using assms by (simp add: chain_inv_def)

lemma flags_at_free: "flags_at (h(i := None)) k = (if k = i then 0 else flags_at h k)"
  by (simp add: flags_at_def)

lemma tpend_free: "i \<notin> fst ` set ps \<Longrightarrow> tpend ps i = 0"
  by (auto simp: tpend_def filter_empty_conv image_iff split_beta)

lemma chain_inv_free:
  assumes "chain_inv h fr ps cs" "i \<notin> fst ` set ps"
  shows "chain_inv (h(i := None)) (insert i fr) ps cs"
  unfolding chain_inv_def
proof (intro conjI)
  show "links_ok (h(i := None))" using chain_invD(1) [OF assms(1)] by (simp add: links_ok_def)
  show "insert i fr \<inter> dom (h(i := None)) = {}" "final_ok cs" using assms(1) by (auto simp: chain_inv_def)
  show "\<forall>k. tpend ps k \<le> 1 \<and> (0 < tpend ps k \<longrightarrow> flags_at (h(i := None)) k \<noteq> 0)"
    using chain_invD(2,3) [OF assms(1)] tpend_free [OF assms(2)] by (auto simp: flags_at_free)
  show "\<forall>(k, c) \<in> set cs. forward_end c \<longrightarrow> (flags_at (h(i := None)) k \<noteq> 0 \<or> k \<in> insert i fr) \<and> tpend ps k = 0"
    using chain_invD(4) [OF assms(1)] by (fastforce simp: flags_at_free)
qed

lemma issue_flags:
  assumes "links_ok h" "issue dir Op i data h = Some (c, h')"
  shows "k \<noteq> i \<Longrightarrow> flags_at h' k = flags_at h k" "c = Some b \<Longrightarrow> flags_at h i = 0"
    "c = Some b \<Longrightarrow> terminal Op \<Longrightarrow> flags_at h' i \<noteq> 0"
proof -
  note ok = issue_ok [OF assms]
  show "flags_at h' k = flags_at h k" if "k \<noteq> i"
  proof (cases "h' k")
    case None
    then have "h k = None" using ok(2) by (metis domIff)
    with None show ?thesis by (simp add: flags_at_def)
  next
    case (Some lk)
    from ok(3) [OF Some] that Some show ?thesis by (auto simp: flags_at_def)
  qed
  show "c = Some b \<Longrightarrow> flags_at h i = 0" using ok(5) by (fastforce simp: flags_at_def)
  show "c = Some b \<Longrightarrow> terminal Op \<Longrightarrow> flags_at h' i \<noteq> 0"
    using ok(5) flag_caller_stops [of Op 0] by (fastforce simp: flags_at_def flags_ok_def)
qed

lemma chain_inv_call:
  assumes inv: "chain_inv h fr ps cs" and "issue dir Op i data h = Some (Some c, h')"
  shows "chain_inv h' fr ps ((i, c) # cs)" "tpend ps i = 0"
proof -
  note ok = issue_ok [OF chain_invD(1) [OF inv] assms(2)]
  note fl = issue_flags [OF chain_invD(1) [OF inv] assms(2)]
  obtain l where l: "h i = Some l" and c: "c_op c = Op" "c_dir c = dir" using ok(5) [OF refl] by auto
  have f0: "flags_at h i = 0" by (rule fl(2) [OF refl])
  show p: "tpend ps i = 0" using chain_invD(3) [OF inv, of i] f0 by auto
  have nofe: "\<not> forward_end b" if "(i, b) \<in> set cs" for b
    using chain_invD(4) [OF inv that] chain_invD(5) [OF inv, of i] f0 l by auto
  show "chain_inv h' fr ps ((i, c) # cs)"
    unfolding chain_inv_def
  proof (intro conjI)
    show "links_ok h'" by (rule ok(1))
    show "fr \<inter> dom h' = {}" using chain_invD(7) [OF inv] ok(2) by simp
    show "\<forall>k. tpend ps k \<le> 1 \<and> (0 < tpend ps k \<longrightarrow> flags_at h' k \<noteq> 0)"
      using chain_invD(2,3) [OF inv] fl(1) p by (metis less_irrefl)
    show "\<forall>(k, b) \<in> set ((i, c) # cs). forward_end b \<longrightarrow> (flags_at h' k \<noteq> 0 \<or> k \<in> fr) \<and> tpend ps k = 0"
    proof clarify
      fix k b
      assume b: "(k, b) \<in> set ((i, c) # cs)" "forward_end b"
      show "(flags_at h' k \<noteq> 0 \<or> k \<in> fr) \<and> tpend ps k = 0"
      proof (cases "k = i")
        case True
        with b nofe have "b = c" by auto
        with b(2) c True fl(3) [OF refl] p show ?thesis by (simp add: forward_end_def)
      next
        case False
        with b chain_invD(4) [OF inv, of k b] fl(1) show ?thesis by auto
      qed
    qed
    show "final_ok ((i, c) # cs)" using chain_invD(6) [OF inv] nofe by auto
  qed
qed

lemma chain_inv_issue:
  assumes "chain_inv h fr ps cs" "issue dir Op i data h = Some (c, h')"
  shows "chain_inv h' fr ps (log_call i c cs)"
proof (cases c)
  case None
  then show ?thesis using issue_ok(4) [OF chain_invD(1) [OF assms(1)] assms(2)] assms(1)
    by (simp add: log_call_def)
next
  case (Some b)
  then show ?thesis using chain_inv_call(1) [OF assms(1)] assms(2) by (simp add: log_call_def)
qed

lemma chain_inv_push:
  assumes "chain_inv h fr ps ((i, c) # cs)" "tpend ps i = 0" "terminal Op \<Longrightarrow> flags_at h i \<noteq> 0"
    and "\<not> forward_end c" "\<And>b. (i, b) \<in> set cs \<Longrightarrow> \<not> forward_end b"
  shows "chain_inv h fr ((i, Op) # ps) ((i, c) # cs)"
proof -
  have t: "tpend ((i, Op) # ps) k = (if k = i \<and> terminal Op then 1 else tpend ps k)" for k
    using assms(2) by (simp add: tpend_def)
  show ?thesis using assms unfolding chain_inv_def by (simp add: t) fastforce
qed

lemma chain_inv_pop:
  assumes inv: "chain_inv h fr ((i, Op) # ps) cs"
    and "(if terminal Op then clear_flag Op i h else Some h) = Some h1"
  shows "chain_inv h1 fr ps cs"
proof (cases "terminal Op")
  case False
  then have "tpend ((i, Op) # ps) k = tpend ps k" for k by (simp add: tpend_def)
  with assms False show ?thesis by (simp add: chain_inv_def)
next
  case True
  then have t: "tpend ((i, Op) # ps) k = (if k = i then 1 else 0) + tpend ps k" for k by (simp add: tpend_def)
  then have p: "tpend ps i = 0" using chain_invD(2) [OF inv, of i] by simp
  note ok = clear_flag_ok [OF chain_invD(1) [OF inv], of Op i h1]
  have c: "clear_flag Op i h = Some h1" using assms(2) True by simp
  have fk: "flags_at h1 k = flags_at h k" if "k \<noteq> i" for k using ok(3) [OF c that] by (simp add: flags_at_def)
  have ne: "\<not> forward_end b" if "(i, b) \<in> set cs" for b
    using chain_invD(4) [OF inv that] t [of i] by auto
  show ?thesis
    unfolding chain_inv_def
  proof (intro conjI)
    show "links_ok h1" by (rule ok(1) [OF c])
    show "fr \<inter> dom h1 = {}" using chain_invD(7) [OF inv] ok(2) [OF c] by simp
    show "\<forall>k. tpend ps k \<le> 1 \<and> (0 < tpend ps k \<longrightarrow> flags_at h1 k \<noteq> 0)"
    proof (intro allI conjI impI)
      fix k
      show "tpend ps k \<le> 1" using chain_invD(2) [OF inv, of k] t [of k] by simp
      assume k: "0 < tpend ps k"
      with p have "k \<noteq> i" by auto
      with k chain_invD(3) [OF inv, of k] t [of k] fk show "flags_at h1 k \<noteq> 0" by simp
    qed
    show "\<forall>(k, b) \<in> set cs. forward_end b \<longrightarrow> (flags_at h1 k \<noteq> 0 \<or> k \<in> fr) \<and> tpend ps k = 0"
    proof clarify
      fix k b
      assume b: "(k, b) \<in> set cs" "forward_end b"
      with ne have "k \<noteq> i" by auto
      with chain_invD(4) [OF inv b] fk t [of k] show "(flags_at h1 k \<noteq> 0 \<or> k \<in> fr) \<and> tpend ps k = 0" by simp
    qed
    show "final_ok cs" by (rule chain_invD(6) [OF inv])
  qed
qed

lemma bck_inv_issue:
  assumes "links_ok h" "issue dir Op i data h = Some (c, h')" "bck_inv h fr cs hs"
  shows "bck_inv h' fr (log_call i c cs) hs"
proof (cases c)
  case None
  then show ?thesis using issue_ok(4) [OF assms(1,2)] assms(3) by (simp add: log_call_def)
next
  case (Some b)
  note fl = issue_flags [OF assms(1,2)]
  show ?thesis
    unfolding bck_inv_def
  proof clarify
    fix k b'
    assume k: "(k, b') \<in> set (log_call i c cs)" "backward_end b'" and n: "k \<notin> hs" "k \<notin> fr" and z: "flags_at h' k = 0"
    show False
    proof (cases "(k, b') \<in> set cs")
      case True
      then have h: "flags_at h k \<noteq> 0" using assms(3) k(2) n by (fastforce simp: bck_inv_def)
      then have "k \<noteq> i" using fl(2) [OF Some] by auto
      with fl(1) h z show False by simp
    next
      case False
      then have "k = i" "b' = b" using k(1) Some by (auto simp: log_call_def)
      moreover have "terminal Op" using k(2) \<open>b' = b\<close> issue_ok(5) [OF assms(1,2) Some] by (simp add: backward_end_def)
      ultimately show False using fl(3) [OF Some] z by simp
    qed
  qed
qed

text \<open>The end of \<^verbatim>\<open>a_Chain_bfcb\<close>: the forward call sets the flag again, or the link is recorded.\<close>

lemma bck_inv_finish:
  assumes "links_ok h" "bck_inv h fr cs hs" "(if terminal Op then clear_flag Op i h else Some h) = Some h1"
    and "issue FWD Op i data h1 = Some (c, h')"
  shows "bck_inv h' fr (log_call i c cs) (if terminal Op \<and> c = None then insert i hs else hs)"
proof (cases "terminal Op")
  case False
  then show ?thesis using bck_inv_issue [of h FWD Op i data c h' fr cs hs] assms by simp
next
  case True
  then have cl: "clear_flag Op i h = Some h1" using assms(3) by simp
  note ok = clear_flag_ok [OF assms(1) cl]
  note fl = issue_flags [OF ok(1) assms(4)]
  have fk: "flags_at h' k = flags_at h k" if "k \<noteq> i" for k
    using fl(1) [OF that] ok(3) [OF that] by (simp add: flags_at_def)
  have fi: "flags_at h' i \<noteq> 0" if "c \<noteq> None" using fl(3) that True by auto
  have nb: "\<not> backward_end b" if "c = Some b" for b
    using issue_ok(5) [OF ok(1) assms(4) that] by (simp add: backward_end_def)
  show ?thesis
    unfolding bck_inv_def
  proof clarify
    fix k b
    assume k: "(k, b) \<in> set (log_call i c cs)" "backward_end b" "k \<notin> fr"
      and n: "k \<notin> (if terminal Op \<and> c = None then insert i hs else hs)" and z: "flags_at h' k = 0"
    have "k \<noteq> i" using n z fi True by (cases c) auto
    moreover have "(k, b) \<in> set cs" using k(1,2) nb by (cases c) (auto simp: log_call_def)
    ultimately have "flags_at h k \<noteq> 0" using assms(2) k(2,3) n
      by (cases c) (fastforce simp: bck_inv_def True)+
    with fk z \<open>k \<noteq> i\<close> show False by simp
  qed
qed

lemma bck_inv_free: "bck_inv h fr cs hs \<Longrightarrow> bck_inv (h(i := None)) (insert i fr) cs hs"
  by (fastforce simp: bck_inv_def flags_at_free)

definition state_inv :: "('f, 'd) chain_state \<Rightarrow> bool" where
  "state_inv s \<longleftrightarrow> chain_inv (links s) (freed s) (pend s) (calls s) \<and> partners_ok (links s) (calls s)
     \<and> bck_inv (links s) (freed s) (calls s) (half_ended s)"

lemma state_inv_frame:
  assumes "state_inv s" "links_ok h" "freed s \<inter> dom h = {}" "\<And>i. flags_at h i = flags_at (links s) i"
    and "partners_ok h (calls s)"
  shows "state_inv (s\<lparr>links := h\<rparr>)"
  using assms chain_inv_frame [of "links s" "freed s" "pend s" "calls s" h] by (simp add: state_inv_def bck_inv_def)

lemma chain_step_inv:
  assumes "chain_step s s'" "state_inv s"
  shows "state_inv s'"
proof -
  have inv: "chain_inv (links s) (freed s) (pend s) (calls s)" "partners_ok (links s) (calls s)"
      "bck_inv (links s) (freed s) (calls s) (half_ended s)"
    using assms(2) by (simp_all add: state_inv_def)
  note lok = chain_invD(1) [OF inv(1)] and fr = chain_invD(7) [OF inv(1)]
  from assms(1) show ?thesis
  proof cases
    case (new n)
    have "partners_ok ((links s)(n \<mapsto> a_Chain_new)) (calls s)"
      by (rule partners_ok_mono [OF inv(2)]) (auto simp: a_Chain_new_def split: if_splits)
    then show ?thesis unfolding new(1)
      by (rule state_inv_frame [OF assms(2) links_ok_upd [OF lok link_ok_new], rotated 2])
        (use new fr in \<open>auto simp: flags_at_def a_Chain_new_def\<close>)
  next
    case (link n a f d g x y h)
    note ok = a_Chain_link_new_ok [OF lok link(2,4)]
    have "flags_at h i = flags_at (links s) i" for i
    proof (cases "links s i")
      case (Some l)
      from ok(3) [OF this] Some show ?thesis by (auto simp: flags_at_def)
    next
      case None
      with ok(4) [OF None] show ?thesis by (cases "h i") (auto simp: flags_at_def)
    qed
    moreover have "freed s \<inter> dom h = {}" using ok(2) fr link(3) by auto
    ultimately show ?thesis unfolding link(1)
      using state_inv_frame [OF assms(2) ok(1) _ _ ok(5) [OF inv(2)]] by simp
  next
    case (unlink i d h)
    note ok = a_Chain_unlink_ok [OF lok unlink(2)]
    have "flags_at h k = flags_at (links s) k" for k
    proof (cases "h k")
      case (Some l)
      from ok(3) [OF this] Some show ?thesis by (auto simp: flags_at_def)
    next
      case None
      then have "links s k = None" using ok(2) by (metis domIff)
      with None show ?thesis by (simp add: flags_at_def)
    qed
    moreover have "partners_ok h (calls s)"
      by (rule partners_ok_same [OF inv(2) ok(2)]) (use ok(3) in fastforce)+
    ultimately show ?thesis unfolding unlink(1)
      by (intro state_inv_frame [OF assms(2) ok(1)]) (use ok(2) fr in auto)
  next
    case (free i)
    then have "i \<notin> fst ` set (pend s)" by (simp add: may_free_def)
    with chain_inv_free [OF inv(1)] partners_ok_free [OF inv(2) free(2)] bck_inv_free [OF inv(3)] free(1)
    show ?thesis by (simp add: state_inv_def)
  next
    case (call dir Op i data c h)
    note ok = issue_ok [OF lok call(2)]
    have "partners_ok h (log_call i c (calls s))"
      by (rule partners_ok_same [OF inv(2) ok(2) log_call_mono]) (use ok(3) in fastforce)
    with chain_inv_issue [OF inv(1) call(2)] bck_inv_issue [OF lok call(2) inv(3)] call(1)
    show ?thesis by (simp add: state_inv_def)
  next
    case (bf_start Op i data c h)
    note i = chain_inv_call [OF inv(1) bf_start(2)] and ok = issue_ok [OF lok bf_start(2)]
    have c: "c_dir c = BCK" using ok(5) [OF refl] by simp
    have "\<not> forward_end b" if "(i, b) \<in> set (calls s)" for b
      using chain_invD(6) [OF i(1)] that by auto
    with chain_inv_push [OF i] issue_flags(3) [OF lok bf_start(2) refl] c
    have "chain_inv h (freed s) ((i, Op) # pend s) ((i, c) # calls s)" by (simp add: forward_end_def)
    moreover have "partners_ok h ((i, c) # calls s)"
      by (rule partners_ok_same [OF inv(2) ok(2)]) (use ok(3) in fastforce)+
    moreover have "bck_inv h (freed s) ((i, c) # calls s) (half_ended s)"
      using bck_inv_issue [OF lok bf_start(2) inv(3)] by (simp add: log_call_def)
    ultimately show ?thesis using bf_start(1) by (simp add: state_inv_def)
  next
    case (bf_finish i Op ps h1 data c h)
    have 1: "chain_inv h1 (freed s) ps (calls s)"
      using chain_inv_pop [of "links s" "freed s" i Op ps "calls s" h1] inv(1) bf_finish(2,3) by simp
    have "partners_ok h1 (calls s)"
    proof (cases "terminal Op")
      case True
      then have "clear_flag Op i (links s) = Some h1" using bf_finish(3) by simp
      note cl = clear_flag_ok [OF lok this]
      show ?thesis by (rule partners_ok_same [OF inv(2) cl(2)]) (use cl(4) in fastforce)+
    qed (use bf_finish(3) inv(2) in simp)
    moreover note ok = issue_ok [OF chain_invD(1) [OF 1] bf_finish(4)]
    ultimately have "partners_ok h (log_call i c (calls s))"
      by (intro partners_ok_same [OF _ ok(2) log_call_mono]) (use ok(3) in fastforce)+
    with chain_inv_issue [OF 1 bf_finish(4)] bck_inv_finish [OF lok inv(3) bf_finish(3,4)] bf_finish(1)
    show ?thesis by (simp add: state_inv_def)
  qed
qed

lemma chain_reachable_inv: "chain_reachable s \<Longrightarrow> state_inv s"
proof (induction rule: chain_reachable.induct)
  case init
  then show ?case by (simp add: state_inv_def chain_inv_def links_ok_def tpend_def partners_ok_def bck_inv_def)
next
  case (step s s')
  then show ?case using chain_step_inv by blast
qed

lemma final_ok_split:
  "final_ok (newer @ (i, c) # older) \<Longrightarrow> forward_end c \<Longrightarrow> i \<notin> fst ` set newer"
proof (induction newer)
  case (Cons a newer)
  obtain j c' where a: "a = (j, c')" by (cases a)
  have "i \<notin> fst ` set newer" using Cons a by simp
  moreover have "i \<noteq> j" using Cons.prems a by auto
  ultimately show ?case using a by simp
qed simp

text \<open>An operative link that \<^verbatim>\<open>a_Chain_bfcb\<close> has not half ended has made no call that ends the chain, so
  its partners are allocated.\<close>

lemma operative_partners:
  assumes "state_inv s" "links s i = Some l" "operative l"
  shows "FcbInfo l = Some j \<Longrightarrow> links s j \<noteq> None"
    "i \<notin> half_ended s \<Longrightarrow> BcbInfo l = Some j \<Longrightarrow> links s j \<noteq> None"
proof -
  have inv: "chain_inv (links s) (freed s) (pend s) (calls s)" "partners_ok (links s) (calls s)"
      "bck_inv (links s) (freed s) (calls s) (half_ended s)"
    using assms(1) by (simp_all add: state_inv_def)
  have "link_ok l" by (rule links_okD [OF chain_invD(1) [OF inv(1)] assms(2)])
  then have f: "flags_at (links s) i = 0" using assms(2,3) operative_iff [of l] by (simp add: flags_at_def link_ok_def)
  have nf: "i \<notin> freed s" using chain_invD(5) [OF inv(1)] assms(2) by fastforce
  show "links s j \<noteq> None" if "FcbInfo l = Some j"
    using partners_okD(1) [OF inv(2) assms(2) that] chain_invD(4) [OF inv(1), of i] f nf
    by (fastforce simp: ended_on_def forward_end_def)
  show "links s j \<noteq> None" if "i \<notin> half_ended s" "BcbInfo l = Some j"
    using partners_okD(2) [OF inv(2) assms(2) that(2)] inv(3) f nf that(1)
    by (fastforce simp: ended_on_def backward_end_def bck_inv_def)
qed

text \<open>
  C33: whatever the modules do, in whatever order and however deep their callbacks nest, links being
  freed included (a module frees a link once every link that still points to it has ended or aborted
  the chain on it, and not in the middle of an \<^verbatim>\<open>a_Chain_bfcb\<close> on it), the chain stays well typed: a link
  has a callback in a direction exactly when it has a partner there, and a link that is operative has
  only partners that are allocated, so no callback is ever given a freed link. The one exception is a
  link on which \<^verbatim>\<open>a_Chain_bfcb\<close> ended the chain backwards and then found no forward callback: the flag was
  cleared, and its backward partner may be freed.\<close>

theorem Chain_well_typed:
  assumes "chain_reachable s" "links s i = Some l"
  shows "(Fcb l = None \<longleftrightarrow> FcbInfo l = None) \<and> (Bcb l = None \<longleftrightarrow> BcbInfo l = None)
    \<and> (operative l \<longrightarrow> FcbInfo l \<in> insert None (Some ` dom (links s))
         \<and> (i \<in> half_ended s \<or> BcbInfo l \<in> insert None (Some ` dom (links s))))"
proof -
  have inv: "state_inv s" by (rule chain_reachable_inv [OF assms(1)])
  then have "links_ok (links s)" by (simp add: state_inv_def chain_inv_def)
  then have "link_ok l" using links_okD assms(2) by blast
  moreover note operative_partners [OF inv assms(2)]
  ultimately show ?thesis
    by (cases "FcbInfo l"; cases "BcbInfo l") (auto simp: link_ok_def dom_def)
qed

text \<open>
  C34: the end or the abort of a chain is final: once a link has passed it forwards, no further call
  is ever made from that link, in either direction.\<close>

theorem Chain_forward_end_is_final:
  assumes "chain_reachable s" "calls s = newer @ (i, c) # older" "c_dir c = FWD" "terminal (c_op c)"
  shows "i \<notin> fst ` set newer"
  using final_ok_split [of newer i c older] chain_reachable_inv [OF assms(1)] assms(2-4)
  by (simp add: forward_end_def state_inv_def chain_inv_def)

text \<open>An example: link 0 is linked forwards to 1 and ends the chain, 1 is freed, and a second chain
  is linked, from 2 to 3.\<close>

definition sample_links :: "string links" where
  "sample_links = [0 \<mapsto> a_Chain_new\<lparr>Flags := CCC_Ended, Fcb := Some ''B'', FcbInfo := Some 1, FcbBranch := 1\<rparr>,
     1 \<mapsto> a_Chain_new\<lparr>Bcb := Some ''A'', BcbInfo := Some 0, BcbBranch := 2\<rparr>]"

definition sample_call :: "(string, unit) call" where
  "sample_call = \<lparr>c_func = ''B'', c_op = OpEnd, c_branch = 1, c_dir = FWD, c_info = Some 1, c_data = ((), ())\<rparr>"

definition sample_chain :: "(string, unit) chain_state" where
  "sample_chain = \<lparr>links = sample_links, freed = {}, pend = [], calls = [(0, sample_call)], half_ended = {}\<rparr>"

definition sample_freed :: "(string, unit) chain_state" where
  "sample_freed = sample_chain\<lparr>links := sample_links(1 := None,
      3 \<mapsto> a_Chain_new\<lparr>Bcb := Some ''A'', BcbInfo := Some 2, BcbBranch := 2\<rparr>,
      2 \<mapsto> a_Chain_new\<lparr>Fcb := Some ''B'', FcbInfo := Some 3, FcbBranch := 1\<rparr>), freed := {1}\<rparr>"

lemma sample_reachable: "chain_reachable sample_chain"
proof -
  let ?h1 = "[0 \<mapsto> a_Chain_new] :: string links"
  let ?h2 = "[1 \<mapsto> a_Chain_new\<lparr>Bcb := Some ''A'', BcbInfo := Some 0, BcbBranch := 2\<rparr>,
     0 \<mapsto> a_Chain_new\<lparr>Fcb := Some ''B'', FcbInfo := Some 1, FcbBranch := 1\<rparr>] :: string links"
  let ?s0 = "\<lparr>links = (\<lambda>_. None), freed = {}, pend = [], calls = [], half_ended = {}\<rparr> :: (string, unit) chain_state"
  let ?s1 = "?s0\<lparr>links := ?h1\<rparr>"
  let ?s2 = "?s0\<lparr>links := ?h2\<rparr>"
  have "chain_step ?s0 ?s1" using chain_step.new [of ?s0 0] by simp
  moreover have "chain_step ?s1 ?s2"
    using chain_step.link [of ?s1 1 0 "''A''" FWD "''B''" 1 2 ?h2] by (simp add: a_Chain_link_new_def)
  moreover have "issue FWD OpEnd 0 ((), ()) ?h2 = Some (Some sample_call, sample_links)"
    by (auto simp: issue_def a_Chain_new_def sample_call_def sample_links_def flag_caller_def)
  then have "chain_step ?s2 sample_chain"
    using chain_step.call [of FWD OpEnd 0 "((), ())" ?s2 "Some sample_call" sample_links]
    by (simp add: sample_chain_def log_call_def)
  ultimately show ?thesis using chain_reachable.intros by metis
qed

lemma sample_may_free: "may_free sample_chain 1"
  by (simp add: may_free_def ended_on_def sample_chain_def sample_links_def sample_call_def a_Chain_new_def terminal_def)

lemma sample_freed_reachable: "chain_reachable sample_freed"
proof -
  let ?s1 = "sample_chain\<lparr>links := sample_links(1 := None), freed := {1}\<rparr>"
  let ?s2 = "sample_chain\<lparr>links := sample_links(1 := None, 2 \<mapsto> a_Chain_new), freed := {1}\<rparr>"
  have "chain_step sample_chain ?s1"
    using chain_step.free [OF sample_may_free] by (simp add: sample_chain_def)
  moreover have "chain_step ?s1 ?s2" using chain_step.new [of ?s1 2] by (simp add: sample_links_def sample_chain_def)
  moreover have "chain_step ?s2 sample_freed"
    using chain_step.link [of ?s2 3 2 "''A''" FWD "''B''" 1 2 "links sample_freed"]
    by (simp add: a_Chain_link_new_def sample_links_def sample_freed_def sample_chain_def fun_upd_twist)
  ultimately show ?thesis using sample_reachable chain_reachable.step by metis
qed

lemma sample_link_2: "links sample_freed 2 =
    Some (a_Chain_new\<lparr>Fcb := Some ''B'', FcbInfo := Some 3, FcbBranch := 1\<rparr>)"
  by (simp add: sample_freed_def)

theorem Chain_well_typed_witness:
  "let l = a_Chain_new\<lparr>Fcb := Some ''B'', FcbInfo := Some 3, FcbBranch := 1\<rparr> in
    (Fcb l = None \<longleftrightarrow> FcbInfo l = None) \<and> links sample_freed 1 = None
    \<and> FcbInfo l \<in> insert None (Some ` dom (links sample_freed))"
proof -
  have "operative (a_Chain_new\<lparr>Fcb := Some ''B'', FcbInfo := Some (3 :: addr), FcbBranch := 1\<rparr>)"
    by (simp add: operative_def a_Chain_new_def)
  moreover have "links sample_freed 1 = None" by (simp add: sample_freed_def)
  ultimately show ?thesis unfolding Let_def
    using Chain_well_typed [OF sample_freed_reachable sample_link_2] by blast
qed

theorem Chain_forward_end_is_final_witness: "0 \<notin> fst ` set ([] :: (addr \<times> (string, unit) call) list)"
  by (rule Chain_forward_end_is_final [OF sample_reachable, of "[]" 0 sample_call "[]"])
    (simp_all add: sample_chain_def sample_call_def terminal_def)

text \<open>The flag of an abort is cleared between the two calls of \<^verbatim>\<open>a_Chain_bfcb\<close>. When the link has no
  forward partner it stays clear, and the link is operative after it was aborted.\<close>

lemma Chain_abort_without_forward:
  assumes "h i = Some l" "Flags l = 0" "Bcb l = Some f" "Fcb l = None"
    and "\<And>c h'. run c h' = h'"
  shows "\<exists>h' l'. a_Chain_bfcb run OpAbort i data h = Some (0, h') \<and> h' i = Some l' \<and> operative l'"
  using assms by (simp add: a_Chain_bfcb_def a_Chain_bcb_def a_Chain_fcb_def issue_def clear_flag_def
      flag_caller_def unflag_caller_def chain_consts operative_def)

text \<open>The exception of the theorem on types is reachable: link 0 is aborted by \<^verbatim>\<open>a_Chain_bfcb\<close>, its
  backward partner is freed, and a backward call from 0 is then given the freed link.\<close>

lemma Chain_half_ended_dangling:
  "\<exists>(s :: (string, unit) chain_state) c h. chain_reachable s \<and> 0 \<in> half_ended s
     \<and> issue BCK OpSend 0 ((), ()) (links s) = Some (Some c, h) \<and> c_info c = Some 1 \<and> links s 1 = None"
proof -
  let ?l0 = "a_Chain_new\<lparr>Bcb := Some ''B'', BcbInfo := Some 1, BcbBranch := 1\<rparr>"
  let ?l1 = "a_Chain_new\<lparr>Fcb := Some ''A'', FcbInfo := Some 0, FcbBranch := 1\<rparr>"
  let ?h1 = "[0 \<mapsto> a_Chain_new] :: string links"
  let ?h2 = "[1 \<mapsto> ?l1, 0 \<mapsto> ?l0] :: string links"
  let ?h3 = "[1 \<mapsto> ?l1, 0 \<mapsto> ?l0\<lparr>Flags := CCC_Aborted\<rparr>] :: string links"
  let ?h4 = "[0 \<mapsto> ?l0\<lparr>Flags := CCC_Aborted\<rparr>] :: string links"
  let ?c = "\<lparr>c_func = ''B'', c_op = OpAbort, c_branch = 1, c_dir = BCK, c_info = Some 1, c_data = ((), ())\<rparr> :: (string, unit) call"
  let ?s0 = "\<lparr>links = (\<lambda>_. None), freed = {}, pend = [], calls = [], half_ended = {}\<rparr> :: (string, unit) chain_state"
  let ?s1 = "?s0\<lparr>links := ?h1\<rparr>" and ?s2 = "?s0\<lparr>links := ?h2\<rparr>"
  let ?s3 = "?s0\<lparr>links := ?h3, pend := [(0, OpAbort)], calls := [(0, ?c)]\<rparr>"
  let ?s4 = "?s0\<lparr>links := ?h4, freed := {1}, pend := [(0, OpAbort)], calls := [(0, ?c)]\<rparr>"
  let ?s5 = "?s0\<lparr>links := [0 \<mapsto> ?l0], freed := {1}, calls := [(0, ?c)], half_ended := {0}\<rparr>"
  have "chain_step ?s0 ?s1" using chain_step.new [of ?s0 0] by simp
  moreover have "chain_step ?s1 ?s2"
    using chain_step.link [of ?s1 1 0 "''A''" BCK "''B''" 1 1 ?h2] by (simp add: a_Chain_link_new_def)
  moreover have "chain_step ?s2 ?s3"
    using chain_step.bf_start [of OpAbort 0 "((), ())" ?s2 ?c ?h3]
    by (simp add: issue_def a_Chain_new_def flag_caller_def chain_consts)
  moreover have "may_free ?s3 1"
    by (simp add: may_free_def ended_on_def a_Chain_new_def terminal_def)
  then have "chain_step ?s3 ?s4"
    using chain_step.free [of ?s3 1] by (simp add: fun_upd_twist)
  moreover have "chain_step ?s4 ?s5"
    using chain_step.bf_finish [of ?s4 0 OpAbort "[]" "[0 \<mapsto> ?l0]" "((), ())" None "[0 \<mapsto> ?l0]"]
    by (simp add: issue_def clear_flag_def unflag_caller_def terminal_def log_call_def a_Chain_new_def chain_consts)
  ultimately have "chain_reachable ?s5" using chain_reachable.intros by metis
  moreover have "issue BCK OpSend 0 ((), ()) (links ?s5) = Some (Some (?c\<lparr>c_op := OpSend\<rparr>), links ?s5)"
    by (simp add: issue_def a_Chain_new_def flag_caller_def OpSend_def chain_consts)
  ultimately show ?thesis by (intro exI [of _ ?s5]) auto
qed

text \<open>The flag is set before the module is called: during the last call from a link, an operation
  on that link finds it inoperative.\<close>

lemma Chain_reentrant_call_refused:
  assumes "links_ok h" "issue dir Op i data h = Some (Some c, h')" "terminal Op"
  shows "issue dir' Op' i data' h' = Some (None, h')"
proof -
  note ok = issue_ok [OF assms(1,2)]
  from ok(5) [OF refl] obtain l' where l: "h' i = Some l'" "Flags l' = flag_caller Op 0" by fastforce
  have "flag_caller Op 0 AND (CCC_Ended + CCC_Aborted) \<noteq> 0"
    using assms(3) by (auto simp: flag_caller_def terminal_def chain_consts)
  with l show ?thesis by (simp add: issue_def)
qed

end
