(* ===== verification/Md5.thy ===== *)
theory Md5
  imports Prelude
begin

text \<open>
  The MD5 digest of \<^verbatim>\<open>dillo/src/md5.c\<close>, which the authentication of the browser uses. Words and
  bytes are words of 32 and 8 bits, the \<open>SET\<close> macros are operations on a tuple of registers, and
  the incremental interface keeps the struct of the code. It is proved equal to the algorithm of
  RFC 1321 on the whole message, in whatever pieces the message is appended.
\<close>

unbundle bit_operations_syntax

type_synonym md5_byte = "8 word"
type_synonym md5_word = "32 word"
type_synonym md5_regs = "md5_word \<times> md5_word \<times> md5_word \<times> md5_word"

section \<open>The compression function\<close>

definition T_MASK :: md5_word where "T_MASK = NOT 0"

definition md5_T :: "md5_word list" where
  "md5_T = [T_MASK XOR 0x28955b87, T_MASK XOR 0x173848a9, 0x242070db, T_MASK XOR 0x3e423111,
   T_MASK XOR 0x0a83f050, 0x4787c62a, T_MASK XOR 0x57cfb9ec, T_MASK XOR 0x02b96afe,
   0x698098d8, T_MASK XOR 0x74bb0850, T_MASK XOR 0x0000a44e, T_MASK XOR 0x76a32841,
   0x6b901122, T_MASK XOR 0x02678e6c, T_MASK XOR 0x5986bc71, 0x49b40821,
   T_MASK XOR 0x09e1da9d, T_MASK XOR 0x3fbf4cbf, 0x265e5a51, T_MASK XOR 0x16493855,
   T_MASK XOR 0x29d0efa2, 0x02441453, T_MASK XOR 0x275e197e, T_MASK XOR 0x182c0437,
   0x21e1cde6, T_MASK XOR 0x3cc8f829, T_MASK XOR 0x0b2af278, 0x455a14ed,
   T_MASK XOR 0x561c16fa, T_MASK XOR 0x03105c07, 0x676f02d9, T_MASK XOR 0x72d5b375,
   T_MASK XOR 0x0005c6bd, T_MASK XOR 0x788e097e, 0x6d9d6122, T_MASK XOR 0x021ac7f3,
   T_MASK XOR 0x5b4115bb, 0x4bdecfa9, T_MASK XOR 0x0944b49f, T_MASK XOR 0x4140438f,
   0x289b7ec6, T_MASK XOR 0x155ed805, T_MASK XOR 0x2b10cf7a, 0x04881d05,
   T_MASK XOR 0x262b2fc6, T_MASK XOR 0x1924661a, 0x1fa27cf8, T_MASK XOR 0x3b53a99a,
   T_MASK XOR 0x0bd6ddbb, 0x432aff97, T_MASK XOR 0x546bdc58, T_MASK XOR 0x036c5fc6,
   0x655b59c3, T_MASK XOR 0x70f3336d, T_MASK XOR 0x00100b82, T_MASK XOR 0x7a7ba22e,
   0x6fa87e4f, T_MASK XOR 0x01d3191f, T_MASK XOR 0x5cfebceb, 0x4e0811a1,
   T_MASK XOR 0x08ac817d, T_MASK XOR 0x42c50dca, 0x2ad7d2bb, T_MASK XOR 0x14792c6e]"

definition ROTATE_LEFT :: "md5_word \<Rightarrow> nat \<Rightarrow> md5_word" where
  "ROTATE_LEFT x n = push_bit n x OR drop_bit (32 - n) x"

definition md5_F :: "md5_word \<Rightarrow> md5_word \<Rightarrow> md5_word \<Rightarrow> md5_word" where
  "md5_F x y z = (x AND y) OR (NOT x AND z)"

definition md5_G :: "md5_word \<Rightarrow> md5_word \<Rightarrow> md5_word \<Rightarrow> md5_word" where
  "md5_G x y z = (x AND z) OR (y AND NOT z)"

definition md5_H :: "md5_word \<Rightarrow> md5_word \<Rightarrow> md5_word \<Rightarrow> md5_word" where
  "md5_H x y z = x XOR y XOR z"

definition md5_I :: "md5_word \<Rightarrow> md5_word \<Rightarrow> md5_word \<Rightarrow> md5_word" where
  "md5_I x y z = y XOR (x OR NOT z)"

text \<open>The macro \<open>SET(a, b, c, d, k, s, Ti)\<close>, with the function of the round: the new value of its
  first argument.\<close>

definition md5_SET :: "(md5_word \<Rightarrow> md5_word \<Rightarrow> md5_word \<Rightarrow> md5_word) \<Rightarrow> md5_word list
    \<Rightarrow> md5_word \<Rightarrow> md5_word \<Rightarrow> md5_word \<Rightarrow> md5_word \<Rightarrow> nat \<Rightarrow> nat \<Rightarrow> nat \<Rightarrow> md5_word" where
  "md5_SET f X a b c d k s i = (let t = a + f b c d + X ! k + md5_T ! (i - 1) in ROTATE_LEFT t s + b)"

datatype md5_reg = Reg_a | Reg_b | Reg_c | Reg_d

text \<open>A line of a round: the register it assigns (the others are arguments in cyclic order) with
  \<open>k\<close>, \<open>s\<close> and the index of the constant.\<close>

fun md5_line :: "(md5_word \<Rightarrow> md5_word \<Rightarrow> md5_word \<Rightarrow> md5_word) \<Rightarrow> md5_word list
    \<Rightarrow> md5_reg \<times> nat \<times> nat \<times> nat \<Rightarrow> md5_regs \<Rightarrow> md5_regs" where
  "md5_line f X (Reg_a, k, s, i) (a, b, c, d) = (md5_SET f X a b c d k s i, b, c, d)"
| "md5_line f X (Reg_d, k, s, i) (a, b, c, d) = (a, b, c, md5_SET f X d a b c k s i)"
| "md5_line f X (Reg_c, k, s, i) (a, b, c, d) = (a, b, md5_SET f X c d a b k s i, d)"
| "md5_line f X (Reg_b, k, s, i) (a, b, c, d) = (a, md5_SET f X b c d a k s i, c, d)"

definition md5_round1 :: "md5_word list \<Rightarrow> md5_regs \<Rightarrow> md5_regs" where
  "md5_round1 X = fold (md5_line md5_F X)
  [(Reg_a, 0, 7, 1), (Reg_d, 1, 12, 2), (Reg_c, 2, 17, 3), (Reg_b, 3, 22, 4),
   (Reg_a, 4, 7, 5), (Reg_d, 5, 12, 6), (Reg_c, 6, 17, 7), (Reg_b, 7, 22, 8),
   (Reg_a, 8, 7, 9), (Reg_d, 9, 12, 10), (Reg_c, 10, 17, 11), (Reg_b, 11, 22, 12),
   (Reg_a, 12, 7, 13), (Reg_d, 13, 12, 14), (Reg_c, 14, 17, 15), (Reg_b, 15, 22, 16)]"

definition md5_round2 :: "md5_word list \<Rightarrow> md5_regs \<Rightarrow> md5_regs" where
  "md5_round2 X = fold (md5_line md5_G X)
  [(Reg_a, 1, 5, 17), (Reg_d, 6, 9, 18), (Reg_c, 11, 14, 19), (Reg_b, 0, 20, 20),
   (Reg_a, 5, 5, 21), (Reg_d, 10, 9, 22), (Reg_c, 15, 14, 23), (Reg_b, 4, 20, 24),
   (Reg_a, 9, 5, 25), (Reg_d, 14, 9, 26), (Reg_c, 3, 14, 27), (Reg_b, 8, 20, 28),
   (Reg_a, 13, 5, 29), (Reg_d, 2, 9, 30), (Reg_c, 7, 14, 31), (Reg_b, 12, 20, 32)]"

definition md5_round3 :: "md5_word list \<Rightarrow> md5_regs \<Rightarrow> md5_regs" where
  "md5_round3 X = fold (md5_line md5_H X)
  [(Reg_a, 5, 4, 33), (Reg_d, 8, 11, 34), (Reg_c, 11, 16, 35), (Reg_b, 14, 23, 36),
   (Reg_a, 1, 4, 37), (Reg_d, 4, 11, 38), (Reg_c, 7, 16, 39), (Reg_b, 10, 23, 40),
   (Reg_a, 13, 4, 41), (Reg_d, 0, 11, 42), (Reg_c, 3, 16, 43), (Reg_b, 6, 23, 44),
   (Reg_a, 9, 4, 45), (Reg_d, 12, 11, 46), (Reg_c, 15, 16, 47), (Reg_b, 2, 23, 48)]"

definition md5_round4 :: "md5_word list \<Rightarrow> md5_regs \<Rightarrow> md5_regs" where
  "md5_round4 X = fold (md5_line md5_I X)
  [(Reg_a, 0, 6, 49), (Reg_d, 7, 10, 50), (Reg_c, 14, 15, 51), (Reg_b, 5, 21, 52),
   (Reg_a, 12, 6, 53), (Reg_d, 3, 10, 54), (Reg_c, 10, 15, 55), (Reg_b, 1, 21, 56),
   (Reg_a, 8, 6, 57), (Reg_d, 15, 10, 58), (Reg_c, 6, 15, 59), (Reg_b, 13, 21, 60),
   (Reg_a, 4, 6, 61), (Reg_d, 11, 10, 62), (Reg_c, 2, 15, 63), (Reg_b, 9, 21, 64)]"

text \<open>The 16 words of a block: little endian, read in place or arranged, with the same result.\<close>

definition le_word :: "md5_byte list \<Rightarrow> nat \<Rightarrow> md5_word" where
  "le_word p i = ucast (p ! i) + push_bit 8 (ucast (p ! (i + 1))) + push_bit 16 (ucast (p ! (i + 2)))
     + push_bit 24 (ucast (p ! (i + 3)))"

definition md5_xbuf :: "md5_byte list \<Rightarrow> md5_word list" where
  "md5_xbuf xp = map (\<lambda>i. le_word xp (4 * i)) [0..<16]"

definition md5_compress :: "md5_regs \<Rightarrow> md5_byte list \<Rightarrow> md5_regs" where
  "md5_compress abcd block =
     (let X = md5_xbuf block;
          (a, b, c, d) = md5_round4 X (md5_round3 X (md5_round2 X (md5_round1 X abcd)))
      in case abcd of (a0, b0, c0, d0) \<Rightarrow> (a0 + a, b0 + b, c0 + c, d0 + d))"

section \<open>The incremental interface\<close>

record md5_state =
  md5_count0 :: md5_word
  md5_count1 :: md5_word
  md5_abcd :: md5_regs
  md5_buf :: "md5_byte list"

definition md5_process :: "md5_state \<Rightarrow> md5_byte list \<Rightarrow> md5_state" where
  "md5_process pms block = pms\<lparr>md5_abcd := md5_compress (md5_abcd pms) block\<rparr>"

definition md5_init :: "md5_state \<Rightarrow> md5_state" where
  "md5_init pms = pms\<lparr>md5_count0 := 0, md5_count1 := 0,
     md5_abcd := (0x67452301, T_MASK XOR 0x10325476, T_MASK XOR 0x67452301, 0x10325476)\<rparr>"

text \<open>\<open>memcpy(buf + offset, p, n)\<close>.\<close>

definition buf_copy :: "md5_byte list \<Rightarrow> nat \<Rightarrow> md5_byte list \<Rightarrow> nat \<Rightarrow> md5_byte list" where
  "buf_copy buf off p n = take off buf @ take n p @ drop (off + n) buf"

function full_blocks :: "md5_state \<Rightarrow> md5_byte list \<Rightarrow> nat \<Rightarrow> md5_state \<times> md5_byte list \<times> nat" where
  "full_blocks pms p left =
     (if 64 \<le> left then full_blocks (md5_process pms (take 64 p)) (drop 64 p) (left - 64)
      else (pms, p, left))"
  by pat_completeness auto
termination by (relation "measure (\<lambda>(pms, p, left). left)") auto

declare full_blocks.simps [simp del]

text \<open>\<open>None\<close>: the left shift of the \<open>int\<close> length overflows or is of a negative number, which is undefined.\<close>

definition md5_append :: "md5_state \<Rightarrow> md5_byte list \<Rightarrow> int \<Rightarrow> md5_state option" where
  "md5_append pms data nbytes =
     (if nbytes < 0 \<or> 268435456 \<le> nbytes then None
      else if nbytes \<le> 0 then Some pms
      else
        let offset = unat (drop_bit 3 (md5_count0 pms) AND 63);
            nbits = word_of_int (nbytes * 8);
            count1 = md5_count1 pms + word_of_int (drop_bit 29 nbytes);
            count0 = md5_count0 pms + nbits;
            pms1 = pms\<lparr>md5_count0 := count0, md5_count1 := (if count0 < nbits then count1 + 1 else count1)\<rparr>;
            n = nat nbytes;
            copy = (if 0 < offset then (if 64 < offset + n then 64 - offset else n) else 0);
            pms2 = (if 0 < offset then pms1\<lparr>md5_buf := buf_copy (md5_buf pms1) offset data copy\<rparr> else pms1)
        in if 0 < offset \<and> offset + copy < 64 then Some pms2
           else
             let pms3 = (if 0 < offset then md5_process pms2 (md5_buf pms2) else pms2);
                 (pms4, p, left) = full_blocks pms3 (drop copy data) (n - copy)
             in Some (if 0 < left then pms4\<lparr>md5_buf := buf_copy (md5_buf pms4) 0 p left\<rparr> else pms4))"

definition le_bytes :: "md5_word \<Rightarrow> md5_byte list" where
  "le_bytes w = map (\<lambda>i. ucast (drop_bit (8 * i) w)) [0..<4]"

definition md5_padding :: "md5_byte list" where
  "md5_padding = 0x80 # replicate 63 0"

definition md5_finish :: "md5_state \<Rightarrow> (md5_state \<times> md5_byte list) option" where
  "md5_finish pms =
     (let data = le_bytes (md5_count0 pms) @ le_bytes (md5_count1 pms);
          n = uint ((55 - drop_bit 3 (md5_count0 pms)) AND 63) + 1
      in Option.bind (md5_append pms md5_padding n)
           (\<lambda>pms1. Option.bind (md5_append pms1 data 8)
             (\<lambda>pms2. case md5_abcd pms2 of (a, b, c, d) \<Rightarrow>
                Some (pms2, le_bytes a @ le_bytes b @ le_bytes c @ le_bytes d))))"

section \<open>RFC 1321\<close>

text \<open>The constants \<open>floor (4294967296 * \<bar>sin i\<bar>)\<close> as the RFC tabulates them.\<close>

definition rfc_K :: "md5_word list" where
  "rfc_K = [0xd76aa478, 0xe8c7b756, 0x242070db, 0xc1bdceee, 0xf57c0faf, 0x4787c62a,
   0xa8304613, 0xfd469501, 0x698098d8, 0x8b44f7af, 0xffff5bb1, 0x895cd7be,
   0x6b901122, 0xfd987193, 0xa679438e, 0x49b40821, 0xf61e2562, 0xc040b340,
   0x265e5a51, 0xe9b6c7aa, 0xd62f105d, 0x02441453, 0xd8a1e681, 0xe7d3fbc8,
   0x21e1cde6, 0xc33707d6, 0xf4d50d87, 0x455a14ed, 0xa9e3e905, 0xfcefa3f8,
   0x676f02d9, 0x8d2a4c8a, 0xfffa3942, 0x8771f681, 0x6d9d6122, 0xfde5380c,
   0xa4beea44, 0x4bdecfa9, 0xf6bb4b60, 0xbebfbc70, 0x289b7ec6, 0xeaa127fa,
   0xd4ef3085, 0x04881d05, 0xd9d4d039, 0xe6db99e5, 0x1fa27cf8, 0xc4ac5665,
   0xf4292244, 0x432aff97, 0xab9423a7, 0xfc93a039, 0x655b59c3, 0x8f0ccc92,
   0xffeff47d, 0x85845dd1, 0x6fa87e4f, 0xfe2ce6e0, 0xa3014314, 0x4e0811a1,
   0xf7537e82, 0xbd3af235, 0x2ad7d2bb, 0xeb86d391]"

definition rfc_shift :: "nat list list" where
  "rfc_shift = [[7, 12, 17, 22], [5, 9, 14, 20], [4, 11, 16, 23], [6, 10, 15, 21]]"

definition rfc_fun :: "nat \<Rightarrow> md5_word \<Rightarrow> md5_word \<Rightarrow> md5_word \<Rightarrow> md5_word" where
  "rfc_fun r x y z =
     (if r = 0 then (x AND y) OR (NOT x AND z)
      else if r = 1 then (x AND z) OR (y AND NOT z)
      else if r = 2 then x XOR y XOR z
      else y XOR (x OR NOT z))"

definition rfc_index :: "nat \<Rightarrow> nat" where
  "rfc_index i =
     (if i div 16 = 0 then i
      else if i div 16 = 1 then (5 * i + 1) mod 16
      else if i div 16 = 2 then (3 * i + 5) mod 16
      else 7 * i mod 16)"

text \<open>Step \<open>i\<close> of 64; the registers move on by one place.\<close>

definition rfc_step :: "md5_word list \<Rightarrow> nat \<Rightarrow> md5_regs \<Rightarrow> md5_regs" where
  "rfc_step M i = (\<lambda>(A, B, C, D).
     (D, B + word_rotl (rfc_shift ! (i div 16) ! (i mod 4))
              (A + rfc_fun (i div 16) B C D + M ! rfc_index i + rfc_K ! i), B, C))"

definition rfc_block :: "md5_regs \<Rightarrow> md5_byte list \<Rightarrow> md5_regs" where
  "rfc_block h block =
     (case (h, fold (rfc_step (md5_xbuf block)) [0..<64] h) of
        ((a, b, c, d), (a', b', c', d')) \<Rightarrow> (a + a', b + b', c + c', d + d'))"

function rfc_blocks :: "md5_regs \<Rightarrow> md5_byte list \<Rightarrow> md5_regs" where
  "rfc_blocks h m = (if length m < 64 then h else rfc_blocks (rfc_block h (take 64 m)) (drop 64 m))"
  by pat_completeness auto
termination by (relation "measure (\<lambda>(h, m). length m)") auto

declare rfc_blocks.simps [simp del]

text \<open>The length in bits, modulo \<open>2^64\<close>, in eight bytes with the least significant first.\<close>

definition rfc_length :: "nat \<Rightarrow> md5_byte list" where
  "rfc_length n = map (\<lambda>i. of_nat (8 * n div 256 ^ i)) [0..<8]"

definition rfc_pad :: "md5_byte list \<Rightarrow> md5_byte list" where
  "rfc_pad m = m @ 0x80 # replicate ((119 - length m mod 64) mod 64) 0 @ rfc_length (length m)"

definition rfc1321 :: "md5_byte list \<Rightarrow> md5_byte list" where
  "rfc1321 m = (case rfc_blocks (0x67452301, 0xefcdab89, 0x98badcfe, 0x10325476) (rfc_pad m) of
     (a, b, c, d) \<Rightarrow> le_bytes a @ le_bytes b @ le_bytes c @ le_bytes d)"

section \<open>The rounds are the steps of the RFC\<close>

lemma ROTATE_LEFT_rotl:
  assumes "0 < n" "n < 32"
  shows "ROTATE_LEFT x n = word_rotl n x"
proof (rule bit_eqI)
  fix i
  assume "possible_bit TYPE(md5_word) i"
  then have i: "i < 32" by (simp add: possible_bit_word)
  obtain m where m: "m = 32 - n" "0 < m" "m < 32" using assms by simp
  have l: "bit (ROTATE_LEFT x n) i \<longleftrightarrow> n \<le> i \<and> bit x (i - n) \<or> bit x (m + i)"
    using i by (simp add: ROTATE_LEFT_def bit_or_iff bit_push_bit_iff bit_drop_bit_eq m(1))
  have r: "bit (word_rotl n x) i \<longleftrightarrow> bit x ((i + m) mod 32)"
    using assms i by (simp add: bit_word_rotl_iff m(1))
  show "bit (ROTATE_LEFT x n) i = bit (word_rotl n x) i"
  proof (cases "n \<le> i")
    case True
    then have "i + m = i - n + 32" using m(1) assms by simp
    then have "(i + m) mod 32 = i - n" using i by simp
    moreover have "\<not> bit x (m + i)" using bit_imp_le_length [of x "m + i"] \<open>i + m = i - n + 32\<close> by auto
    ultimately show ?thesis unfolding l r using True by simp
  next
    case False
    then have "i + m < 32" using m(1) assms by simp
    with False show ?thesis unfolding l r by (simp add: add.commute)
  qed
qed

lemma md5_T_rfc: "md5_T = rfc_K"
  by (simp add: md5_T_def rfc_K_def T_MASK_def)

definition rfc_step_of :: "(md5_word \<Rightarrow> md5_word \<Rightarrow> md5_word \<Rightarrow> md5_word) \<Rightarrow> md5_word list
    \<Rightarrow> nat \<times> nat \<times> nat \<Rightarrow> md5_regs \<Rightarrow> md5_regs" where
  "rfc_step_of f X = (\<lambda>(k, s, i) (A, B, C, D). (D, md5_SET f X A B C D k s i, B, C))"

lemma md5_lines_quad:
  "md5_line f X (Reg_b, o4) (md5_line f X (Reg_c, o3) (md5_line f X (Reg_d, o2) (md5_line f X (Reg_a, o1) r)))
     = rfc_step_of f X o4 (rfc_step_of f X o3 (rfc_step_of f X o2 (rfc_step_of f X o1 r)))"
  by (cases r; cases o1; cases o2; cases o3; cases o4) (simp add: rfc_step_of_def)

lemma rfc_shift_bounds:
  assumes "i < 64"
  shows "0 < rfc_shift ! (i div 16) ! (i mod 4) \<and> rfc_shift ! (i div 16) ! (i mod 4) < 32"
proof -
  have "i div 16 \<in> {0, 1, 2, 3}" "i mod 4 \<in> {0, 1, 2, 3}" using assms by auto
  then show ?thesis by (auto simp: rfc_shift_def)
qed

lemma rfc_step_is:
  assumes "i < 64"
  shows "rfc_step X i = rfc_step_of (rfc_fun (i div 16)) X (rfc_index i, rfc_shift ! (i div 16) ! (i mod 4), Suc i)"
  using rfc_shift_bounds [OF assms]
  by (auto simp: rfc_step_def rfc_step_of_def fun_eq_iff md5_SET_def Let_def ROTATE_LEFT_rotl md5_T_rfc)

lemma rfc_fun_rounds:
  "rfc_fun 0 = md5_F" "rfc_fun 1 = md5_G" "rfc_fun 2 = md5_H" "rfc_fun 3 = md5_I"
  by (simp_all add: rfc_fun_def fun_eq_iff md5_F_def md5_G_def md5_H_def md5_I_def)

lemma upt_0_16: "[0..<16] = [0, 1, 2, 3, 4, 5, 6, 7, 8, 9, 10, 11, 12, 13, 14, 15]"
  by (simp add: upt_rec)

lemma rounds_rfc:
  "fold (rfc_step X) [0..<16] r = md5_round1 X r"
  "fold (rfc_step X) [16..<32] r = md5_round2 X r"
  "fold (rfc_step X) [32..<48] r = md5_round3 X r"
  "fold (rfc_step X) [48..<64] r = md5_round4 X r"
  by (simp_all add: upt_rec_numeral upt_0_16 rfc_step_is rfc_index_def rfc_shift_def rfc_fun_rounds
        rfc_fun_rounds(2) [unfolded One_nat_def] md5_round1_def md5_round2_def md5_round3_def md5_round4_def
        md5_lines_quad numeral_2_eq_2 [symmetric] del: upt_Suc)

lemma fold_upt_split: "i \<le> j \<Longrightarrow> j \<le> k \<Longrightarrow> fold f [i..<k] r = fold f [j..<k] (fold f [i..<j] r)"
  using upt_add_eq_append [of i j "k - j"] by simp

lemma md5_compress_rfc: "md5_compress h block = rfc_block h block"
proof -
  have "fold (rfc_step X) [0..<64] r = md5_round4 X (md5_round3 X (md5_round2 X (md5_round1 X r)))" for X r
  proof -
    have "fold (rfc_step X) [0..<64] r = fold (rfc_step X) [16..<64] (md5_round1 X r)"
      unfolding rounds_rfc [symmetric] by (rule fold_upt_split) simp_all
    also have "\<dots> = fold (rfc_step X) [32..<64] (md5_round2 X (md5_round1 X r))"
      unfolding rounds_rfc(2) [symmetric] by (rule fold_upt_split) simp_all
    also have "\<dots> = fold (rfc_step X) [48..<64] (md5_round3 X (md5_round2 X (md5_round1 X r)))"
      unfolding rounds_rfc(3) [symmetric] by (rule fold_upt_split) simp_all
    finally show ?thesis unfolding rounds_rfc(4) .
  qed
  then show ?thesis
    by (simp add: md5_compress_def rfc_block_def Let_def split: prod.splits)
qed

section \<open>Appending\<close>

text \<open>What a state stands for: the message appended so far.\<close>

definition md5_iv :: md5_regs where
  "md5_iv = (0x67452301, 0xefcdab89, 0x98badcfe, 0x10325476)"

definition rest_of :: "md5_byte list \<Rightarrow> md5_byte list" where
  "rest_of m = drop (64 * (length m div 64)) m"

definition md5_represents :: "md5_state \<Rightarrow> md5_byte list \<Rightarrow> bool" where
  "md5_represents st m \<longleftrightarrow> md5_abcd st = rfc_blocks md5_iv m
     \<and> length (md5_buf st) = 64 \<and> take (length m mod 64) (md5_buf st) = rest_of m
     \<and> md5_count0 st = of_nat (8 * length m) \<and> md5_count1 st = of_nat (8 * length m div 2 ^ 32)"

lemma length_rest_of: "length (rest_of m) = length m mod 64"
  by (simp add: rest_of_def minus_div_mult_eq_mod [symmetric] mult.commute)

lemma rest_of_short: "length m < 64 \<Longrightarrow> rest_of m = m"
  by (simp add: rest_of_def)

lemma rest_of_block: "length b = 64 \<Longrightarrow> rest_of (b @ m) = rest_of m"
  using div_add_self1 [of 64 "length m"] by (simp add: rest_of_def)

lemma rfc_blocks_short [simp]: "length m < 64 \<Longrightarrow> rfc_blocks h m = h"
  by (simp add: rfc_blocks.simps)

lemma rfc_blocks_block: "length b = 64 \<Longrightarrow> rfc_blocks h (b @ m) = rfc_blocks (rfc_block h b) m"
  by (subst rfc_blocks.simps) simp

text \<open>The part of the message that is in the digest, and the rest of it.\<close>

lemma rfc_blocks_append:
  "rfc_blocks h (m @ d) = rfc_blocks (rfc_blocks h m) (rest_of m @ d) \<and> rest_of (m @ d) = rest_of (rest_of m @ d)"
proof (induction h m rule: rfc_blocks.induct)
  case (1 h m)
  show ?case
  proof (cases "length m < 64")
    case True
    then show ?thesis by (simp add: rest_of_short)
  next
    case False
    define b m' where "b = take 64 m" and "m' = drop 64 m"
    have m: "m = b @ m'" "length b = 64" using False by (simp_all add: b_def m'_def)
    have "rfc_blocks (rfc_block h b) (m' @ d) = rfc_blocks (rfc_blocks (rfc_block h b) m') (rest_of m' @ d)
      \<and> rest_of (m' @ d) = rest_of (rest_of m' @ d)"
      using "1.IH" [OF False] by (simp add: b_def m'_def)
    then show ?thesis by (simp add: m rfc_blocks_block rest_of_block)
  qed
qed

lemma full_blocks_rfc:
  "left \<le> length p \<Longrightarrow> full_blocks st p left =
     (st\<lparr>md5_abcd := rfc_blocks (md5_abcd st) (take left p)\<rparr>, drop (64 * (left div 64)) p, left mod 64)"
proof (induction st p left rule: full_blocks.induct)
  case (1 st p left)
  show ?case
  proof (cases "64 \<le> left")
    case False
    then show ?thesis using 1(2) by (simp add: full_blocks.simps)
  next
    case True
    define b p' where "b = take 64 p" and "p' = drop 64 p"
    have p: "p = b @ p'" "length b = 64" using True 1(2) by (simp_all add: b_def p'_def)
    obtain k where k: "left = 64 + k" using True le_Suc_ex by blast
    have IH: "full_blocks (md5_process st b) p' k =
       ((md5_process st b)\<lparr>md5_abcd := rfc_blocks (md5_abcd (md5_process st b)) (take k p')\<rparr>,
        drop (64 * (k div 64)) p', k mod 64)"
      using 1(1) [OF True] 1(2) by (simp add: b_def p'_def k)
    have "full_blocks st p left = full_blocks (md5_process st b) p' k"
      using k by (subst full_blocks.simps) (simp add: b_def p'_def)
    then show ?thesis
      unfolding IH using div_add_self1 [of 64 k]
      by (simp add: md5_process_def md5_compress_rfc p k rfc_blocks_block)
  qed
qed

lemma and_63: "n AND 63 = n mod (64 :: nat)"
  using take_bit_eq_mask [of 6 n] by (simp add: mask_eq_exp_minus_1 take_bit_eq_mod)

lemma md5_offset: "unat (drop_bit 3 (of_nat (8 * L) :: md5_word) AND 63) = L mod 64"
proof -
  have "unat (drop_bit 3 (of_nat (8 * L) :: md5_word) AND 63) = (8 * L mod 2 ^ 32) div 8 mod 64"
    by (simp add: and_63 unat_drop_bit_eq unsigned_and_eq unat_of_nat drop_bit_eq_div [where 'a = nat]
      del: of_nat_mult)
  also have "(8 * L mod 2 ^ 32) div 8 = L mod 2 ^ 29"
    using mult_mod_right [of 8 L "2 ^ 29"] by simp
  also have "L mod 2 ^ 29 mod 64 = L mod 64" by (simp add: mod_mod_cancel)
  finally show ?thesis .
qed

lemma md5_count:
  assumes "n < 268435456"
  shows "(of_nat (8 * L) :: md5_word) + word_of_int (int n * 8) = of_nat (8 * (L + n))"
    and "(if (of_nat (8 * L) :: md5_word) + word_of_int (int n * 8) < word_of_int (int n * 8)
          then of_nat (8 * L div 2 ^ 32) + word_of_int (drop_bit 29 (int n)) + 1
          else of_nat (8 * L div 2 ^ 32) + word_of_int (drop_bit 29 (int n)))
       = (of_nat (8 * (L + n) div 2 ^ 32) :: md5_word)"
proof -
  have nb: "(word_of_int (int n * 8) :: md5_word) = of_nat (8 * n)" by (simp add: mult.commute)
  show sum: "(of_nat (8 * L) :: md5_word) + word_of_int (int n * 8) = of_nat (8 * (L + n))"
    unfolding nb by (simp add: algebra_simps)
  have d: "drop_bit 29 (int n) = 0" using assms by (simp add: drop_bit_eq_div)
  have less: "(of_nat (8 * (L + n)) :: md5_word) < of_nat (8 * n) \<longleftrightarrow> 8 * (L + n) mod 2 ^ 32 < 8 * n"
    using assms by (simp add: word_less_nat_alt unat_of_nat del: of_nat_mult of_nat_add)
  define q r where "q = 8 * L div 2 ^ 32" and "r = 8 * L mod 2 ^ 32"
  have L: "8 * (L + n) = q * 2 ^ 32 + (r + 8 * n)" "r < 2 ^ 32"
    using div_mult_mod_eq [of "8 * L" "2 ^ 32", folded q_def r_def] by (simp_all add: r_def)
  have "8 * (L + n) div 2 ^ 32 = q + (r + 8 * n) div 2 ^ 32" "8 * (L + n) mod 2 ^ 32 = (r + 8 * n) mod 2 ^ 32"
    unfolding L(1) by simp_all
  moreover have "(r + 8 * n) div 2 ^ 32 = (if r + 8 * n < 2 ^ 32 then 0 else 1)"
    using L(2) assms by (auto simp: div_nat_eqI)
  moreover have "(r + 8 * n) mod 2 ^ 32 < 8 * n \<longleftrightarrow> 2 ^ 32 \<le> r + 8 * n"
    using L(2) assms by (auto simp: mod_if)
  ultimately show "(if (of_nat (8 * L) :: md5_word) + word_of_int (int n * 8) < word_of_int (int n * 8)
          then of_nat (8 * L div 2 ^ 32) + word_of_int (drop_bit 29 (int n)) + 1
          else of_nat (8 * L div 2 ^ 32) + word_of_int (drop_bit 29 (int n)))
       = (of_nat (8 * (L + n) div 2 ^ 32) :: md5_word)"
    unfolding sum d q_def [symmetric] unfolding nb less by auto
qed

text \<open>The code after the lengths are updated, on the contents: \<open>b\<close> is the partial block.\<close>

definition md5_absorb :: "md5_state \<Rightarrow> md5_byte list \<Rightarrow> nat \<Rightarrow> nat \<Rightarrow> md5_state" where
  "md5_absorb st data k n =
     (let (st', p, left) = full_blocks st (drop k data) (n - k)
      in if 0 < left then st'\<lparr>md5_buf := buf_copy (md5_buf st') 0 p left\<rparr> else st')"

lemma md5_append_cases:
  assumes rep: "md5_represents st m" and n: "0 < n" "n < 268435456"
  defines "off \<equiv> length m mod 64"
  defines "st1 \<equiv> st\<lparr>md5_count0 := of_nat (8 * (length m + n)),
      md5_count1 := of_nat (8 * (length m + n) div 2 ^ 32)\<rparr>"
  shows "off = 0 \<Longrightarrow> md5_append st data (int n) = Some (md5_absorb st1 data 0 n)"
    and "0 < off \<Longrightarrow> off + n < 64 \<Longrightarrow>
      md5_append st data (int n) = Some (st1\<lparr>md5_buf := buf_copy (md5_buf st) off data n\<rparr>)"
    and "0 < off \<Longrightarrow> 64 \<le> off + n \<Longrightarrow> md5_append st data (int n) =
      Some (md5_absorb (md5_process (st1\<lparr>md5_buf := buf_copy (md5_buf st) off data (64 - off)\<rparr>)
                          (buf_copy (md5_buf st) off data (64 - off))) data (64 - off) n)"
proof -
  have counts: "md5_count0 st = of_nat (8 * length m)" "md5_count1 st = of_nat (8 * length m div 2 ^ 32)"
    using rep by (auto simp: md5_represents_def)
  have off: "unat (drop_bit 3 (md5_count0 st) AND 63) = off" by (simp only: counts md5_offset off_def)
  note c = md5_count [OF n(2), of "length m", folded counts]
  have st1: "st\<lparr>md5_count0 := md5_count0 st + word_of_int (int n * 8),
       md5_count1 := (if md5_count0 st + word_of_int (int n * 8) < word_of_int (int n * 8)
          then md5_count1 st + word_of_int (drop_bit 29 (int n)) + 1
          else md5_count1 st + word_of_int (drop_bit 29 (int n)))\<rparr> = st1"
    unfolding c(2) unfolding c(1) st1_def ..
  note u = md5_append_def [of st data "int n", unfolded Let_def off st1 nat_int] md5_absorb_def
  show "off = 0 \<Longrightarrow> md5_append st data (int n) = Some (md5_absorb st1 data 0 n)"
    using n by (simp add: u split: prod.splits)
  show "0 < off \<Longrightarrow> off + n < 64 \<Longrightarrow>
      md5_append st data (int n) = Some (st1\<lparr>md5_buf := buf_copy (md5_buf st) off data n\<rparr>)"
    using n by (simp add: u) (simp add: st1_def)
  have o: "off < 64" by (simp add: off_def)
  assume a: "0 < off" "64 \<le> off + n"
  then have c2: "(if 64 < off + n then 64 - off else n) = 64 - off" by auto
  show "md5_append st data (int n) =
      Some (md5_absorb (md5_process (st1\<lparr>md5_buf := buf_copy (md5_buf st) off data (64 - off)\<rparr>)
                          (buf_copy (md5_buf st) off data (64 - off))) data (64 - off) n)"
    using n a o by (simp add: u c2 split: prod.splits) (simp add: st1_def)
qed

lemma rest_of_idem: "rest_of (rest_of m) = rest_of m"
  by (simp add: rest_of_short length_rest_of)

lemma md5_absorb_represents:
  assumes st: "md5_abcd st = rfc_blocks md5_iv m" "rest_of m = []" "length (md5_buf st) = 64"
    and count: "md5_count0 st = of_nat (8 * (length m + left))"
      "md5_count1 st = of_nat (8 * (length m + left) div 2 ^ 32)"
    and left: "k + left \<le> length data"
  shows "md5_represents (md5_absorb st data k (k + left)) (m @ take left (drop k data))"
proof -
  define p where "p = drop k data"
  define d where "d = take left p"
  have p: "left \<le> length p" "length d = left" using left by (simp_all add: p_def d_def)
  have "length m mod 64 = 0" using st(2) by (metis length_rest_of list.size(3))
  then have len: "(length m + left) mod 64 = left mod 64" by (metis mod_add_left_eq add_0)
  have bl: "rfc_blocks md5_iv (m @ d) = rfc_blocks (rfc_blocks md5_iv m) d" "rest_of (m @ d) = rest_of d"
    using rfc_blocks_append [of md5_iv m d] st(2) by simp_all
  have r: "take (left mod 64) (drop (64 * (left div 64)) p) = rest_of d"
    by (simp add: rest_of_def d_def p(1) min_absorb2 drop_take minus_div_mult_eq_mod [symmetric] mult.commute)
  have lr: "left mod 64 \<le> 64" "left mod 64 < 64" by simp_all
  have buf: "length (buf_copy (md5_buf st) 0 q (left mod 64)) = 64
      \<and> take (left mod 64) (buf_copy (md5_buf st) 0 q (left mod 64)) = take (left mod 64) q"
    if "left mod 64 \<le> length q" for q
    using that st(3) lr by (simp add: buf_copy_def)
  have lp: "left mod 64 \<le> length (drop (64 * (left div 64)) p)"
  proof -
    have "left mod 64 = left - 64 * (left div 64)"
      by (simp add: minus_div_mult_eq_mod [symmetric] mult.commute)
    with p(1) show ?thesis by (simp add: diff_le_mono)
  qed
  have abs: "md5_absorb st data k (k + left) =
     (let st' = st\<lparr>md5_abcd := rfc_blocks (md5_abcd st) d\<rparr>
      in if 0 < left mod 64 then st'\<lparr>md5_buf := buf_copy (md5_buf st') 0 (drop (64 * (left div 64)) p) (left mod 64)\<rparr>
         else st')"
    by (simp add: md5_absorb_def full_blocks_rfc p(1) p_def [symmetric] d_def)
  show ?thesis
  proof (cases "left mod 64 = 0")
    case True
    then have "rest_of d = []" using length_rest_of [of d] p(2) by simp
    with True show ?thesis
      using st count p(2) len unfolding abs d_def [symmetric] p_def [symmetric]
      by (simp add: md5_represents_def Let_def bl)
  next
    case False
    then show ?thesis
      using st count p(2) len buf [OF lp] r unfolding abs p_def [symmetric] d_def [symmetric]
      by (simp add: md5_represents_def Let_def bl)
  qed
qed

lemma md5_append_represents:
  assumes rep: "md5_represents st m" and n: "n \<le> length data" "n < 268435456"
  shows "\<exists>st'. md5_append st data (int n) = Some st' \<and> md5_represents st' (m @ take n data)"
proof (cases "n = 0")
  case True
  with rep show ?thesis by (simp add: md5_append_def)
next
  case False
  let ?o = "length m mod 64"
  have buf: "length (md5_buf st) = 64" "take ?o (md5_buf st) = rest_of m" "md5_abcd st = rfc_blocks md5_iv m"
    using rep by (auto simp: md5_represents_def)
  have pos: "0 < n" using False by simp
  note cases = md5_append_cases [OF rep pos n(2), of data]
  let ?st1 = "st\<lparr>md5_count0 := of_nat (8 * (length m + n)), md5_count1 := of_nat (8 * (length m + n) div 2 ^ 32)\<rparr>"
  have o: "?o < 64" by simp
  have lb: "length (buf_copy (md5_buf st) ?o data k) = 64
      \<and> take (?o + k) (buf_copy (md5_buf st) ?o data k) = rest_of m @ take k data"
    if "?o + k \<le> 64" "k \<le> n" for k
    using that n(1) buf length_rest_of [of m] by (simp add: buf_copy_def)
  consider (none) "?o = 0" | (short) "0 < ?o" "?o + n < 64" | (full) "0 < ?o" "64 \<le> ?o + n" by linarith
  then show ?thesis
  proof cases
    case none
    then have "rest_of m = []" using length_rest_of [of m] by simp
    then have "md5_represents (md5_absorb ?st1 data 0 (0 + n)) (m @ take n (drop 0 data))"
      by (intro md5_absorb_represents) (use buf n(1) in simp_all)
    with cases(1) [OF none] show ?thesis by simp
  next
    case short
    have l: "(length m + n) mod 64 = ?o + n" using short(2) by (metis mod_add_left_eq mod_less)
    have d: "length (rest_of m @ take n data) < 64" using short(2) n(1) by (simp add: length_rest_of)
    have "md5_represents (?st1\<lparr>md5_buf := buf_copy (md5_buf st) ?o data n\<rparr>) (m @ take n data)"
      unfolding md5_represents_def
      using rfc_blocks_append [of md5_iv m "take n data"] buf lb [of n] short n(1) d
      by (simp add: l rest_of_short)
    with cases(2) [OF short] show ?thesis by blast
  next
    case full
    let ?k = "64 - ?o" and ?b = "buf_copy (md5_buf st) ?o data (64 - ?o)"
    have "?k \<le> n" "?o + ?k = 64" using full o by linarith+
    then have b: "?b = rest_of m @ take ?k data" "length ?b = 64"
      using lb [of ?k] by (auto simp: take_all)
    have k: "?k + (n - ?k) = n" "?k \<le> n" using full o by simp_all
    define m1 where "m1 = m @ take ?k data"
    have m1: "rfc_blocks md5_iv m1 = rfc_block (rfc_blocks md5_iv m) ?b" "rest_of m1 = []"
      using rfc_blocks_append [of md5_iv m "take ?k data"] b
        rfc_blocks_block [of ?b "rfc_blocks md5_iv m" "[]"] rest_of_block [of ?b "[]"]
      by (simp_all add: m1_def rest_of_short)
    have len: "length m1 + (n - ?k) = length m + n" using k n(1) by (simp add: m1_def)
    have "md5_represents (md5_absorb (md5_process (?st1\<lparr>md5_buf := ?b\<rparr>) ?b) data ?k (?k + (n - ?k)))
        (m1 @ take (n - ?k) (drop ?k data))"
      using m1 b(2) len n(1) k buf
      by (intro md5_absorb_represents) (simp_all add: md5_process_def md5_compress_rfc)
    moreover have "m1 @ take (n - ?k) (drop ?k data) = m @ take n data"
      using take_add [of ?k "n - ?k" data] k by (simp add: m1_def)
    ultimately show ?thesis using cases(3) [OF full] k(1) by simp
  qed
qed

lemma md5_init_represents:
  assumes "length (md5_buf st) = 64"
  shows "md5_represents (md5_init st) []"
  using assms by (simp add: md5_represents_def md5_init_def md5_iv_def T_MASK_def rest_of_def)

section \<open>Finishing\<close>

lemma le_byte_of_nat:
  "i < 4 \<Longrightarrow> (ucast (drop_bit (8 * i) (of_nat x :: md5_word)) :: md5_byte) = of_nat (x div 256 ^ i)"
proof -
  assume i: "i < 4"
  have "x div 256 ^ i = drop_bit (8 * i) x" by (simp add: drop_bit_eq_div power_mult)
  then show ?thesis
    using i by (intro bit_eqI) (auto simp: bit_simps possible_bit_word)
qed

lemma le_bytes_length: "le_bytes (of_nat (8 * n)) @ le_bytes (of_nat (8 * n div 2 ^ 32)) = rfc_length n"
proof -
  have "[0..<8] = [0..<4] @ map ((+) 4) [0..<4 :: nat]" by (simp add: upt_rec)
  moreover have "8 * n div 256 ^ (4 + i) = 8 * n div 2 ^ 32 div 256 ^ i" for i
    by (simp add: power_add div_mult2_eq)
  ultimately show ?thesis by (simp add: rfc_length_def le_bytes_def le_byte_of_nat del: of_nat_mult)
qed

lemma uint_and_63: "uint ((55 - w :: md5_word) AND 63) = (55 - uint w) mod 64"
proof -
  have "uint ((55 - w :: md5_word) AND 63) = uint (55 - w) mod 64"
    using take_bit_eq_mask [of 6 "uint (55 - w)"]
    by (simp add: unsigned_and_eq mask_eq_exp_minus_1 take_bit_eq_mod)
  also have "\<dots> = (55 - uint w) mod 64" by (simp add: uint_word_ariths mod_mod_cancel)
  finally show ?thesis .
qed

lemma md5_pad_size:
  assumes "md5_count0 st = of_nat (8 * L)"
  shows "uint ((55 - drop_bit 3 (md5_count0 st)) AND 63) + 1 = int (Suc ((119 - L mod 64) mod 64))"
proof -
  have "unat (drop_bit 3 (md5_count0 st)) mod 64 = L mod 64"
    using md5_offset [of L] by (simp add: and_63 unsigned_and_eq assms)
  then have u: "uint (drop_bit 3 (md5_count0 st)) mod 64 = int (L mod 64)"
    by (metis uint_nat zmod_int of_nat_numeral)
  have "(55 - uint (drop_bit 3 (md5_count0 st))) mod 64 = (55 - int (L mod 64)) mod 64"
    using u by (metis mod_diff_right_eq)
  also have "\<dots> = (119 - int (L mod 64)) mod 64" using mod_add_self2 [of "55 - int (L mod 64)" 64] by simp
  also have "\<dots> = int ((119 - L mod 64) mod 64)"
  proof -
    have "int (119 - L mod 64) = 119 - int (L mod 64)" by (simp add: of_nat_diff)
    then show ?thesis by (simp add: zmod_int)
  qed
  finally show ?thesis unfolding uint_and_63 by simp
qed

lemma md5_finish_rfc:
  assumes rep: "md5_represents st m"
  shows "\<exists>st'. md5_finish st = Some (st', rfc1321 m)"
proof -
  let ?z = "(119 - length m mod 64) mod 64"
  let ?len = "le_bytes (md5_count0 st) @ le_bytes (md5_count1 st)"
  have len: "?len = rfc_length (length m)" "length ?len = 8"
    using rep le_bytes_length [of "length m"] by (simp_all add: md5_represents_def rfc_length_def)
  have z: "?z < 64" by simp
  have pad: "take (Suc ?z) md5_padding = 0x80 # replicate ?z 0"
    using z by (simp add: md5_padding_def take_Cons' take_replicate min_absorb1)
  have n: "Suc ?z \<le> length md5_padding" "Suc ?z < 268435456" using z by (simp_all add: md5_padding_def)
  obtain st1 where st1: "md5_append st md5_padding (int (Suc ?z)) = Some st1"
      "md5_represents st1 (m @ 0x80 # replicate ?z 0)"
    using md5_append_represents [OF rep n] unfolding pad by blast
  obtain st2 where st2: "md5_append st1 ?len 8 = Some st2" "md5_represents st2 (rfc_pad m)"
    using md5_append_represents [OF st1(2), of 8 ?len] len by (auto simp: rfc_pad_def)
  have "md5_count0 st = of_nat (8 * length m)" using rep by (simp add: md5_represents_def)
  note n' = md5_pad_size [OF this]
  have "md5_abcd st2 = rfc_blocks md5_iv (rfc_pad m)" using st2(2) by (simp add: md5_represents_def)
  then show ?thesis
    unfolding md5_finish_def Let_def n' using st1(1) st2(1)
    by (simp add: rfc1321_def md5_iv_def split: prod.splits)
qed

lemma md5_pieces_represent:
  "md5_represents st m \<Longrightarrow> \<forall>d \<in> set ds. length d < 268435456 \<Longrightarrow>
   \<exists>st'. option_fold (\<lambda>st d. md5_append st d (int (length d))) st ds = Some st'
     \<and> md5_represents st' (m @ concat ds)"
proof (induction ds arbitrary: st m)
  case Nil
  then show ?case by simp
next
  case (Cons d ds)
  obtain st1 where st1: "md5_append st d (int (length d)) = Some st1" "md5_represents st1 (m @ d)"
    using md5_append_represents [OF Cons.prems(1), of "length d" d] Cons.prems(2) by auto
  from Cons.IH [OF st1(2)] Cons.prems(2) st1(1) show ?case by auto
qed

section \<open>The digest of a short message\<close>

definition abc_block :: "md5_byte list" where
  "abc_block = [0x61, 0x62, 0x63, 0x80, 0, 0, 0, 0, 0, 0, 0, 0, 0, 0, 0, 0, 0, 0, 0, 0, 0, 0, 0, 0, 0, 0, 0, 0, 0, 0, 0, 0,
    0, 0, 0, 0, 0, 0, 0, 0, 0, 0, 0, 0, 0, 0, 0, 0, 0, 0, 0, 0, 0, 0, 0, 0, 24, 0, 0, 0, 0, 0, 0, 0]"
lemma rfc_pad_abc: "rfc_pad [0x61, 0x62, 0x63] = abc_block"
proof -
  have "replicate 52 (0 :: md5_byte) = replicate 26 0 @ replicate 26 0" by (simp only: replicate_add [symmetric]) simp
  moreover have "replicate 26 (0 :: md5_byte) = [0,0,0,0,0,0,0,0,0,0,0,0,0,0,0,0,0,0,0,0,0,0,0,0,0,0]" by (simp add: numeral_eq_Suc)
  ultimately show ?thesis
  by (simp add: rfc_pad_def rfc_length_def upt_rec abc_block_def)
qed

definition abc_words :: "md5_word list" where
  "abc_words = [0x80636261, 0, 0, 0, 0, 0, 0, 0, 0, 0, 0, 0, 0, 0, 24, 0]"

lemma abc_xbuf: "md5_xbuf abc_block = abc_words"
  by (simp add: md5_xbuf_def upt_rec le_word_def abc_block_def abc_words_def)

lemmas md5_eval = abc_words_def md5_SET_def md5_T_rfc rfc_K_def ROTATE_LEFT_def Let_def

lemma abc_rounds:
  "md5_round1 abc_words md5_iv = (0xdda9b9a6, 0x72aff2e0, 0xe396856b, 0xa1051895)"
  "md5_round2 abc_words (0xdda9b9a6, 0x72aff2e0, 0xe396856b, 0xa1051895) = (0x790a77fb, 0x726342d3, 0xa62884aa, 0x9f47e4f8)"
  "md5_round3 abc_words (0x790a77fb, 0x726342d3, 0xa62884aa, 0x9f47e4f8) = (0x7f2e507b, 0x7beb9700, 0x8fae6399, 0x99d9679d)"
  "md5_round4 abc_words (0x7f2e507b, 0x7beb9700, 0x8fae6399, 0x99d9679d) = (0x310ade8f, 0xc08226b3, 0xe484b9d8, 0x624d8cb2)"
  subgoal by (simp add: md5_round1_def md5_F_def md5_iv_def md5_eval)
  subgoal by (simp add: md5_round2_def md5_G_def md5_eval)
  subgoal by (simp add: md5_round3_def md5_H_def md5_eval)
  subgoal by (simp add: md5_round4_def md5_I_def md5_eval)
  done

lemma abc_compress: "rfc_block md5_iv abc_block = (0x98500190, 0xb04fd23c, 0x7d3f96d6, 0x727fe128)"
  unfolding md5_compress_rfc [symmetric] md5_compress_def abc_xbuf Let_def abc_rounds
  by (simp add: md5_iv_def)

lemma abc_rfc1321:
  "rfc1321 [0x61, 0x62, 0x63] = [0x90, 0x01, 0x50, 0x98, 0x3c, 0xd2, 0x4f, 0xb0,
     0xd6, 0x96, 0x3f, 0x7d, 0x28, 0xe1, 0x7f, 0x72]"
proof -
  have "rfc_blocks md5_iv abc_block = rfc_block md5_iv abc_block"
    using rfc_blocks_block [of abc_block md5_iv "[]"] by (simp add: abc_block_def)
  then show ?thesis
    by (simp add: rfc1321_def rfc_pad_abc md5_iv_def [symmetric] abc_compress le_bytes_def upt_rec)
qed

definition md5_blank :: md5_state where
  "md5_blank = \<lparr>md5_count0 = 0, md5_count1 = 0, md5_abcd = (0, 0, 0, 0), md5_buf = replicate 64 0\<rparr>"

text \<open>
  C40: A message appended in any pieces of less than 2^28 bytes each is digested as RFC 1321
  prescribes for the whole of it, whatever was in the memory of the state before, and no piece makes the code
  fail.
\<close>

theorem Md5_pieces_are_rfc1321:
  assumes "length (md5_buf st) = 64" "\<forall>d \<in> set ds. length d < 268435456"
  shows "\<exists>st1 st2. option_fold (\<lambda>st d. md5_append st d (int (length d))) (md5_init st) ds = Some st1
      \<and> md5_finish st1 = Some (st2, rfc1321 (concat ds))"
  using md5_pieces_represent [OF md5_init_represents [OF assms(1)] assms(2)] md5_finish_rfc by fastforce

lemma Md5_pieces_are_rfc1321_witness:
  "\<exists>st1 st2. option_fold (\<lambda>st d. md5_append st d (int (length d))) (md5_init md5_blank) [[0x61], [0x62, 0x63]]
       = Some st1
     \<and> md5_finish st1 = Some (st2, [0x90, 0x01, 0x50, 0x98, 0x3c, 0xd2, 0x4f, 0xb0,
                                   0xd6, 0x96, 0x3f, 0x7d, 0x28, 0xe1, 0x7f, 0x72])"
  using Md5_pieces_are_rfc1321 [of md5_blank "[[0x61], [0x62, 0x63]]"] by (simp add: md5_blank_def abc_rfc1321)

end
