(* ===== verification/Digest.thy ===== *)
theory Digest
  imports Md5 Url_Parse Dlib_List
begin

text \<open>
  Digest access authentication: \<^verbatim>\<open>dillo/src/digest.c\<close> with the realm record of \<^verbatim>\<open>auth.h\<close>, over the
  digest of \<open>Md5\<close>. String buffers are their contents (\<open>Dlib_Dstr\<close> proves that the operations act
  on them as lists). \<open>None\<close> stands for undefined behaviour: a null string for \<open>%s\<close>, a string that
  was freed, more than \<open>2^28\<close> bytes to digest. \<open>rand\<close> is a parameter, the sequence of its results.
\<close>

section \<open>Realms\<close>

datatype auth_type = TYPENOTSET | BASIC | DIGEST
datatype auth_algorithm = ALGORITHMNOTSET | MD5 | MD5SESS
datatype auth_qop = QOPNOTSET | AUTH | AUTHINT

text \<open>A string pointer that the code may leave pointing to freed memory.\<close>

datatype cptr = Null | Live string | Dangling

record auth_realm =
  ar_type :: auth_type
  ar_name :: string
  ar_paths :: "string dlist"
  ar_authorization :: "string option"
  ar_username :: "string option"
  ar_cnonce :: cptr
  ar_nonce_count :: "32 word"
  ar_nonce :: "string option"
  ar_opaque :: "string option"
  ar_algorithm :: auth_algorithm
  ar_domain :: "string option"
  ar_qop :: auth_qop

section \<open>Digests in hexadecimal\<close>

definition ALGORITHM2STR :: "auth_algorithm \<Rightarrow> string option" where
  "ALGORITHM2STR a = (case a of ALGORITHMNOTSET \<Rightarrow> None | MD5 \<Rightarrow> Some ''MD5'' | MD5SESS \<Rightarrow> Some ''MD5-sess'')"

definition QOP2STR :: "auth_qop \<Rightarrow> string option" where
  "QOP2STR q = (case q of QOPNOTSET \<Rightarrow> None | AUTH \<Rightarrow> Some ''auth'' | AUTHINT \<Rightarrow> Some ''auth-int'')"

definition hexchars :: string where "hexchars = ''0123456789abcdef''"

text \<open>The formats \<open>%02x\<close> and \<open>%08x\<close>.\<close>

definition hex_byte :: "md5_byte \<Rightarrow> string" where
  "hex_byte b = [hexchars ! (unat b div 16), hexchars ! (unat b mod 16)]"

definition hex_word :: "32 word \<Rightarrow> string" where
  "hex_word w = map (\<lambda>i. hexchars ! (unat w div 16 ^ (7 - i) mod 16)) [0..<8]"

text \<open>The state is not initialised before \<open>md5_init\<close>; \<open>Md5_pieces_are_rfc1321\<close> covers any content
  of it.\<close>

definition md5hexdigest :: "string \<Rightarrow> string option" where
  "md5hexdigest data =
     Option.bind (md5_append (md5_init md5_blank) (map of_char data) (int (length data)))
       (\<lambda>state. map_option (\<lambda>(_, digest). concat (map hex_byte digest)) (md5_finish state))"

definition a_Digest_create_cnonce :: "(nat \<Rightarrow> int) \<Rightarrow> string \<times> (nat \<Rightarrow> int)" where
  "a_Digest_create_cnonce rand =
     (map (\<lambda>i. hexchars ! nat (rand i mod 16)) [0..<32], \<lambda>i. rand (i + 32))"

text \<open>A string for \<open>%s\<close>.\<close>

definition cptr_str :: "cptr \<Rightarrow> string option" where
  "cptr_str p = (case p of Live s \<Rightarrow> Some s | _ \<Rightarrow> None)"

text \<open>With the algorithm MD5-sess the code formats a buffer object as a string, which is undefined.
  The first digest is computed before that. The value false for an unknown algorithm is not
  reached: the enumeration has no other values.\<close>

definition a_Digest_compute_digest :: "auth_realm \<Rightarrow> string \<Rightarrow> string \<Rightarrow> (auth_realm \<times> bool) option" where
  "a_Digest_compute_digest realm username passwd =
     (if ar_algorithm realm = MD5 \<or> ar_algorithm realm = ALGORITHMNOTSET then
        let a1 = username @ '':'' @ ar_name realm @ '':'' @ passwd
        in Option.bind (md5hexdigest a1)
             (\<lambda>digest. Some (realm\<lparr>ar_authorization := Some digest\<rparr>, True))
      else if ar_algorithm realm = MD5SESS then None
      else Some (realm, False))"

definition Digest_create_response :: "auth_realm \<Rightarrow> string \<Rightarrow> string \<Rightarrow> string option \<Rightarrow> string option option" where
  "Digest_create_response realm meth digest_uri entity_body =
     (let ha2 = (if ar_qop realm = QOPNOTSET \<or> ar_qop realm = AUTH then
                   md5hexdigest (meth @ '':'' @ digest_uri)
                 else Option.bind entity_body
                   (\<lambda>body. Option.bind (md5hexdigest body)
                     (\<lambda>hentity. md5hexdigest (meth @ '':'' @ digest_uri @ '':'' @ hentity))))
      in Option.bind ha2 (\<lambda>ha2.
         Option.bind (ar_authorization realm) (\<lambda>authorization.
         Option.bind (ar_nonce realm) (\<lambda>nonce.
           let result =
             (if ar_qop realm = AUTH \<or> ar_qop realm = AUTHINT then
                Option.bind (cptr_str (ar_cnonce realm)) (\<lambda>cnonce.
                Option.bind (QOP2STR (ar_qop realm)) (\<lambda>qop.
                  Some (authorization @ '':'' @ nonce @ '':'' @ hex_word (ar_nonce_count realm) @ '':''
                        @ cnonce @ '':'' @ qop @ '':'' @ ha2)))
              else Some (authorization @ '':'' @ nonce @ '':'' @ ha2))
           in Option.bind result (\<lambda>result. map_option Some (md5hexdigest result))))))"

section \<open>The header\<close>

fun quote_chars :: "string \<Rightarrow> string" where
  "quote_chars [] = []"
| "quote_chars (c # value) = (if c = CHR 0x22 then [CHR 0x5C, c] else [c]) @ quote_chars value"

definition Digest_Dstr_append_token_value :: "string \<Rightarrow> bool \<Rightarrow> string \<Rightarrow> string option \<Rightarrow> bool \<Rightarrow> string option" where
  "Digest_Dstr_append_token_value str delimiter token value quoted =
     (let str1 = str @ (if delimiter then '', '' else []) @ token @ ''=''
      in case value of
           None \<Rightarrow> None
         | Some v \<Rightarrow> Some (if quoted then str1 @ [CHR 0x22] @ quote_chars v @ [CHR 0x22] else str1 @ v))"

definition URL_Post :: "32 word" where "URL_Post = 2"

text \<open>The realm with the new count, and the header or the null pointer.\<close>

definition a_Digest_authorization_hdr :: "auth_realm \<Rightarrow> dillo_url \<Rightarrow> string \<Rightarrow> (auth_realm \<times> string option) option" where
  "a_Digest_authorization_hdr realm0 url digest_uri =
     (let meth = (if u_flags url AND URL_Post \<noteq> 0 then ''POST'' else ''GET'');
          realm = realm0\<lparr>ar_nonce_count := ar_nonce_count realm0 + 1\<rparr>;
          tok = (\<lambda>delim token value quoted str. Digest_Dstr_append_token_value str delim token value quoted)
      in Option.bind (Digest_create_response realm meth digest_uri (u_data url)) (\<lambda>response.
         case response of
           None \<Rightarrow> Some (realm, None)
         | Some resp \<Rightarrow>
           Option.bind (tok False ''username'' (ar_username realm) True ''Authorization: Digest '') (\<lambda>r.
           Option.bind (tok True ''realm'' (Some (ar_name realm)) True r) (\<lambda>r.
           Option.bind (tok True ''nonce'' (ar_nonce realm) True r) (\<lambda>r.
           Option.bind (tok True ''uri'' (Some digest_uri) True r) (\<lambda>r.
           Option.bind (if ar_qop realm \<noteq> QOPNOTSET then
                          map_option (\<lambda>r. r @ '', nc='' @ hex_word (ar_nonce_count realm))
                            (tok True ''cnonce'' (cptr_str (ar_cnonce realm)) True r)
                        else Some r) (\<lambda>r.
           Option.bind (if ar_algorithm realm \<noteq> ALGORITHMNOTSET then
                          tok True ''algorithm'' (ALGORITHM2STR (ar_algorithm realm)) False r
                        else Some r) (\<lambda>r.
           Option.bind (tok True ''response'' (Some resp) True r) (\<lambda>r.
           Option.bind (if ar_opaque realm \<noteq> None then tok True ''opaque'' (ar_opaque realm) True r
                        else Some r) (\<lambda>r.
           Option.bind (if ar_qop realm \<noteq> QOPNOTSET then tok True ''qop'' (QOP2STR (ar_qop realm)) True r
                        else Some r) (\<lambda>r.
             Some (realm, Some (r @ [CHR 0x0D, CHR 0x0A])))))))))))))"

end
