(* ===== verification/Auth.thy ===== *)
theory Auth
  imports Digest Misc
begin

text \<open>
  HTTP authentication, \<^verbatim>\<open>dillo/src/auth.c\<close>: the parser of challenges, the hosts with their realms and
  protected paths, the decision whether to ask the user, and the authorization header of a
  request. Hosts, realms and paths are \<open>Dlist\<close>s; a pointer to one of them is its index. The dialog
  is a parameter: the answer of the user, if any, to a title and a message. \<open>None\<close> stands for
  undefined behaviour, as in \<open>Digest\<close>.
\<close>

unbundle bit_operations_syntax

section \<open>Challenges\<close>

record auth_parse =
  ap_ok :: bool
  ap_type :: auth_type
  ap_realm :: "string option"
  ap_nonce :: "string option"
  ap_opaque :: "string option"
  ap_stale :: bool
  ap_algorithm :: auth_algorithm
  ap_domain :: "string option"
  ap_qop :: auth_qop

definition Auth_parse_new :: auth_parse where
  "Auth_parse_new = \<lparr>ap_ok = False, ap_type = TYPENOTSET, ap_realm = None, ap_nonce = None,
     ap_opaque = None, ap_stale = False, ap_algorithm = ALGORITHMNOTSET, ap_domain = None,
     ap_qop = QOPNOTSET\<rparr>"

definition Auth_is_token_char :: "char \<Rightarrow> bool" where
  "Auth_is_token_char c \<longleftrightarrow>
     \<not> (\<not> isascii c \<or> strchr ([CHR 0x22] @ ''()<>@,;:'' @ [CHR 0x5C] @ ''[]?=/{} '' @ [CHR 0x09]) c \<noteq> None
        \<or> iscntrl c)"

definition blank_tab :: "char \<Rightarrow> bool" where
  "blank_tab c \<longleftrightarrow> c = CHR '' '' \<or> c = CHR 0x09"

fun unquote_loop :: "bool \<Rightarrow> string \<Rightarrow> string \<times> string" where
  "unquote_loop quoted [] = ([], [])"
| "unquote_loop quoted [c] =
     (if (quoted \<and> c \<noteq> CHR 0x22) \<or> (\<not> quoted \<and> Auth_is_token_char c) then ([c], []) else ([], [c]))"
| "unquote_loop quoted (c # c' # value) =
     (if (quoted \<and> c \<noteq> CHR 0x22) \<or> (\<not> quoted \<and> Auth_is_token_char c) then
        (if c = CHR 0x5C then map_prod (Cons c') id (unquote_loop quoted value)
         else map_prod (Cons c) id (unquote_loop quoted (c' # value)))
      else ([], c # c' # value))"

definition Auth_unquote_value :: "string \<Rightarrow> string \<times> string" where
  "Auth_unquote_value valuep =
     (let value = dropWhile blank_tab valuep;
          quoted = (deref value = CHR 0x22);
          (result, rest) = unquote_loop quoted (if quoted then tl value else value)
      in (result, if quoted \<and> deref rest = CHR 0x22 then tl rest else rest))"

lemma unquote_loop_length: "length (snd (unquote_loop q s)) \<le> length s"
  by (induction q s rule: unquote_loop.induct) (auto simp: le_SucI)

lemma unquote_value_length: "length (snd (Auth_unquote_value s)) \<le> length s"
proof -
  have "length (dropWhile blank_tab s) \<le> length s" by (rule length_dropWhile_le)
  then show ?thesis
    using unquote_loop_length [of True "tl (dropWhile blank_tab s)"] unquote_loop_length [of False "dropWhile blank_tab s"]
    by (auto simp: Auth_unquote_value_def Let_def split: prod.splits)
qed

lemma token_tail_length: "dropWhile P (dropWhile Q s) = c # t \<Longrightarrow> length t < length s"
  using length_dropWhile_le [of P "dropWhile Q s"] length_dropWhile_le [of Q s] by simp

text \<open>
  The token-value pairs go to the callback, which tells whether to go on. The value is the parse,
  the rest of the challenge and the result of the function. After the terminator of the string
  the rest is not read any more.
\<close>

function Auth_parse_token_value ::
  "(auth_parse \<Rightarrow> string \<Rightarrow> string \<Rightarrow> auth_parse \<times> bool) \<Rightarrow> auth_parse \<Rightarrow> string \<Rightarrow> auth_parse \<times> string \<times> bool" where
  "Auth_parse_token_value callback ap auth =
     (if auth = [] then (ap, [], True)
      else
        let token = takeWhile Auth_is_token_char auth
        in if token = [] then (ap, auth, False)
           else
             case dropWhile blank_tab (dropWhile Auth_is_token_char auth) of
               [] \<Rightarrow> (ap, [], False)
             | c # auth1 \<Rightarrow>
                 if c = CHR ''='' then
                   (let (value, auth2) = Auth_unquote_value auth1;
                        (ap', keep_going) = callback ap token value
                    in if \<not> keep_going then (ap', auth2, True)
                       else Auth_parse_token_value callback ap'
                              (dropWhile (\<lambda>c. c = CHR '' '' \<or> c = CHR '','') auth2))
                 else (ap, auth1, False))"
  by pat_completeness auto
termination
proof (relation "measure (\<lambda>(callback, ap, auth). length auth)", goal_cases)
  case (2 callback ap auth token c auth1 r v auth2 r' ap' keep_going)
  then have "snd (Auth_unquote_value auth1) = auth2" by (metis snd_conv)
  with 2 show ?case using token_tail_length [of blank_tab Auth_is_token_char auth c auth1]
    unquote_value_length [of auth1] length_dropWhile_le [of "\<lambda>c. c = CHR '' '' \<or> c = CHR '',''" auth2]
    by simp
qed simp

declare Auth_parse_token_value.simps [simp del]

definition Auth_parse_basic_challenge_cb :: "auth_parse \<Rightarrow> string \<Rightarrow> string \<Rightarrow> auth_parse \<times> bool" where
  "Auth_parse_basic_challenge_cb ap token value =
     (if dStrAsciiCasecmp ''realm'' token = 0 then
        (if ap_realm ap = None then ap\<lparr>ap_realm := Some value\<rparr> else ap, False)
      else (ap, True))"

text \<open>The values of \<open>qop\<close>: only a value that is \<open>auth\<close> counts.\<close>

definition qop_next :: "string \<Rightarrow> string" where
  "qop_next value =
     (let v1 = dropWhile blank_tab (drop (strcspn value [CHR '','', CHR '' '', CHR 0x09]) value);
          v2 = (if deref v1 = CHR '','' then tl v1 else v1)
      in dropWhile blank_tab v2)"

lemma qop_next_length:
  assumes "v \<noteq> []"
  shows "length (qop_next v) < length v"
proof -
  define n where "n = strcspn v [CHR '','', CHR '' '', CHR 0x09]"
  define v1 where "v1 = dropWhile blank_tab (drop n v)"
  define v2 where "v2 = (if deref v1 = CHR '','' then tl v1 else v1)"
  have nx: "length (qop_next v) \<le> length v2"
    unfolding qop_next_def Let_def n_def [symmetric] v1_def [symmetric] v2_def [symmetric] by (rule length_dropWhile_le)
  have v2: "length v2 \<le> length v1" by (simp add: v2_def)
  have v1: "length v1 \<le> length v - n" unfolding v1_def using length_dropWhile_le [of blank_tab "drop n v"] by simp
  show ?thesis
  proof (cases "n = 0")
    case False
    moreover have "0 < length v" using assms by simp
    ultimately show ?thesis using nx v2 v1 by linarith
  next
    case True
    obtain c t where v: "v = c # t" using assms by (cases v) auto
    with True have "c \<in> {CHR '','', CHR '' '', CHR 0x09}" by (auto simp: n_def strcspn_def split: if_splits)
    then have "length v2 < length v"
    proof (elim insertE)
      assume "c = CHR '',''"
      then have "v2 = t" using True v by (simp add: v2_def v1_def blank_tab_def)
      with v show ?thesis by simp
    qed (use True v v2 length_dropWhile_le [of blank_tab t] in \<open>simp_all add: v1_def blank_tab_def\<close>)
    with nx show ?thesis by simp
  qed
qed

function qop_loop :: "auth_parse \<Rightarrow> string \<Rightarrow> auth_parse" where
  "qop_loop ap value =
     (if value = [] then ap
      else if strcspn value [CHR '','', CHR '' '', CHR 0x09] = 4 \<and> strncmp ''auth'' value 4 = 0 then
        ap\<lparr>ap_qop := AUTH\<rparr>
      else qop_loop ap (qop_next value))"
  by pat_completeness auto
termination by (relation "measure (\<lambda>(ap, value). length value)") (auto simp: qop_next_length)

declare qop_loop.simps [simp del]

definition Auth_parse_digest_challenge_cb :: "auth_parse \<Rightarrow> string \<Rightarrow> string \<Rightarrow> auth_parse \<times> bool" where
  "Auth_parse_digest_challenge_cb ap token value =
     (if dStrAsciiCasecmp ''realm'' token = 0 \<and> ap_realm ap = None then (ap\<lparr>ap_realm := Some value\<rparr>, True)
      else if strcmp ''domain'' token = 0 \<and> ap_domain ap = None then (ap\<lparr>ap_domain := Some value\<rparr>, True)
      else if strcmp ''nonce'' token = 0 \<and> ap_nonce ap = None then (ap\<lparr>ap_nonce := Some value\<rparr>, True)
      else if strcmp ''opaque'' token = 0 \<and> ap_opaque ap = None then (ap\<lparr>ap_opaque := Some value\<rparr>, True)
      else if strcmp ''stale'' token = 0 then
        (if dStrAsciiCasecmp ''true'' value = 0 then (ap\<lparr>ap_stale := True\<rparr>, True)
         else if dStrAsciiCasecmp ''false'' value = 0 then (ap\<lparr>ap_stale := False\<rparr>, True)
         else (ap, False))
      else if strcmp ''algorithm'' token = 0 then
        (if strcmp ''MD5'' value = 0 then (ap\<lparr>ap_algorithm := MD5\<rparr>, True)
         else (ap, False))
      else if strcmp ''qop'' token = 0 then (qop_loop ap value, True)
      else (ap, True))"

lemma parse_token_value_Nil [simp]: "Auth_parse_token_value cb ap [] = (ap, [], True)"
  by (subst Auth_parse_token_value.simps) simp

lemma parse_token_value_length:
  "Auth_parse_token_value cb ap s = (ap', s', True) \<Longrightarrow> s \<noteq> [] \<Longrightarrow> length s' < length s"
proof (induction cb ap s rule: Auth_parse_token_value.induct)
  case (1 cb ap s)
  from 1(2,3) obtain auth1 where a: "dropWhile blank_tab (dropWhile Auth_is_token_char s) = CHR ''='' # auth1"
    "takeWhile Auth_is_token_char s \<noteq> []"
    by (subst (asm) Auth_parse_token_value.simps)
       (auto simp: Let_def split: if_splits list.splits prod.splits)
  obtain v auth2 where u: "Auth_unquote_value auth1 = (v, auth2)" by fastforce
  obtain ap1 keep where c: "cb ap (takeWhile Auth_is_token_char s) v = (ap1, keep)" by fastforce
  let ?r = "dropWhile (\<lambda>c. c = CHR '' '' \<or> c = CHR '','') auth2"
  have l: "length auth2 < length s"
    using unquote_value_length [of auth1] u token_tail_length [OF a(1)] by simp
  have e: "Auth_parse_token_value cb ap s =
      (if \<not> keep then (ap1, auth2, True) else Auth_parse_token_value cb ap1 ?r)"
    using 1(3) a u c by (subst Auth_parse_token_value.simps) simp
  have r: "length ?r \<le> length auth2" by (rule length_dropWhile_le)
  consider (stop) "\<not> keep" | (empty) "keep" "?r = []" | (more) "keep" "?r \<noteq> []" by blast
  then show ?case
  proof cases
    case stop
    then show ?thesis using e 1(2) l by simp
  next
    case empty
    then have "s' = []" using e 1(2) by (simp only: parse_token_value_Nil) simp
    then show ?thesis using 1(3) by simp
  next
    case more
    then have "length s' < length ?r"
      using "1.IH" [OF 1(3) refl a(2,1) refl u [symmetric] refl c [symmetric]] e 1(2) u c by simp
    then show ?thesis using l r by simp
  qed
qed

function challenge_loop ::
  "(auth_parse \<Rightarrow> string \<Rightarrow> string \<Rightarrow> auth_parse \<times> bool) \<Rightarrow> auth_parse \<Rightarrow> string \<Rightarrow> auth_parse" where
  "challenge_loop cb ap challenge =
     (let s = dropWhile (\<lambda>c. c = CHR '' '' \<or> c = CHR '','') challenge
      in if s = [] then ap
         else case Auth_parse_token_value cb ap s of
                (ap', s', ret) \<Rightarrow> if \<not> ret then ap' else challenge_loop cb ap' s')"
  by pat_completeness auto
termination
proof (relation "measure (\<lambda>(cb, ap, challenge). length challenge)", goal_cases)
  case (2 cb ap challenge s ap' r s' ret)
  then have "Auth_parse_token_value cb ap s = (ap', s', True)" by simp
  then have "length s' < length s" using 2 by (intro parse_token_value_length)
  moreover have "length s \<le> length challenge" unfolding 2(1) by (rule length_dropWhile_le)
  ultimately show ?case by simp
qed simp

declare challenge_loop.simps [simp del]

definition Auth_parse_challenge_args ::
  "auth_parse \<Rightarrow> string \<Rightarrow> (auth_parse \<Rightarrow> string \<Rightarrow> string \<Rightarrow> auth_parse \<times> bool) \<Rightarrow> auth_parse" where
  "Auth_parse_challenge_args ap0 challenge cb =
     (let ap = challenge_loop cb ap0 challenge
      in if ap_type ap = BASIC then (if ap_realm ap \<noteq> None then ap\<lparr>ap_ok := True\<rparr> else ap)
         else if ap_type ap = DIGEST then
           (if ap_realm ap \<noteq> None \<and> ap_nonce ap \<noteq> None then ap\<lparr>ap_ok := True\<rparr> else ap)
         else ap)"

definition Auth_parse_challenge :: "auth_parse \<Rightarrow> string \<Rightarrow> auth_parse" where
  "Auth_parse_challenge ap challenge =
     (if ap_type ap = DIGEST then Auth_parse_challenge_args ap (drop 7 challenge) Auth_parse_digest_challenge_cb
      else Auth_parse_challenge_args ap (drop 6 challenge) Auth_parse_basic_challenge_cb)"

section \<open>Hosts, realms and paths\<close>

record auth_host =
  ah_scheme :: string
  ah_authority :: string
  ah_realms :: "auth_realm dlist"

text \<open>The state of the module: the hosts, and the rest of the random numbers.\<close>

record auth_state =
  auth_hosts :: "auth_host dlist"
  auth_rand :: "nat \<Rightarrow> int"

definition a_Auth_init :: "(nat \<Rightarrow> int) \<Rightarrow> auth_state" where
  "a_Auth_init rand = \<lparr>auth_hosts = the (dList_new 1), auth_rand = rand\<rparr>"

definition URL_SCHEME :: "dillo_url \<Rightarrow> string" where "URL_SCHEME u = NPTR2STR (u_scheme u)"
definition URL_AUTHORITY :: "dillo_url \<Rightarrow> string" where "URL_AUTHORITY u = NPTR2STR (u_authority u)"
definition URL_PATH :: "dillo_url \<Rightarrow> string" where "URL_PATH u = NPTR2STR (u_path u)"

definition Auth_path_is_inside :: "string \<Rightarrow> string \<Rightarrow> nat \<Rightarrow> bool" where
  "Auth_path_is_inside path1 path2 len \<longleftrightarrow>
     strncmp path1 path2 len = 0 \<and> (char_at path1 len = NUL \<or> char_at path1 len = CHR ''/'')"

fun host_loop :: "dillo_url \<Rightarrow> auth_host list \<Rightarrow> nat \<Rightarrow> nat option" where
  "host_loop url [] i = None"
| "host_loop url (host # hosts) i =
     (if dStrAsciiCasecmp (URL_SCHEME url) (ah_scheme host) = 0
         \<and> dStrAsciiCasecmp (URL_AUTHORITY url) (ah_authority host) = 0 then Some i
      else host_loop url hosts (i + 1))"

definition Auth_host_by_url :: "auth_host dlist \<Rightarrow> dillo_url \<Rightarrow> nat option" where
  "Auth_host_by_url hosts url = host_loop url (dl_list hosts) 0"

fun realm_loop :: "string \<Rightarrow> auth_realm list \<Rightarrow> nat \<Rightarrow> nat option" where
  "realm_loop name [] i = None"
| "realm_loop name (realm # realms) i =
     (if strcmp (ar_name realm) name = 0 then Some i else realm_loop name realms (i + 1))"

definition Auth_realm_by_name :: "auth_host \<Rightarrow> string \<Rightarrow> nat option" where
  "Auth_realm_by_name host name = realm_loop name (dl_list (ah_realms host)) 0"

text \<open>The best realm so far, if any, and the length of the path it matched with.\<close>

fun best_path :: "string \<Rightarrow> nat \<Rightarrow> string list \<Rightarrow> nat option \<times> nat \<Rightarrow> nat option \<times> nat" where
  "best_path path i [] best = best"
| "best_path path i (realm_path # realm_paths) (realm_best, match_length) =
     best_path path i realm_paths
       (if Auth_path_is_inside path realm_path (length realm_path)
           \<and> \<not> (realm_best \<noteq> None \<and> length realm_path \<le> match_length)
        then (Some i, length realm_path) else (realm_best, match_length))"

fun best_realm :: "string \<Rightarrow> nat \<Rightarrow> auth_realm list \<Rightarrow> nat option \<times> nat \<Rightarrow> nat option \<times> nat" where
  "best_realm path i [] best = best"
| "best_realm path i (realm # realms) best =
     best_realm path (i + 1) realms (best_path path i (dl_list (ar_paths realm)) best)"

definition Auth_realm_by_path :: "auth_host \<Rightarrow> string \<Rightarrow> nat option" where
  "Auth_realm_by_path host path = fst (best_realm path 0 (dl_list (ah_realms host)) (None, 0))"

fun includes_loop :: "string \<Rightarrow> string list \<Rightarrow> bool" where
  "includes_loop path [] = False"
| "includes_loop path (realm_path # realm_paths) =
     (if Auth_path_is_inside path realm_path (length realm_path) then True
      else includes_loop path realm_paths)"

definition Auth_realm_includes_path :: "auth_realm \<Rightarrow> string \<Rightarrow> bool" where
  "Auth_realm_includes_path realm path = includes_loop path (dl_list (ar_paths realm))"

text \<open>The removal is by pointer; an equal path before index \<open>i\<close> would have been removed before.\<close>

function drop_inside :: "string \<Rightarrow> nat \<Rightarrow> string dlist \<Rightarrow> nat \<Rightarrow> string dlist" where
  "drop_inside path len paths i =
     (case dList_nth_data (Some paths) (int i) of
        None \<Rightarrow> paths
      | Some realm_path \<Rightarrow>
          if Auth_path_is_inside realm_path path len then
            drop_inside path len (dList_remove_fast paths realm_path) i
          else drop_inside path len paths (i + 1))"
  by pat_completeness auto
termination
proof (relation "measure (\<lambda>(path, len, paths, i). length (dl_list paths) - i)", goal_cases)
  case (2 path len paths i rp)
  then have rp: "i < length (dl_list paths)" "rp = dl_list paths ! i"
    by (auto simp: dList_nth_data_def split: if_splits)
  then have "rp \<in> set (dl_list paths)" by simp
  then have "length (dl_list (dList_remove_fast paths rp)) = length (dl_list paths) - 1"
    using arg_cong [OF mset_remove_fast [of paths rp], of size] by (simp add: size_Diff_singleton)
  then show ?case using rp(1) by simp
next
  case (3 path len paths i rp)
  then show ?case by (auto simp: dList_nth_data_def split: if_splits)
qed simp

declare drop_inside.simps [simp del]

definition Auth_realm_add_path :: "auth_realm \<Rightarrow> string \<Rightarrow> auth_realm" where
  "Auth_realm_add_path realm path =
     (let len = (if path \<noteq> [] \<and> last path = CHR ''/'' then length path - 1 else length path);
          n_path = take len path;
          paths = drop_inside path len (ar_paths realm) 0
      in realm\<lparr>ar_paths := dList_append paths n_path\<rparr>)"

section \<open>Requests and challenges\<close>

text \<open>A write through a pointer into a list.\<close>

definition put_nth :: "'a dlist \<Rightarrow> nat \<Rightarrow> 'a \<Rightarrow> 'a dlist" where
  "put_nth lp i x = lp\<lparr>dl_list := (dl_list lp)[i := x]\<rparr>"

definition put_realm :: "auth_state \<Rightarrow> nat \<Rightarrow> nat \<Rightarrow> auth_realm \<Rightarrow> auth_state" where
  "put_realm st h r realm =
     (let host = dl_list (auth_hosts st) ! h
      in st\<lparr>auth_hosts := put_nth (auth_hosts st) h (host\<lparr>ah_realms := put_nth (ah_realms host) r realm\<rparr>)\<rparr>)"

definition a_Auth_get_auth_str :: "auth_state \<Rightarrow> dillo_url \<Rightarrow> string \<Rightarrow> (auth_state \<times> string option) option" where
  "a_Auth_get_auth_str st url request_uri =
     (case Auth_host_by_url (auth_hosts st) url of
        None \<Rightarrow> Some (st, None)
      | Some h \<Rightarrow>
          let host = dl_list (auth_hosts st) ! h
          in case Auth_realm_by_path host (URL_PATH url) of
               None \<Rightarrow> Some (st, None)
             | Some r \<Rightarrow>
                 let realm = dl_list (ah_realms host) ! r
                 in if ar_type realm = BASIC then Some (st, ar_authorization realm)
                    else if ar_type realm = DIGEST then
                      map_option (\<lambda>(realm', hdr). (put_realm st h r realm', hdr))
                        (a_Digest_authorization_hdr realm url request_uri)
                    else Some (st, None))"

definition Auth_do_auth_required :: "auth_state \<Rightarrow> auth_parse \<Rightarrow> dillo_url \<Rightarrow> (auth_state \<times> bool) option" where
  "Auth_do_auth_required st ap url =
     (case Auth_host_by_url (auth_hosts st) url of
        None \<Rightarrow> Some (st, True)
      | Some h \<Rightarrow>
          Option.bind (ap_realm ap) (\<lambda>name.
          let host = dl_list (auth_hosts st) ! h
          in case Auth_realm_by_name host name of
               None \<Rightarrow> Some (st, True)
             | Some r \<Rightarrow>
                 let realm = dl_list (ah_realms host) ! r
                 in if \<not> Auth_realm_includes_path realm (URL_PATH url) then
                      Some (put_realm st h r (Auth_realm_add_path realm (URL_PATH url)), False)
                    else if ap_type ap = DIGEST \<and> ap_stale ap then
                      Some (put_realm st h r (realm\<lparr>ar_nonce := ap_nonce ap\<rparr>), False)
                    else Some (st, True)))"

definition find_or_add_host :: "auth_host dlist \<Rightarrow> dillo_url \<Rightarrow> auth_host dlist \<times> nat" where
  "find_or_add_host hosts url =
     (case Auth_host_by_url hosts url of
        Some h \<Rightarrow> (hosts, h)
      | None \<Rightarrow> (dList_append hosts \<lparr>ah_scheme = URL_SCHEME url, ah_authority = URL_AUTHORITY url,
                   ah_realms = the (dList_new 1)\<rparr>, length (dl_list hosts)))"

definition new_realm :: "string \<Rightarrow> auth_realm" where
  "new_realm name = \<lparr>ar_type = TYPENOTSET, ar_name = name, ar_paths = the (dList_new 1),
     ar_authorization = None, ar_username = None, ar_cnonce = Null, ar_nonce_count = 0, ar_nonce = None,
     ar_opaque = None, ar_algorithm = ALGORITHMNOTSET, ar_domain = None, ar_qop = QOPNOTSET\<rparr>"

definition find_or_add_realm :: "auth_host \<Rightarrow> string \<Rightarrow> auth_host \<times> nat" where
  "find_or_add_realm host name =
     (case Auth_realm_by_name host name of
        Some r \<Rightarrow> (host, r)
      | None \<Rightarrow> (host\<lparr>ah_realms := dList_append (ah_realms host) (new_realm name)\<rparr>,
                 length (dl_list (ah_realms host))))"

text \<open>The old \<open>cnonce\<close> is freed, which must not have been done before; without \<open>qop\<close> the pointer stays.\<close>

definition renew_cnonce :: "auth_realm \<Rightarrow> (nat \<Rightarrow> int) \<Rightarrow> (auth_realm \<times> (nat \<Rightarrow> int)) option" where
  "renew_cnonce realm rand =
     (if ar_cnonce realm = Dangling then None
      else if ar_qop realm \<noteq> QOPNOTSET then
        (case a_Digest_create_cnonce rand of (cnonce, rand') \<Rightarrow> Some (realm\<lparr>ar_cnonce := Live cnonce\<rparr>, rand'))
      else Some (realm\<lparr>ar_cnonce := (case ar_cnonce realm of Null \<Rightarrow> Null | _ \<Rightarrow> Dangling)\<rparr>, rand))"

definition basic_credentials :: "auth_realm \<Rightarrow> string \<Rightarrow> string \<Rightarrow> auth_realm option" where
  "basic_credentials realm user password =
     Option.bind (a_Misc_encode_base64 (Some (user @ '':'' @ password))) (\<lambda>response.
     Option.bind response (\<lambda>response.
       Some (realm\<lparr>ar_authorization := Some (''Authorization: Basic '' @ response @ [CHR 0x0D, CHR 0x0A])\<rparr>)))"

definition Auth_do_auth_dialog_cb ::
  "auth_state \<Rightarrow> auth_parse \<Rightarrow> dillo_url \<Rightarrow> string \<Rightarrow> string \<Rightarrow> auth_state option" where
  "Auth_do_auth_dialog_cb st ap url user password =
     (case find_or_add_host (auth_hosts st) url of
        (hosts, h) \<Rightarrow>
     Option.bind (ap_realm ap) (\<lambda>name.
     case find_or_add_realm (dl_list hosts ! h) name of
        (host, r) \<Rightarrow>
     let st1 = st\<lparr>auth_hosts := put_nth hosts h host\<rparr>;
         realm1 = (dl_list (ah_realms host) ! r)\<lparr>ar_type := ap_type ap, ar_authorization := None\<rparr>;
         realm2 = Auth_realm_add_path realm1 (URL_PATH url)
     in if ar_type realm2 = BASIC then
          map_option (put_realm st1 h r) (basic_credentials realm2 user password)
        else if ar_type realm2 = DIGEST then
          (let realm3 = realm2\<lparr>ar_username := Some user, ar_nonce_count := 0, ar_nonce := ap_nonce ap,
                 ar_opaque := ap_opaque ap, ar_algorithm := ap_algorithm ap, ar_domain := ap_domain ap,
                 ar_qop := ap_qop ap\<rparr>
           in Option.bind (renew_cnonce realm3 (auth_rand st)) (\<lambda>(realm4, rand').
              Option.bind (a_Digest_compute_digest realm4 user password) (\<lambda>(realm5, ok).
                let st2 = put_realm (st1\<lparr>auth_rand := rand'\<rparr>) h r realm5
                in if ok then Some st2
                   else Some (st2\<lparr>auth_hosts := put_nth (auth_hosts st2) h
                          (host\<lparr>ah_realms := dList_remove_fast (ah_realms (dl_list (auth_hosts st2) ! h)) realm5\<rparr>)\<rparr>))))
        else Some (put_realm st1 h r realm2)))"

definition Auth_do_auth_dialog ::
  "(string \<Rightarrow> string \<Rightarrow> (string \<times> string) option) \<Rightarrow> auth_state \<Rightarrow> auth_parse \<Rightarrow> dillo_url
    \<Rightarrow> (auth_state \<times> bool) option" where
  "Auth_do_auth_dialog dialog st ap url =
     (let typestr = (if ap_type ap = DIGEST then ''Digest'' else ''Basic'')
      in Option.bind (ap_realm ap) (\<lambda>realm.
           let title = ''Dillo: Password for '' @ realm;
               msg = ''The server at '' @ URL_HOST url @ '' requires a username and password for  ''
                     @ [CHR 0x22] @ realm @ [CHR 0x22] @ ''.'' @ [CHR 0x0A, CHR 0x0A]
                     @ ''Authentication scheme: '' @ typestr
           in case dialog title msg of
                None \<Rightarrow> Some (st, False)
              | Some (user, password) \<Rightarrow>
                  map_option (\<lambda>st'. (st', True)) (Auth_do_auth_dialog_cb st ap (a_Url_dup url) user password)))"

definition Auth_do_auth ::
  "(string \<Rightarrow> string \<Rightarrow> (string \<times> string) option) \<Rightarrow> auth_state \<Rightarrow> string \<Rightarrow> auth_type \<Rightarrow> dillo_url
    \<Rightarrow> (auth_state \<times> bool) option" where
  "Auth_do_auth dialog st challenge type url =
     (let ap = Auth_parse_challenge (Auth_parse_new\<lparr>ap_type := type\<rparr>) challenge
      in if ap_ok ap then
           Option.bind (Auth_do_auth_required st ap url) (\<lambda>(st', required).
             if required then Auth_do_auth_dialog dialog st' ap url else Some (st', True))
         else Some (st, False))"

fun challenges_loop ::
  "(string \<Rightarrow> string \<Rightarrow> (string \<times> string) option) \<Rightarrow> string \<Rightarrow> auth_type \<Rightarrow> auth_state \<Rightarrow> string list
    \<Rightarrow> dillo_url \<Rightarrow> (auth_state \<times> bool) option" where
  "challenges_loop dialog scheme type st [] url = Some (st, False)"
| "challenges_loop dialog scheme type st (chal # challenges) url =
     (if dStrnAsciiCasecmp chal scheme (length scheme) = 0 then
        Option.bind (Auth_do_auth dialog st chal type url) (\<lambda>(st', ret).
          if ret then Some (st', True) else challenges_loop dialog scheme type st' challenges url)
      else challenges_loop dialog scheme type st challenges url)"

definition a_Auth_do_auth ::
  "(string \<Rightarrow> string \<Rightarrow> (string \<times> string) option) \<Rightarrow> auth_state \<Rightarrow> string list \<Rightarrow> dillo_url
    \<Rightarrow> (auth_state \<times> bool) option" where
  "a_Auth_do_auth dialog st challenges url =
     Option.bind (challenges_loop dialog ''Digest '' DIGEST st challenges url) (\<lambda>(st', ret).
       if ret then Some (st', True) else challenges_loop dialog ''Basic '' BASIC st' challenges url)"

end
