(* ===== verification/Auth_Challenge.thy ===== *)
theory Auth_Challenge
  imports Auth
begin

text \<open>
  What the parser of \<open>Auth\<close> makes of a well-formed challenge: a list of parameters, each a token
  with a value that is quoted or a token. Quoting is that of RFC 2617, with a backslash before
  quotes and backslashes.
\<close>

section \<open>Quoted strings\<close>

fun rfc_quote :: "string \<Rightarrow> string" where
  "rfc_quote [] = []"
| "rfc_quote (c # s) = (if c = CHR 0x22 \<or> c = CHR 0x5C then [CHR 0x5C, c] else [c]) @ rfc_quote s"

lemma unquote_loop_quote [simp]: "unquote_loop True (CHR 0x22 # s) = ([], CHR 0x22 # s)"
  by (cases s) simp_all

lemma unquote_loop_plain:
  assumes "quoted \<and> c \<noteq> CHR 0x22 \<or> \<not> quoted \<and> Auth_is_token_char c" "c \<noteq> CHR 0x5C"
  shows "unquote_loop quoted (c # s) = map_prod (Cons c) id (unquote_loop quoted s)"
  using assms by (cases s) auto

lemma unquote_rfc_quote: "unquote_loop True (rfc_quote v @ CHR 0x22 # s) = (v, CHR 0x22 # s)"
  by (induction v) (auto simp: unquote_loop_plain)

text \<open>The quoting of the browser escapes quotes only.\<close>

lemma unquote_quote_chars:
  "CHR 0x5C \<notin> set v \<Longrightarrow> unquote_loop True (quote_chars v @ CHR 0x22 # s) = (v, CHR 0x22 # s)"
  by (induction v) (auto simp: unquote_loop_plain)

lemma token_char_not:
  "\<not> Auth_is_token_char NUL" "\<not> Auth_is_token_char CHR '',''" "\<not> Auth_is_token_char CHR ''=''"
  "\<not> Auth_is_token_char CHR 0x22" "\<not> Auth_is_token_char CHR 0x5C" "\<not> Auth_is_token_char CHR '' ''"
  "\<not> Auth_is_token_char CHR 0x09"
  by (simp_all add: Auth_is_token_char_def strchr_def)

lemma token_char_neq:
  "Auth_is_token_char c \<Longrightarrow> c \<noteq> CHR '','' \<and> c \<noteq> CHR ''='' \<and> c \<noteq> CHR 0x22 \<and> c \<noteq> CHR 0x5C \<and> c \<noteq> CHR '' '' \<and> c \<noteq> CHR 0x09 \<and> c \<noteq> NUL"
  using token_char_not by metis

lemma unquote_token:
  "list_all Auth_is_token_char v \<Longrightarrow> \<not> Auth_is_token_char (deref s) \<Longrightarrow> unquote_loop False (v @ s) = (v, s)"
proof (induction v)
  case Nil
  then show ?case by (cases s; cases "tl s") auto
next
  case (Cons c v)
  then show ?case using token_char_neq [of c] by (simp add: unquote_loop_plain)
qed

section \<open>Parameters\<close>

text \<open>A token, its value, and whether the value is quoted.\<close>

type_synonym auth_param = "string \<times> string \<times> bool"

definition param_ok :: "auth_param \<Rightarrow> bool" where
  "param_ok p = (case p of (token, v, quoted) \<Rightarrow>
     token \<noteq> [] \<and> list_all Auth_is_token_char token \<and> cstr v \<and> (quoted \<or> list_all Auth_is_token_char v))"

definition param_text :: "auth_param \<Rightarrow> string" where
  "param_text p = (case p of (token, v, quoted) \<Rightarrow>
     token @ ''='' @ (if quoted then [CHR 0x22] @ rfc_quote v @ [CHR 0x22] else v))"

fun params_text :: "auth_param list \<Rightarrow> string" where
  "params_text [] = []"
| "params_text [p] = param_text p"
| "params_text (p # q # ps) = param_text p @ '', '' @ params_text (q # ps)"

definition more_params :: "auth_param list \<Rightarrow> string" where
  "more_params ps = (if ps = [] then [] else '', '' @ params_text ps)"

lemma params_text_Cons: "params_text (p # ps) = param_text p @ more_params ps"
  by (cases ps) (simp_all add: more_params_def)

abbreviation "auth_sep \<equiv> (\<lambda>c. c = CHR '' '' \<or> c = CHR '','')"

lemma params_text_start:
  assumes "list_all param_ok ps" "ps \<noteq> []"
  shows "params_text ps \<noteq> []" "dropWhile auth_sep (params_text ps) = params_text ps"
proof -
  obtain t v q ps' where ps: "ps = (t, v, q) # ps'" using assms(2) by (cases ps) auto
  then obtain c t' where "t = c # t'" "Auth_is_token_char c"
    using assms(1) by (cases t) (auto simp: param_ok_def)
  then show "params_text ps \<noteq> []" "dropWhile auth_sep (params_text ps) = params_text ps"
    using token_char_neq [of c] by (simp_all add: ps params_text_Cons param_text_def)
qed

lemma dropWhile_more_params: "list_all param_ok ps \<Longrightarrow> dropWhile auth_sep (more_params ps) = params_text ps"
  using params_text_start [of ps] by (cases "ps = []") (simp_all add: more_params_def)

lemma unquote_value_param:
  assumes "param_ok (t, v, q)"
  shows "Auth_unquote_value ((if q then [CHR 0x22] @ rfc_quote v @ [CHR 0x22] else v) @ more_params ps) = (v, more_params ps)"
proof -
  have m: "\<not> Auth_is_token_char (deref (more_params ps))" "deref (more_params ps) \<noteq> CHR 0x22"
    "\<not> blank_tab (deref (more_params ps))"
    by (auto simp: more_params_def token_char_not blank_tab_def)
  show ?thesis
  proof (cases q)
    case True
    then show ?thesis by (simp add: Auth_unquote_value_def blank_tab_def unquote_rfc_quote)
  next
    case False
    then have v: "list_all Auth_is_token_char v" using assms by (simp add: param_ok_def)
    have "dropWhile blank_tab (v @ more_params ps) = v @ more_params ps \<and> deref (v @ more_params ps) \<noteq> CHR 0x22"
    proof (cases v)
      case Nil
      then show ?thesis using m by (cases "more_params ps") auto
    next
      case (Cons c v')
      then show ?thesis using v token_char_neq [of c] by (simp add: blank_tab_def)
    qed
    then show ?thesis using False unquote_token [OF v m(1)] by (simp add: Auth_unquote_value_def)
  qed
qed

text \<open>The callbacks until one ends the function, and the parameters that are left.\<close>

fun run_params ::
  "(auth_parse \<Rightarrow> string \<Rightarrow> string \<Rightarrow> auth_parse \<times> bool) \<Rightarrow> auth_parse \<Rightarrow> auth_param list
    \<Rightarrow> auth_parse \<times> auth_param list" where
  "run_params cb ap [] = (ap, [])"
| "run_params cb ap ((t, v, q) # ps) =
     (case cb ap t v of (ap', keep) \<Rightarrow> if keep then run_params cb ap' ps else (ap', ps))"

lemma parse_token_value_params:
  "list_all param_ok ps \<Longrightarrow> Auth_parse_token_value cb ap (params_text ps) =
     (case run_params cb ap ps of (ap', rest) \<Rightarrow> (ap', more_params rest, True))"
proof (induction ps arbitrary: ap)
  case Nil
  then show ?case by (simp add: more_params_def)
next
  case (Cons p ps)
  obtain t v q where p: "p = (t, v, q)" by (cases p) auto
  have ok: "param_ok (t, v, q)" "list_all param_ok ps" using Cons.prems p by simp_all
  then have t: "t \<noteq> []" "list_all Auth_is_token_char t" by (simp_all add: param_ok_def)
  let ?rest = "(if q then [CHR 0x22] @ rfc_quote v @ [CHR 0x22] else v) @ more_params ps"
  have pt: "params_text (p # ps) = t @ CHR ''='' # ?rest"
    by (simp add: params_text_Cons p param_text_def)
  have tok: "takeWhile Auth_is_token_char (t @ CHR ''='' # ?rest) = t"
    "dropWhile Auth_is_token_char (t @ CHR ''='' # ?rest) = CHR ''='' # ?rest"
    using t(2) by (simp_all add: takeWhile_append2 dropWhile_append2 list_all_iff token_char_not)
  obtain ap' keep where cb: "cb ap t v = (ap', keep)" by fastforce
  have "Auth_parse_token_value cb ap (t @ CHR ''='' # ?rest) =
    (if \<not> keep then (ap', more_params ps, True)
     else Auth_parse_token_value cb ap' (dropWhile auth_sep (more_params ps)))"
    using t(1) tok unquote_value_param [OF ok(1), of ps] cb
    by (subst Auth_parse_token_value.simps) (simp add: blank_tab_def)
  then show ?case
    using Cons.IH [OF ok(2), of ap'] dropWhile_more_params [OF ok(2)] unfolding pt by (simp add: p cb)
qed

lemma run_params_fold:
  "run_params cb ap ps = (ap', rest) \<Longrightarrow>
     fold (\<lambda>(t, v, q) ap. fst (cb ap t v)) ps ap = fold (\<lambda>(t, v, q) ap. fst (cb ap t v)) rest ap'
     \<and> length rest \<le> length ps \<and> (ps \<noteq> [] \<longrightarrow> length rest < length ps)
     \<and> (list_all param_ok ps \<longrightarrow> list_all param_ok rest)"
  by (induction cb ap ps rule: run_params.induct) (fastforce split: prod.splits if_splits)+

text \<open>Every parameter is given to the callback, whatever it returns.\<close>

lemma challenge_loop_params:
  "list_all param_ok ps \<Longrightarrow> challenge_loop cb ap (more_params ps) = fold (\<lambda>(t, v, q) ap. fst (cb ap t v)) ps ap"
proof (induction "length ps" arbitrary: ps ap rule: less_induct)
  case less
  show ?case
  proof (cases "ps = []")
    case True
    then show ?thesis by (subst challenge_loop.simps) (simp add: more_params_def)
  next
    case False
    obtain ap' rest where run: "run_params cb ap ps = (ap', rest)" by fastforce
    note f = run_params_fold [OF run]
    have "challenge_loop cb ap (more_params ps) = challenge_loop cb ap' (more_params rest)"
      using params_text_start [OF less.prems False] run
      by (subst challenge_loop.simps)
         (simp add: dropWhile_more_params [OF less.prems] parse_token_value_params [OF less.prems])
    also have "\<dots> = fold (\<lambda>(t, v, q) ap. fst (cb ap t v)) rest ap'"
      using f False less.prems by (intro less.hyps) simp_all
    finally show ?thesis using f by simp
  qed
qed

lemma challenge_loop_sep: "challenge_loop cb ap (dropWhile auth_sep s) = challenge_loop cb ap s"
  by (subst (1 2) challenge_loop.simps) simp

section \<open>Digest challenges\<close>

lemma token_cstr: "list_all Auth_is_token_char t \<Longrightarrow> cstr t"
  by (auto simp: cstr_def list_all_iff token_char_not)

lemma param_token_strcmp:
  assumes "param_ok (t, v, q)"
  shows "strcmp ''domain'' t = 0 \<longleftrightarrow> t = ''domain''" "strcmp ''nonce'' t = 0 \<longleftrightarrow> t = ''nonce''"
    "strcmp ''opaque'' t = 0 \<longleftrightarrow> t = ''opaque''" "strcmp ''stale'' t = 0 \<longleftrightarrow> t = ''stale''"
    "strcmp ''algorithm'' t = 0 \<longleftrightarrow> t = ''algorithm''" "strcmp ''qop'' t = 0 \<longleftrightarrow> t = ''qop''"
    "strcmp ''MD5'' v = 0 \<longleftrightarrow> v = ''MD5''"
  using assms token_cstr [of t] by (auto simp: param_ok_def strcmp_eq_0)

text \<open>The value of the first parameter with a given token.\<close>

fun first_value :: "(string \<Rightarrow> bool) \<Rightarrow> auth_param list \<Rightarrow> string option" where
  "first_value P [] = None"
| "first_value P ((t, v, q) # ps) = (if P t then Some v else first_value P ps)"

definition realm_token :: "string \<Rightarrow> bool" where
  "realm_token t \<longleftrightarrow> dStrAsciiCasecmp ''realm'' t = 0"

lemma realm_token_not:
  "\<not> realm_token ''domain''" "\<not> realm_token ''nonce''" "\<not> realm_token ''opaque''" "\<not> realm_token ''stale''"
  "\<not> realm_token ''algorithm''" "\<not> realm_token ''qop''"
  by (simp_all add: realm_token_def D_ASCII_TOLOWER_def schar_def uchar_def)

lemma qop_loop_fields:
  "ap_type (qop_loop ap v) = ap_type ap \<and> ap_realm (qop_loop ap v) = ap_realm ap \<and> ap_nonce (qop_loop ap v) = ap_nonce ap
   \<and> ap_opaque (qop_loop ap v) = ap_opaque ap \<and> ap_domain (qop_loop ap v) = ap_domain ap
   \<and> ap_algorithm (qop_loop ap v) = ap_algorithm ap \<and> ap_ok (qop_loop ap v) = ap_ok ap
   \<and> ap_stale (qop_loop ap v) = ap_stale ap
   \<and> ap_qop (qop_loop ap v) \<in> {ap_qop ap, AUTH}"
proof (induction ap v rule: qop_loop.induct)
  case (1 ap v)
  then show ?case by (subst (1 2 3 4 5 6 7 8 9) qop_loop.simps) auto
qed

abbreviation digest_params :: "auth_param list \<Rightarrow> auth_parse \<Rightarrow> auth_parse" where
  "digest_params \<equiv> fold (\<lambda>(t, v, q) ap. fst (Auth_parse_digest_challenge_cb ap t v))"

lemma digest_cb_cases:
  assumes "param_ok (t, v, q)"
  shows "fst (Auth_parse_digest_challenge_cb ap t v) =
    (if realm_token t then (if ap_realm ap = None then ap\<lparr>ap_realm := Some v\<rparr> else ap)
     else if t = ''domain'' then (if ap_domain ap = None then ap\<lparr>ap_domain := Some v\<rparr> else ap)
     else if t = ''nonce'' then (if ap_nonce ap = None then ap\<lparr>ap_nonce := Some v\<rparr> else ap)
     else if t = ''opaque'' then (if ap_opaque ap = None then ap\<lparr>ap_opaque := Some v\<rparr> else ap)
     else if t = ''stale'' then
       (if dStrAsciiCasecmp ''true'' v = 0 then ap\<lparr>ap_stale := True\<rparr>
        else if dStrAsciiCasecmp ''false'' v = 0 then ap\<lparr>ap_stale := False\<rparr> else ap)
     else if t = ''algorithm'' then (if v = ''MD5'' then ap\<lparr>ap_algorithm := MD5\<rparr> else ap)
     else if t = ''qop'' then qop_loop ap v
     else ap)"
proof -
  note d = Auth_parse_digest_challenge_cb_def [of ap t v, folded realm_token_def,
      unfolded param_token_strcmp [OF assms]]
  show ?thesis
  proof (cases "realm_token t")
    case True
    then have "t \<noteq> ''domain''" "t \<noteq> ''nonce''" "t \<noteq> ''opaque''" "t \<noteq> ''stale''" "t \<noteq> ''algorithm''" "t \<noteq> ''qop''"
      using realm_token_not by metis+
    with True show ?thesis unfolding d by simp
  next
    case False
    note nr = False
    show ?thesis
    proof (cases "t = ''domain'' \<or> t = ''nonce'' \<or> t = ''opaque''")
      case True
      then show ?thesis unfolding d by (elim disjE) (simp_all add: realm_token_not)
    next
      case False
      with nr show ?thesis unfolding d by simp
    qed
  qed
qed

lemma digest_cb_fields:
  assumes "param_ok (t, v, q)"
  shows "ap_realm (fst (Auth_parse_digest_challenge_cb ap t v)) =
       (if ap_realm ap = None \<and> realm_token t then Some v else ap_realm ap)"
    "ap_domain (fst (Auth_parse_digest_challenge_cb ap t v)) =
       (if ap_domain ap = None \<and> t = ''domain'' then Some v else ap_domain ap)"
    "ap_nonce (fst (Auth_parse_digest_challenge_cb ap t v)) =
       (if ap_nonce ap = None \<and> t = ''nonce'' then Some v else ap_nonce ap)"
    "ap_opaque (fst (Auth_parse_digest_challenge_cb ap t v)) =
       (if ap_opaque ap = None \<and> t = ''opaque'' then Some v else ap_opaque ap)"
    "ap_algorithm (fst (Auth_parse_digest_challenge_cb ap t v)) =
       (if t = ''algorithm'' \<and> v = ''MD5'' then MD5 else ap_algorithm ap)"
    "ap_type (fst (Auth_parse_digest_challenge_cb ap t v)) = ap_type ap"
    "ap_ok (fst (Auth_parse_digest_challenge_cb ap t v)) = ap_ok ap"
  unfolding digest_cb_cases [OF assms]
  by (simp_all add: realm_token_not qop_loop_fields)

lemma digest_params_fields:
  assumes "list_all param_ok ps"
  shows "ap_realm (digest_params ps ap) = (if ap_realm ap = None then first_value realm_token ps else ap_realm ap)
  \<and> ap_domain (digest_params ps ap) = (if ap_domain ap = None then first_value ((=) ''domain'') ps else ap_domain ap)
  \<and> ap_nonce (digest_params ps ap) = (if ap_nonce ap = None then first_value ((=) ''nonce'') ps else ap_nonce ap)
  \<and> ap_opaque (digest_params ps ap) = (if ap_opaque ap = None then first_value ((=) ''opaque'') ps else ap_opaque ap)
  \<and> ap_algorithm (digest_params ps ap) = (if \<exists>q. (''algorithm'', ''MD5'', q) \<in> set ps then MD5 else ap_algorithm ap)
  \<and> ap_type (digest_params ps ap) = ap_type ap
  \<and> ap_ok (digest_params ps ap) = ap_ok ap"
  using assms
proof (induction ps arbitrary: ap)
  case Nil
  then show ?case by simp
next
  case (Cons p ps)
  obtain t v q where p: "p = (t, v, q)" by (cases p) auto
  have ok: "param_ok (t, v, q)" "list_all param_ok ps" using Cons.prems p by simp_all
  have ex: "(\<exists>q'. (''algorithm'', ''MD5'', q') \<in> set ((t, v, q) # ps)) \<longleftrightarrow>
    t = ''algorithm'' \<and> v = ''MD5'' \<or> (\<exists>q'. (''algorithm'', ''MD5'', q') \<in> set ps)"
    unfolding set_simps insert_iff prod.inject by blast
  define ap1 where "ap1 = fst (Auth_parse_digest_challenge_cb ap t v)"
  note fields = digest_cb_fields [OF ok(1), of ap, folded ap1_def]
  show ?case
    unfolding p fold_simps prod.case first_value.simps ex eq_commute [of "_ :: string" t] ap1_def [symmetric]
    by (intro conjI) (simp_all add: Cons.IH [OF ok(2), of ap1] fields)
qed

lemma parse_challenge_params:
  assumes "list_all param_ok ps"
  shows "Auth_parse_challenge_args ap (params_text ps) cb =
     (let ap' = fold (\<lambda>(t, v, q) ap. fst (cb ap t v)) ps ap
      in if ap_type ap' = BASIC then (if ap_realm ap' \<noteq> None then ap'\<lparr>ap_ok := True\<rparr> else ap')
         else if ap_type ap' = DIGEST then
           (if ap_realm ap' \<noteq> None \<and> ap_nonce ap' \<noteq> None then ap'\<lparr>ap_ok := True\<rparr> else ap')
         else ap')"
proof -
  have "challenge_loop cb ap (params_text ps) = fold (\<lambda>(t, v, q) ap. fst (cb ap t v)) ps ap"
    using challenge_loop_sep [of cb ap "more_params ps"]
    by (simp add: dropWhile_more_params [OF assms] challenge_loop_params [OF assms])
  then show ?thesis by (simp add: Auth_parse_challenge_args_def)
qed

text \<open>
  C38: A digest challenge of well-formed parameters is read as their first realm (in any
  case), nonce, opaque and domain, with quoting undone, and it is accepted exactly when it has a realm and a
  nonce. The parser does not stop where its callback tells it to: an algorithm that
  is not supported, such as MD5-sess, does not refuse the challenge but counts as no algorithm.
\<close>

theorem Auth_digest_challenge_read:
  assumes "list_all param_ok ps"
  defines "ap \<equiv> Auth_parse_challenge (Auth_parse_new\<lparr>ap_type := DIGEST\<rparr>) (''Digest '' @ params_text ps)"
  shows "ap_realm ap = first_value realm_token ps \<and> ap_nonce ap = first_value ((=) ''nonce'') ps
    \<and> ap_opaque ap = first_value ((=) ''opaque'') ps \<and> ap_domain ap = first_value ((=) ''domain'') ps
    \<and> ap_ok ap = (first_value realm_token ps \<noteq> None \<and> first_value ((=) ''nonce'') ps \<noteq> None)
    \<and> ap_algorithm ap = (if \<exists>q. (''algorithm'', ''MD5'', q) \<in> set ps then MD5 else ALGORITHMNOTSET)"
  unfolding ap_def
  by (simp add: Auth_parse_challenge_def Auth_parse_new_def parse_challenge_params [OF assms(1)] Let_def
        digest_params_fields [OF assms(1)])

lemma Auth_digest_challenge_read_witness:
  "ap_ok (Auth_parse_challenge (Auth_parse_new\<lparr>ap_type := DIGEST\<rparr>)
     (''Digest '' @ params_text [(''Realm'', [CHR 0x22], True), (''nonce'', ''n'', True), (''algorithm'', ''MD5-sess'', False)]))
   \<and> ap_algorithm (Auth_parse_challenge (Auth_parse_new\<lparr>ap_type := DIGEST\<rparr>)
     (''Digest '' @ params_text [(''Realm'', [CHR 0x22], True), (''nonce'', ''n'', True), (''algorithm'', ''MD5-sess'', False)]))
     = ALGORITHMNOTSET"
proof -
  have ok: "list_all param_ok [(''Realm'', [CHR 0x22], True), (''nonce'', ''n'', True), (''algorithm'', ''MD5-sess'', False)]"
    by (simp add: param_ok_def Auth_is_token_char_def strchr_def isascii_def iscntrl_def uchar_def)
  show ?thesis
    using Auth_digest_challenge_read [OF ok] by (simp add: realm_token_def D_ASCII_TOLOWER_def schar_def uchar_def)
qed

section \<open>The header of the browser\<close>

lemma unquote_quote_chars_backslash:
  "CHR 0x5C \<notin> set v \<Longrightarrow> unquote_loop True (quote_chars (v @ [CHR 0x5C]) @ CHR 0x22 # s)
     = map_prod (\<lambda>w. v @ CHR 0x22 # w) id (unquote_loop True s)"
proof (induction v)
  case Nil
  then show ?case by (simp add: map_prod_def)
next
  case (Cons c v)
  then show ?case by (auto simp: unquote_loop_plain map_prod_def split: prod.splits)
qed

text \<open>
  A quoted value that the browser puts into its authorization header is read back exactly
  when it has no backslash. The browser does not escape backslashes: after a value that ends in one, the closing quote
  and what follows it are read as part of the value.
\<close>

theorem Digest_quoted_value_read:
  assumes "CHR 0x5C \<notin> set v"
  shows "(\<exists>r. Digest_Dstr_append_token_value str delimiter token (Some v) True = Some r
      \<and> (\<exists>h. r = str @ h @ CHR 0x22 # quote_chars v @ [CHR 0x22]
           \<and> Auth_unquote_value (drop (length (str @ h)) r @ s) = (v, s)))
    \<and> (\<exists>r. Digest_Dstr_append_token_value str delimiter token (Some (v @ [CHR 0x5C])) True = Some r
      \<and> (\<exists>h. r = str @ h @ CHR 0x22 # quote_chars (v @ [CHR 0x5C]) @ [CHR 0x22]
           \<and> fst (Auth_unquote_value (drop (length (str @ h)) r @ s)) = v @ CHR 0x22 # fst (unquote_loop True s)))"
  using unquote_quote_chars [OF assms, of s] unquote_quote_chars_backslash [OF assms, of s]
  by (auto simp: Digest_Dstr_append_token_value_def Auth_unquote_value_def blank_tab_def map_prod_def split: prod.splits
        intro!: exI [of _ "(if delimiter then '', '' else []) @ token @ ''=''"])

lemma Digest_quoted_value_read_witness:
  "\<exists>r. Digest_Dstr_append_token_value ''Digest '' False ''username'' (Some ''a'') True = Some r
      \<and> (\<exists>h. r = ''Digest '' @ h @ CHR 0x22 # quote_chars ''a'' @ [CHR 0x22]
           \<and> Auth_unquote_value (drop (length (''Digest '' @ h)) r @ '', realm'') = (''a'', '', realm''))"
  using Digest_quoted_value_read [of "''a''" "''Digest ''" False "''username''" "'', realm''"] by simp

end
