(* ===== verification/Auth_Store.thy ===== *)
theory Auth_Store
  imports Auth_Challenge History
begin

text \<open>
  The state of \<open>Auth\<close>: which paths a realm covers, which realm answers for a request, the
  invariant of the hosts and realms, and the composition of a challenge with the next request.
\<close>

section \<open>Paths\<close>

text \<open>A path is under another when it is the same, or continues it after a slash.\<close>

definition path_under :: "string \<Rightarrow> string \<Rightarrow> bool" where
  "path_under q p \<longleftrightarrow> (\<exists>t. q = p @ t \<and> (t = [] \<or> (\<exists>u. t = CHR ''/'' # u)))"

lemma path_under_refl [simp]: "path_under p p"
  by (simp add: path_under_def)

lemma path_under_trans: "path_under q p \<Longrightarrow> path_under r q \<Longrightarrow> path_under r p"
  by (auto simp: path_under_def)

lemma inside_iff:
  assumes "cstr q" "cstr p" "len \<le> length p"
  shows "Auth_path_is_inside q p len \<longleftrightarrow> path_under q (take len p)"
proof -
  have eq: "strncmp q p len = 0 \<longleftrightarrow> take len q = take len p"
    using assms by (simp add: strncmp_def strcmp_eq_0)
  have at: "char_at q len = NUL \<longleftrightarrow> length q \<le> len"
    using assms(1) by (auto simp: char_at_def cstr_def) (metis nth_mem)
  show ?thesis
  proof
    assume a: "Auth_path_is_inside q p len"
    then have q: "q = take len p @ drop len q" using eq by (metis Auth_path_is_inside_def append_take_drop_id)
    have "drop len q = [] \<or> (\<exists>u. drop len q = CHR ''/'' # u)"
    proof (cases "length q \<le> len")
      case False
      then have "drop len q = q ! len # drop (Suc len) q" by (simp add: Cons_nth_drop_Suc)
      with a at False show ?thesis by (auto simp: Auth_path_is_inside_def char_at_def)
    qed simp
    with q show "path_under q (take len p)" unfolding path_under_def by blast
  next
    assume "path_under q (take len p)"
    then obtain t where t: "q = take len p @ t" "t = [] \<or> (\<exists>u. t = CHR ''/'' # u)" by (auto simp: path_under_def)
    then have "take len q = take len p" "char_at q len = deref t"
      using assms(3) by (auto simp: char_at_def nth_append)
    then show "Auth_path_is_inside q p len" using eq t(2) by (auto simp: Auth_path_is_inside_def)
  qed
qed

lemma inside_whole: "cstr q \<Longrightarrow> cstr p \<Longrightarrow> Auth_path_is_inside q p (length p) \<longleftrightarrow> path_under q p"
  using inside_iff [of q p "length p"] by simp

lemma includes_loop_iff:
  "cstr path \<Longrightarrow> list_all cstr ps \<Longrightarrow> includes_loop path ps \<longleftrightarrow> (\<exists>p \<in> set ps. path_under path p)"
  by (induction ps) (auto simp: inside_whole)

section \<open>Adding a path\<close>

lemma remove_fast_at:
  assumes "i < length (dl_list lp)" "dl_list lp ! i \<notin> set (take i (dl_list lp))"
  shows "take i (dl_list (dList_remove_fast lp (dl_list lp ! i))) = take i (dl_list lp)"
    and "length (dl_list (dList_remove_fast lp (dl_list lp ! i))) = length (dl_list lp) - 1"
proof -
  obtain j where j: "index_loop (dl_list lp) (dl_list lp ! i) 0 = Some j"
    using assms(1) index_loop_None [of "dl_list lp" "dl_list lp ! i" 0]
    by (cases "index_loop (dl_list lp) (dl_list lp ! i) 0") auto
  from index_loop_Some [OF j] have l: "j < length (dl_list lp)" "dl_list lp ! j = dl_list lp ! i"
    "dl_list lp ! i \<notin> set (take j (dl_list lp))" by auto
  have "j = i"
  proof (rule linorder_cases [of j i])
    assume "j < i"
    then have "dl_list lp ! j \<in> set (take i (dl_list lp))" using l(1) by (auto simp: in_set_conv_nth)
    with l(2) assms(2) show ?thesis by simp
  next
    assume "i < j"
    then have "dl_list lp ! i \<in> set (take j (dl_list lp))" using assms(1) l(1) by (auto simp: in_set_conv_nth)
    with l(3) show ?thesis by simp
  qed
  then show "take i (dl_list (dList_remove_fast lp (dl_list lp ! i))) = take i (dl_list lp)"
    "length (dl_list (dList_remove_fast lp (dl_list lp ! i))) = length (dl_list lp) - 1"
    using j assms(1) by (auto simp: dList_remove_fast_def Let_def min_def)
qed

lemma drop_inside_mset:
  assumes "\<forall>p \<in> set (take i (dl_list paths)). \<not> Auth_path_is_inside p path len" "i \<le> length (dl_list paths)"
  shows "mset (dl_list (drop_inside path len paths i))
    = filter_mset (\<lambda>p. \<not> Auth_path_is_inside p path len) (mset (dl_list paths))"
  using assms
proof (induction path len paths i rule: drop_inside.induct)
  case (1 path len paths i)
  let ?P = "\<lambda>p. \<not> Auth_path_is_inside p path len"
  show ?case
  proof (cases "i < length (dl_list paths)")
    case False
    then have "take i (dl_list paths) = dl_list paths" by simp
    then have "\<forall>p \<in># mset (dl_list paths). ?P p" using 1(3) by simp
    then have "filter_mset ?P (mset (dl_list paths)) = mset (dl_list paths)"
      by (intro filter_mset_eq_conv [THEN iffD2]) auto
    then show ?thesis using False by (subst drop_inside.simps) (simp add: dList_nth_data_def)
  next
    case True
    let ?p = "dl_list paths ! i"
    have nth: "dList_nth_data (Some paths) (int i) = Some ?p" using True by (simp add: dList_nth_data_def)
    show ?thesis
    proof (cases "?P ?p")
      case True
      have "\<forall>p \<in> set (take (i + 1) (dl_list paths)). ?P p"
        using 1(3) True \<open>i < _\<close> by (simp add: take_Suc_conv_app_nth)
      then show ?thesis
        using 1(2) [OF nth] True nth \<open>i < _\<close> by (subst drop_inside.simps) simp
    next
      case False
      then have "?p \<notin> set (take i (dl_list paths))" using 1(3) by blast
      note r = remove_fast_at [OF \<open>i < _\<close> this]
      have "mset (dl_list (drop_inside path len (dList_remove_fast paths ?p) i)) =
          filter_mset ?P (mset (dl_list (dList_remove_fast paths ?p)))"
        using 1(1) [OF nth] False r 1(3) \<open>i < _\<close> by simp
      also have "\<dots> = filter_mset ?P (mset (dl_list paths))"
        using False by (simp add: mset_remove_fast)
      finally show ?thesis using False nth by (subst drop_inside.simps) simp
    qed
  qed
qed

definition stripped_path :: "string \<Rightarrow> string" where
  "stripped_path path = (if path \<noteq> [] \<and> last path = CHR ''/'' then butlast path else path)"

lemma cstr_stripped_path: "cstr path \<Longrightarrow> cstr (stripped_path path)"
  by (auto simp: stripped_path_def cstr_def dest: in_set_butlastD)

lemma path_under_stripped: "path_under path (stripped_path path)"
proof (cases "path \<noteq> [] \<and> last path = CHR ''/''")
  case True
  then have "path = butlast path @ [CHR ''/'']" using append_butlast_last_id [of path] by simp
  then show ?thesis using True unfolding stripped_path_def path_under_def by auto
next
  case False
  then have "stripped_path path = path" unfolding stripped_path_def by (rule if_not_P)
  then show ?thesis by simp
qed

lemma add_path_mset:
  assumes "cstr path" "\<forall>p \<in> set (dl_list (ar_paths r)). cstr p"
  shows "mset (dl_list (ar_paths (Auth_realm_add_path r path))) =
    add_mset (stripped_path path)
      (filter_mset (\<lambda>p. \<not> path_under p (stripped_path path)) (mset (dl_list (ar_paths r))))"
proof -
  define len where "len = (if path \<noteq> [] \<and> last path = CHR ''/'' then length path - 1 else length path)"
  have len: "take len path = stripped_path path" "len \<le> length path"
    by (auto simp: len_def stripped_path_def butlast_conv_take)
  have "filter_mset (\<lambda>p. \<not> Auth_path_is_inside p path len) (mset (dl_list (ar_paths r)))
      = filter_mset (\<lambda>p. \<not> path_under p (stripped_path path)) (mset (dl_list (ar_paths r)))"
    using assms inside_iff [OF _ assms(1) len(2)] by (intro filter_mset_cong refl) (auto simp: len(1))
  then show ?thesis
    by (simp add: Auth_realm_add_path_def Let_def len_def [symmetric] len(1) drop_inside_mset)
qed

lemma add_path_fields [simp]:
  "ar_name (Auth_realm_add_path r path) = ar_name r" "ar_type (Auth_realm_add_path r path) = ar_type r"
  "ar_authorization (Auth_realm_add_path r path) = ar_authorization r"
  "ar_username (Auth_realm_add_path r path) = ar_username r"
  "ar_cnonce (Auth_realm_add_path r path) = ar_cnonce r" "ar_nonce (Auth_realm_add_path r path) = ar_nonce r"
  "ar_algorithm (Auth_realm_add_path r path) = ar_algorithm r" "ar_qop (Auth_realm_add_path r path) = ar_qop r"
  by (simp_all add: Auth_realm_add_path_def Let_def)

lemma add_path_distinct:
  assumes "cstr path" "\<forall>p \<in> set (dl_list (ar_paths r)). cstr p" "distinct (dl_list (ar_paths r))"
  shows "distinct (dl_list (ar_paths (Auth_realm_add_path r path)))"
proof -
  let ?new = "dl_list (ar_paths (Auth_realm_add_path r path))"
  note m = add_path_mset [OF assms(1,2)]
  have "count (mset ?new) p \<le> 1" for p
    using assms(3) unfolding m by (auto simp: distinct_count_atmost_1)
  then show ?thesis
    by (metis distinct_count_atmost_1 count_mset_0_iff le_antisym le_zero_eq less_one not_le set_mset_mset)
qed

text \<open>
  After a path is added, the realm covers the requests it covered before and those
  for the path, given with or without its last slash, and what is below it. Stored paths below the new one are
  dropped, so that no path is stored twice.
\<close>

theorem Auth_add_path_covers:
  assumes "cstr path" "cstr q" "\<forall>p \<in> set (dl_list (ar_paths r)). cstr p"
  shows "Auth_realm_includes_path (Auth_realm_add_path r path) q
      = (Auth_realm_includes_path r q \<or> path_under q (stripped_path path))
    \<and> (distinct (dl_list (ar_paths r)) \<longrightarrow> distinct (dl_list (ar_paths (Auth_realm_add_path r path))))"
proof -
  let ?s = "stripped_path path" and ?new = "dl_list (ar_paths (Auth_realm_add_path r path))"
  note m = add_path_mset [OF assms(1,3)]
  have s: "cstr ?s" using assms(1) by (rule cstr_stripped_path)
  have set: "set ?new = insert ?s {p \<in> set (dl_list (ar_paths r)). \<not> path_under p ?s}"
    using arg_cong [OF m, of set_mset] by auto
  have c: "list_all cstr ?new" "list_all cstr (dl_list (ar_paths r))"
    using assms(3) s by (auto simp: list_all_iff set)
  have "Auth_realm_includes_path (Auth_realm_add_path r path) q
      \<longleftrightarrow> Auth_realm_includes_path r q \<or> path_under q ?s"
    unfolding Auth_realm_includes_path_def includes_loop_iff [OF assms(2) c(1)] includes_loop_iff [OF assms(2) c(2)] set
    using path_under_trans [of _ ?s q] by auto
  moreover have "distinct ?new" if "distinct (dl_list (ar_paths r))"
    by (rule add_path_distinct [OF assms(1,3) that])
  ultimately show ?thesis by blast
qed

section \<open>The realm of a request\<close>

lemma best_path_spec:
  assumes "best_path path i ps (b, m) = (b', m')"
  shows "(b' = None \<longrightarrow> b = None \<and> (\<forall>p \<in> set ps. \<not> Auth_path_is_inside path p (length p)))
    \<and> (b' \<noteq> None \<longrightarrow> (\<forall>p \<in> set ps. Auth_path_is_inside path p (length p) \<longrightarrow> length p \<le> m') \<and> (b \<noteq> None \<longrightarrow> m \<le> m')
        \<and> ((b', m') = (b, m)
           \<or> b' = Some i \<and> (\<exists>p \<in> set ps. Auth_path_is_inside path p (length p) \<and> length p = m')))"
  using assms
proof (induction ps arbitrary: b m)
  case Nil
  then show ?case by auto
next
  case (Cons p ps)
  show ?case
  proof (cases "Auth_path_is_inside path p (length p) \<and> \<not> (b \<noteq> None \<and> length p \<le> m)")
    case True
    then have "best_path path i ps (Some i, length p) = (b', m')" using Cons.prems by simp
    from Cons.IH [OF this] True show ?thesis by force
  next
    case False
    then have "best_path path i ps (b, m) = (b', m')" using Cons.prems by (simp split: if_splits)
    from Cons.IH [OF this] False show ?thesis by force
  qed
qed

definition realm_covers :: "auth_realm \<Rightarrow> string \<Rightarrow> nat \<Rightarrow> bool" where
  "realm_covers r path n \<longleftrightarrow>
     (\<exists>p \<in> set (dl_list (ar_paths r)). Auth_path_is_inside path p (length p) \<and> length p = n)"

lemma best_realm_spec:
  assumes "best_realm path i rs (b, m) = (b', m')"
  shows "(b' = None \<longrightarrow> b = None \<and> (\<forall>r \<in> set rs. \<forall>n. \<not> realm_covers r path n))
    \<and> (b' \<noteq> None \<longrightarrow> (\<forall>r \<in> set rs. \<forall>n. realm_covers r path n \<longrightarrow> n \<le> m') \<and> (b \<noteq> None \<longrightarrow> m \<le> m')
        \<and> ((b', m') = (b, m) \<or> (\<exists>j < length rs. b' = Some (i + j) \<and> realm_covers (rs ! j) path m')))"
  using assms
proof (induction rs arbitrary: i b m)
  case Nil
  then show ?case by auto
next
  case (Cons r rs)
  obtain b1 m1 where 1: "best_path path i (dl_list (ar_paths r)) (b, m) = (b1, m1)" by fastforce
  then have 2: "best_realm path (i + 1) rs (b1, m1) = (b', m')" using Cons.prems by simp
  note p = best_path_spec [OF 1]
  note q = Cons.IH [OF 2]
  have r1: "b1 \<noteq> None \<Longrightarrow> realm_covers r path n \<Longrightarrow> n \<le> m1" for n
    using p by (auto simp: realm_covers_def)
  have r0: "b1 = None \<Longrightarrow> \<not> realm_covers r path n" for n
    using p by (auto simp: realm_covers_def)
  show ?case
  proof (cases b')
    case None
    then show ?thesis using p q r0 by auto
  next
    case (Some k)
    have bound: "\<forall>r' \<in> set (r # rs). \<forall>n. realm_covers r' path n \<longrightarrow> n \<le> m'"
    proof (intro ballI allI impI)
      fix r' n
      assume "r' \<in> set (r # rs)" "realm_covers r' path n"
      then consider "r' \<in> set rs" | "r' = r" by auto
      then show "n \<le> m'"
      proof cases
        case 2
        then have "b1 \<noteq> None" using r0 \<open>realm_covers r' path n\<close> by blast
        then show ?thesis using r1 2 \<open>realm_covers r' path n\<close> q Some by fastforce
      qed (use q Some \<open>realm_covers r' path n\<close> in auto)
    qed
    have mono: "b \<noteq> None \<longrightarrow> m \<le> m'"
    proof
      assume "b \<noteq> None"
      then have "b1 \<noteq> None" "m \<le> m1" using p by auto
      then show "m \<le> m'" using q Some by fastforce
    qed
    have "(b', m') = (b1, m1) \<or> (\<exists>j < length rs. b' = Some (i + 1 + j) \<and> realm_covers (rs ! j) path m')"
      using q Some by auto
    then have "(b', m') = (b, m) \<or> (\<exists>j < length (r # rs). b' = Some (i + j) \<and> realm_covers ((r # rs) ! j) path m')"
    proof
      assume e: "(b', m') = (b1, m1)"
      then have "(b', m') = (b, m) \<or> b' = Some i \<and> realm_covers r path m'"
        using p Some by (auto simp: realm_covers_def)
      then show ?thesis by (auto intro!: exI [of _ 0])
    next
      assume "\<exists>j < length rs. b' = Some (i + 1 + j) \<and> realm_covers (rs ! j) path m'"
      then obtain j where "j < length rs" "b' = Some (i + 1 + j)" "realm_covers (rs ! j) path m'" by blast
      then show ?thesis by (intro disjI2 exI [of _ "Suc j"]) simp
    qed
    with bound mono Some show ?thesis by simp
  qed
qed

lemma realm_by_path_Some:
  assumes "Auth_realm_by_path host path = Some r"
  shows "\<exists>n. r < length (dl_list (ah_realms host)) \<and> realm_covers (dl_list (ah_realms host) ! r) path n
     \<and> (\<forall>r' \<in> set (dl_list (ah_realms host)). \<forall>k. realm_covers r' path k \<longrightarrow> k \<le> n)"
proof -
  obtain n where n: "best_realm path 0 (dl_list (ah_realms host)) (None, 0) = (Some r, n)"
    using assms unfolding Auth_realm_by_path_def by (metis prod.collapse)
  show ?thesis using best_realm_spec [OF n] by auto
qed

lemma realm_by_path_None:
  "Auth_realm_by_path host path = None \<longleftrightarrow> (\<forall>r \<in> set (dl_list (ah_realms host)). \<forall>n. \<not> realm_covers r path n)"
proof -
  obtain b n where n: "best_realm path 0 (dl_list (ah_realms host)) (None, 0) = (b, n)" by fastforce
  show ?thesis
    using best_realm_spec [OF n] n unfolding Auth_realm_by_path_def by (cases b) (auto dest: nth_mem)
qed

lemma host_loop_Some:
  "host_loop url hs i = Some h \<Longrightarrow> i \<le> h \<and> h < i + length hs
     \<and> dStrAsciiCasecmp (URL_SCHEME url) (ah_scheme (hs ! (h - i))) = 0
     \<and> dStrAsciiCasecmp (URL_AUTHORITY url) (ah_authority (hs ! (h - i))) = 0"
  by (induction hs arbitrary: i) (fastforce split: if_splits simp: nth_Cons')+

lemma host_loop_None:
  "host_loop url hs i = None \<longleftrightarrow> (\<forall>h \<in> set hs. \<not> (dStrAsciiCasecmp (URL_SCHEME url) (ah_scheme h) = 0
     \<and> dStrAsciiCasecmp (URL_AUTHORITY url) (ah_authority h) = 0))"
  by (induction hs arbitrary: i) auto

lemma realm_loop_Some:
  "realm_loop name rs i = Some r \<Longrightarrow> i \<le> r \<and> r < i + length rs \<and> strcmp (ar_name (rs ! (r - i))) name = 0"
  by (induction rs arbitrary: i) (fastforce split: if_splits simp: nth_Cons')+

lemma realm_loop_None: "realm_loop name rs i = None \<longleftrightarrow> (\<forall>r \<in> set rs. strcmp (ar_name r) name \<noteq> 0)"
  by (induction rs arbitrary: i) auto

section \<open>The invariant\<close>

definition realm_inv :: "auth_realm \<Rightarrow> bool" where
  "realm_inv r \<longleftrightarrow> list_all cstr (dl_list (ar_paths r)) \<and> distinct (dl_list (ar_paths r))
     \<and> ar_type r \<noteq> TYPENOTSET \<and> ar_authorization r \<noteq> None
     \<and> (ar_type r = DIGEST \<longrightarrow> ar_username r \<noteq> None \<and> ar_nonce r \<noteq> None \<and> ar_algorithm r \<noteq> MD5SESS
          \<and> ar_qop r \<noteq> AUTHINT \<and> (ar_qop r \<noteq> QOPNOTSET \<longrightarrow> cptr_str (ar_cnonce r) \<noteq> None))"

definition names_differ :: "auth_realm list \<Rightarrow> bool" where
  "names_differ rs \<longleftrightarrow> sorted_wrt (\<lambda>a b. strcmp a b \<noteq> 0) (map ar_name rs)"

definition hosts_differ :: "auth_host list \<Rightarrow> bool" where
  "hosts_differ hs \<longleftrightarrow> sorted_wrt (\<lambda>a b. \<not> (dStrAsciiCasecmp (fst b) (fst a) = 0 \<and> dStrAsciiCasecmp (snd b) (snd a) = 0))
     (map (\<lambda>h. (ah_scheme h, ah_authority h)) hs)"

text \<open>The invariant, but for one realm that is being filled in.\<close>

definition auth_inv_but :: "(nat \<times> nat) option \<Rightarrow> auth_state \<Rightarrow> bool" where
  "auth_inv_but x st \<longleftrightarrow> hosts_differ (dl_list (auth_hosts st))
     \<and> (\<forall>h < length (dl_list (auth_hosts st)).
          names_differ (dl_list (ah_realms (dl_list (auth_hosts st) ! h)))
          \<and> (\<forall>r < length (dl_list (ah_realms (dl_list (auth_hosts st) ! h))).
               Some (h, r) \<noteq> x \<longrightarrow> realm_inv (dl_list (ah_realms (dl_list (auth_hosts st) ! h)) ! r)))"

definition auth_inv :: "auth_state \<Rightarrow> bool" where
  "auth_inv st \<longleftrightarrow> auth_inv_but None st"

abbreviation host_at :: "auth_state \<Rightarrow> nat \<Rightarrow> auth_host" where
  "host_at st h \<equiv> dl_list (auth_hosts st) ! h"

abbreviation realm_at :: "auth_state \<Rightarrow> nat \<Rightarrow> nat \<Rightarrow> auth_realm" where
  "realm_at st h r \<equiv> dl_list (ah_realms (host_at st h)) ! r"

definition in_range :: "auth_state \<Rightarrow> nat \<Rightarrow> nat \<Rightarrow> bool" where
  "in_range st h r \<longleftrightarrow> h < length (dl_list (auth_hosts st)) \<and> r < length (dl_list (ah_realms (host_at st h)))"

lemma auth_invD: "auth_inv st \<Longrightarrow> in_range st h r \<Longrightarrow> realm_inv (realm_at st h r)"
  by (simp add: auth_inv_def auth_inv_but_def in_range_def)

lemma auth_inv_init: "auth_inv (a_Auth_init rand)"
  by (simp add: auth_inv_def auth_inv_but_def a_Auth_init_def dList_new_def hosts_differ_def)

lemma host_loop_update:
  "ah_scheme x = ah_scheme (hs ! k) \<Longrightarrow> ah_authority x = ah_authority (hs ! k) \<Longrightarrow>
     host_loop url (hs[k := x]) i = host_loop url hs i"
  by (induction hs arbitrary: k i) (auto split: nat.splits)

lemma host_loop_append:
  "host_loop url (hs @ [x]) i = (case host_loop url hs i of Some k \<Rightarrow> Some k
     | None \<Rightarrow> host_loop url [x] (i + length hs))"
  by (induction hs arbitrary: i) (auto split: option.split)

lemma realm_loop_append:
  "realm_loop name (rs @ [x]) i = (case realm_loop name rs i of Some k \<Rightarrow> Some k
     | None \<Rightarrow> realm_loop name [x] (i + length rs))"
  by (induction rs arbitrary: i) (auto split: option.split)

lemma put_realm_at:
  assumes "in_range st h r"
  shows "realm_at (put_realm st h r realm) h r = realm" "in_range (put_realm st h r realm) h r"
    "Auth_host_by_url (auth_hosts (put_realm st h r realm)) url = Auth_host_by_url (auth_hosts st) url"
proof -
  show "realm_at (put_realm st h r realm) h r = realm" "in_range (put_realm st h r realm) h r"
    using assms by (simp_all add: in_range_def put_realm_def put_nth_def Let_def)
  show "Auth_host_by_url (auth_hosts (put_realm st h r realm)) url = Auth_host_by_url (auth_hosts st) url"
    by (simp add: Auth_host_by_url_def put_realm_def put_nth_def Let_def host_loop_update)
qed

lemma put_realm_inv:
  assumes inv: "auth_inv_but x st" "x \<in> {None, Some (h, r)}" and range: "in_range st h r"
    and realm: "realm_inv realm" "ar_name realm = ar_name (realm_at st h r)"
  shows "auth_inv (put_realm st h r realm)"
proof -
  let ?hs = "dl_list (auth_hosts st)" and ?rs = "dl_list (ah_realms (host_at st h))"
  let ?host = "(host_at st h)\<lparr>ah_realms := put_nth (ah_realms (host_at st h)) r realm\<rparr>"
  have hs: "dl_list (auth_hosts (put_realm st h r realm)) = ?hs[h := ?host]"
    by (simp add: put_realm_def put_nth_def Let_def)
  have "map (\<lambda>h. (ah_scheme h, ah_authority h)) (?hs[h := ?host]) = map (\<lambda>h. (ah_scheme h, ah_authority h)) ?hs"
    using range by (simp add: map_update in_range_def list_update_same_conv)
  then have differ: "hosts_differ (?hs[h := ?host])" using inv by (simp add: hosts_differ_def auth_inv_but_def)
  have "map ar_name (?rs[r := realm]) = map ar_name ?rs"
    using range realm by (simp add: map_update in_range_def list_update_same_conv)
  then have names: "names_differ (dl_list (ah_realms ?host))"
    using inv range by (simp add: names_differ_def auth_inv_but_def in_range_def put_nth_def)
  show ?thesis
    using inv range realm differ names
    by (auto simp: auth_inv_def auth_inv_but_def hs in_range_def put_nth_def nth_list_update)
qed

text \<open>The host and the realm to which credentials are attached.\<close>

definition host_ok :: "auth_host \<Rightarrow> bool" where
  "host_ok h \<longleftrightarrow> names_differ (dl_list (ah_realms h)) \<and> (\<forall>r \<in> set (dl_list (ah_realms h)). realm_inv r)"

lemma auth_inv_hosts:
  "auth_inv st \<longleftrightarrow> hosts_differ (dl_list (auth_hosts st)) \<and> (\<forall>h \<in> set (dl_list (auth_hosts st)). host_ok h)"
  unfolding auth_inv_def auth_inv_but_def host_ok_def all_set_conv_all_nth by auto

lemma find_or_add_host_inv:
  assumes "auth_inv st" "find_or_add_host (auth_hosts st) url = (hosts, h)"
  shows "h < length (dl_list hosts) \<and> hosts_differ (dl_list hosts) \<and> Auth_host_by_url hosts url = Some h
    \<and> (\<forall>h \<in> set (dl_list hosts). host_ok h)"
proof (cases "Auth_host_by_url (auth_hosts st) url")
  case (Some k)
  then show ?thesis
    using assms host_loop_Some [of url "dl_list (auth_hosts st)" 0 k]
    by (simp add: find_or_add_host_def Auth_host_by_url_def auth_inv_hosts)
next
  case None
  then have "\<forall>h \<in> set (dl_list (auth_hosts st)). \<not> (dStrAsciiCasecmp (URL_SCHEME url) (ah_scheme h) = 0
       \<and> dStrAsciiCasecmp (URL_AUTHORITY url) (ah_authority h) = 0)"
    using host_loop_None [of url "dl_list (auth_hosts st)" 0] by (simp add: Auth_host_by_url_def)
  then show ?thesis
    using None assms
    by (auto simp: find_or_add_host_def hosts_differ_def sorted_wrt_append Auth_host_by_url_def host_loop_append
          dList_new_def names_differ_def auth_inv_hosts host_ok_def)
qed

lemma find_or_add_realm_inv:
  assumes ok: "host_ok h0" and realm: "find_or_add_realm h0 name = (host, r)"
  shows "ah_scheme host = ah_scheme h0 \<and> ah_authority host = ah_authority h0
    \<and> r < length (dl_list (ah_realms host)) \<and> names_differ (dl_list (ah_realms host))
    \<and> (\<forall>k < length (dl_list (ah_realms host)). k \<noteq> r \<longrightarrow> realm_inv (dl_list (ah_realms host) ! k))
    \<and> list_all cstr (dl_list (ar_paths (dl_list (ah_realms host) ! r)))
    \<and> distinct (dl_list (ar_paths (dl_list (ah_realms host) ! r)))
    \<and> Auth_realm_by_name host name = Some r"
proof (cases "Auth_realm_by_name h0 name")
  case (Some k)
  then have "k < length (dl_list (ah_realms h0))"
    using realm_loop_Some [of name "dl_list (ah_realms h0)" 0 k] by (simp add: Auth_realm_by_name_def)
  moreover from this have "realm_inv (dl_list (ah_realms h0) ! k)" using ok by (simp add: host_ok_def)
  ultimately show ?thesis using realm ok Some by (auto simp: find_or_add_realm_def realm_inv_def host_ok_def)
next
  case None
  then have "\<forall>r \<in> set (dl_list (ah_realms h0)). strcmp (ar_name r) name \<noteq> 0"
    using realm_loop_None [of name "dl_list (ah_realms h0)" 0] by (simp add: Auth_realm_by_name_def)
  then show ?thesis
    using None realm ok
    by (auto simp: find_or_add_realm_def names_differ_def sorted_wrt_append Auth_realm_by_name_def realm_loop_append
          nth_append new_realm_def dList_new_def host_ok_def)
qed

lemma find_or_add_inv:
  assumes inv: "auth_inv st" and host: "find_or_add_host (auth_hosts st) url = (hosts, h)"
    and realm: "find_or_add_realm (dl_list hosts ! h) name = (host, r)"
  defines "st1 \<equiv> st\<lparr>auth_hosts := put_nth hosts h host\<rparr>"
  shows "auth_inv_but (Some (h, r)) st1" "in_range st1 h r"
    "list_all cstr (dl_list (ar_paths (realm_at st1 h r)))" "distinct (dl_list (ar_paths (realm_at st1 h r)))"
    "Auth_host_by_url (auth_hosts st1) url = Some h" "host_at st1 h = host"
    "Auth_realm_by_name host name = Some r"
proof -
  note h = find_or_add_host_inv [OF inv host]
  then have "host_ok (dl_list hosts ! h)" by simp
  note r = find_or_add_realm_inv [OF this realm]
  have st1: "dl_list (auth_hosts st1) = (dl_list hosts)[h := host]" by (simp add: st1_def put_nth_def)
  show "Auth_realm_by_name host name = Some r" using r by blast
  show "host_at st1 h = host" "in_range st1 h r" "list_all cstr (dl_list (ar_paths (realm_at st1 h r)))"
    "distinct (dl_list (ar_paths (realm_at st1 h r)))"
    using h r by (simp_all add: in_range_def st1)
  show "Auth_host_by_url (auth_hosts st1) url = Some h"
    using h r by (simp add: Auth_host_by_url_def st1 host_loop_update)
  have "map (\<lambda>h. (ah_scheme h, ah_authority h)) ((dl_list hosts)[h := host]) = map (\<lambda>h. (ah_scheme h, ah_authority h)) (dl_list hosts)"
    using h r by (simp add: map_update list_update_same_conv)
  then show "auth_inv_but (Some (h, r)) st1"
    using h r by (auto simp: auth_inv_but_def st1 hosts_differ_def nth_list_update host_ok_def all_set_conv_all_nth)
qed

section \<open>Any challenge\<close>

lemma parse_token_value_keeps:
  "(\<And>ap t v. P ap \<Longrightarrow> P (fst (cb ap t v))) \<Longrightarrow> P ap \<Longrightarrow> P (fst (Auth_parse_token_value cb ap s))"
proof (induction cb ap s rule: Auth_parse_token_value.induct)
  case (1 cb ap s)
  show ?case
  proof (cases "s = [] \<or> takeWhile Auth_is_token_char s = []")
    case True
    then show ?thesis using 1(3) by (subst Auth_parse_token_value.simps) auto
  next
    case False
    show ?thesis
    proof (cases "dropWhile blank_tab (dropWhile Auth_is_token_char s)")
      case Nil
      then show ?thesis
        using 1(3) False by (subst Auth_parse_token_value.simps) (simp del: dropWhile_eq_Nil_conv)
    next
      case (Cons c s1)
      obtain v s2 where u: "Auth_unquote_value s1 = (v, s2)" by fastforce
      obtain ap' keep where c: "cb ap (takeWhile Auth_is_token_char s) v = (ap', keep)" by fastforce
      have P': "P ap'" using 1(2) [OF 1(3), of "takeWhile Auth_is_token_char s" v] c by simp
      have e: "Auth_parse_token_value cb ap s = (if c = CHR ''='' then if \<not> keep then (ap', s2, True)
          else Auth_parse_token_value cb ap' (dropWhile auth_sep s2) else (ap, s1, False))"
        using False Cons u c by (subst Auth_parse_token_value.simps) simp
      show ?thesis
      proof (cases "c = CHR ''='' \<and> keep")
        case True
        then have "P (fst (Auth_parse_token_value cb ap' (dropWhile auth_sep s2)))"
          using "1.IH" [OF _ refl _ Cons _ refl u [symmetric] refl c [symmetric]] False 1(2) P' by blast
        with True show ?thesis unfolding e by simp
      next
        case False
        then show ?thesis unfolding e using P' 1(3) by auto
      qed
    qed
  qed
qed

lemma challenge_loop_keeps:
  assumes "\<And>ap t v. P ap \<Longrightarrow> P (fst (cb ap t v))"
  shows "P ap \<Longrightarrow> P (challenge_loop cb ap s)"
  using assms
proof (induction cb ap s rule: challenge_loop.induct)
  case (1 cb ap s)
  let ?s = "dropWhile auth_sep s"
  obtain ap' s' ret where p: "Auth_parse_token_value cb ap ?s = (ap', s', ret)" by (cases "Auth_parse_token_value cb ap ?s")
  have P': "P ap'" using parse_token_value_keeps [of P cb, OF 1(3) 1(2), of ?s] p by simp
  show ?case
  proof (cases "?s = [] \<or> \<not> ret")
    case True
    then show ?thesis using 1(2) P' p by (subst challenge_loop.simps) (auto simp: Let_def)
  next
    case False
    then have "P (challenge_loop cb ap' s')"
      using "1.IH" [OF refl _ p [symmetric] refl _ P' 1(3)] by blast
    then show ?thesis
      using False p by (subst challenge_loop.simps) (simp add: Let_def del: dropWhile_eq_Nil_conv)
  qed
qed

definition parse_good :: "auth_type \<Rightarrow> auth_parse \<Rightarrow> bool" where
  "parse_good type ap \<longleftrightarrow> ap_type ap = type \<and> ap_algorithm ap \<noteq> MD5SESS \<and> ap_qop ap \<noteq> AUTHINT
     \<and> (ap_ok ap \<longrightarrow> ap_realm ap \<noteq> None \<and> (type = DIGEST \<longrightarrow> ap_nonce ap \<noteq> None))"

lemma parse_challenge_good:
  assumes "type \<noteq> TYPENOTSET"
  shows "parse_good type (Auth_parse_challenge (Auth_parse_new\<lparr>ap_type := type\<rparr>) challenge)"
proof -
  define P where "P ap \<longleftrightarrow> ap_type ap = type \<and> ap_algorithm ap \<noteq> MD5SESS \<and> ap_qop ap \<noteq> AUTHINT \<and> \<not> ap_ok ap"
    for ap :: auth_parse
  have d: "P (fst (Auth_parse_digest_challenge_cb ap t v))" if "P ap" for ap :: auth_parse and t v
    using that qop_loop_fields [of ap v] by (auto simp: P_def Auth_parse_digest_challenge_cb_def)
  have b: "P (fst (Auth_parse_basic_challenge_cb ap t v))" if "P ap" for ap :: auth_parse and t v
    using that by (auto simp: P_def Auth_parse_basic_challenge_cb_def)
  have P0: "P (Auth_parse_new\<lparr>ap_type := type\<rparr>)" by (simp add: P_def Auth_parse_new_def)
  have loops: "P (challenge_loop Auth_parse_digest_challenge_cb (Auth_parse_new\<lparr>ap_type := type\<rparr>) s)"
    "P (challenge_loop Auth_parse_basic_challenge_cb (Auth_parse_new\<lparr>ap_type := type\<rparr>) s)" for s
    by (rule challenge_loop_keeps [of P, OF _ P0], erule d) (rule challenge_loop_keeps [of P, OF _ P0], erule b)
  have args: "parse_good type (Auth_parse_challenge_args (Auth_parse_new\<lparr>ap_type := type\<rparr>) s cb)"
    if "P (challenge_loop cb (Auth_parse_new\<lparr>ap_type := type\<rparr>) s)" for s cb
    using that by (auto simp: P_def parse_good_def Auth_parse_challenge_args_def Let_def)
  show ?thesis
    unfolding Auth_parse_challenge_def using args [OF loops(1)] args [OF loops(2)] by (split if_split) blast
qed

section \<open>Handlers\<close>

lemma bind_SomeE:
  assumes "Option.bind m f = Some x"
  obtains y where "m = Some y" "f y = Some x"
  using assms by (cases m) auto

lemma digest_hdr_result:
  assumes "a_Digest_authorization_hdr realm url uri = Some (realm', hdr)"
  shows "realm' = realm\<lparr>ar_nonce_count := ar_nonce_count realm + 1\<rparr>" "hdr \<noteq> None"
proof -
  have "Digest_create_response r m u d \<noteq> Some None" for r m u d
    by (auto simp: Digest_create_response_def Let_def bind_eq_Some_conv split: if_splits)
  with assms show "realm' = realm\<lparr>ar_nonce_count := ar_nonce_count realm + 1\<rparr>" "hdr \<noteq> None"
    unfolding a_Digest_authorization_hdr_def Let_def
    by (auto elim!: bind_SomeE split: option.splits)
qed

lemma realm_inv_count: "realm_inv (realm\<lparr>ar_nonce_count := n\<rparr>) = realm_inv realm"
  by (simp add: realm_inv_def)

lemma realm_inv_add_path:
  assumes "cstr path" "list_all cstr (dl_list (ar_paths r))" "distinct (dl_list (ar_paths r))"
  shows "list_all cstr (dl_list (ar_paths (Auth_realm_add_path r path)))"
    "distinct (dl_list (ar_paths (Auth_realm_add_path r path)))"
    "\<exists>n. realm_covers (Auth_realm_add_path r path) path n"
proof -
  have p: "\<forall>p \<in> set (dl_list (ar_paths r)). cstr p" using assms(2) by (simp add: list_all_iff)
  note m = add_path_mset [OF assms(1) p]
  have s: "cstr (stripped_path path)" "path_under path (stripped_path path)"
    using assms(1) by (simp_all add: cstr_stripped_path path_under_stripped)
  have set: "set (dl_list (ar_paths (Auth_realm_add_path r path))) =
      insert (stripped_path path) {p \<in> set (dl_list (ar_paths r)). \<not> path_under p (stripped_path path)}"
    using arg_cong [OF m, of set_mset] by auto
  show "list_all cstr (dl_list (ar_paths (Auth_realm_add_path r path)))"
    using p s by (auto simp: list_all_iff set)
  show "distinct (dl_list (ar_paths (Auth_realm_add_path r path)))"
    by (rule add_path_distinct [OF assms(1) p assms(3)])
  show "\<exists>n. realm_covers (Auth_realm_add_path r path) path n"
    using s inside_whole [OF assms(1) s(1)] by (auto simp: realm_covers_def set)
qed

text \<open>A request that some realm of its host covers.\<close>

definition auth_covers :: "auth_state \<Rightarrow> dillo_url \<Rightarrow> bool" where
  "auth_covers st url \<longleftrightarrow> (\<exists>h r n. Auth_host_by_url (auth_hosts st) url = Some h \<and> in_range st h r
     \<and> realm_covers (realm_at st h r) (URL_PATH url) n)"

lemma put_realm_covers:
  assumes "auth_inv_but x st" "x \<in> {None, Some (h, r)}" "in_range st h r" "Auth_host_by_url (auth_hosts st) url = Some h"
    "realm_inv realm" "ar_name realm = ar_name (realm_at st h r)" "\<exists>n. realm_covers realm (URL_PATH url) n"
  shows "auth_inv (put_realm st h r realm) \<and> auth_covers (put_realm st h r realm) url"
proof
  show "auth_inv (put_realm st h r realm)" by (rule put_realm_inv [OF assms(1-3,5,6)])
  obtain n where "realm_covers realm (URL_PATH url) n" using assms(7) by blast
  then show "auth_covers (put_realm st h r realm) url"
    unfolding auth_covers_def
    by (intro exI [of _ h] exI [of _ r] exI [of _ n]) (simp add: put_realm_at [OF assms(3)] assms(4))
qed

lemma auth_inv_but_rand [simp]: "auth_inv_but x (st\<lparr>auth_rand := f\<rparr>) = auth_inv_but x st"
  by (simp add: auth_inv_but_def)

lemma in_range_rand [simp]: "in_range (st\<lparr>auth_rand := f\<rparr>) h r = in_range st h r"
  by (simp add: in_range_def)

lemma renew_cnonce_result:
  assumes "renew_cnonce realm rand = Some (realm', rand')"
  shows "ar_cnonce realm \<noteq> Dangling" "ar_qop realm \<noteq> QOPNOTSET \<Longrightarrow> \<exists>s. realm' = realm\<lparr>ar_cnonce := Live s\<rparr>"
    "ar_qop realm = QOPNOTSET \<Longrightarrow> realm' = realm\<lparr>ar_cnonce := (case ar_cnonce realm of Null \<Rightarrow> Null | _ \<Rightarrow> Dangling)\<rparr>"
  using assms by (auto simp: renew_cnonce_def split: if_splits prod.splits)

lemma compute_digest_result:
  assumes "a_Digest_compute_digest realm user password = Some (realm', ok)"
  shows "ok \<and> ar_algorithm realm \<noteq> MD5SESS \<and> (\<exists>d. realm' = realm\<lparr>ar_authorization := Some d\<rparr>)"
  using assms
  by (cases "ar_algorithm realm") (auto simp: a_Digest_compute_digest_def Let_def elim!: bind_SomeE)

text \<open>What the callback of the dialog does when it returns.\<close>

lemma dialog_cb_cases:
  assumes cb: "Auth_do_auth_dialog_cb st ap url user password = Some st'" and type: "ap_type ap \<noteq> TYPENOTSET"
  obtains name hosts h host r realm where
    "ap_realm ap = Some name" "find_or_add_host (auth_hosts st) url = (hosts, h)"
    "find_or_add_realm (dl_list hosts ! h) name = (host, r)"
    "ar_type realm = ap_type ap" "ar_name realm = ar_name (dl_list (ah_realms host) ! r)" "ar_authorization realm \<noteq> None"
    "ar_paths realm = ar_paths (Auth_realm_add_path (dl_list (ah_realms host) ! r) (URL_PATH url))"
    "ap_type ap = BASIC \<longrightarrow> st' = put_realm (st\<lparr>auth_hosts := put_nth hosts h host\<rparr>) h r realm"
    "ap_type ap = DIGEST \<longrightarrow> ar_username realm \<noteq> None \<and> ar_nonce realm = ap_nonce ap
       \<and> ar_algorithm realm = ap_algorithm ap \<and> ar_qop realm = ap_qop ap
       \<and> ar_cnonce (dl_list (ah_realms host) ! r) \<noteq> Dangling
       \<and> (if ap_qop ap = QOPNOTSET
          then ar_cnonce realm = (case ar_cnonce (dl_list (ah_realms host) ! r) of Null \<Rightarrow> Null | _ \<Rightarrow> Dangling)
          else cptr_str (ar_cnonce realm) \<noteq> None)
       \<and> (\<exists>rand'. st' = put_realm (st\<lparr>auth_hosts := put_nth hosts h host, auth_rand := rand'\<rparr>) h r realm)"
proof -
  obtain name where name: "ap_realm ap = Some name"
    using cb by (auto simp: Auth_do_auth_dialog_cb_def split: prod.splits elim!: bind_SomeE)
  obtain hosts h where host: "find_or_add_host (auth_hosts st) url = (hosts, h)" by fastforce
  obtain host r where realm: "find_or_add_realm (dl_list hosts ! h) name = (host, r)" by fastforce
  let ?old = "dl_list (ah_realms host) ! r"
  have paths: "ar_paths (Auth_realm_add_path (?old\<lparr>ar_type := t, ar_authorization := None\<rparr>) path)
      = ar_paths (Auth_realm_add_path ?old path)" for t path
    by (simp add: Auth_realm_add_path_def Let_def)
  note body = cb [unfolded Auth_do_auth_dialog_cb_def host name prod.case Option.bind.simps(2) realm Let_def]
  consider (basic) "ap_type ap = BASIC" | (digest) "ap_type ap = DIGEST" using type by (cases "ap_type ap") auto
  then show ?thesis
  proof cases
    case basic
    then obtain realm2 where "basic_credentials (Auth_realm_add_path (?old\<lparr>ar_type := BASIC, ar_authorization := None\<rparr>) (URL_PATH url))
        user password = Some realm2" "st' = put_realm (st\<lparr>auth_hosts := put_nth hosts h host\<rparr>) h r realm2"
      using body by auto
    then show ?thesis
      using basic name host realm paths
      by (intro that [of name hosts h host r realm2]) (auto simp: basic_credentials_def elim!: bind_SomeE)
  next
    case digest
    let ?realm3 = "(Auth_realm_add_path (?old\<lparr>ar_type := DIGEST, ar_authorization := None\<rparr>) (URL_PATH url))
      \<lparr>ar_username := Some user, ar_nonce_count := 0, ar_nonce := ap_nonce ap, ar_opaque := ap_opaque ap,
       ar_algorithm := ap_algorithm ap, ar_domain := ap_domain ap, ar_qop := ap_qop ap\<rparr>"
    obtain realm4 rand' where 4: "renew_cnonce ?realm3 (auth_rand st) = Some (realm4, rand')"
      using body digest by (cases "renew_cnonce ?realm3 (auth_rand st)") auto
    then obtain realm5 ok where 5: "a_Digest_compute_digest realm4 user password = Some (realm5, ok)"
      using body digest by (cases "a_Digest_compute_digest realm4 user password") auto
    have st': "st' = put_realm (st\<lparr>auth_hosts := put_nth hosts h host, auth_rand := rand'\<rparr>) h r realm5"
      using body digest 4 5 compute_digest_result [OF 5] by simp
    show ?thesis
      using digest name host realm paths st' renew_cnonce_result [OF 4] compute_digest_result [OF 5]
      by (intro that [of name hosts h host r realm5]) (cases "ap_qop ap = QOPNOTSET"; force simp: cptr_str_def)+
  qed
qed

lemma dialog_cb_inv:
  assumes inv: "auth_inv st" and good: "parse_good type ap" "type \<noteq> TYPENOTSET" "ap_ok ap"
    and path: "cstr (URL_PATH url)" and cb: "Auth_do_auth_dialog_cb st ap url user password = Some st'"
  shows "auth_inv st' \<and> auth_covers st' url"
proof -
  have type: "ap_type ap \<noteq> TYPENOTSET" using good by (simp add: parse_good_def)
  from dialog_cb_cases [OF cb type] obtain name hosts h host r realm where c:
    "ap_realm ap = Some name" "find_or_add_host (auth_hosts st) url = (hosts, h)"
    "find_or_add_realm (dl_list hosts ! h) name = (host, r)"
    "ar_type realm = ap_type ap" "ar_name realm = ar_name (dl_list (ah_realms host) ! r)" "ar_authorization realm \<noteq> None"
    "ar_paths realm = ar_paths (Auth_realm_add_path (dl_list (ah_realms host) ! r) (URL_PATH url))"
    "ap_type ap = BASIC \<longrightarrow> st' = put_realm (st\<lparr>auth_hosts := put_nth hosts h host\<rparr>) h r realm"
    "ap_type ap = DIGEST \<longrightarrow> ar_username realm \<noteq> None \<and> ar_nonce realm = ap_nonce ap
       \<and> ar_algorithm realm = ap_algorithm ap \<and> ar_qop realm = ap_qop ap
       \<and> ar_cnonce (dl_list (ah_realms host) ! r) \<noteq> Dangling
       \<and> (if ap_qop ap = QOPNOTSET
          then ar_cnonce realm = (case ar_cnonce (dl_list (ah_realms host) ! r) of Null \<Rightarrow> Null | _ \<Rightarrow> Dangling)
          else cptr_str (ar_cnonce realm) \<noteq> None)
       \<and> (\<exists>rand'. st' = put_realm (st\<lparr>auth_hosts := put_nth hosts h host, auth_rand := rand'\<rparr>) h r realm)"
    by metis
  let ?st1 = "st\<lparr>auth_hosts := put_nth hosts h host\<rparr>"
  note f = find_or_add_inv [OF inv c(2,3)]
  have old: "realm_at ?st1 h r = dl_list (ah_realms host) ! r" using f(6) by simp
  note p = realm_inv_add_path [OF path f(3,4)]
  have inv_realm: "realm_inv realm"
    using c good p unfolding old by (auto simp: realm_inv_def parse_good_def split: if_splits)
  have covers: "\<exists>n. realm_covers realm (URL_PATH url) n"
    using p(3) c(7) unfolding old by (simp add: realm_covers_def)
  have fin: "auth_inv (put_realm st1 h r realm) \<and> auth_covers (put_realm st1 h r realm) url"
    if "auth_inv_but (Some (h, r)) st1" "auth_hosts st1 = auth_hosts ?st1" for st1
    using that f(2,5) inv_realm covers c(5) old
    by (intro put_realm_covers [of "Some (h, r)"]) (simp_all add: in_range_def)
  have "ap_type ap = BASIC \<or> ap_type ap = DIGEST" using type by (cases "ap_type ap") auto
  then show ?thesis using c(8,9) fin [of ?st1] fin [of "?st1\<lparr>auth_rand := rand'\<rparr>" for rand'] f(1) by auto
qed

lemma required_inv:
  assumes inv: "auth_inv st" and good: "parse_good type ap" "ap_ok ap" and path: "cstr (URL_PATH url)"
    and req: "Auth_do_auth_required st ap url = Some (st', required)"
  shows "auth_inv st' \<and> (\<not> required \<longrightarrow> auth_covers st' url)"
proof (cases "Auth_host_by_url (auth_hosts st) url")
  case None
  then show ?thesis using req inv by (simp add: Auth_do_auth_required_def)
next
  case (Some h)
  obtain name where name: "ap_realm ap = Some name" using good by (auto simp: parse_good_def)
  have h: "h < length (dl_list (auth_hosts st))" using host_loop_Some [of url _ 0 h] Some by (simp add: Auth_host_by_url_def)
  show ?thesis
  proof (cases "Auth_realm_by_name (host_at st h) name")
    case None
    then show ?thesis using req inv Some name by (simp add: Auth_do_auth_required_def Let_def)
  next
    case (Some r)
    then have range: "in_range st h r"
      using realm_loop_Some [of name _ 0 r] h by (simp add: Auth_realm_by_name_def in_range_def)
    let ?realm = "realm_at st h r"
    note ri = auth_invD [OF inv range]
    then have paths: "list_all cstr (dl_list (ar_paths ?realm))" "distinct (dl_list (ar_paths ?realm))"
      by (simp_all add: realm_inv_def)
    note add = realm_inv_add_path [OF path paths]
    note put = put_realm_covers [of None st h r url, OF inv [unfolded auth_inv_def] _ range
        \<open>Auth_host_by_url (auth_hosts st) url = Some h\<close>]
    consider (add) "\<not> Auth_realm_includes_path ?realm (URL_PATH url)" "required = False"
        "st' = put_realm st h r (Auth_realm_add_path ?realm (URL_PATH url))"
      | (stale) "Auth_realm_includes_path ?realm (URL_PATH url)" "ap_type ap = DIGEST" "required = False"
        "st' = put_realm st h r (?realm\<lparr>ar_nonce := ap_nonce ap\<rparr>)"
      | (none) "required" "st' = st"
      using req name Some \<open>Auth_host_by_url (auth_hosts st) url = Some h\<close>
      by (auto simp: Auth_do_auth_required_def Let_def split: if_splits)
    then show ?thesis
    proof cases
      case add
      have "realm_inv (Auth_realm_add_path ?realm (URL_PATH url))"
        using ri \<open>list_all cstr (dl_list (ar_paths (Auth_realm_add_path ?realm (URL_PATH url))))\<close>
          realm_inv_add_path [OF path paths] by (simp add: realm_inv_def)
      then show ?thesis using put [of "Auth_realm_add_path ?realm (URL_PATH url)"] realm_inv_add_path(3) [OF path paths] add by simp
    next
      case stale
      have "\<exists>n. realm_covers ?realm (URL_PATH url) n"
        using stale(1) includes_loop_iff [OF path paths(1)] inside_whole [OF path] paths(1)
        by (auto simp: Auth_realm_includes_path_def realm_covers_def list_all_iff)
      moreover have "realm_inv (?realm\<lparr>ar_nonce := ap_nonce ap\<rparr>)"
        using ri good stale by (simp add: realm_inv_def parse_good_def)
      ultimately show ?thesis
        using put [of "?realm\<lparr>ar_nonce := ap_nonce ap\<rparr>"] stale by (simp add: realm_covers_def)
    next
      case none
      then show ?thesis using inv by simp
    qed
  qed
qed

lemma dup_url:
  assumes "url_coherent url"
  shows "URL_PATH (a_Url_dup url) = URL_PATH url" "Auth_host_by_url hosts (a_Url_dup url) = Auth_host_by_url hosts url"
proof -
  have f: "u_scheme (a_Url_dup url) = u_scheme url" "u_authority (a_Url_dup url) = u_authority url"
    "u_path (a_Url_dup url) = u_path url"
    using dup_fields [OF assms] by (simp_all add: url_fields_def)
  then show "URL_PATH (a_Url_dup url) = URL_PATH url" by (simp add: URL_PATH_def)
  have "host_loop (a_Url_dup url) hs i = host_loop url hs i" for hs i
    by (induction hs arbitrary: i) (simp_all add: URL_SCHEME_def URL_AUTHORITY_def f)
  then show "Auth_host_by_url hosts (a_Url_dup url) = Auth_host_by_url hosts url" by (simp add: Auth_host_by_url_def)
qed

lemma do_auth_inv:
  assumes inv: "auth_inv st" and type: "type \<noteq> TYPENOTSET" and url: "url_coherent url" "cstr (URL_PATH url)"
    and run: "Auth_do_auth dialog st challenge type url = Some (st', ret)"
  shows "auth_inv st' \<and> (ret \<longrightarrow> auth_covers st' url)"
proof -
  define ap where "ap = Auth_parse_challenge (Auth_parse_new\<lparr>ap_type := type\<rparr>) challenge"
  have good: "parse_good type ap" unfolding ap_def by (rule parse_challenge_good [OF type])
  show ?thesis
  proof (cases "ap_ok ap")
    case False
    then show ?thesis using run inv by (simp add: Auth_do_auth_def ap_def [symmetric])
  next
    case True
    obtain st1 required where req: "Auth_do_auth_required st ap url = Some (st1, required)"
      using run True by (auto simp: Auth_do_auth_def ap_def [symmetric] elim!: bind_SomeE)
    note r = required_inv [OF inv good True url(2) req]
    show ?thesis
    proof (cases required)
      case False
      then show ?thesis using run True req r by (simp add: Auth_do_auth_def ap_def [symmetric])
    next
      case required: True
      then have "Auth_do_auth_dialog dialog st1 ap url = Some (st', ret)"
        using run True req by (simp add: Auth_do_auth_def ap_def [symmetric])
      then consider "st' = st1" "\<not> ret"
        | user password where "Auth_do_auth_dialog_cb st1 ap (a_Url_dup url) user password = Some st'"
        by (auto simp: Auth_do_auth_dialog_def Let_def elim!: bind_SomeE split: option.splits prod.splits)
      then show ?thesis
      proof cases
        case 2
        have "auth_inv st' \<and> auth_covers st' (a_Url_dup url)"
          using r by (intro dialog_cb_inv [OF _ good type True _ 2]) (simp_all add: dup_url url)
        then show ?thesis by (simp add: auth_covers_def dup_url url)
      qed (use r in simp)
    qed
  qed
qed

lemma challenges_loop_inv:
  assumes "type \<noteq> TYPENOTSET" "url_coherent url" "cstr (URL_PATH url)"
  shows "auth_inv st \<Longrightarrow> challenges_loop dialog scheme type st challenges url = Some (st', ret) \<Longrightarrow>
    auth_inv st' \<and> (ret \<longrightarrow> auth_covers st' url)"
proof (induction challenges arbitrary: st)
  case Nil
  then show ?case by simp
next
  case (Cons chal challenges)
  show ?case
  proof (cases "dStrnAsciiCasecmp chal scheme (length scheme) = 0")
    case False
    then show ?thesis using Cons by simp
  next
    case True
    then obtain st1 ret1 where 1: "Auth_do_auth dialog st chal type url = Some (st1, ret1)"
      "(if ret1 then Some (st1, True) else challenges_loop dialog scheme type st1 challenges url) = Some (st', ret)"
      using Cons.prems by (auto elim!: bind_SomeE)
    note d = do_auth_inv [OF Cons.prems(1) assms 1(1)]
    show ?thesis using 1(2) d Cons.IH [of st1] by (cases ret1) auto
  qed
qed

lemma a_do_auth_inv:
  assumes "auth_inv st" "url_coherent url" "cstr (URL_PATH url)"
    "a_Auth_do_auth dialog st challenges url = Some (st', ret)"
  shows "auth_inv st' \<and> (ret \<longrightarrow> auth_covers st' url)"
proof -
  obtain st1 ret1 where 1: "challenges_loop dialog ''Digest '' DIGEST st challenges url = Some (st1, ret1)"
    "(if ret1 then Some (st1, True) else challenges_loop dialog ''Basic '' BASIC st1 challenges url) = Some (st', ret)"
    using assms(4) by (auto simp: a_Auth_do_auth_def elim!: bind_SomeE)
  have d: "auth_inv st1 \<and> (ret1 \<longrightarrow> auth_covers st1 url)"
    by (rule challenges_loop_inv [OF _ assms(2,3,1) 1(1)]) simp
  show ?thesis
  proof (cases ret1)
    case True
    then show ?thesis using 1(2) d by simp
  next
    case False
    then have "challenges_loop dialog ''Basic '' BASIC st1 challenges url = Some (st', ret)" using 1(2) by simp
    from challenges_loop_inv [OF _ assms(2,3) _ this] d show ?thesis by simp
  qed
qed

section \<open>Requests\<close>

lemma md5hexdigest_defined:
  assumes "length s < 268435456"
  shows "\<exists>d. md5hexdigest s = Some d \<and> length d = 32"
proof -
  have "md5_represents (md5_init md5_blank) []" by (rule md5_init_represents) (simp add: md5_blank_def)
  from md5_append_represents [OF this, of "length s" "map of_char s"] assms obtain st where
    st: "md5_append (md5_init md5_blank) (map of_char s) (int (length s)) = Some st"
      "md5_represents st (map of_char s)" by auto
  obtain st2 where "md5_finish st = Some (st2, rfc1321 (map of_char s))" using md5_finish_rfc [OF st(2)] by blast
  moreover have "length (rfc1321 m) = 16" for m by (simp add: rfc1321_def le_bytes_def split: prod.splits)
  moreover have "length (concat (map hex_byte m)) = 2 * length m" for m by (induction m) (simp_all add: hex_byte_def)
  ultimately show ?thesis using st(1) by (simp add: md5hexdigest_def)
qed

text \<open>The strings that are digested for a request are shorter than \<open>2^28\<close> bytes.\<close>

definition digest_fits :: "auth_realm \<Rightarrow> string \<Rightarrow> bool" where
  "digest_fits r uri \<longleftrightarrow> length (NPTR2STR (ar_authorization r)) + length (NPTR2STR (ar_nonce r))
     + length (NPTR2STR (cptr_str (ar_cnonce r))) + length uri < 268435000"

lemma digest_hdr_defined:
  assumes "realm_inv r" "ar_type r = DIGEST" "digest_fits r uri"
  shows "\<exists>r' hdr. a_Digest_authorization_hdr r url uri = Some (r', Some hdr)"
proof -
  define r1 where "r1 = r\<lparr>ar_nonce_count := ar_nonce_count r + 1\<rparr>"
  define meth where "meth = (if u_flags url AND URL_Post \<noteq> 0 then ''POST'' else ''GET'')"
  obtain a n u where f: "ar_authorization r = Some a" "ar_nonce r = Some n" "ar_username r = Some u"
    using assms(1,2) by (auto simp: realm_inv_def)
  have alg: "ar_algorithm r = MD5 \<or> ar_algorithm r = ALGORITHMNOTSET"
    using assms(1,2) by (cases "ar_algorithm r") (auto simp: realm_inv_def)
  have l: "length a + length n + length (NPTR2STR (cptr_str (ar_cnonce r))) + length uri < 268435000"
    using assms(3) f by (simp add: digest_fits_def NPTR2STR_def)
  have "length meth \<le> 4" by (simp add: meth_def)
  then obtain ha2 where ha2: "md5hexdigest (meth @ '':'' @ uri) = Some ha2" "length ha2 = 32"
    using md5hexdigest_defined [of "meth @ '':'' @ uri"] l by auto
  have "\<exists>d. Digest_create_response r1 meth uri (u_data url) = Some (Some d)"
  proof (cases "ar_qop r = QOPNOTSET")
    case True
    then obtain d where "md5hexdigest (a @ '':'' @ n @ '':'' @ ha2) = Some d"
      using md5hexdigest_defined [of "a @ '':'' @ n @ '':'' @ ha2"] l ha2 by auto
    then show ?thesis using True f ha2 by (simp add: Digest_create_response_def r1_def)
  next
    case False
    then have qop: "ar_qop r = AUTH" using assms(1,2) by (cases "ar_qop r") (auto simp: realm_inv_def)
    obtain c where c: "cptr_str (ar_cnonce r) = Some c" using assms(1,2) False by (auto simp: realm_inv_def)
    let ?s = "a @ '':'' @ n @ '':'' @ hex_word (ar_nonce_count r + 1) @ '':'' @ c @ '':'' @ ''auth'' @ '':'' @ ha2"
    have "length ?s < 268435456" using l ha2 c by (simp add: hex_word_def NPTR2STR_def)
    then obtain d where "md5hexdigest ?s = Some d" using md5hexdigest_defined by blast
    then show ?thesis using qop f ha2 c by (simp add: Digest_create_response_def r1_def QOP2STR_def)
  qed
  then obtain d where d: "Digest_create_response r1 meth uri (u_data url) = Some (Some d)" by blast
  have c: "ar_qop r \<noteq> QOPNOTSET \<Longrightarrow> \<exists>c. cptr_str (ar_cnonce r) = Some c \<and> ar_qop r = AUTH"
    using assms(1,2) by (cases "ar_qop r") (auto simp: realm_inv_def)
  show ?thesis
    unfolding a_Digest_authorization_hdr_def Let_def r1_def [symmetric] meth_def [symmetric] d
    using f alg c
    by (cases "ar_qop r = QOPNOTSET"; cases "ar_opaque r")
       (auto simp: r1_def Digest_Dstr_append_token_value_def ALGORITHM2STR_def QOP2STR_def Let_def)
qed

text \<open>A request is answered from a realm that covers it, when there is one.\<close>

lemma get_auth_cases:
  assumes inv: "auth_inv st"
  shows "(\<not> auth_covers st url \<and> a_Auth_get_auth_str st url uri = Some (st, None))
    \<or> (\<exists>h r n. Auth_host_by_url (auth_hosts st) url = Some h \<and> in_range st h r
         \<and> realm_covers (realm_at st h r) (URL_PATH url) n
         \<and> (\<forall>r'. in_range st h r' \<longrightarrow> (\<forall>k. realm_covers (realm_at st h r') (URL_PATH url) k \<longrightarrow> k \<le> n))
         \<and> a_Auth_get_auth_str st url uri =
             (if ar_type (realm_at st h r) = BASIC then Some (st, ar_authorization (realm_at st h r))
              else map_option (\<lambda>(realm', hdr). (put_realm st h r realm', hdr))
                     (a_Digest_authorization_hdr (realm_at st h r) url uri)))"
proof (cases "Auth_host_by_url (auth_hosts st) url")
  case None
  then show ?thesis by (simp add: a_Auth_get_auth_str_def auth_covers_def)
next
  case (Some h)
  then have h: "h < length (dl_list (auth_hosts st))"
    using host_loop_Some [of url _ 0 h] by (simp add: Auth_host_by_url_def)
  show ?thesis
  proof (cases "Auth_realm_by_path (host_at st h) (URL_PATH url)")
    case None
    then have "\<not> auth_covers st url"
      using realm_by_path_None [of "host_at st h"] Some by (auto simp: auth_covers_def in_range_def)
    with None Some show ?thesis by (simp add: a_Auth_get_auth_str_def Let_def)
  next
    case (Some r)
    from realm_by_path_Some [OF this] obtain n where n: "r < length (dl_list (ah_realms (host_at st h)))"
      "realm_covers (realm_at st h r) (URL_PATH url) n"
      "\<forall>r' \<in> set (dl_list (ah_realms (host_at st h))). \<forall>k. realm_covers r' (URL_PATH url) k \<longrightarrow> k \<le> n" by blast
    then have range: "in_range st h r" using h by (simp add: in_range_def)
    have "ar_type (realm_at st h r) \<noteq> TYPENOTSET" using auth_invD [OF inv range] by (simp add: realm_inv_def)
    then have "ar_type (realm_at st h r) = BASIC \<or> ar_type (realm_at st h r) = DIGEST"
      by (cases "ar_type (realm_at st h r)") auto
    then have "a_Auth_get_auth_str st url uri =
        (if ar_type (realm_at st h r) = BASIC then Some (st, ar_authorization (realm_at st h r))
         else map_option (\<lambda>(realm', hdr). (put_realm st h r realm', hdr))
                (a_Digest_authorization_hdr (realm_at st h r) url uri))"
      using Some \<open>Auth_host_by_url _ url = Some h\<close> by (auto simp: a_Auth_get_auth_str_def Let_def)
    then show ?thesis
      using n range \<open>Auth_host_by_url _ url = Some h\<close> by (intro disjI2 exI [of _ h] exI [of _ r] exI [of _ n]) (auto simp: in_range_def)
  qed
qed

lemma get_auth_inv:
  assumes inv: "auth_inv st" and get: "a_Auth_get_auth_str st url uri = Some (st', hdr)"
  shows "auth_inv st'"
proof -
  from get_auth_cases [OF inv, of url uri] consider "st' = st"
    | h r realm' where "in_range st h r" "a_Digest_authorization_hdr (realm_at st h r) url uri = Some (realm', hdr)"
        "st' = put_realm st h r realm'"
    using get by (fastforce split: if_splits)
  then show ?thesis
  proof cases
    case 2
    note r = digest_hdr_result [OF 2(2)]
    have "realm_inv realm'" using auth_invD [OF inv 2(1)] r by (simp add: realm_inv_count)
    then show ?thesis
      unfolding 2(3) using put_realm_inv [OF inv [unfolded auth_inv_def] _ 2(1)] r by simp
  qed (use inv in simp)
qed

text \<open>
  C37: Challenges and requests keep the state consistent: hosts and the realms of a
  host are pairwise different, no path is stored twice, and a realm has everything that its header is made of.
\<close>

theorem Auth_keeps_invariant:
  assumes "auth_inv st" "url_coherent url" "cstr (URL_PATH url)"
  shows "(\<forall>st' ret. a_Auth_do_auth dialog st challenges url = Some (st', ret) \<longrightarrow> auth_inv st')
    \<and> (\<forall>st' hdr. a_Auth_get_auth_str st url uri = Some (st', hdr) \<longrightarrow> auth_inv st')"
  using a_do_auth_inv [OF assms] get_auth_inv [OF assms(1)] by blast

text \<open>
  C35: Credentials are sent only where they belong: to a host with the same scheme and
  authority, for a path below one that the realm protects, and from the realm whose protected path is the longest.
\<close>

theorem Auth_credentials_scope:
  assumes "auth_inv st" "cstr (URL_PATH url)" "a_Auth_get_auth_str st url uri = Some (st', Some hdr)"
  shows "\<exists>host \<in> set (dl_list (auth_hosts st)). \<exists>realm \<in> set (dl_list (ah_realms host)). \<exists>p \<in> set (dl_list (ar_paths realm)).
      dStrAsciiCasecmp (URL_SCHEME url) (ah_scheme host) = 0
    \<and> dStrAsciiCasecmp (URL_AUTHORITY url) (ah_authority host) = 0
    \<and> path_under (URL_PATH url) p
    \<and> (\<forall>realm' \<in> set (dl_list (ah_realms host)). \<forall>p' \<in> set (dl_list (ar_paths realm')).
         path_under (URL_PATH url) p' \<longrightarrow> length p' \<le> length p)
    \<and> (if ar_type realm = BASIC then ar_authorization realm = Some hdr
       else \<exists>realm'. a_Digest_authorization_hdr realm url uri = Some (realm', Some hdr))"
proof -
  from get_auth_cases [OF assms(1), of url uri] assms(3) obtain h r n where c:
    "Auth_host_by_url (auth_hosts st) url = Some h" "in_range st h r"
    "realm_covers (realm_at st h r) (URL_PATH url) n"
    "\<forall>r'. in_range st h r' \<longrightarrow> (\<forall>k. realm_covers (realm_at st h r') (URL_PATH url) k \<longrightarrow> k \<le> n)"
    "if ar_type (realm_at st h r) = BASIC then ar_authorization (realm_at st h r) = Some hdr
     else \<exists>realm'. a_Digest_authorization_hdr (realm_at st h r) url uri = Some (realm', Some hdr)"
    by (fastforce split: if_splits)
  have cs: "cstr p" if "in_range st h r'" "p \<in> set (dl_list (ar_paths (realm_at st h r')))" for r' p
    using auth_invD [OF assms(1) that(1)] that(2) by (simp add: realm_inv_def list_all_iff)
  from c(3) obtain p where p: "p \<in> set (dl_list (ar_paths (realm_at st h r)))" "path_under (URL_PATH url) p" "length p = n"
    using inside_whole [OF assms(2) cs [OF c(2)]] by (auto simp: realm_covers_def)
  have max: "length p' \<le> n" if "realm' \<in> set (dl_list (ah_realms (host_at st h)))"
      "p' \<in> set (dl_list (ar_paths realm'))" "path_under (URL_PATH url) p'" for realm' p'
  proof -
    from that(1) obtain r' where r': "in_range st h r'" "realm_at st h r' = realm'"
      using c(2) by (auto simp: in_set_conv_nth in_range_def)
    then show ?thesis
      using c(4) that inside_whole [OF assms(2) cs [OF r'(1)]] by (auto simp: realm_covers_def)
  qed
  have "dStrAsciiCasecmp (URL_SCHEME url) (ah_scheme (host_at st h)) = 0
      \<and> dStrAsciiCasecmp (URL_AUTHORITY url) (ah_authority (host_at st h)) = 0"
    using host_loop_Some [of url _ 0 h] c(1) by (simp add: Auth_host_by_url_def)
  with p max c(2,5) show ?thesis
    by (intro bexI [of _ "host_at st h"] bexI [of _ "realm_at st h r"] bexI [of _ p]) (auto simp: in_range_def)
qed

text \<open>
  C36: When the challenges of a response were answered, the repeated request for the same
  URL carries credentials (its strings being shorter than what can be digested).
\<close>

theorem Auth_success_gives_credentials:
  assumes "auth_inv st" "url_coherent url" "cstr (URL_PATH url)"
    "a_Auth_do_auth dialog st challenges url = Some (st', True)"
    "\<forall>h r. in_range st' h r \<longrightarrow> digest_fits (realm_at st' h r) uri"
  shows "\<exists>st'' hdr. a_Auth_get_auth_str st' url uri = Some (st'', Some hdr)"
proof -
  have inv: "auth_inv st'" "auth_covers st' url" using a_do_auth_inv [OF assms(1-4)] by simp_all
  from get_auth_cases [OF inv(1), of url uri] inv(2) obtain h r where c: "in_range st' h r"
    "a_Auth_get_auth_str st' url uri =
       (if ar_type (realm_at st' h r) = BASIC then Some (st', ar_authorization (realm_at st' h r))
        else map_option (\<lambda>(realm', hdr). (put_realm st' h r realm', hdr))
               (a_Digest_authorization_hdr (realm_at st' h r) url uri))" by blast
  note ri = auth_invD [OF inv(1) c(1)]
  show ?thesis
  proof (cases "ar_type (realm_at st' h r) = BASIC")
    case True
    then show ?thesis using c(2) ri by (auto simp: realm_inv_def)
  next
    case False
    then have "ar_type (realm_at st' h r) = DIGEST" using ri by (cases "ar_type (realm_at st' h r)") (auto simp: realm_inv_def)
    from digest_hdr_defined [OF ri this, of uri url] assms(5) c(1) obtain r' hdr where
      "a_Digest_authorization_hdr (realm_at st' h r) url uri = Some (r', Some hdr)" by blast
    then show ?thesis using c(2) False by simp
  qed
qed

section \<open>A nonce that is freed twice\<close>

lemma dialog_cb_digest:
  assumes cb: "Auth_do_auth_dialog_cb st ap url user password = Some st'" and ap: "ap_type ap = DIGEST" "ap_realm ap = Some name"
    and found: "Auth_host_by_url (auth_hosts st) url = Some h" "Auth_realm_by_name (host_at st h) name = Some r"
  shows "ar_cnonce (realm_at st h r) \<noteq> Dangling"
    "\<exists>realm rand'. ar_name realm = ar_name (realm_at st h r) \<and> st' = put_realm (st\<lparr>auth_rand := rand'\<rparr>) h r realm
       \<and> (ap_qop ap = QOPNOTSET \<longrightarrow> ar_cnonce realm = (case ar_cnonce (realm_at st h r) of Null \<Rightarrow> Null | _ \<Rightarrow> Dangling))"
proof -
  have type: "ap_type ap \<noteq> TYPENOTSET" using ap by simp
  have find: "find_or_add_host (auth_hosts st) url = (auth_hosts st, h)"
    "find_or_add_realm (host_at st h) name = (host_at st h, r)"
    using found by (simp_all add: find_or_add_host_def find_or_add_realm_def)
  have same: "st\<lparr>auth_hosts := put_nth (auth_hosts st) h (host_at st h), auth_rand := f\<rparr> = st\<lparr>auth_rand := f\<rparr>" for f
    by (simp add: put_nth_def)
  obtain realm where realm: "ar_name realm = ar_name (realm_at st h r)" "ar_cnonce (realm_at st h r) \<noteq> Dangling"
    "ap_qop ap = QOPNOTSET \<longrightarrow> ar_cnonce realm = (case ar_cnonce (realm_at st h r) of Null \<Rightarrow> Null | _ \<Rightarrow> Dangling)"
    "\<exists>rand'. st' = put_realm (st\<lparr>auth_hosts := put_nth (auth_hosts st) h (host_at st h), auth_rand := rand'\<rparr>) h r realm"
  proof (rule dialog_cb_cases [OF cb type])
    fix name' hosts h' host r' realm
    assume a: "ap_realm ap = Some name'" "find_or_add_host (auth_hosts st) url = (hosts, h')"
      "find_or_add_realm (dl_list hosts ! h') name' = (host, r')"
      and n: "ar_name realm = ar_name (dl_list (ah_realms host) ! r')"
      and d: "ap_type ap = DIGEST \<longrightarrow> ar_username realm \<noteq> None \<and> ar_nonce realm = ap_nonce ap
         \<and> ar_algorithm realm = ap_algorithm ap \<and> ar_qop realm = ap_qop ap
         \<and> ar_cnonce (dl_list (ah_realms host) ! r') \<noteq> Dangling
         \<and> (if ap_qop ap = QOPNOTSET
            then ar_cnonce realm = (case ar_cnonce (dl_list (ah_realms host) ! r') of Null \<Rightarrow> Null | _ \<Rightarrow> Dangling)
            else cptr_str (ar_cnonce realm) \<noteq> None)
         \<and> (\<exists>rand'. st' = put_realm (st\<lparr>auth_hosts := put_nth hosts h' host, auth_rand := rand'\<rparr>) h' r' realm)"
    have e: "hosts = auth_hosts st" "h' = h" "host = host_at st h" "r' = r" using a find ap(2) by auto
    show thesis
      by (rule that [of realm]) (use n d ap(1) in \<open>auto simp: e split: if_splits\<close>)
  qed
  show "ar_cnonce (realm_at st h r) \<noteq> Dangling" by (rule realm(2))
  show "\<exists>realm rand'. ar_name realm = ar_name (realm_at st h r) \<and> st' = put_realm (st\<lparr>auth_rand := rand'\<rparr>) h r realm
       \<and> (ap_qop ap = QOPNOTSET \<longrightarrow> ar_cnonce realm = (case ar_cnonce (realm_at st h r) of Null \<Rightarrow> Null | _ \<Rightarrow> Dangling))"
    using realm unfolding same by blast
qed

lemma realm_loop_update: "ar_name x = ar_name (rs ! k) \<Longrightarrow> realm_loop name (rs[k := x]) i = realm_loop name rs i"
  by (induction rs arbitrary: k i) (auto split: nat.splits)

text \<open>
  C39: A digest challenge without qop, for a realm that had one with qop before, leaves the
  freed client nonce in the realm: the next digest authentication for the realm frees it again.
\<close>

theorem Auth_cnonce_double_free:
  assumes inv: "auth_inv st" and name: "ap_realm ap = Some name" "ap_realm ap' = Some name"
    and types: "ap_type ap = DIGEST" "ap_type ap' = DIGEST" and qop: "ap_qop ap = QOPNOTSET"
    and old: "Auth_host_by_url (auth_hosts st) url = Some h" "Auth_realm_by_name (host_at st h) name = Some r"
      "ar_cnonce (realm_at st h r) = Live cnonce"
    and cb: "Auth_do_auth_dialog_cb st ap url user password = Some st'"
  shows "Auth_do_auth_dialog_cb st' ap' url user' password' = None"
proof (rule ccontr)
  assume "Auth_do_auth_dialog_cb st' ap' url user' password' \<noteq> None"
  then obtain st2 where cb': "Auth_do_auth_dialog_cb st' ap' url user' password' = Some st2" by blast
  have h: "h < length (dl_list (auth_hosts st))" using host_loop_Some [of url _ 0 h] old(1) by (simp add: Auth_host_by_url_def)
  then have range: "in_range st h r"
    using realm_loop_Some [of name _ 0 r] old(2) by (simp add: Auth_realm_by_name_def in_range_def)
  obtain realm rand' where realm: "ar_name realm = ar_name (realm_at st h r)" "ar_cnonce realm = Dangling"
    "st' = put_realm (st\<lparr>auth_rand := rand'\<rparr>) h r realm"
    using dialog_cb_digest(2) [OF cb types(1) name(1) old(1,2)] qop old(3) by auto
  have range': "in_range (st\<lparr>auth_rand := rand'\<rparr>) h r" using range by simp
  have host': "Auth_host_by_url (auth_hosts st') url = Some h"
    unfolding realm(3) put_realm_at(3) [OF range'] using old(1) by simp
  have "dl_list (ah_realms (host_at st' h)) = (dl_list (ah_realms (host_at st h)))[r := realm]"
    unfolding realm(3) using h by (simp add: put_realm_def put_nth_def Let_def)
  then have realm': "Auth_realm_by_name (host_at st' h) name = Some r"
    using old(2) realm(1) by (simp add: Auth_realm_by_name_def realm_loop_update)
  have at: "realm_at st' h r = realm" unfolding realm(3) by (rule put_realm_at(1) [OF range'])
  show False
    using dialog_cb_digest(1) [OF cb' types(2) name(2) host' realm'] at realm(2) by simp
qed

section \<open>Examples\<close>

definition one_realm :: "auth_type \<Rightarrow> auth_realm" where
  "one_realm type = (new_realm ''r'')\<lparr>ar_type := type, ar_paths := \<lparr>dl_sz = 1, dl_list = [''x'']\<rparr>,
     ar_authorization := Some ''h'', ar_username := Some ''u'', ar_cnonce := Live ''c'', ar_nonce := Some ''n'',
     ar_qop := AUTH\<rparr>"

definition one_state :: "auth_type \<Rightarrow> auth_state" where
  "one_state type = \<lparr>auth_hosts = \<lparr>dl_sz = 1, dl_list = [\<lparr>ah_scheme = ''data'', ah_authority = [],
     ah_realms = \<lparr>dl_sz = 1, dl_list = [one_realm type]\<rparr>\<rparr>]\<rparr>, auth_rand = (\<lambda>i. 0)\<rparr>"

abbreviation data_url :: dillo_url where
  "data_url \<equiv> sample_url (Some ''f'') ''data:x#f''"

lemma one_state_inv: "type \<noteq> TYPENOTSET \<Longrightarrow> auth_inv (one_state type)"
  by (simp add: auth_inv_hosts one_state_def one_realm_def new_realm_def hosts_differ_def host_ok_def names_differ_def
      realm_inv_def cptr_str_def)

lemma data_url_simps:
  "URL_PATH data_url = ''x''" "Auth_host_by_url (auth_hosts (one_state type)) data_url = Some 0"
  by (simp_all add: URL_PATH_def URL_SCHEME_def URL_AUTHORITY_def NPTR2STR_def sample_url_def url_zero_def
      Auth_host_by_url_def one_state_def)

lemma one_by_path: "Auth_realm_by_path (host_at (one_state type) 0) ''x'' = Some 0"
  by (simp add: Auth_realm_by_path_def one_state_def one_realm_def Auth_path_is_inside_def strncmp_def char_at_def)

lemma one_by_name: "Auth_realm_by_name (host_at (one_state type) 0) ''r'' = Some 0"
  by (simp add: Auth_realm_by_name_def one_state_def one_realm_def new_realm_def)

lemma Auth_add_path_covers_witness:
  "Auth_realm_includes_path (Auth_realm_add_path (one_realm BASIC) ''/a/'') ''/a/b''
   \<and> distinct (dl_list (ar_paths (Auth_realm_add_path (one_realm BASIC) ''/a/'')))"
proof -
  have "path_under ''/a/b'' (stripped_path ''/a/'')" by (simp add: path_under_def stripped_path_def)
  then show ?thesis
    using Auth_add_path_covers [of "''/a/''" "''/a/b''" "one_realm BASIC"] by (simp add: one_realm_def)
qed

lemma one_state_get: "a_Auth_get_auth_str (one_state BASIC) data_url ''x'' = Some (one_state BASIC, Some ''h'')"
  using data_url_simps(1) data_url_simps(2) [of BASIC] one_by_path [of BASIC]
  by (simp add: a_Auth_get_auth_str_def Let_def) (simp add: one_state_def one_realm_def)

lemma Auth_keeps_invariant_witness:
  "\<exists>st' hdr. a_Auth_get_auth_str (one_state BASIC) data_url ''x'' = Some (st', hdr) \<and> auth_inv st'"
  using Auth_keeps_invariant [OF one_state_inv [of BASIC] sample_url_ok(2), of "\<lambda>title msg. None" "[]" "''x''"]
    data_url_simps(1) one_state_get by auto

lemma Auth_credentials_scope_witness:
  "\<exists>host \<in> set (dl_list (auth_hosts (one_state BASIC))). \<exists>realm \<in> set (dl_list (ah_realms host)).
     ar_authorization realm = Some ''h'' \<and> dStrAsciiCasecmp (URL_SCHEME data_url) (ah_scheme host) = 0"
proof -
  have "ar_type realm = BASIC" if "host \<in> set (dl_list (auth_hosts (one_state BASIC)))"
      "realm \<in> set (dl_list (ah_realms host))" for host realm
    using that by (simp add: one_state_def one_realm_def)
  then show ?thesis
    using Auth_credentials_scope [OF one_state_inv [of BASIC] _ one_state_get] data_url_simps(1) by simp blast
qed

lemma data_challenge: "parse_good BASIC (Auth_parse_challenge (Auth_parse_new\<lparr>ap_type := BASIC\<rparr>)
    (''Basic '' @ params_text [(''realm'', ''r'', True)]))
  \<and> ap_ok (Auth_parse_challenge (Auth_parse_new\<lparr>ap_type := BASIC\<rparr>) (''Basic '' @ params_text [(''realm'', ''r'', True)]))
  \<and> ap_realm (Auth_parse_challenge (Auth_parse_new\<lparr>ap_type := BASIC\<rparr>)
      (''Basic '' @ params_text [(''realm'', ''r'', True)])) = Some ''r''"
proof -
  have ok: "list_all param_ok [(''realm'', ''r'', True)]"
    by (simp add: param_ok_def Auth_is_token_char_def strchr_def isascii_def iscntrl_def uchar_def)
  show ?thesis
    by (simp add: Auth_parse_challenge_def parse_challenge_params [OF ok, unfolded params_text.simps] Auth_parse_basic_challenge_cb_def
        Auth_parse_new_def parse_good_def)
qed

text \<open>A request below the realm of another page of the host: the realm takes the new path.\<close>

definition other_state :: auth_state where
  "other_state = put_realm (one_state BASIC) 0 0 ((one_realm BASIC)\<lparr>ar_paths := \<lparr>dl_sz = 1, dl_list = []\<rparr>\<rparr>)"

lemma other_state_inv: "auth_inv other_state"
  by (simp add: other_state_def put_realm_def put_nth_def auth_inv_hosts one_state_def one_realm_def new_realm_def hosts_differ_def
      host_ok_def names_differ_def realm_inv_def cptr_str_def)

lemma Auth_success_gives_credentials_witness:
  "\<exists>st' st'' hdr. a_Auth_do_auth (\<lambda>title msg. None) other_state [''Basic '' @ params_text [(''realm'', ''r'', True)]] data_url
     = Some (st', True) \<and> a_Auth_get_auth_str st' data_url ''x'' = Some (st'', Some hdr)"
proof -
  let ?ch = "''Basic '' @ params_text [(''realm'', ''r'', True)]"
  let ?ap = "Auth_parse_challenge (Auth_parse_new\<lparr>ap_type := BASIC\<rparr>) ?ch"
  let ?st = "put_realm other_state 0 0 (Auth_realm_add_path (realm_at other_state 0 0) ''x'')"
  have f: "Auth_host_by_url (auth_hosts other_state) data_url = Some 0" "in_range other_state 0 0"
    "Auth_realm_by_name (host_at other_state 0) ''r'' = Some 0"
    "\<not> Auth_realm_includes_path (realm_at other_state 0 0) ''x''"
    by (simp_all add: URL_SCHEME_def URL_AUTHORITY_def NPTR2STR_def sample_url_def url_zero_def
      Auth_host_by_url_def other_state_def one_state_def put_realm_def put_nth_def in_range_def Auth_realm_by_name_def
      one_realm_def new_realm_def Auth_realm_includes_path_def)
  have "Auth_do_auth_required other_state ?ap data_url = Some (?st, False)"
    using data_challenge f data_url_simps(1) by (simp add: Auth_do_auth_required_def Let_def)
  then have "Auth_do_auth (\<lambda>title msg. None) other_state ?ch BASIC data_url = Some (?st, True)"
    using data_challenge by (simp add: Auth_do_auth_def)
  then have run: "a_Auth_do_auth (\<lambda>title msg. None) other_state [?ch] data_url = Some (?st, True)"
    by (simp add: a_Auth_do_auth_def params_text_Cons param_text_def D_ASCII_TOLOWER_def schar_def uchar_def)
  have fits: "digest_fits (realm_at ?st h r) ''x''" if "in_range ?st h r" for h r
    using that by (auto simp: digest_fits_def other_state_def put_realm_def put_nth_def one_state_def one_realm_def in_range_def
        Auth_realm_add_path_def NPTR2STR_def cptr_str_def new_realm_def Let_def)
  show ?thesis
    using Auth_success_gives_credentials [OF other_state_inv sample_url_ok(2) _ run] fits data_url_simps(1) run by auto
qed

lemma Auth_cnonce_double_free_witness:
  "\<exists>st'. Auth_do_auth_dialog_cb (one_state DIGEST)
       (Auth_parse_new\<lparr>ap_type := DIGEST, ap_realm := Some ''r'', ap_nonce := Some ''n''\<rparr>) data_url ''u'' ''p'' = Some st'
     \<and> Auth_do_auth_dialog_cb st'
       (Auth_parse_new\<lparr>ap_type := DIGEST, ap_realm := Some ''r'', ap_nonce := Some ''n''\<rparr>) data_url ''u'' ''p'' = None"
proof -
  let ?ap = "Auth_parse_new\<lparr>ap_type := DIGEST, ap_realm := Some ''r'', ap_nonce := Some ''n''\<rparr>"
  obtain d where d: "md5hexdigest ''u:r:p'' = Some d" using md5hexdigest_defined [of "''u:r:p''"] by auto
  have find: "find_or_add_host (auth_hosts (one_state DIGEST)) data_url = (auth_hosts (one_state DIGEST), 0)"
    "find_or_add_realm (host_at (one_state DIGEST) 0) ''r'' = (host_at (one_state DIGEST) 0, 0)"
    using data_url_simps(2) one_by_name by (simp_all add: find_or_add_host_def find_or_add_realm_def)
  have old: "ar_cnonce (realm_at (one_state DIGEST) 0 0) = Live ''c''" "ar_name (realm_at (one_state DIGEST) 0 0) = ''r''"
    by (simp_all add: one_state_def one_realm_def new_realm_def)
  have "\<exists>st'. Auth_do_auth_dialog_cb (one_state DIGEST) ?ap data_url ''u'' ''p'' = Some st'"
    unfolding Auth_do_auth_dialog_cb_def find prod.case
    using d old by (simp add: find Auth_parse_new_def Let_def renew_cnonce_def a_Digest_compute_digest_def)
  then obtain st' where st': "Auth_do_auth_dialog_cb (one_state DIGEST) ?ap data_url ''u'' ''p'' = Some st'" by blast
  have "Auth_do_auth_dialog_cb st' ?ap data_url ''u'' ''p'' = None"
    by (rule Auth_cnonce_double_free [OF one_state_inv _ _ _ _ _ data_url_simps(2) one_by_name old(1) st'])
       (simp_all add: Auth_parse_new_def)
  with st' show ?thesis by blast
qed

end
