(* ===== verification/Cookies_Parse.thy ===== *)
theory Cookies_Parse
  imports Dlib_Strings "HOL-Library.Monad_Syntax"
begin

text \<open>
  The cookie server of \<^verbatim>\<open>dillo/dpi/cookies.c\<close>, first part: the data of a cookie, the parser of
  dates and the parser of \<open>Set-Cookie\<close> headers. A pointer into a string is the suffix it points
  to. Reads outside of a string and dereferences of a null pointer, undefined in C, are the value
  \<open>None\<close> of an outer option. The clock and the time zone are a parameter of the model.
\<close>

section \<open>Data\<close>

text \<open>The fields of \<open>struct tm\<close> the program uses.\<close>

record tm =
  tm_sec :: int
  tm_min :: int
  tm_hour :: int
  tm_mday :: int
  tm_mon :: int
  tm_year :: int

text \<open>\<open>CookieData_t\<close>; a cookie always has a name and a value, domain and path may be null until
  they are validated.\<close>

record cookie_data =
  c_name :: string
  c_value :: string
  c_domain :: "string option"
  c_path :: "string option"
  c_expires_at :: int
  c_host_only :: bool
  c_secure :: bool
  c_session_only :: bool
  c_last_used :: int

text \<open>\<open>time(NULL)\<close>, \<open>mktime\<close> (local time) and \<open>gmtime\<close>, as the system answers them.\<close>

record clock =
  ck_now :: int
  ck_mktime :: "tm \<Rightarrow> int"
  ck_gmtime :: "int \<Rightarrow> tm"

definition cookies_epoch_tm :: tm where
  "cookies_epoch_tm = \<lparr>tm_sec = 0, tm_min = 0, tm_hour = 0, tm_mday = 1, tm_mon = 0, tm_year = 70\<rparr>"

definition future_tm :: tm where
  "future_tm = \<lparr>tm_sec = 7, tm_min = 14, tm_hour = 3, tm_mday = 19, tm_mon = 0, tm_year = 138\<rparr>"

definition cookies_epoch_time :: "clock \<Rightarrow> int" where
  "cookies_epoch_time ck = ck_mktime ck cookies_epoch_tm"

definition cookies_future_time :: "clock \<Rightarrow> int" where
  "cookies_future_time ck = ck_mktime ck future_tm"

text \<open>\<open>p + n\<close>, when it still points into the string or at its terminator.\<close>

definition ptr_add :: "string \<Rightarrow> nat \<Rightarrow> string option" where
  "ptr_add p n = (if n \<le> length p then Some (drop n p) else None)"

section \<open>Dates\<close>

definition months :: "string list" where
  "months = [''Jan'', ''Feb'', ''Mar'', ''Apr'', ''May'', ''Jun'', ''Jul'', ''Aug'', ''Sep'', ''Oct'',
     ''Nov'', ''Dec'']"

fun month_loop :: "string list \<Rightarrow> string \<Rightarrow> int \<Rightarrow> int" where
  "month_loop [] month_name i = -1"
| "month_loop (m # ms) month_name i =
     (if dStrnAsciiCasecmp m month_name 3 = 0 then i else month_loop ms month_name (i + 1))"

definition Cookies_get_month :: "string \<Rightarrow> int" where
  "Cookies_get_month month_name = month_loop months month_name 0"

text \<open>An \<open>int\<close> field assigned from \<open>strtol\<close>.\<close>

definition int_at :: "string \<Rightarrow> int" where
  "int_at p = c_int (fst (strtol p 10))"

definition asctime_fields :: "string \<Rightarrow> tm" where
  "asctime_fields cp =
     \<lparr>tm_sec = int_at (drop 17 cp), tm_min = int_at (drop 14 cp), tm_hour = int_at (drop 11 cp),
      tm_mday = int_at (drop 8 cp), tm_mon = Cookies_get_month (drop 4 cp),
      tm_year = c_int (fst (strtol (drop 20 cp) 10) - 1900)\<rparr>"

text \<open>The fields after the comma; the time is read relative to where the year ended, which may be
  the end of the string.\<close>

definition rfc_date_fields :: "string \<Rightarrow> tm option" where
  "rfc_date_fields cp =
     do {
       let (y, tail) = strtol (drop 9 cp) 10;
       let year = c_int y;
       let year = (if year < 70 then year + 100 else if year > 100 then year - 1900 else year);
       p1 \<leftarrow> ptr_add tail 1;
       p4 \<leftarrow> ptr_add tail 4;
       p7 \<leftarrow> ptr_add tail 7;
       Some \<lparr>tm_sec = int_at p7, tm_min = int_at p4, tm_hour = int_at p1,
             tm_mday = int_at (drop 2 cp), tm_mon = Cookies_get_month (drop 5 cp), tm_year = year\<rparr>
     }"

definition tm_in_range :: "tm \<Rightarrow> bool" where
  "tm_in_range t \<longleftrightarrow> 0 < tm_mday t \<and> tm_mday t < 32 \<and> 0 \<le> tm_mon t \<and> tm_mon t < 12
     \<and> 70 \<le> tm_year t \<and> 0 \<le> tm_hour t \<and> tm_hour t < 24 \<and> 0 \<le> tm_min t \<and> tm_min t < 60
     \<and> 0 \<le> tm_sec t \<and> tm_sec t < 60"

text \<open>The outer option is the read past the end, the inner one the null pointer returned for a
  date that is not understood or out of range.\<close>

definition Cookies_parse_date :: "string \<Rightarrow> tm option option" where
  "Cookies_parse_date date =
     do {
       tm \<leftarrow> (case strchr date CHR '','' of
          None \<Rightarrow>
            if 20 < length date \<and> date ! 13 = CHR '':'' \<and> date ! 16 = CHR '':''
            then Some (Some (asctime_fields date)) else Some None
        | Some cp \<Rightarrow>
            (let off = length date - length cp in
             if (off = 3 \<or> 5 < off) \<and> (length cp = 24 \<or> length cp = 26)
             then map_option Some (rfc_date_fields cp) else Some None));
       Some (case tm of None \<Rightarrow> None | Some t \<Rightarrow> if tm_in_range t then Some t else None)
     }"

section \<open>Attributes\<close>

text \<open>\<open>while (len && (str[len - 1] == ' ' || str[len - 1] == '\t')) len--\<close>\<close>

fun blank_trim :: "string \<Rightarrow> nat \<Rightarrow> nat" where
  "blank_trim str 0 = 0"
| "blank_trim str (Suc len) =
     (if char_at str len = CHR '' '' \<or> char_at str len = CHR 0x09 then blank_trim str len else Suc len)"

text \<open>The string read and the new value of \<open>*cookie_str\<close>.\<close>

definition Cookies_parse_attr :: "string \<Rightarrow> string \<times> string" where
  "Cookies_parse_attr cookie_str =
     (let str = dropWhile isspace cookie_str;
          len = strcspn str ''=;''
      in (take (blank_trim str len) str, drop len str))"

definition Cookies_parse_value :: "string \<Rightarrow> string \<times> string" where
  "Cookies_parse_value cookie_str =
     (if deref cookie_str = CHR ''='' then
        (let str = dropWhile isspace (tl cookie_str);
             len = strcspn str '';''
         in (take (blank_trim str len) str, drop len str))
      else ([], cookie_str))"

definition Cookies_eat_value :: "string \<Rightarrow> string" where
  "Cookies_eat_value cookie_str =
     (if deref cookie_str = CHR ''='' then drop (strcspn cookie_str '';'') cookie_str else cookie_str)"

definition Cookies_server_timediff :: "clock \<Rightarrow> string option \<Rightarrow> int option" where
  "Cookies_server_timediff ck server_date =
     (case server_date of
        None \<Rightarrow> Some 0
      | Some d \<Rightarrow>
          do {
            server_tm \<leftarrow> Cookies_parse_date d;
            Some (case server_tm of
                None \<Rightarrow> 0
              | Some t \<Rightarrow> (let server_time = ck_mktime ck t
                          in if server_time \<noteq> -1 then ck_now ck - server_time else 0))
          })"

text \<open>The double quote is \<open>CHR 0x22\<close>.\<close>

definition Cookies_unquote_string :: "string \<Rightarrow> string" where
  "Cookies_unquote_string str =
     (if deref str = CHR 0x22 then
        (let len = length str in
         if 1 < len \<and> char_at str (len - 1) = CHR 0x22 then tl (take (len - 1) str) else str)
      else str)"

section \<open>The header\<close>

definition cookie_zero :: cookie_data where
  "cookie_zero = \<lparr>c_name = [], c_value = [], c_domain = None, c_path = None, c_expires_at = 0,
     c_host_only = False, c_secure = False, c_session_only = False, c_last_used = 0\<rparr>"

text \<open>The expiration a new cookie starts with: a year from now.\<close>

definition default_expires :: "clock \<Rightarrow> int" where
  "default_expires ck =
     (let t = ck_gmtime ck (ck_now ck);
          e = ck_mktime ck (t\<lparr>tm_year := c_int (tm_year t + 1)\<rparr>)
      in if e = -1 then cookies_future_time ck else e)"

definition max_age_expires :: "clock \<Rightarrow> string \<Rightarrow> int" where
  "max_age_expires ck value =
     (let age = fst (strtol value 10);
          t = ck_gmtime ck (ck_now ck);
          e = ck_mktime ck (t\<lparr>tm_sec := c_int (tm_sec t + age)\<rparr>)
      in if 0 < age \<and> e = -1 then cookies_future_time ck else e)"

definition date_expires :: "clock \<Rightarrow> string option \<Rightarrow> string \<Rightarrow> int option" where
  "date_expires ck server_date value =
     do {
       tm \<leftarrow> Cookies_parse_date (Cookies_unquote_string value);
       (case tm of
          None \<Rightarrow> Some (-1)
        | Some t \<Rightarrow>
            do {
              diff \<leftarrow> Cookies_server_timediff ck server_date;
              let e = ck_mktime ck (t\<lparr>tm_sec := c_int (tm_sec t + diff)\<rparr>);
              Some (if e = -1 \<and> 138 \<le> tm_year t then cookies_future_time ck else e)
            })
     }"

text \<open>The cookie being built with the flags \<open>max_age\<close> and \<open>expires\<close>.\<close>

type_synonym parse_state = "cookie_data \<times> bool \<times> bool"

text \<open>What one attribute after the first does, by its name; \<open>str\<close> points after the name.\<close>

definition attr_step ::
    "clock \<Rightarrow> string option \<Rightarrow> string \<Rightarrow> string \<Rightarrow> parse_state \<Rightarrow> (string \<times> parse_state) option" where
  "attr_step ck server_date attr str st =
     (case st of (cookie, max_age, expires) \<Rightarrow>
      if dStrAsciiCasecmp attr ''Path'' = 0 then
        (case Cookies_parse_value str of (value, str') \<Rightarrow>
           Some (str', cookie\<lparr>c_path := Some value\<rparr>, max_age, expires))
      else if dStrAsciiCasecmp attr ''Domain'' = 0 then
        (case Cookies_parse_value str of (value, str') \<Rightarrow>
           Some (str', cookie\<lparr>c_domain := Some value\<rparr>, max_age, expires))
      else if dStrAsciiCasecmp attr ''Max-Age'' = 0 then
        (case Cookies_parse_value str of (value, str') \<Rightarrow>
           if isdigit (deref value) \<or> deref value = CHR ''-''
           then Some (str', cookie\<lparr>c_expires_at := max_age_expires ck value\<rparr>, True, True)
           else Some (str', cookie, max_age, expires))
      else if dStrAsciiCasecmp attr ''Expires'' = 0 then
        (if \<not> max_age then
           (case Cookies_parse_value str of (value, str') \<Rightarrow>
              map_option (\<lambda>e. (str', cookie\<lparr>c_expires_at := e\<rparr>, max_age, True))
                (date_expires ck server_date value))
         else Some (Cookies_eat_value str, cookie, max_age, expires))
      else if dStrAsciiCasecmp attr ''Secure'' = 0 then
        Some (Cookies_eat_value str, cookie\<lparr>c_secure := True\<rparr>, max_age, expires)
      else Some (Cookies_eat_value str, cookie, max_age, expires))"

text \<open>\<open>if (*str == ';') str++;\<close>\<close>

definition skip_semicolon :: "string \<Rightarrow> string" where
  "skip_semicolon str = (if deref str = CHR '';'' then tl str else str)"

lemma blank_trim_le: "blank_trim s n \<le> n"
  by (induction s n rule: blank_trim.induct) auto

lemma length_parse_value: "length (snd (Cookies_parse_value s)) \<le> length s"
  using length_dropWhile_le [of isspace "tl s"] by (auto simp: Cookies_parse_value_def Let_def)

lemma length_eat_value: "length (Cookies_eat_value s) \<le> length s"
  by (simp add: Cookies_eat_value_def)

lemma length_parse_attr: "length (snd (Cookies_parse_attr s)) \<le> length s"
  using length_dropWhile_le [of isspace s] by (auto simp: Cookies_parse_attr_def Let_def)

text \<open>The scans stop at a semicolon or at the end, an attribute name also at an equals sign.\<close>

lemma drop_strcspn: "drop (strcspn s r) s = dropWhile (\<lambda>x. x \<notin> set r) s"
  by (simp add: strcspn_def dropWhile_eq_drop)

lemma deref_drop_strcspn: "cstr s \<Longrightarrow> deref (drop (strcspn s r) s) \<in> insert NUL (set r)"
  by (induction s) (auto simp: drop_strcspn)

lemma parse_attr_rest:
  "parse_attr_rest = snd (Cookies_parse_attr s) \<Longrightarrow>
     parse_attr_rest = [] \<or> hd parse_attr_rest \<in> {CHR ''='', CHR '';''}"
  using hd_dropWhile [of "\<lambda>x. x \<notin> set ''=;''" "dropWhile isspace s"]
  by (auto simp: Cookies_parse_attr_def Let_def drop_strcspn)

text \<open>After a value has been read or skipped the rest starts at a semicolon, and has lost an equals
  sign.\<close>

lemma parse_value_rest:
  assumes "s = [] \<or> hd s \<in> {CHR ''='', CHR '';''}"
  shows "s \<noteq> [] \<Longrightarrow> length (skip_semicolon (snd (Cookies_parse_value s))) < length s"
proof -
  assume "s \<noteq> []"
  then obtain c t where s: "s = c # t" by (cases s) auto
  show ?thesis
  proof (cases "c = CHR ''=''")
    case True
    then show ?thesis using length_dropWhile_le [of isspace t]
      by (auto simp: s Cookies_parse_value_def Let_def skip_semicolon_def)
  next
    case False
    then have "c = CHR '';''" using assms by (simp add: s)
    then show ?thesis by (simp add: s Cookies_parse_value_def skip_semicolon_def)
  qed
qed

lemma eat_value_rest:
  assumes "s = [] \<or> hd s \<in> {CHR ''='', CHR '';''}"
  shows "s \<noteq> [] \<Longrightarrow> length (skip_semicolon (Cookies_eat_value s)) < length s"
proof -
  assume "s \<noteq> []"
  then obtain c t where s: "s = c # t" by (cases s) auto
  show ?thesis
  proof (cases "c = CHR ''=''")
    case True
    then show ?thesis
      by (auto simp: s Cookies_eat_value_def strcspn_def skip_semicolon_def)
  next
    case False
    then have "c = CHR '';''" using assms by (simp add: s)
    then show ?thesis by (simp add: s Cookies_eat_value_def skip_semicolon_def)
  qed
qed

lemma attr_step_rest:
  assumes "attr_step ck sd attr s st = Some (s', st')"
  shows "s' = snd (Cookies_parse_value s) \<or> s' = Cookies_eat_value s"
proof -
  obtain cookie ma ex where "st = (cookie, ma, ex)" by (cases st)
  then show ?thesis using assms
    by (cases "Cookies_parse_value s") (auto simp: attr_step_def split: if_splits)
qed

lemma attr_step_shorter:
  assumes "str \<noteq> []" "Cookies_parse_attr str = (attr, s)" "attr_step ck sd attr s st = Some (s', st')"
  shows "length (skip_semicolon s') < length str"
proof (cases "s = []")
  case True
  then have "s' = []" using attr_step_rest [OF assms(3)]
    by (auto simp: Cookies_parse_value_def Cookies_eat_value_def)
  then show ?thesis using assms(1) by (simp add: skip_semicolon_def)
next
  case False
  have r: "s = [] \<or> hd s \<in> {CHR ''='', CHR '';''}"
    by (rule parse_attr_rest [of s str]) (simp add: assms(2))
  have "length (skip_semicolon s') < length s"
    using attr_step_rest [OF assms(3)] parse_value_rest [OF r False] eat_value_rest [OF r False] by auto
  then show ?thesis using length_parse_attr [of str] assms(2) by simp
qed

text \<open>The iterations after the first one.\<close>

function cookie_loop :: "clock \<Rightarrow> string option \<Rightarrow> string \<Rightarrow> parse_state \<Rightarrow> parse_state option" where
  "cookie_loop ck server_date str st =
     (if str = [] then Some st
      else (case Cookies_parse_attr str of (attr, s) \<Rightarrow>
        (case attr_step ck server_date attr s st of
           None \<Rightarrow> None
         | Some (s', st') \<Rightarrow> cookie_loop ck server_date (skip_semicolon s') st')))"
  by pat_completeness auto
termination
  by (relation "measure (\<lambda>(ck, sd, str, st). length str)")
    (simp_all, metis attr_step_shorter)

declare cookie_loop.simps [simp del]

text \<open>
  \<open>None\<close> is undefined behaviour: a null or empty string leaves \<open>cookie\<close> null and the final
  assignment dereferences it. \<open>Some None\<close> is the null pointer returned for a nameless cookie.
\<close>

definition Cookies_parse :: "clock \<Rightarrow> string option \<Rightarrow> string option \<Rightarrow> cookie_data option option" where
  "Cookies_parse ck cookie_str server_date =
     (case cookie_str of
        None \<Rightarrow> None
      | Some str \<Rightarrow>
          if str = [] then None
          else (case Cookies_parse_attr str of (attr, s) \<Rightarrow>
            if deref s \<noteq> CHR ''='' \<or> attr = [] then Some None
            else (case Cookies_parse_value s of (value, s') \<Rightarrow>
              map_option (\<lambda>(cookie, max_age, expires). Some (cookie\<lparr>c_session_only := \<not> expires\<rparr>))
                (cookie_loop ck server_date (skip_semicolon s')
                   (cookie_zero\<lparr>c_name := attr, c_value := value,
                                c_expires_at := default_expires ck\<rparr>, False, False)))))"

section \<open>Segments\<close>

text \<open>
  The loop over the segments of the header, which is split at semicolons, each segment at its
  first equals sign into an attribute name and a value, both trimmed. This is a step of the proofs, with
  the attributes still applied one after the other.
\<close>

fun segments :: "string \<Rightarrow> string list" where
  "segments [] = [[]]"
| "segments (c # s) =
     (if c = CHR '';'' then [] # segments s
      else (c # hd (segments s)) # tl (segments s))"

definition trimmed :: "string \<Rightarrow> string" where
  "trimmed s = rev (dropWhile (\<lambda>c. c \<in> set [CHR '' '', CHR 0x09]) (rev (dropWhile isspace s)))"

definition av :: "string \<Rightarrow> string \<times> string" where
  "av g = (trimmed (takeWhile (\<lambda>c. c \<noteq> CHR ''='') g), trimmed (tl (dropWhile (\<lambda>c. c \<noteq> CHR ''='') g)))"

definition apply_av :: "clock \<Rightarrow> string option \<Rightarrow> parse_state \<Rightarrow> string \<times> string \<Rightarrow> parse_state option" where
  "apply_av ck sd st nv =
     (case (st, nv) of ((cookie, max_age, expires), (n, v)) \<Rightarrow>
        if dStrAsciiCasecmp n ''Path'' = 0 then Some (cookie\<lparr>c_path := Some v\<rparr>, max_age, expires)
        else if dStrAsciiCasecmp n ''Domain'' = 0 then Some (cookie\<lparr>c_domain := Some v\<rparr>, max_age, expires)
        else if dStrAsciiCasecmp n ''Max-Age'' = 0 then
          (if isdigit (deref v) \<or> deref v = CHR ''-''
           then Some (cookie\<lparr>c_expires_at := max_age_expires ck v\<rparr>, True, True) else Some st)
        else if dStrAsciiCasecmp n ''Expires'' = 0 then
          (if max_age then Some st
           else map_option (\<lambda>e. (cookie\<lparr>c_expires_at := e\<rparr>, max_age, True)) (date_expires ck sd v))
        else if dStrAsciiCasecmp n ''Secure'' = 0 then Some (cookie\<lparr>c_secure := True\<rparr>, max_age, expires)
        else Some st)"

definition segment_parse :: "clock \<Rightarrow> string option \<Rightarrow> string \<Rightarrow> cookie_data option option" where
  "segment_parse ck sd str =
     (case av (hd (segments str)) of (n, v) \<Rightarrow>
        if CHR ''='' \<notin> set (hd (segments str)) \<or> n = [] then Some None
        else map_option (\<lambda>(cookie, max_age, expires). Some (cookie\<lparr>c_session_only := \<not> expires\<rparr>))
          (option_fold (\<lambda>st g. apply_av ck sd st (av g))
             (cookie_zero\<lparr>c_name := n, c_value := v, c_expires_at := default_expires ck\<rparr>, False, False)
             (tl (segments str))))"

lemma take_blank_trim:
  "n \<le> length s \<Longrightarrow> take (blank_trim s n) s = rev (dropWhile (\<lambda>c. c \<in> set [CHR '' '', CHR 0x09]) (rev (take n s)))"
proof (induction s n rule: blank_trim.induct)
  case (2 s n)
  then show ?case by (auto simp: take_Suc_conv_app_nth char_at_def)
qed simp

lemma segments_unfold:
  "segments s = takeWhile (\<lambda>c. c \<noteq> CHR '';'') s #
     (case dropWhile (\<lambda>c. c \<noteq> CHR '';'') s of [] \<Rightarrow> [] | _ # r \<Rightarrow> segments r)"
  by (induction s) auto

text \<open>The scans of a segment \<open>g\<close> followed by \<open>r\<close>: nothing, or a semicolon and more.\<close>

definition seg_end :: "string \<Rightarrow> bool" where
  "seg_end r \<longleftrightarrow> r = [] \<or> hd r = CHR '';''"

lemma not_isspace_lits [simp]: "\<not> isspace CHR '';''" "\<not> isspace CHR ''=''"
  by (simp_all add: isspace_def uchar_def)

lemma dropWhile_isspace_append:
  "seg_end r \<Longrightarrow> dropWhile isspace (g @ r) = dropWhile isspace g @ r"
  by (cases r) (auto simp: seg_end_def dropWhile_append)

lemma takeWhile_dropWhile_isspace:
  "takeWhile (\<lambda>c. c \<noteq> CHR ''='') (dropWhile isspace g) = dropWhile isspace (takeWhile (\<lambda>c. c \<noteq> CHR ''='') g)"
  by (induction g) auto

lemma dropWhile_dropWhile_isspace:
  "dropWhile (\<lambda>c. c \<noteq> CHR ''='') (dropWhile isspace g) = dropWhile (\<lambda>c. c \<noteq> CHR ''='') g"
  by (induction g) auto

lemma takeWhile_prefix: "\<forall>c \<in> set g. P c \<Longrightarrow> r = [] \<or> \<not> P (hd r) \<Longrightarrow> takeWhile P (g @ r) = g"
  by (cases r) (auto simp: takeWhile_append)

lemma take_blank_trim_prefix:
  "take (blank_trim (s @ r) (length s)) (s @ r) = rev (dropWhile (\<lambda>c. c \<in> set [CHR '' '', CHR 0x09]) (rev s))"
  using take_blank_trim [of "length s" "s @ r"] by simp

lemma strcspn_value:
  assumes "CHR '';'' \<notin> set g" "seg_end r"
  shows "strcspn (g @ r) '';'' = length g"
proof -
  have "takeWhile (\<lambda>x. x \<notin> set '';'') (g @ r) = g"
    using assms by (intro takeWhile_prefix) (auto simp: seg_end_def)
  then show ?thesis by (simp add: strcspn_def)
qed

lemma takeWhile_name:
  assumes "CHR '';'' \<notin> set g" "seg_end r"
  shows "takeWhile (\<lambda>x. x \<notin> set ''=;'') (g @ r) = takeWhile (\<lambda>c. c \<noteq> CHR ''='') g"
  using assms(1)
proof (induction g)
  case Nil
  then show ?case using assms(2) by (cases r) (auto simp: seg_end_def)
qed auto

lemma parse_attr_seg:
  assumes "CHR '';'' \<notin> set g" "seg_end r"
  shows "Cookies_parse_attr (g @ r) =
     (fst (av g), dropWhile (\<lambda>c. c \<noteq> CHR ''='') g @ r)"
proof -
  let ?g = "dropWhile isspace g" and ?n = "takeWhile (\<lambda>c. c \<noteq> CHR ''='') (dropWhile isspace g)"
  have g: "CHR '';'' \<notin> set ?g" using assms(1) by (auto dest: set_dropWhileD)
  have l: "strcspn (?g @ r) ''=;'' = length ?n"
    by (simp only: strcspn_def takeWhile_name [OF g assms(2)])
  have split: "?g @ r = ?n @ dropWhile (\<lambda>c. c \<noteq> CHR ''='') g @ r"
    using dropWhile_dropWhile_isspace [of g] takeWhile_dropWhile_id [of "\<lambda>c. c \<noteq> CHR ''=''" ?g] by auto
  have t: "fst (av g) = rev (dropWhile (\<lambda>c. c \<in> set [CHR '' '', CHR 0x09]) (rev ?n))"
    by (simp add: av_def trimmed_def takeWhile_dropWhile_isspace)
  have "take (blank_trim (?g @ r) (length ?n)) (?g @ r) = fst (av g)"
    by (simp only: split t take_blank_trim_prefix)
  moreover have "drop (length ?n) (?g @ r) = dropWhile (\<lambda>c. c \<noteq> CHR ''='') g @ r"
    by (subst split) simp
  ultimately show ?thesis
    by (simp only: Cookies_parse_attr_def dropWhile_isspace_append [OF assms(2)] Let_def l)
qed

lemma dropWhile_ConsD: "dropWhile P g = c # t \<Longrightarrow> \<not> P c \<and> set (c # t) \<subseteq> set g"
  by (induction g) (auto split: if_splits)

lemma dropWhile_Cons_notin: "dropWhile P g = c # t \<Longrightarrow> x \<notin> set g \<Longrightarrow> x \<notin> set t \<and> x \<noteq> c"
  by (induction g) (auto split: if_splits)

lemma dropWhile_notin: "x \<notin> set g \<Longrightarrow> x \<notin> set (dropWhile P g)"
  by (induction g) auto

lemma parse_value_seg:
  assumes "CHR '';'' \<notin> set g" "seg_end r"
  shows "Cookies_parse_value (dropWhile (\<lambda>c. c \<noteq> CHR ''='') g @ r) = (snd (av g), r)"
proof (cases "dropWhile (\<lambda>c. c \<noteq> CHR ''='') g")
  case Nil
  show ?thesis using assms(2) unfolding seg_end_def av_def snd_conv Nil
    by (cases r) (auto simp: Cookies_parse_value_def trimmed_def)
next
  case (Cons c t)
  have c: "c = CHR ''=''" using dropWhile_ConsD [OF Cons] by simp
  have t: "CHR '';'' \<notin> set (dropWhile isspace t)"
    by (rule dropWhile_notin, rule dropWhile_Cons_notin [OF Cons assms(1), THEN conjunct1])
  show ?thesis
    using take_blank_trim_prefix [of "dropWhile isspace t" r]
    by (simp add: Cookies_parse_value_def Cons c dropWhile_isspace_append [OF assms(2)] Let_def
        strcspn_value [OF t assms(2)] av_def trimmed_def)
qed

lemma eat_value_seg:
  assumes "CHR '';'' \<notin> set g" "seg_end r"
  shows "Cookies_eat_value (dropWhile (\<lambda>c. c \<noteq> CHR ''='') g @ r) = r"
proof (cases "dropWhile (\<lambda>c. c \<noteq> CHR ''='') g")
  case Nil
  show ?thesis using assms(2) unfolding seg_end_def Nil
    by (cases r) (auto simp: Cookies_eat_value_def)
next
  case (Cons c t)
  have c: "c = CHR ''=''" using dropWhile_ConsD [OF Cons] by simp
  have t: "CHR '';'' \<notin> set (c # t)" using dropWhile_Cons_notin [OF Cons assms(1)] by simp
  show ?thesis
    using strcspn_value [OF t assms(2)] by (simp add: Cookies_eat_value_def Cons c)
qed

lemma attr_step_seg:
  assumes "CHR '';'' \<notin> set g" "seg_end r"
  shows "attr_step ck sd (fst (av g)) (dropWhile (\<lambda>c. c \<noteq> CHR ''='') g @ r) st =
     map_option (\<lambda>st'. (r, st')) (apply_av ck sd st (av g))"
proof -
  obtain cookie ma ex where st: "st = (cookie, ma, ex)" by (cases st)
  obtain n v where nv: "av g = (n, v)" by (cases "av g")
  show ?thesis
    using parse_value_seg [OF assms] eat_value_seg [OF assms]
    by (simp add: st nv attr_step_def apply_av_def option.map_comp comp_def)
qed

lemma segments_split:
  obtains g r where "s = g @ r" "CHR '';'' \<notin> set g" "seg_end r"
    "segments s = g # (case r of [] \<Rightarrow> [] | _ # r' \<Rightarrow> segments r')"
proof (rule that [of "takeWhile (\<lambda>c. c \<noteq> CHR '';'') s" "dropWhile (\<lambda>c. c \<noteq> CHR '';'') s"])
  show "CHR '';'' \<notin> set (takeWhile (\<lambda>c. c \<noteq> CHR '';'') s)" by (auto dest: set_takeWhileD)
  show "seg_end (dropWhile (\<lambda>c. c \<noteq> CHR '';'') s)"
    by (cases "dropWhile (\<lambda>c. c \<noteq> CHR '';'') s") (auto simp: seg_end_def dest: dropWhile_ConsD)
qed (simp_all only: takeWhile_dropWhile_id segments_unfold [of s])

lemma apply_av_empty: "apply_av ck sd st (av []) = Some st"
  by (simp add: apply_av_def av_def trimmed_def split: prod.split)

lemma cookie_loop_segments:
  "cookie_loop ck sd s st = option_fold (\<lambda>st g. apply_av ck sd st (av g)) st (segments s)"
proof (induction "length s" arbitrary: s st rule: less_induct)
  case less
  show ?case
  proof (cases "s = []")
    case True
    then show ?thesis by (simp add: cookie_loop.simps apply_av_empty)
  next
    case False
    obtain g r where gr: "s = g @ r" "CHR '';'' \<notin> set g" "seg_end r"
      "segments s = g # (case r of [] \<Rightarrow> [] | _ # r' \<Rightarrow> segments r')"
      by (rule segments_split)
    have u: "cookie_loop ck sd s st = (case apply_av ck sd st (av g) of None \<Rightarrow> None
        | Some st' \<Rightarrow> cookie_loop ck sd (skip_semicolon r) st')"
    proof -
      have ne: "g @ r \<noteq> []" using False gr(1) by simp
      show ?thesis
        unfolding gr(1) cookie_loop.simps [of ck sd "g @ r"] parse_attr_seg [OF gr(2,3)]
          prod.case attr_step_seg [OF gr(2,3)] if_not_P [OF ne]
        by (simp split: option.split)
    qed
    show ?thesis
    proof (cases r)
      case Nil
      then show ?thesis unfolding u gr(4)
        by (simp add: skip_semicolon_def cookie_loop.simps split: Option.bind_splits option.split)
    next
      case (Cons c r')
      then have c: "skip_semicolon (c # r') = r'" using gr(3) by (simp add: skip_semicolon_def seg_end_def)
      have "length r' < length s" by (simp add: gr(1) Cons)
      then show ?thesis unfolding u gr(4) Cons c
        by (simp add: less split: Option.bind_splits option.split)
    qed
  qed
qed

lemma Cookies_parse_segments:
  assumes "str \<noteq> []"
  shows "Cookies_parse ck (Some str) sd = segment_parse ck sd str"
proof -
  obtain g r where gr: "str = g @ r" "CHR '';'' \<notin> set g" "seg_end r"
    "segments str = g # (case r of [] \<Rightarrow> [] | _ # r' \<Rightarrow> segments r')"
    by (rule segments_split)
  have d: "deref (dropWhile (\<lambda>c. c \<noteq> CHR ''='') g @ r) = CHR ''='' \<longleftrightarrow> CHR ''='' \<in> set g"
  proof (cases "dropWhile (\<lambda>c. c \<noteq> CHR ''='') g")
    case Nil
    then have "CHR ''='' \<notin> set g" by (induction g) (auto split: if_splits)
    then show ?thesis unfolding Nil using gr(3) by (cases r) (auto simp: seg_end_def)
  next
    case (Cons c t)
    have c: "c = CHR ''=''" "set (c # t) \<subseteq> set g" using dropWhile_ConsD [OF Cons] by blast+
    then have "CHR ''='' \<in> set g" by auto
    then show ?thesis unfolding Cons using c(1) by simp
  qed
  have tail: "cookie_loop ck sd (skip_semicolon r) st =
      option_fold (\<lambda>st g. apply_av ck sd st (av g)) st (tl (segments str))" for st
    unfolding cookie_loop_segments gr(4) using gr(3)
    by (cases r) (auto simp: skip_semicolon_def seg_end_def apply_av_empty)
  obtain n v where nv: "av g = (n, v)" by (cases "av g")
  show ?thesis
    using assms parse_value_seg [OF gr(2,3)]
    unfolding Cookies_parse_def segment_parse_def option.case if_not_P [OF assms]
    unfolding gr(1) parse_attr_seg [OF gr(2,3)]
    by (simp add: gr(1) [symmetric] gr(4) d nv tail [unfolded gr(4) list.sel])
qed

section \<open>Dates of the standard form\<close>

definition dec_digit :: "nat \<Rightarrow> char" where
  "dec_digit d = char_of (48 + d)"

definition two_digits :: "nat \<Rightarrow> string" where
  "two_digits n = [dec_digit (n div 10 mod 10), dec_digit (n mod 10)]"

text \<open>\<open>Wdy, DD-Mon-YYYY HH:MM:SS GMT\<close> with the separator \<open>sp\<close> of the fields of the date.\<close>

definition http_date :: "string \<Rightarrow> char \<Rightarrow> nat \<Rightarrow> nat \<Rightarrow> string \<Rightarrow> nat \<Rightarrow> nat \<Rightarrow> nat \<Rightarrow> string" where
  "http_date wdy sp day mon year hour minute sec =
     wdy @ '', '' @ two_digits day @ [sp] @ months ! mon @ [sp] @ year @ '' ''
       @ two_digits hour @ '':'' @ two_digits minute @ '':'' @ two_digits sec @ '' GMT''"

lemma uchar_dec_digit: "d < 10 \<Longrightarrow> uchar (dec_digit d) = int d + 48"
  by (simp add: uchar_nat dec_digit_def of_char_of)

lemma digit_val_dec [simp]: "d < 10 \<Longrightarrow> digit_val (dec_digit d) = Some (int d)"
  by (simp add: digit_val_def isdigit_def uchar_dec_digit)

lemma is_digit_dec [simp]: "d < 10 \<Longrightarrow> is_digit_in 10 (dec_digit d)"
  by (simp add: is_digit_in_def)

lemma dec_digit_not_space: "d < 10 \<Longrightarrow> \<not> isspace (dec_digit d) \<and> dec_digit d \<noteq> CHR ''-'' \<and> dec_digit d \<noteq> CHR ''+''"
  using uchar_dec_digit [of d] by (auto simp: isspace_def) (auto simp: uchar_def)

lemma is_digit_not_space:
  assumes "is_digit_in 10 c"
  shows "\<not> isspace c \<and> c \<noteq> CHR ''-'' \<and> c \<noteq> CHR ''+'' \<and> 48 \<le> uchar c \<and> uchar c \<le> 57"
proof -
  have "48 \<le> uchar c \<and> uchar c \<le> 57"
    using assms by (auto simp: is_digit_in_def digit_val_def isdigit_def split: if_splits option.splits)
  then show ?thesis by (auto simp: isspace_def) (auto simp: uchar_def)
qed

lemma strtol_digits:
  assumes "ds \<noteq> []" "\<forall>c \<in> set ds. is_digit_in 10 c" "r = [] \<or> \<not> is_digit_in 10 (hd r)"
  shows "strtol (ds @ r) 10 = (clamp_long (digits_value 10 ds), r)"
proof -
  obtain c t where ds: "ds = c # t" using assms(1) by (cases ds) auto
  have c: "\<not> isspace c" "c \<noteq> CHR ''-''" "c \<noteq> CHR ''+''"
    using is_digit_not_space [of c] assms(2) by (auto simp: ds)
  have t: "takeWhile (is_digit_in 10) (ds @ r) = ds" "dropWhile (is_digit_in 10) (ds @ r) = r"
    using assms(2,3) by (cases r; auto simp: takeWhile_append dropWhile_append)+
  show ?thesis
    using c t assms(1) by (simp add: strtol_def ds Let_def)
qed

lemma int_at_two_digits:
  assumes "n < 100" "r = [] \<or> \<not> is_digit_in 10 (hd r)"
  shows "int_at (two_digits n @ r) = int n"
proof -
  have d: "digits_value 10 (two_digits n) = int n"
    using assms(1) by (simp add: two_digits_def digits_value_def) presburger
  have "strtol (two_digits n @ r) 10 = (clamp_long (digits_value 10 (two_digits n)), r)"
    by (rule strtol_digits) (use assms(2) in \<open>auto simp: two_digits_def\<close>)
  then show ?thesis using assms(1) by (simp add: int_at_def d clamp_long_def c_int_def)
qed

lemma digits_append_two:
  assumes "n < 100"
  shows "digits_value 10 (xs @ two_digits n) = digits_value 10 xs * 100 + int n"
proof -
  have "n div 10 < 10" using assms by (simp add: less_mult_imp_div_less)
  then have "n = (n div 10 mod 10) * 10 + n mod 10" by simp
  then have n: "int n = int (n div 10 mod 10) * 10 + int (n mod 10)"
    by (metis of_nat_add of_nat_mult of_nat_numeral)
  have "digits_value 10 (xs @ two_digits n) =
      digits_value 10 xs * 100 + (int (n div 10 mod 10) * 10 + int (n mod 10))"
    by (simp add: digits_value_def two_digits_def algebra_simps del: mod_mod_trivial)
  then show ?thesis by (simp only: n [symmetric])
qed

lemma digits2: "y < 100 \<Longrightarrow> digits_value 10 (two_digits y) = int y"
  using digits_append_two [of y "[]"] by (simp add: digits_value_def)

lemma digits4:
  assumes "y < 10000"
  shows "digits_value 10 (two_digits (y div 100) @ two_digits (y mod 100)) = int y"
proof -
  have "y div 100 < 100" using assms by (simp add: less_mult_imp_div_less)
  moreover have "int y = int (y div 100) * 100 + int (y mod 100)"
    by (metis div_mult_mod_eq of_nat_add of_nat_mult of_nat_numeral)
  ultimately show ?thesis by (simp add: digits_append_two digits2)
qed

lemma set_two_digits: "\<forall>c \<in> set (two_digits n). is_digit_in 10 c"
  by (auto simp: two_digits_def)

lemma length_two_digits [simp]: "length (two_digits n) = 2"
  by (simp add: two_digits_def)

lemma length_month: "i < 12 \<Longrightarrow> length (months ! i) = 3"
  using nth_mem [of i months] by (auto simp: months_def)

lemma get_month:
  assumes "i < 12"
  shows "Cookies_get_month (months ! i @ r) = int i"
proof -
  have "\<forall>i < 12. Cookies_get_month (months ! i @ r) = int i"
    by (simp add: All_less_Suc numeral_nat Cookies_get_month_def months_def D_ASCII_TOLOWER_def
        schar_def uchar_def)
  then show ?thesis using assms by blast
qed

lemma http_date_comma:
  assumes "CHR '','' \<notin> set wdy"
  shows "strchr (http_date wdy sp day mon year hour minute sec) CHR '','' =
     Some (drop (length wdy) (http_date wdy sp day mon year hour minute sec))"
  using strchr_append [OF assms] by (simp add: http_date_def)

lemma not_digit_lits [simp]: "\<not> is_digit_in 10 CHR '' ''" "\<not> is_digit_in 10 CHR '':''" "\<not> is_digit_in 10 CHR ''-''"
  by (simp_all add: is_digit_in_def digit_val_def isdigit_def uchar_def)

text \<open>The fields of a date, read from the comma on.\<close>

lemma rfc_date_fields_http:
  assumes "day < 100" "mon < 12" "hour < 100" "minute < 100" "sec < 100"
    "\<not> is_digit_in 10 sp" "year \<noteq> []" "\<forall>c \<in> set year. is_digit_in 10 c" "digits_value 10 year < 10000"
    "0 \<le> digits_value 10 year"
  shows "rfc_date_fields (drop (length wdy) (http_date wdy sp day mon year hour minute sec)) =
     Some \<lparr>tm_sec = int sec, tm_min = int minute, tm_hour = int hour, tm_mday = int day, tm_mon = int mon,
       tm_year = (if digits_value 10 year < 70 then digits_value 10 year + 100
                  else if digits_value 10 year > 100 then digits_value 10 year - 1900
                  else digits_value 10 year)\<rparr>"
proof -
  let ?t = "'' '' @ two_digits hour @ '':'' @ two_digits minute @ '':'' @ two_digits sec @ '' GMT''"
  let ?cp = "'', '' @ two_digits day @ [sp] @ months ! mon @ [sp] @ year @ ?t"
  have y: "strtol (year @ ?t) 10 = (digits_value 10 year, ?t)"
  proof -
    have "strtol (year @ ?t) 10 = (clamp_long (digits_value 10 year), ?t)"
      by (rule strtol_digits) (use assms in auto)
    then show ?thesis using assms(9,10) by (simp add: clamp_long_def)
  qed
  have d9: "drop 9 ?cp = year @ ?t" using length_month [OF assms(2)] by (simp add: two_digits_def)
  have d2: "drop 2 ?cp = two_digits day @ [sp] @ months ! mon @ [sp] @ year @ ?t" by simp
  have d5: "drop 5 ?cp = months ! mon @ [sp] @ year @ ?t" by (simp add: two_digits_def)
  have p: "ptr_add ?t 1 = Some (two_digits hour @ '':'' @ two_digits minute @ '':'' @ two_digits sec @ '' GMT'')"
    "ptr_add ?t 4 = Some (two_digits minute @ '':'' @ two_digits sec @ '' GMT'')"
    "ptr_add ?t 7 = Some (two_digits sec @ '' GMT'')"
    by (simp_all add: ptr_add_def two_digits_def)
  have a: "int_at (two_digits hour @ '':'' @ two_digits minute @ '':'' @ two_digits sec @ '' GMT'') = int hour"
    "int_at (two_digits minute @ '':'' @ two_digits sec @ '' GMT'') = int minute"
    "int_at (two_digits sec @ '' GMT'') = int sec"
    "int_at (two_digits day @ [sp] @ months ! mon @ [sp] @ year @ ?t) = int day"
    by (rule int_at_two_digits; use assms in simp)+
  have c: "c_int (digits_value 10 year) = digits_value 10 year"
    using assms(9,10) by (simp add: c_int_def)
  have cp: "drop (length wdy) (http_date wdy sp day mon year hour minute sec) = ?cp"
    by (simp add: http_date_def)
  show ?thesis
    unfolding cp rfc_date_fields_def d9 y prod.case Let_def p bind.bind_lunit a d2 d5 get_month [OF assms(2)] c
    by simp
qed

section \<open>Local time\<close>

text \<open>
  The server computes the end of a \<open>Max-Age\<close> by \<open>mktime\<close>, which reads local time, on a broken
  down time made by \<open>gmtime\<close>. In a zone \<open>off\<close> seconds ahead of UTC this is \<open>off\<close> seconds early.
  \<open>utc_seconds\<close> is the calendar, for concrete clocks.
\<close>

definition clock_offset :: "clock \<Rightarrow> int \<Rightarrow> bool" where
  "clock_offset ck off \<longleftrightarrow>
     (let t = ck_gmtime ck (ck_now ck)
      in 0 \<le> tm_sec t \<and> tm_sec t \<le> 60
         \<and> (\<forall>s. ck_mktime ck (t\<lparr>tm_sec := tm_sec t + s\<rparr>) = ck_now ck + s - off))"

definition utc_seconds :: "tm \<Rightarrow> int" where
  "utc_seconds t =
     (let y = tm_year t + 1900 - (if tm_mon t < 2 then 1 else 0);
          days = 365 * y + y div 4 - y div 100 + y div 400 + (153 * ((tm_mon t + 10) mod 12) + 2) div 5
                 + tm_mday t - 719469
      in ((days * 24 + tm_hour t) * 60 + tm_min t) * 60 + tm_sec t)"

lemma av_pair:
  assumes "\<forall>c \<in> set n. \<not> isspace c \<and> c \<noteq> CHR ''=''" "\<forall>c \<in> set v. \<not> isspace c"
  shows "av (n @ CHR ''='' # v) = (n, v)" "av (CHR '' '' # n @ CHR ''='' # v) = (n, v)"
proof -
  have id: "trimmed s = s" if "\<forall>c \<in> set s. \<not> isspace c" for s
  proof -
    have "dropWhile isspace s = s" using that by (cases s) auto
    moreover have "dropWhile (\<lambda>c. c \<in> set [CHR '' '', CHR 0x09]) (rev s) = rev s"
    proof (cases "rev s")
      case (Cons c t)
      then have "c \<in> set s" by (metis list.set_intros(1) set_rev)
      with that have "\<not> isspace c" by blast
      then have "c \<noteq> CHR '' ''" "c \<noteq> CHR 0x09" using isspace_lits by auto
      then show ?thesis unfolding Cons by simp
    qed simp
    ultimately show ?thesis by (simp add: trimmed_def)
  qed
  have t: "takeWhile (\<lambda>c. c \<noteq> CHR ''='') (n @ CHR ''='' # v) = n"
    "dropWhile (\<lambda>c. c \<noteq> CHR ''='') (n @ CHR ''='' # v) = CHR ''='' # v"
    using assms(1) by (auto simp: takeWhile_append dropWhile_append)
  have "trimmed (CHR '' '' # s) = trimmed s" for s by (simp add: trimmed_def)
  then show "av (n @ CHR ''='' # v) = (n, v)" "av (CHR '' '' # n @ CHR ''='' # v) = (n, v)"
    using assms by (simp_all add: av_def t id)
qed

lemma segments_append: "CHR '';'' \<notin> set g \<Longrightarrow> segments (g @ CHR '';'' # s) = g # segments s"
  by (induction g) auto

lemma segments_single: "CHR '';'' \<notin> set g \<Longrightarrow> segments g = [g]"
  by (induction g) auto

section \<open>RFC 6265\<close>

text \<open>
  The algorithm of RFC 6265, sections 5.2 and 5.3, from the text of the RFC: white space is spaces and
  tabs; the attributes are collected first, and the cookie is made from the list. The last attribute of a
  name counts, \<open>Max-Age\<close> wins over \<open>Expires\<close> wherever they stand, a \<open>Max-Age\<close> that is not a number and a
  date that cannot be read are ignored. Three things are parameters: the time that is \<open>n\<close> seconds from
  now, the time of a date, and the time kept for a cookie of the session.
\<close>

definition wsp :: "char \<Rightarrow> bool" where
  "wsp c \<longleftrightarrow> c = CHR '' '' \<or> c = CHR 0x09"

definition rfc_trim :: "string \<Rightarrow> string" where
  "rfc_trim s = rev (dropWhile wsp (rev (dropWhile wsp s)))"

definition rfc_pair :: "string \<Rightarrow> string \<times> string" where
  "rfc_pair g = (rfc_trim (takeWhile (\<lambda>c. c \<noteq> CHR ''='') g), rfc_trim (tl (dropWhile (\<lambda>c. c \<noteq> CHR ''='') g)))"

definition named :: "string \<Rightarrow> (string \<times> string) list \<Rightarrow> string list" where
  "named n avs = map snd (filter (\<lambda>(m, v). map tolow m = map tolow n) avs)"

definition last_of :: "'a list \<Rightarrow> 'a option" where
  "last_of xs = (if xs = [] then None else Some (last xs))"

definition decimal_value :: "string \<Rightarrow> int" where
  "decimal_value ds = foldl (\<lambda>n c. 10 * n + (int (of_char c) - 48)) 0 ds"

definition rfc_delta :: "string \<Rightarrow> int option" where
  "rfc_delta v = (case v of [] \<Rightarrow> None
     | c # r \<Rightarrow> if c \<notin> set ''-0123456789'' \<or> \<not> set r \<subseteq> set ''0123456789'' then None
         else Some (if c = CHR ''-'' then - decimal_value r else decimal_value v))"

definition rfc6265_set_cookie :: "(int \<Rightarrow> int) \<Rightarrow> (string \<Rightarrow> int option) \<Rightarrow> int \<Rightarrow> string \<Rightarrow> cookie_data option" where
  "rfc6265_set_cookie age_time date_time session_time str =
     (let (n, v) = rfc_pair (hd (segments str));
          avs = map rfc_pair (tl (segments str));
          ages = List.map_filter rfc_delta (named ''Max-Age'' avs);
          dates = List.map_filter date_time (named ''Expires'' avs)
      in if CHR ''='' \<notin> set (hd (segments str)) \<or> n = [] then None
         else Some (cookie_zero\<lparr>c_name := n, c_value := v,
                c_path := last_of (named ''Path'' avs), c_domain := last_of (named ''Domain'' avs),
                c_secure := (named ''Secure'' avs \<noteq> []),
                c_expires_at := (if ages \<noteq> [] then age_time (last ages)
                                 else if dates \<noteq> [] then last dates else session_time),
                c_session_only := (ages = [] \<and> dates = [])\<rparr>))"

text \<open>The times as the code computes them: \<open>n\<close> seconds from now, and those of the dates it can read.\<close>

definition age_time :: "clock \<Rightarrow> int \<Rightarrow> int" where
  "age_time ck age =
     (let t = ck_gmtime ck (ck_now ck);
          e = ck_mktime ck (t\<lparr>tm_sec := c_int (tm_sec t + age)\<rparr>)
      in if 0 < age \<and> e = -1 then cookies_future_time ck else e)"

definition date_time :: "clock \<Rightarrow> string option \<Rightarrow> string \<Rightarrow> int option" where
  "date_time ck sd v =
     (case Cookies_parse_date (Cookies_unquote_string v) of Some (Some t) \<Rightarrow> date_expires ck sd v | _ \<Rightarrow> None)"

text \<open>The headers on which the code agrees with the RFC: no white space but spaces and tabs, every
  \<open>Max-Age\<close> that starts with a digit or a hyphen is a number, of 64 bits, and every date of
  an \<open>Expires\<close> can be read.\<close>

definition age_ok :: "string \<Rightarrow> bool" where
  "age_ok v \<longleftrightarrow> (deref v \<in> set ''-0123456789'' \<longrightarrow>
     (case rfc_delta v of None \<Rightarrow> False | Some d \<Rightarrow> \<bar>d\<bar> < 2 ^ 63))"

definition rfc_header :: "clock \<Rightarrow> string option \<Rightarrow> string \<Rightarrow> bool" where
  "rfc_header ck sd str \<longleftrightarrow> str \<noteq> [] \<and> cstr str \<and> (\<forall>c \<in> set str. isspace c \<longrightarrow> wsp c)
     \<and> (\<forall>v \<in> set (named ''Max-Age'' (map rfc_pair (tl (segments str)))). age_ok v)
     \<and> (\<forall>v \<in> set (named ''Expires'' (map rfc_pair (tl (segments str)))). date_time ck sd v \<noteq> None)"

lemma max_age_expires_time: "max_age_expires ck v = age_time ck (fst (strtol v 10))"
  by (simp add: max_age_expires_def age_time_def Let_def)

lemma wsp_space: "wsp c \<Longrightarrow> isspace c"
  by (auto simp: wsp_def isspace_def uchar_def)

lemma av_rfc_pair:
  assumes "\<forall>c \<in> set g. isspace c \<longrightarrow> wsp c"
  shows "av g = rfc_pair g"
proof -
  have t: "trimmed s = rfc_trim s" if "set s \<subseteq> set g" for s
  proof -
    have "dropWhile isspace s = dropWhile wsp s"
      by (rule dropWhile_cong [OF refl]) (use assms that wsp_space in blast)
    moreover have "(\<lambda>c. c \<in> set [CHR '' '', CHR 0x09]) = wsp" by (auto simp: wsp_def)
    ultimately show ?thesis by (simp add: trimmed_def rfc_trim_def)
  qed
  have 1: "set (takeWhile (\<lambda>c. c \<noteq> CHR ''='') g) \<subseteq> set g" by (auto dest: set_takeWhileD)
  have 2: "set (tl (dropWhile (\<lambda>c. c \<noteq> CHR ''='') g)) \<subseteq> set g"
  proof (cases "dropWhile (\<lambda>c. c \<noteq> CHR ''='') g")
    case (Cons c r)
    from dropWhile_ConsD [OF this] show ?thesis by (simp add: Cons)
  next
    case Nil
    show ?thesis unfolding Nil by simp
  qed
  show ?thesis unfolding av_def rfc_pair_def t [OF 1] t [OF 2] ..
qed

lemma segments_sub: "g \<in> set (segments s) \<Longrightarrow> set g \<subseteq> set s"
proof (induction "length s" arbitrary: s rule: less_induct)
  case less
  obtain h r where hr: "s = h @ r" "CHR '';'' \<notin> set h" "seg_end r"
      "segments s = h # (case r of [] \<Rightarrow> [] | _ # r' \<Rightarrow> segments r')"
    by (rule segments_split)
  show ?case
  proof (cases "g = h")
    case False
    then obtain c r' where r: "r = c # r'" "g \<in> set (segments r')" using less.prems hr(4) by (cases r) auto
    then have "set g \<subseteq> set r'" using less.hyps hr(1) by simp
    then show ?thesis using hr(1) r(1) by auto
  qed (use hr(1) in auto)
qed

lemma segments_not_nil [simp]: "segments s \<noteq> []"
  by (cases s) (auto simp: segments.simps)

text \<open>Numbers.\<close>

lemma decimal_digit: "c \<in> set ''0123456789'' \<Longrightarrow> is_digit_in 10 c \<and> the (digit_val c) = int (of_char c) - 48 \<and> isdigit c"
  by (auto simp: is_digit_in_def digit_val_def isdigit_def uchar_def)

lemma isdigit_decimal: "isdigit c \<longleftrightarrow> c \<in> set ''0123456789''"
proof
  assume "isdigit c"
  then have n: "48 \<le> (of_char c :: nat)" "(of_char c :: nat) \<le> 57" by (auto simp: isdigit_def uchar_nat)
  have "m = 48 \<or> m = 49 \<or> m = 50 \<or> m = 51 \<or> m = 52 \<or> m = 53 \<or> m = 54 \<or> m = 55 \<or> m = 56 \<or> m = 57"
    if "48 \<le> m" "m \<le> 57" for m :: nat using that by presburger
  note cases = this [OF n]
  have k: "48 = (of_char CHR ''0'' :: nat)" "49 = (of_char CHR ''1'' :: nat)" "50 = (of_char CHR ''2'' :: nat)"
    "51 = (of_char CHR ''3'' :: nat)" "52 = (of_char CHR ''4'' :: nat)" "53 = (of_char CHR ''5'' :: nat)"
    "54 = (of_char CHR ''6'' :: nat)" "55 = (of_char CHR ''7'' :: nat)" "56 = (of_char CHR ''8'' :: nat)"
    "57 = (of_char CHR ''9'' :: nat)" by simp_all
  from cases have "c \<in> {CHR ''0'', CHR ''1'', CHR ''2'', CHR ''3'', CHR ''4'', CHR ''5'', CHR ''6'', CHR ''7'', CHR ''8'', CHR ''9''}"
    unfolding k of_char_eq_iff by blast
  then show "c \<in> set ''0123456789''" by simp
qed (use decimal_digit in blast)

lemma decimal_value_digits: "set ds \<subseteq> set ''0123456789'' \<Longrightarrow> digits_value 10 ds = decimal_value ds"
proof (induction ds rule: rev_induct)
  case (snoc c ds)
  then have "c \<in> set ''0123456789''" by simp
  with decimal_digit [OF this] snoc show ?case by (simp add: digits_value_def decimal_value_def)
qed (simp add: digits_value_def decimal_value_def)

lemma strtol_delta:
  assumes "rfc_delta v = Some d" "\<bar>d\<bar> < 2 ^ 63"
  shows "fst (strtol v 10) = d"
proof -
  obtain c r where v: "v = c # r" using assms(1) by (auto simp: rfc_delta_def split: list.splits)
  have r: "set r \<subseteq> set ''0123456789''" and c: "c \<in> set ''-0123456789''"
    and d: "d = (if c = CHR ''-'' then - decimal_value r else decimal_value v)"
    using assms(1) by (auto simp: rfc_delta_def v split: if_splits)
  have all: "\<forall>x \<in> set ds. is_digit_in 10 x" if "set ds \<subseteq> set ''0123456789''" for ds
    using that decimal_digit by blast
  have cl: "clamp_long d = d" using assms(2) by (auto simp: clamp_long_def)
  show ?thesis
  proof (cases "c = CHR ''-''")
    case True
    have s: "\<not> isspace c" using True by (simp add: isspace_def uchar_def)
    have tw: "takeWhile (is_digit_in 10) r = r" using all [OF r] by (simp add: takeWhile_eq_all_conv)
    have "fst (strtol v 10) = (if r = [] then 0 else clamp_long (- digits_value 10 r))"
      using True s by (simp add: strtol_def v Let_def tw)
    then show ?thesis using True cl d decimal_value_digits [OF r] by (auto simp: decimal_value_def)
  next
    case False
    then have v': "set v \<subseteq> set ''0123456789''" using c r by (simp add: v)
    have "strtol (v @ []) 10 = (clamp_long (digits_value 10 v), [])"
      by (rule strtol_digits) (use all [OF v'] in \<open>simp_all add: v\<close>)
    then show ?thesis using False cl d decimal_value_digits [OF v'] by simp
  qed
qed

lemma named_snoc: "named n (avs @ [(m, v)]) = named n avs @ (if map tolow m = map tolow n then [v] else [])"
  by (simp add: named_def)

lemma last_of_snoc [simp]: "last_of (xs @ [x]) = Some x"
  by (simp add: last_of_def)

text \<open>The state of the loop after the attributes \<open>avs\<close>.\<close>

definition rfc_state :: "clock \<Rightarrow> string option \<Rightarrow> cookie_data \<Rightarrow> (string \<times> string) list \<Rightarrow> parse_state" where
  "rfc_state ck sd cookie avs =
     (let ages = List.map_filter rfc_delta (named ''Max-Age'' avs);
          dates = List.map_filter (date_time ck sd) (named ''Expires'' avs)
      in (cookie\<lparr>c_path := last_of (named ''Path'' avs), c_domain := last_of (named ''Domain'' avs),
                c_secure := (named ''Secure'' avs \<noteq> []),
                c_expires_at := (if ages \<noteq> [] then age_time ck (last ages)
                                 else if dates \<noteq> [] then last dates else c_expires_at cookie)\<rparr>,
          ages \<noteq> [], ages \<noteq> [] \<or> dates \<noteq> []))"

lemma map_filter_snoc: "List.map_filter f (xs @ [x]) = List.map_filter f xs @ (case f x of None \<Rightarrow> [] | Some y \<Rightarrow> [y])"
  by (simp add: List.map_filter_def split: option.split)

lemma apply_av_rfc:
  assumes n: "cstr n" and age: "map tolow n = map tolow ''Max-Age'' \<Longrightarrow> age_ok v"
    and date: "map tolow n = map tolow ''Expires'' \<Longrightarrow> date_time ck sd v \<noteq> None"
  shows "apply_av ck sd (rfc_state ck sd cookie avs) (n, v) = Some (rfc_state ck sd cookie (avs @ [(n, v)]))"
proof -
  define N P D M E S where "N = map tolow n" "P = map tolow ''Path''" "D = map tolow ''Domain''"
    "M = map tolow ''Max-Age''" "E = map tolow ''Expires''" "S = map tolow ''Secure''"
  note lits = this
  have "dStrAsciiCasecmp n m = 0 \<longleftrightarrow> map tolow n = map tolow m"
    if "m \<in> {''Path'', ''Domain'', ''Max-Age'', ''Expires'', ''Secure''}" for m
    by (rule casecmp_eq_0 [OF n]) (use that in \<open>auto simp: cstr_def\<close>)
  then have eq: "dStrAsciiCasecmp n ''Path'' = 0 \<longleftrightarrow> N = P" "dStrAsciiCasecmp n ''Domain'' = 0 \<longleftrightarrow> N = D"
    "dStrAsciiCasecmp n ''Max-Age'' = 0 \<longleftrightarrow> N = M" "dStrAsciiCasecmp n ''Expires'' = 0 \<longleftrightarrow> N = E"
    "dStrAsciiCasecmp n ''Secure'' = 0 \<longleftrightarrow> N = S"
    unfolding lits by blast+
  have lc: "P \<noteq> D" "P \<noteq> M" "P \<noteq> E" "P \<noteq> S" "D \<noteq> M" "D \<noteq> E" "D \<noteq> S" "M \<noteq> E" "M \<noteq> S" "E \<noteq> S"
    unfolding lits by code_simp+
  have snoc: "named ''Path'' (avs @ [(n, v)]) = named ''Path'' avs @ (if N = P then [v] else [])"
    "named ''Domain'' (avs @ [(n, v)]) = named ''Domain'' avs @ (if N = D then [v] else [])"
    "named ''Max-Age'' (avs @ [(n, v)]) = named ''Max-Age'' avs @ (if N = M then [v] else [])"
    "named ''Expires'' (avs @ [(n, v)]) = named ''Expires'' avs @ (if N = E then [v] else [])"
    "named ''Secure'' (avs @ [(n, v)]) = named ''Secure'' avs @ (if N = S then [v] else [])"
    unfolding lits by (rule named_snoc)+
  have dig: "(isdigit (deref v) \<or> deref v = CHR ''-'') \<longleftrightarrow> deref v \<in> set ''-0123456789''"
    unfolding isdigit_decimal by auto
  note rules = apply_av_def eq rfc_state_def snoc map_filter_snoc Let_def
  consider (other) "N \<notin> {P, D, M, E, S}" | (path) "N = P" | (domain) "N = D" | (secure) "N = S" | (age) "N = M" | (expires) "N = E"
    by auto
  then show ?thesis
  proof cases
    case age
    show ?thesis
    proof (cases "rfc_delta v")
      case None
      then have "\<not> (isdigit (deref v) \<or> deref v = CHR ''-'')"
        unfolding dig using assms(2) age by (auto simp: age_ok_def lits)
      then show ?thesis using age None lc by (simp add: rules)
    next
      case (Some d)
      then have d: "deref v \<in> set ''-0123456789''" by (cases v) (auto simp: rfc_delta_def split: if_splits)
      then have "\<bar>d\<bar> < 2 ^ 63" using assms(2) age Some unfolding lits age_ok_def by simp
      with strtol_delta [OF Some] have "max_age_expires ck v = age_time ck d" by (simp add: max_age_expires_time)
      moreover have "isdigit (deref v) \<or> deref v = CHR ''-''" using d dig by blast
      ultimately show ?thesis using age Some lc by (simp add: rules)
    qed
  next
    case expires
    then obtain e where e: "date_time ck sd v = Some e" using assms(3) unfolding lits by blast
    then have "date_expires ck sd v = Some e" by (auto simp: date_time_def split: option.splits)
    then show ?thesis using expires e lc by (simp add: rules)
  qed (use lc in \<open>simp add: rules\<close>)+
qed

lemma apply_avs_rfc:
  assumes "\<forall>(n, v) \<in> set avs. cstr n" "\<forall>v \<in> set (named ''Max-Age'' avs). age_ok v"
    "\<forall>v \<in> set (named ''Expires'' avs). date_time ck sd v \<noteq> None"
    "c_path cookie = None" "c_domain cookie = None" "\<not> c_secure cookie"
  shows "option_fold (apply_av ck sd) (cookie, False, False) avs = Some (rfc_state ck sd cookie avs)"
  using assms(1-3)
proof (induction avs rule: rev_induct)
  case Nil
  have "cookie = cookie\<lparr>c_path := None, c_domain := None, c_secure := False\<rparr>" using assms(4-6) by (cases cookie) simp
  then show ?case by (simp add: rfc_state_def named_def last_of_def List.map_filter_def)
next
  case (snoc nv avs)
  obtain n v where nv: "nv = (n, v)" by (cases nv)
  have "option_fold (apply_av ck sd) (cookie, False, False) avs = Some (rfc_state ck sd cookie avs)"
    using snoc by (auto simp: nv named_snoc)
  then show ?case
    using apply_av_rfc [of n v ck sd cookie avs] snoc.prems
    by (auto simp: nv named_snoc option_fold_append)
qed

lemma option_fold_map: "option_fold f b (map g xs) = option_fold (\<lambda>b x. f b (g x)) b xs"
  by (induction xs arbitrary: b) auto

lemma rfc_pair_cstr: "cstr g \<Longrightarrow> rfc_pair g = (n, v) \<Longrightarrow> cstr n"
proof -
  assume g: "cstr g" "rfc_pair g = (n, v)"
  have "set (rfc_trim x) \<subseteq> set x" for x
    using set_dropWhileD [of _ wsp "rev (dropWhile wsp x)"] set_dropWhileD [of _ wsp x] by (auto simp: rfc_trim_def)
  then have "set n \<subseteq> set (takeWhile (\<lambda>c. c \<noteq> CHR ''='') g)" using g(2) by (auto simp: rfc_pair_def)
  also have "\<dots> \<subseteq> set g" by (auto dest: set_takeWhileD)
  finally show "cstr n" using g(1) by (auto simp: cstr_def)
qed

text \<open>
  C15: The parser of \<open>Set-Cookie\<close> headers (scans by pointers that set the fields of the cookie as they
  meet the attributes) makes of the header the cookie that the algorithm of RFC 6265, section 5.2, makes: name
  and value of the first pair, the last value of each attribute, Max-Age before Expires, a session cookie without
  either, no cookie without a name or an equals sign. Path and Domain are kept as given, for \<open>Cookies_validate_path\<close> and
  \<open>Cookies_validate_domain\<close> to interpret, and the times that the code gives to a number of seconds, to a date and to
  a session cookie are parameters of the specification. The conditions: the header has no white space but
  spaces and tabs, each \<open>Max-Age\<close> that starts with a digit or a hyphen is a number of 64 bits, and the date of each
  \<open>Expires\<close> can be read. The empty header makes the parser dereference a null pointer.
\<close>

theorem Cookies_parse_rfc6265:
  assumes "rfc_header ck sd str"
  shows "Cookies_parse ck (Some str) sd =
      Some (rfc6265_set_cookie (age_time ck) (date_time ck sd) (default_expires ck) str)
    \<and> Cookies_parse ck (Some []) sd = None"
proof -
  have h: "str \<noteq> []" "cstr str" "\<forall>c \<in> set str. isspace c \<longrightarrow> wsp c"
    using assms by (auto simp: rfc_header_def)
  let ?g = "hd (segments str)" and ?gs = "tl (segments str)"
  have mem: "?g \<in> set (segments str)" "g \<in> set ?gs \<Longrightarrow> g \<in> set (segments str)" for g
    by (simp_all add: list.set_sel(2))
  have pair: "av g = rfc_pair g" if "g \<in> set (segments str)" for g
    by (rule av_rfc_pair) (use h(3) segments_sub [OF that] in blast)
  obtain n v where nv: "rfc_pair ?g = (n, v)" by (cases "rfc_pair ?g")
  have c: "\<forall>(m, w) \<in> set (map rfc_pair ?gs). cstr m"
  proof clarify
    fix m w
    assume "(m, w) \<in> set (map rfc_pair ?gs)"
    then obtain g where g: "g \<in> set ?gs" "rfc_pair g = (m, w)" by auto
    then have "cstr g" using segments_sub [OF mem(2), of g] h(2) by (auto simp: cstr_def)
    then show "cstr m" using rfc_pair_cstr g(2) by blast
  qed
  let ?c = "cookie_zero\<lparr>c_name := n, c_value := v, c_expires_at := default_expires ck\<rparr>"
  have "option_fold (\<lambda>st g. apply_av ck sd st (av g)) (?c, False, False) ?gs
      = option_fold (apply_av ck sd) (?c, False, False) (map av ?gs)" by (simp add: option_fold_map)
  also have "map av ?gs = map rfc_pair ?gs" by (rule map_cong [OF refl]) (use pair mem(2) in blast)
  also have "option_fold (apply_av ck sd) (?c, False, False) (map rfc_pair ?gs)
      = Some (rfc_state ck sd ?c (map rfc_pair ?gs))"
    by (rule apply_avs_rfc [OF c]) (use assms in \<open>simp_all add: rfc_header_def cookie_zero_def\<close>)
  finally have f: "option_fold (\<lambda>st g. apply_av ck sd st (av g)) (?c, False, False) ?gs
      = Some (rfc_state ck sd ?c (map rfc_pair ?gs))" .
  have "Cookies_parse ck (Some str) sd = segment_parse ck sd str" by (rule Cookies_parse_segments [OF h(1)])
  also have "\<dots> = Some (rfc6265_set_cookie (age_time ck) (date_time ck sd) (default_expires ck) str)"
    using pair [OF mem(1)] nv f
    by (simp add: segment_parse_def rfc6265_set_cookie_def Let_def rfc_state_def cookie_zero_def)
  finally show ?thesis by (simp add: Cookies_parse_def)
qed

lemma Cookies_parse_rfc6265_witness:
  "Cookies_parse \<lparr>ck_now = 0, ck_mktime = (\<lambda>t. 60 * tm_min t + tm_sec t), ck_gmtime = (\<lambda>_. cookies_epoch_tm)\<rparr>
     (Some ''a=b; max-age=x; Secure; Max-Age=-5'') None =
   Some (Some (cookie_zero\<lparr>c_name := ''a'', c_value := ''b'', c_secure := True, c_expires_at := -5\<rparr>))"
proof -
  let ?ck = "\<lparr>ck_now = 0, ck_mktime = (\<lambda>t. 60 * tm_min t + tm_sec t), ck_gmtime = (\<lambda>_. cookies_epoch_tm)\<rparr>"
  let ?h = "''a=b; max-age=x; Secure; Max-Age=-5''"
  have seg: "segments ?h = [''a=b'', '' max-age=x'', '' Secure'', '' Max-Age=-5'']"
  proof -
    have s: "segments (''a=b'' @ CHR '';'' # x) = ''a=b'' # segments x"
      "segments ('' max-age=x'' @ CHR '';'' # x) = '' max-age=x'' # segments x"
      "segments ('' Secure'' @ CHR '';'' # x) = '' Secure'' # segments x" for x
      by (rule segments_append; simp)+
    have l: "segments '' Max-Age=-5'' = ['' Max-Age=-5'']" by (rule segments_single) simp
    have "?h = ''a=b'' @ CHR '';'' # '' max-age=x'' @ CHR '';'' # '' Secure'' @ CHR '';'' # '' Max-Age=-5''" by simp
    then show ?thesis by (simp only: s l)
  qed
  have p: "rfc_pair ''a=b'' = (''a'', ''b'')" "rfc_pair '' max-age=x'' = (''max-age'', ''x'')"
    "rfc_pair '' Secure'' = (''Secure'', [])" "rfc_pair '' Max-Age=-5'' = (''Max-Age'', ''-5'')"
    by (simp_all add: rfc_pair_def rfc_trim_def wsp_def)
  define avs where "avs = [(''max-age'', ''x''), (''Secure'', []), (''Max-Age'', ''-5'')]"
  have avs: "map rfc_pair (tl (segments ?h)) = avs" unfolding seg avs_def by (simp only: list.sel list.map p)
  have n: "named ''Max-Age'' avs = [''x'', ''-5'']" "named ''Expires'' avs = []" "named ''Path'' avs = []"
    "named ''Domain'' avs = []" "named ''Secure'' avs = [[]]"
    unfolding avs_def by code_simp+
  have d: "rfc_delta ''-5'' = Some (-5)" "rfc_delta ''x'' = None" by code_simp+
  have "\<forall>c \<in> set ?h. isspace c \<longrightarrow> wsp c" by (simp add: isspace_def wsp_def uchar_def)
  then have ok: "rfc_header ?ck None ?h"
    unfolding rfc_header_def avs n by (simp add: cstr_def age_ok_def d)
  have "age_time ?ck (-5) = -5" by (simp add: age_time_def Let_def cookies_epoch_tm_def c_int_def)
  then have "rfc6265_set_cookie (age_time ?ck) (date_time ?ck None) (default_expires ?ck) ?h =
      Some (cookie_zero\<lparr>c_name := ''a'', c_value := ''b'', c_secure := True, c_expires_at := -5\<rparr>)"
    unfolding rfc6265_set_cookie_def avs n unfolding seg list.sel p Let_def prod.case
    by (simp add: n List.map_filter_def d last_of_def cookie_zero_def)
  then show ?thesis using Cookies_parse_rfc6265 [OF ok] by simp
qed

text \<open>
  A date in the standard form, with a short or full week day, hyphens or spaces, and a year of
  four or two digits, is read back: every field is the one printed.
\<close>

theorem Cookies_date_roundtrip:
  assumes "CHR '','' \<notin> set wdy" "length wdy = 3 \<or> 5 < length wdy" "\<not> is_digit_in 10 sp"
    "1 \<le> day" "day \<le> 31" "mon < 12" "hour < 24" "minute < 60" "sec < 60"
    "1970 \<le> y" "y < 10000" "yy < 100"
  shows "Cookies_parse_date (http_date wdy sp day mon (two_digits (y div 100) @ two_digits (y mod 100)) hour minute sec)
        = Some (Some \<lparr>tm_sec = int sec, tm_min = int minute, tm_hour = int hour, tm_mday = int day,
            tm_mon = int mon, tm_year = int y - 1900\<rparr>)
      \<and> Cookies_parse_date (http_date wdy sp day mon (two_digits yy) hour minute sec)
        = Some (Some \<lparr>tm_sec = int sec, tm_min = int minute, tm_hour = int hour, tm_mday = int day,
            tm_mon = int mon, tm_year = (if yy < 70 then int yy + 100 else int yy)\<rparr>)"
proof -
  have len: "length (drop (length wdy) (http_date wdy sp day mon year hour minute sec)) = 22 + length year" for year
    by (simp add: http_date_def length_month [OF assms(6)])
  have off: "length (http_date wdy sp day mon year hour minute sec) - (22 + length year) = length wdy" for year
    by (simp add: http_date_def length_month [OF assms(6)])
  have main: "Cookies_parse_date (http_date wdy sp day mon year hour minute sec) =
      Some (Some \<lparr>tm_sec = int sec, tm_min = int minute, tm_hour = int hour, tm_mday = int day,
            tm_mon = int mon, tm_year = Y\<rparr>)"
    if "length year = 2 \<or> length year = 4" "\<forall>c \<in> set year. is_digit_in 10 c"
      "0 \<le> digits_value 10 year" "digits_value 10 year < 10000" "70 \<le> Y"
      "Y = (if digits_value 10 year < 70 then digits_value 10 year + 100
            else if digits_value 10 year > 100 then digits_value 10 year - 1900 else digits_value 10 year)"
    for year Y
  proof -
    have "rfc_date_fields (drop (length wdy) (http_date wdy sp day mon year hour minute sec)) =
        Some \<lparr>tm_sec = int sec, tm_min = int minute, tm_hour = int hour, tm_mday = int day,
          tm_mon = int mon, tm_year = Y\<rparr>"
      unfolding that(6) by (rule rfc_date_fields_http) (use assms that in auto)
    then show ?thesis
      using assms that(1,5)
      by (simp add: Cookies_parse_date_def http_date_comma Let_def len off tm_in_range_def del: length_drop)
  qed
  show ?thesis
    by (intro conjI main) (use assms(10-12) in \<open>auto simp: digits4 digits2 set_two_digits ball_Un\<close>)
qed

lemma Cookies_date_roundtrip_witness:
  "Cookies_parse_date (http_date ''Wed'' CHR ''-'' 9 10 (two_digits (1999 div 100) @ two_digits (1999 mod 100)) 23 12 40)
     = Some (Some \<lparr>tm_sec = 40, tm_min = 12, tm_hour = 23, tm_mday = 9, tm_mon = 10, tm_year = 99\<rparr>)
   \<and> Cookies_parse_date (http_date ''Wed'' CHR ''-'' 9 10 (two_digits 30) 23 12 40)
     = Some (Some \<lparr>tm_sec = 40, tm_min = 12, tm_hour = 23, tm_mday = 9, tm_mon = 10, tm_year = 130\<rparr>)"
  using Cookies_date_roundtrip [of "''Wed''" "CHR ''-''" 9 10 23 12 40 1999 30] by simp

text \<open>
  The time of a date is read relative to the end of its year. A date of the accepted length whose
  year runs to its end makes the server read past the end of the string.
\<close>

theorem Cookies_date_overread:
  assumes "CHR '','' \<notin> set wdy" "length wdy = 3" "CHR '','' \<notin> set dm" "length dm = 8"
    "\<forall>c \<in> set ds. is_digit_in 10 c" "length ds = 15 \<or> length ds = 17"
  shows "Cookies_parse_date (wdy @ '','' @ dm @ ds) = None"
proof -
  have c: "strchr (wdy @ '','' @ dm @ ds) CHR '','' = Some ('','' @ dm @ ds)"
    using strchr_append [OF assms(1)] by simp
  have "strtol (ds @ []) 10 = (clamp_long (digits_value 10 ds), [])"
    by (rule strtol_digits) (use assms in auto)
  moreover have "drop 9 ('','' @ dm @ ds) = ds" using assms(4) by simp
  ultimately have "rfc_date_fields ('','' @ dm @ ds) = None"
    by (simp add: rfc_date_fields_def ptr_add_def Let_def)
  then show ?thesis
    using assms(2,4,6) c by (auto simp: Cookies_parse_date_def Let_def)
qed

lemma Cookies_date_overread_witness:
  "Cookies_parse_date (''Wed'' @ '','' @ '' 01-Jan-'' @ ''201500000000000'') = None"
  by (rule Cookies_date_overread) (simp_all add: is_digit_in_def digit_val_def isdigit_def uchar_def)

text \<open>
  A cookie with a \<open>Max-Age\<close> of \<open>age\<close> seconds, received in a time zone \<open>off\<close> seconds ahead of
  UTC, expires \<open>age - off\<close> seconds from now: in Europe a cookie meant to live an hour has expired
  when it arrives.
\<close>

theorem Cookies_max_age_time_zone:
  assumes "clock_offset ck off" "ck_now ck + digits_value 10 ds - off \<noteq> -1"
    "n \<noteq> []" "\<forall>c \<in> set n. \<not> isspace c \<and> c \<noteq> CHR ''='' \<and> c \<noteq> CHR '';''"
    "\<forall>c \<in> set v. \<not> isspace c \<and> c \<noteq> CHR '';''"
    "ds \<noteq> []" "\<forall>c \<in> set ds. is_digit_in 10 c" "0 \<le> digits_value 10 ds" "digits_value 10 ds < 2147483000"
  shows "\<exists>c. Cookies_parse ck (Some (n @ ''='' @ v @ ''; Max-Age='' @ ds)) sd = Some (Some c)
    \<and> c_name c = n \<and> c_value c = v \<and> c_expires_at c = ck_now ck + digits_value 10 ds - off"
proof -
  let ?g = "n @ CHR ''='' # v" and ?h = "CHR '' '' # ''Max-Age'' @ CHR ''='' # ds"
  have ds: "CHR '';'' \<notin> set ds" "\<forall>c \<in> set ds. \<not> isspace c" "isdigit (deref ds)"
  proof -
    have "\<not> is_digit_in 10 CHR '';''" by (simp add: is_digit_in_def digit_val_def isdigit_def uchar_def)
    then show "CHR '';'' \<notin> set ds" using assms(7) by blast
    show "\<forall>c \<in> set ds. \<not> isspace c" using assms(7) is_digit_not_space by blast
    show "isdigit (deref ds)"
      using assms(6) assms(7) [THEN bspec, THEN is_digit_not_space] by (cases ds) (simp_all add: isdigit_def)
  qed
  have "CHR '';'' \<notin> set n" "CHR '';'' \<notin> set v" using assms(4,5) by blast+
  then have "CHR '';'' \<notin> set ?g" "CHR '';'' \<notin> set ?h" using ds(1) by simp_all
  then have "segments (?g @ CHR '';'' # ?h) = [?g, ?h]"
    by (metis segments_append segments_single)
  then have seg: "segments (n @ ''='' @ v @ ''; Max-Age='' @ ds) = [?g, ?h]" by simp
  have avg: "av ?g = (n, v)" by (rule av_pair) (use assms(4,5) in blast)+
  have avh: "av ?h = (''Max-Age'', ds)"
    by (rule av_pair) (use ds(2) in \<open>simp_all add: isspace_def uchar_def\<close>)
  have v: "strtol ds 10 = (digits_value 10 ds, [])"
    using strtol_digits [of ds "[]"] assms(6-9) by (simp add: clamp_long_def)
  have e: "max_age_expires ck ds = ck_now ck + digits_value 10 ds - off"
    using assms(1,2,8,9) by (simp add: max_age_expires_def v Let_def clock_offset_def c_int_def)
  have ne: "n @ ''='' @ v @ ''; Max-Age='' @ ds \<noteq> []" by simp
  have a: "apply_av ck sd (cookie, ma, ex) (''Max-Age'', ds) =
      Some (cookie\<lparr>c_expires_at := ck_now ck + digits_value 10 ds - off\<rparr>, True, True)" for cookie ma ex
    unfolding apply_av_def prod.case e by (simp add: ds(3) D_ASCII_TOLOWER_def schar_def uchar_def)
  show ?thesis
    unfolding Cookies_parse_segments [OF ne] segment_parse_def seg list.sel avg prod.case
      option_fold.simps avh a bind.bind_lunit using assms(3) by simp
qed

lemma Cookies_max_age_time_zone_witness:
  "\<exists>c. Cookies_parse \<lparr>ck_now = 1700000000, ck_mktime = (\<lambda>t. utc_seconds t - 7200),
       ck_gmtime = (\<lambda>_. \<lparr>tm_sec = 20, tm_min = 13, tm_hour = 22, tm_mday = 14, tm_mon = 10, tm_year = 123\<rparr>)\<rparr>
     (Some (''id'' @ ''='' @ ''42'' @ ''; Max-Age='' @ ''3600'')) None = Some (Some c)
   \<and> c_name c = ''id'' \<and> c_value c = ''42'' \<and> c_expires_at c = 1700000000 + digits_value 10 ''3600'' - 7200"
proof -
  have d: "digits_value 10 ''3600'' = 3600"
    by (simp add: digits_value_def digit_val_def isdigit_def uchar_def)
  show ?thesis
    by (rule Cookies_max_age_time_zone [of "\<lparr>ck_now = 1700000000, ck_mktime = (\<lambda>t. utc_seconds t - 7200),
       ck_gmtime = (\<lambda>_. \<lparr>tm_sec = 20, tm_min = 13, tm_hour = 22, tm_mday = 14, tm_mon = 10, tm_year = 123\<rparr>)\<rparr>"
          7200 "''3600''" "''id''" "''42''" None, unfolded clock.simps])
      (simp_all add: d clock_offset_def utc_seconds_def isspace_def is_digit_in_def digit_val_def isdigit_def uchar_def)
qed

end
