(* ===== verification/Cookies_Match.thy ===== *)
theory Cookies_Match
  imports Cookies_Parse Domain
begin

text \<open>
  The cookie server, second part: the rules of \<^verbatim>\<open>cookiesrc\<close> (\<open>Cookie_control_init\<close>,
  \<open>Cookies_control_check_domain\<close>) and the tests that decide whether a host may set a cookie and
  whether a request gets it (\<open>Cookies_domain_matches\<close>, \<open>Cookies_validate_domain\<close>,
  \<open>Cookies_path_matches\<close>, \<open>Cookies_match\<close>) of \<^verbatim>\<open>dillo/dpi/cookies.c\<close>.
\<close>

section \<open>Access control\<close>

datatype cookie_action = COOKIE_ACCEPT | COOKIE_ACCEPT_SESSION | COOKIE_DENY

record cookie_control =
  cc_domain :: string
  cc_action :: cookie_action

record control =
  ccontrol :: "cookie_control list"
  default_action :: cookie_action

definition control_init :: control where
  "control_init = \<lparr>ccontrol = [], default_action = COOKIE_DENY\<rparr>"

definition LINE_MAXLEN :: nat where "LINE_MAXLEN = 4096"

text \<open>\<open>fgets\<close>: the line read, with its newline, and the rest of the stream.\<close>

definition fgets :: "nat \<Rightarrow> string \<Rightarrow> string \<times> string" where
  "fgets sz s =
     (let l = takeWhile (\<lambda>c. c \<noteq> CHR 0x0A) (take (sz - 1) s);
          n = (if length l < sz - 1 \<and> length l < length s then length l + 1 else length l)
      in (take n s, drop n s))"

lemma fgets_shorter: "s \<noteq> [] \<Longrightarrow> 1 < sz \<Longrightarrow> length (snd (fgets sz s)) < length s"
  by (cases s) (auto simp: fgets_def Let_def take_Cons split: nat.split)

text \<open>The buffer as a C string.\<close>

definition c_line :: "string \<Rightarrow> string" where
  "c_line buf = takeWhile (\<lambda>c. c \<noteq> NUL) buf"

text \<open>\<open>for (i = num_ccontrol++; i > 0 && len > strlen(ccontrol[i-1].domain); i--)\<close>: the array with
  room for the new rule, and the place for it.\<close>

fun rule_shift :: "cookie_control list \<Rightarrow> nat \<Rightarrow> nat \<Rightarrow> cookie_control list \<times> nat" where
  "rule_shift cs len 0 = (cs, 0)"
| "rule_shift cs len (Suc i) =
     (if length (cc_domain (cs ! i)) < len then rule_shift (cs[Suc i := cs ! i]) len i else (cs, Suc i))"

definition insert_rule :: "cookie_control list \<Rightarrow> cookie_control \<Rightarrow> cookie_control list" where
  "insert_rule cs cc =
     (case rule_shift (cs @ [cc]) (length (cc_domain cc)) (length cs) of (cs', i) \<Rightarrow> cs'[i := cc])"

definition rule_action :: "string \<Rightarrow> cookie_action option" where
  "rule_action rule =
     (if dStrAsciiCasecmp rule ''ACCEPT'' = 0 then Some COOKIE_ACCEPT
      else if dStrAsciiCasecmp rule ''ACCEPT_SESSION'' = 0 then Some COOKIE_ACCEPT_SESSION
      else if dStrAsciiCasecmp rule ''DENY'' = 0 then Some COOKIE_DENY
      else None)"

text \<open>One line of the file: the rules and the flag \<open>enabled\<close>.\<close>

definition control_line :: "control \<times> bool \<Rightarrow> string \<Rightarrow> control \<times> bool" where
  "control_line st buf =
     (case st of (ctl, enabled) \<Rightarrow>
       let line = dStrstrip (c_line buf) in
       if line \<noteq> [] \<and> deref line \<noteq> CHR ''#'' then
         (let domain = takeWhile (\<lambda>c. \<not> isspace c) line;
              rest = dropWhile isspace (dropWhile (\<lambda>c. \<not> isspace c) line);
              rule = takeWhile (\<lambda>c. \<not> isspace c) rest
          in case rule_action rule of
               None \<Rightarrow> (ctl, enabled)
             | Some action \<Rightarrow>
                 ((if dStrAsciiCasecmp domain ''DEFAULT'' = 0 then ctl\<lparr>default_action := action\<rparr>
                   else ctl\<lparr>ccontrol := insert_rule (ccontrol ctl)
                          \<lparr>cc_domain = domain, cc_action = action\<rparr>\<rparr>),
                  enabled \<or> action \<noteq> COOKIE_DENY))
       else (ctl, enabled))"

text \<open>\<open>while (!feof(stream))\<close>: the turn at the end of the file reads an empty line and does nothing.\<close>

function control_lines :: "control \<times> bool \<Rightarrow> string \<Rightarrow> control \<times> bool" where
  "control_lines st text =
     (if text = [] then st
      else (case fgets LINE_MAXLEN text of (buf, rest) \<Rightarrow> control_lines (control_line st buf) rest))"
  by pat_completeness auto
termination
  by (relation "measure (\<lambda>(st, text). length text)")
    (simp_all add: LINE_MAXLEN_def, metis fgets_shorter less_numeral_extra(4) numeral_One num.distinct(1)
      one_less_numeral_iff semiring_norm(76) snd_conv)

declare control_lines.simps [simp del]

text \<open>The file is \<open>None\<close> when it cannot be opened or created.\<close>

definition Cookie_control_init :: "control \<Rightarrow> string option \<Rightarrow> int \<times> control" where
  "Cookie_control_init ctl file =
     (case file of
        None \<Rightarrow> (2, ctl)
      | Some text \<Rightarrow>
          (case control_lines (ctl, False) text of (ctl', enabled) \<Rightarrow>
             (if enabled then 0 else 1, ctl')))"

text \<open>The test of one rule: the \<open>continue\<close> branches are the false cases.\<close>

definition control_matches :: "string \<Rightarrow> string \<Rightarrow> bool" where
  "control_matches domain rule =
     (if deref rule = CHR ''.'' then
        (let diff = int (length domain) - int (length rule)
         in 0 \<le> diff \<and> dStrAsciiCasecmp (drop (nat diff) domain) rule = 0)
      else dStrAsciiCasecmp domain rule = 0)"

fun check_rules :: "cookie_control list \<Rightarrow> string \<Rightarrow> cookie_action \<Rightarrow> cookie_action" where
  "check_rules [] domain dflt = dflt"
| "check_rules (cc # cs) domain dflt =
     (if control_matches domain (cc_domain cc) then cc_action cc else check_rules cs domain dflt)"

definition Cookies_control_check_domain :: "control \<Rightarrow> string \<Rightarrow> cookie_action" where
  "Cookies_control_check_domain ctl domain = check_rules (ccontrol ctl) domain (default_action ctl)"

section \<open>Matching\<close>

definition Cookies_domain_is_ip :: "string option \<Rightarrow> bool" where
  "Cookies_domain_is_ip domain =
     (case domain of
        None \<Rightarrow> False
      | Some d \<Rightarrow>
          length d = strspn d ''0123456789.''
          \<or> strchr d CHR '':'' \<noteq> None \<and> length d = strspn d ''0123456789abcdefABCDEF:.'')"

definition Cookies_path_matches :: "string option \<Rightarrow> string option \<Rightarrow> bool" where
  "Cookies_path_matches url_path cookie_path =
     (case (url_path, cookie_path) of
        (Some u, Some c) \<Rightarrow>
          (let c_len = length c; u_len = length u
           in strncmp c u c_len = 0
              \<and> (c_len = u_len \<or> 0 < c_len \<and> char_at c (c_len - 1) = CHR ''/'' \<or> char_at u c_len = CHR ''/''))
      | _ \<Rightarrow> False)"

text \<open>\<open>while (len && url_path[len] != '/') len--\<close>\<close>

fun dir_len :: "string \<Rightarrow> nat \<Rightarrow> nat" where
  "dir_len p 0 = 0"
| "dir_len p (Suc n) = (if char_at p (Suc n) \<noteq> CHR ''/'' then dir_len p n else Suc n)"

definition Cookies_validate_path :: "cookie_data \<Rightarrow> string option \<Rightarrow> cookie_data" where
  "Cookies_validate_path cookie url_path =
     (if c_path cookie = None \<or> deref (the (c_path cookie)) \<noteq> CHR ''/'' then
        (case url_path of
           Some p \<Rightarrow> (let len = dir_len p (length p)
                     in cookie\<lparr>c_path := dStrndup (Some p) (if len \<noteq> 0 then len else 1)\<rparr>)
         | None \<Rightarrow> cookie\<lparr>c_path := Some ''/''\<rparr>)
      else cookie)"

definition Cookies_domain_matches :: "string option \<Rightarrow> string option \<Rightarrow> bool" where
  "Cookies_domain_matches A B =
     (case (A, B) of
        (Some a, Some b0) \<Rightarrow>
          a \<noteq> [] \<and> b0 \<noteq> []
          \<and> (let b = (if deref b0 = CHR ''.'' then tl b0 else b0) in
             if dStrAsciiCasecmp a b = 0 then True
             else if Cookies_domain_is_ip (Some b) then False
             else (let diff = int (length a) - int (length b) in
                   0 < diff \<and> dStrAsciiCasecmp (drop (nat diff) a) b = 0
                   \<and> char_at a (nat diff - 1) = CHR ''.''))
      | _ \<Rightarrow> False)"

definition Cookies_internal_dots_required :: "string option \<Rightarrow> nat" where
  "Cookies_internal_dots_required host =
     (case host of
        None \<Rightarrow> 1
      | Some h \<Rightarrow>
          (let after = length h;
               after = (if 0 < after \<and> char_at h (after - 1) = CHR ''.'' then after - 1 else after);
               start = label_start h after;
               tld_len = after - start
           in if 0 < tld_len \<and> list_ex (\<lambda>tld. length tld = tld_len
                  \<and> dStrnAsciiCasecmp tld (drop start h) tld_len = 0) tlds
              then 2 else 1))"

text \<open>\<open>for (i = 1; i < strlen(cookie->domain) - 1; i++)\<close> for a domain that is not empty.\<close>

definition internal_dots :: "string \<Rightarrow> nat" where
  "internal_dots d = length (filter (\<lambda>i. char_at d i = CHR ''.'') [1..<length d - 1])"

text \<open>The verdict and the cookie, which gets a missing domain.\<close>

definition Cookies_validate_domain :: "cookie_data \<Rightarrow> string option \<Rightarrow> bool \<times> cookie_data" where
  "Cookies_validate_domain cookie host =
     (case c_domain cookie of
        None \<Rightarrow> (True, cookie\<lparr>c_domain := dStrdup host, c_host_only := True\<rparr>)
      | Some d \<Rightarrow>
          (Cookies_domain_matches host (Some d)
           \<and> Cookies_internal_dots_required host \<le> internal_dots d, cookie))"

definition Cookies_match :: "cookie_data \<Rightarrow> string option \<Rightarrow> bool \<Rightarrow> bool \<Rightarrow> bool" where
  "Cookies_match cookie url_path host_only_val is_ssl =
     (if c_host_only cookie \<noteq> host_only_val then False
      else if c_secure cookie \<and> \<not> is_ssl then False
      else if \<not> Cookies_path_matches url_path (c_path cookie) then False
      else True)"

text \<open>Compare cookies by host_only, name, and path; 0 if equal.\<close>

definition Cookies_cmp :: "cookie_data \<Rightarrow> cookie_data \<Rightarrow> int" where
  "Cookies_cmp ca cb =
     (if c_host_only ca \<noteq> c_host_only cb \<or> strcmp (c_name ca) (c_name cb) \<noteq> 0
         \<or> strcmp (the (c_path ca)) (the (c_path cb)) \<noteq> 0 then 1 else 0)"

section \<open>The rules in order\<close>

definition longest_first :: "cookie_control list \<Rightarrow> bool" where
  "longest_first cs \<longleftrightarrow> sorted_wrt (\<lambda>a b. length (cc_domain b) \<le> length (cc_domain a)) cs"

lemma rule_shift_hole:
  assumes "i \<le> length cs" "rule_shift (take i cs @ y # drop i cs) len i = (cs', j)"
  shows "j \<le> i \<and> cs'[j := x] = take j cs @ x # drop j cs
    \<and> (\<forall>k. j \<le> k \<and> k < i \<longrightarrow> length (cc_domain (cs ! k)) < len)
    \<and> (0 < j \<longrightarrow> len \<le> length (cc_domain (cs ! (j - 1))))"
  using assms
proof (induction i arbitrary: y)
  case 0
  then show ?case by auto
next
  case (Suc i)
  have n: "(take (Suc i) cs @ y # drop (Suc i) cs) ! i = cs ! i"
    using Suc.prems(1) by (simp add: nth_append)
  have u: "(take (Suc i) cs @ y # drop (Suc i) cs)[Suc i := cs ! i] = take i cs @ (cs ! i) # drop i cs"
    using Suc.prems(1) by (simp add: list_update_append take_Suc_conv_app_nth Cons_nth_drop_Suc)
  show ?case
  proof (cases "length (cc_domain (cs ! i)) < len")
    case True
    have "rule_shift (take i cs @ (cs ! i) # drop i cs) len i = (cs', j)"
      using Suc.prems(2) True by (simp add: n u)
    from Suc.IH [OF _ this] Suc.prems(1) show ?thesis
      using True less_Suc_eq by auto
  next
    case False
    then have "cs' = take (Suc i) cs @ y # drop (Suc i) cs" "j = Suc i"
      using Suc.prems(2) by (auto simp: n)
    then show ?thesis using False Suc.prems(1) by (simp add: list_update_append)
  qed
qed

lemma insert_rule_longest:
  assumes "longest_first cs"
  obtains j where "insert_rule cs cc = take j cs @ cc # drop j cs"
    "\<forall>r \<in> set (take j cs). length (cc_domain cc) \<le> length (cc_domain r)"
    "\<forall>r \<in> set (drop j cs). length (cc_domain r) < length (cc_domain cc)"
proof -
  let ?len = "length (cc_domain cc)"
  obtain cs' j where s: "rule_shift (cs @ [cc]) ?len (length cs) = (cs', j)"
    by (cases "rule_shift (cs @ [cc]) ?len (length cs)")
  have h: "j \<le> length cs \<and> cs'[j := cc] = take j cs @ cc # drop j cs
    \<and> (\<forall>k. j \<le> k \<and> k < length cs \<longrightarrow> length (cc_domain (cs ! k)) < ?len)
    \<and> (0 < j \<longrightarrow> ?len \<le> length (cc_domain (cs ! (j - 1))))"
    by (rule rule_shift_hole [where y = cc]) (simp_all add: s)
  have "?len \<le> length (cc_domain r)" if r: "r \<in> set (take j cs)" for r
  proof -
    from r obtain k where k: "k < j" "k < length cs" "r = cs ! k" by (auto simp: in_set_conv_nth)
    have "length (cc_domain (cs ! (j - 1))) \<le> length (cc_domain (cs ! k))"
      using assms k h by (cases "k = j - 1") (auto simp: longest_first_def sorted_wrt_iff_nth_less)
    then show ?thesis using h k by simp
  qed
  moreover have "\<forall>r \<in> set (drop j cs). length (cc_domain r) < ?len"
  proof
    fix r
    assume "r \<in> set (drop j cs)"
    then obtain k where "k < length cs - j" "r = cs ! (j + k)"
      using h by (auto simp: in_set_conv_nth)
    then show "length (cc_domain r) < ?len" using h by simp
  qed
  ultimately show ?thesis using h by (intro that [of j]) (simp_all add: insert_rule_def s)
qed

lemma insert_rule_sorted:
  assumes "longest_first cs"
  shows "longest_first (insert_rule cs cc)" "mset (insert_rule cs cc) = add_mset cc (mset cs)"
    "filter P (insert_rule cs cc) =
       filter (\<lambda>r. P r \<and> length (cc_domain cc) \<le> length (cc_domain r)) cs @ (if P cc then [cc] else [])
       @ filter (\<lambda>r. P r \<and> length (cc_domain r) < length (cc_domain cc)) cs"
proof -
  obtain j where j: "insert_rule cs cc = take j cs @ cc # drop j cs"
    "\<forall>r \<in> set (take j cs). length (cc_domain cc) \<le> length (cc_domain r)"
    "\<forall>r \<in> set (drop j cs). length (cc_domain r) < length (cc_domain cc)"
    by (rule insert_rule_longest [OF assms])
  have cs: "cs = take j cs @ drop j cs" by simp
  have "length (cc_domain y) \<le> length (cc_domain x)"
    if "x \<in> set (take j cs)" "y \<in> set (drop j cs)" for x y
    using j(2,3) that by fastforce
  then show "longest_first (insert_rule cs cc)"
    using j assms unfolding longest_first_def j(1)
    by (auto simp: sorted_wrt_append sorted_wrt_take sorted_wrt_drop intro: less_imp_le)
  show "mset (insert_rule cs cc) = add_mset cc (mset cs)"
    unfolding j(1) by (metis append_take_drop_id mset_append mset.simps(2) union_mset_add_mset_right)
  have f: "filter (\<lambda>r. P r \<and> length (cc_domain cc) \<le> length (cc_domain r)) (take j cs) = filter P (take j cs)"
    "filter (\<lambda>r. P r \<and> length (cc_domain cc) \<le> length (cc_domain r)) (drop j cs) = []"
    "filter (\<lambda>r. P r \<and> length (cc_domain r) < length (cc_domain cc)) (take j cs) = []"
    "filter (\<lambda>r. P r \<and> length (cc_domain r) < length (cc_domain cc)) (drop j cs) = filter P (drop j cs)"
    using j(2,3) by (auto intro!: filter_cong simp: filter_empty_conv)
  show "filter P (insert_rule cs cc) =
       filter (\<lambda>r. P r \<and> length (cc_domain cc) \<le> length (cc_domain r)) cs @ (if P cc then [cc] else [])
       @ filter (\<lambda>r. P r \<and> length (cc_domain r) < length (cc_domain cc)) cs"
    unfolding j(1) by (subst (3 4) cs, simp only: filter_append f) simp
qed

text \<open>Inserting the rules of the file one by one is a stable sort.\<close>

lemma insert_rule_length:
  assumes "longest_first cs"
  shows "filter (\<lambda>r. length (cc_domain r) = k) (insert_rule cs cc) =
     filter (\<lambda>r. length (cc_domain r) = k) (cs @ [cc])"
proof (cases "length (cc_domain cc) \<le> k")
  case True
  then show ?thesis unfolding insert_rule_sorted(3) [OF assms]
    by (auto intro!: filter_cong simp: filter_empty_conv)
next
  case False
  then show ?thesis unfolding insert_rule_sorted(3) [OF assms]
    by (auto intro!: filter_cong simp: filter_empty_conv)
qed

lemma fold_insert_rule:
  assumes "longest_first cs"
  shows "longest_first (foldl insert_rule cs rs)
    \<and> mset (foldl insert_rule cs rs) = mset cs + mset rs
    \<and> filter (\<lambda>r. length (cc_domain r) = k) (foldl insert_rule cs rs) =
        filter (\<lambda>r. length (cc_domain r) = k) (cs @ rs)"
  using assms
proof (induction rs arbitrary: cs)
  case (Cons r rs)
  from Cons.IH [OF insert_rule_sorted(1) [OF Cons.prems], of r]
  show ?case using insert_rule_sorted(2) [OF Cons.prems, of r] insert_rule_length [OF Cons.prems, of k r]
    by simp
qed simp

lemma foldl_insert_rule_sort:
  "foldl insert_rule [] rs = sort_key (\<lambda>r. - int (length (cc_domain r))) rs"
proof (rule properties_for_sort_key [symmetric])
  have l: "longest_first []" by (simp add: longest_first_def)
  show "mset (foldl insert_rule [] rs) = mset rs" using fold_insert_rule [OF l, of rs] by simp
  show "sorted (map (\<lambda>r. - int (length (cc_domain r))) (foldl insert_rule [] rs))"
    using fold_insert_rule [OF l, of rs] by (simp add: longest_first_def sorted_map)
  show "filter (\<lambda>x. - int (length (cc_domain r)) = - int (length (cc_domain x))) (foldl insert_rule [] rs) =
      filter (\<lambda>x. - int (length (cc_domain r)) = - int (length (cc_domain x))) rs" for r
    using fold_insert_rule [OF l, of rs "length (cc_domain r)"] by (simp add: eq_commute)
qed

text \<open>A file of rules, one per line.\<close>

definition action_name :: "cookie_action \<Rightarrow> string" where
  "action_name a = (case a of COOKIE_ACCEPT \<Rightarrow> ''ACCEPT'' | COOKIE_ACCEPT_SESSION \<Rightarrow> ''ACCEPT_SESSION''
     | COOKIE_DENY \<Rightarrow> ''DENY'')"

definition control_rule_ok :: "cookie_control \<Rightarrow> bool" where
  "control_rule_ok r \<longleftrightarrow> cc_domain r \<noteq> [] \<and> hd (cc_domain r) \<noteq> CHR ''#''
     \<and> (\<forall>c \<in> set (cc_domain r). \<not> isspace c \<and> c \<noteq> NUL) \<and> length (cc_domain r) < 4000"

definition control_rule_line :: "cookie_control \<Rightarrow> string" where
  "control_rule_line r = cc_domain r @ '' '' @ action_name (cc_action r) @ [CHR 0x0A]"

definition is_default :: "cookie_control \<Rightarrow> bool" where
  "is_default r \<longleftrightarrow> dStrAsciiCasecmp (cc_domain r) ''DEFAULT'' = 0"

lemma action_name_word: "(\<forall>c \<in> set (action_name a). \<not> isspace c \<and> c \<noteq> NUL) \<and> action_name a \<noteq> []
    \<and> length (action_name a) \<le> 14"
  by (cases a) (simp_all add: action_name_def isspace_def uchar_def)

lemma rule_action_name: "rule_action (action_name a) = Some a"
  by (cases a) (simp_all add: rule_action_def action_name_def D_ASCII_TOLOWER_def schar_def uchar_def)

lemma fgets_rule_line:
  assumes "control_rule_ok r"
  shows "fgets LINE_MAXLEN (control_rule_line r @ t) = (control_rule_line r, t)"
proof -
  let ?l = "cc_domain r @ '' '' @ action_name (cc_action r)"
  have nl: "CHR 0x0A \<notin> set (cc_domain r)" "CHR 0x0A \<notin> set (action_name (cc_action r))"
    using assms action_name_word [of "cc_action r"] isspace_lits(3) unfolding control_rule_ok_def by blast+
  then have n: "CHR 0x0A \<notin> set ?l" by simp
  have len: "length ?l < 4095" using assms action_name_word [of "cc_action r"]
    by (simp add: control_rule_ok_def)
  have "takeWhile (\<lambda>c. c \<noteq> CHR 0x0A) (take 4095 (?l @ CHR 0x0A # t)) = ?l"
    using n len by (subst take_append) (simp only: takeWhile_append takeWhile_eq_all_conv [THEN iffD2], auto simp: take_Cons' takeWhile_append)
  then show ?thesis using len by (simp add: fgets_def LINE_MAXLEN_def control_rule_line_def Let_def)
qed

lemma control_line_rule:
  assumes "control_rule_ok r"
  shows "control_line (ctl, enabled) (control_rule_line r) =
     ((if is_default r then ctl\<lparr>default_action := cc_action r\<rparr>
       else ctl\<lparr>ccontrol := insert_rule (ccontrol ctl) r\<rparr>), enabled \<or> cc_action r \<noteq> COOKIE_DENY)"
proof -
  let ?a = "action_name (cc_action r)"
  let ?l = "cc_domain r @ CHR '' '' # ?a"
  have d: "cc_domain r \<noteq> []" "hd (cc_domain r) \<noteq> CHR ''#''" "\<forall>c \<in> set (cc_domain r). \<not> isspace c \<and> c \<noteq> NUL"
    using assms by (auto simp: control_rule_ok_def)
  have a: "\<forall>c \<in> set ?a. \<not> isspace c \<and> c \<noteq> NUL" "?a \<noteq> []"
    using action_name_word [of "cc_action r"] by blast+
  have line: "control_rule_line r = ?l @ [CHR 0x0A]" by (simp add: control_rule_line_def)
  have "c_line (?l @ [CHR 0x0A]) = ?l @ [CHR 0x0A]"
    unfolding c_line_def by (rule takeWhile_eq_all_conv [THEN iffD2]) (use d(3) a(1) in auto)
  moreover have "dStrstrip (?l @ [CHR 0x0A]) = ?l"
  proof (rule dStrstrip_snoc)
    show "?l \<noteq> []" by simp
    show "\<not> isspace (hd ?l)" using d(1,3) by (simp add: hd_append)
    show "\<not> isspace (last ?l)" using a by simp
  qed simp
  ultimately have strip: "dStrstrip (c_line (control_rule_line r)) = ?l" by (simp only: line)
  have c: "?l \<noteq> []" "deref ?l \<noteq> CHR ''#''" using d(1,2) by (cases "cc_domain r"; simp)+
  have w: "takeWhile (\<lambda>c. \<not> isspace c) ?l = cc_domain r"
    "dropWhile isspace (dropWhile (\<lambda>c. \<not> isspace c) ?l) = ?a"
    "takeWhile (\<lambda>c. \<not> isspace c) ?a = ?a"
    using d(3) a by (auto simp: takeWhile_append dropWhile_append dropWhile_eq_self_iff takeWhile_eq_all_conv)
  have R: "\<lparr>cc_domain = cc_domain r, cc_action = cc_action r\<rparr> = r" by simp
  show ?thesis
    unfolding control_line_def prod.case strip Let_def w rule_action_name option.case is_default_def R
    using c by simp
qed

lemma control_lines_rules:
  assumes "\<forall>r \<in> set rs. control_rule_ok r"
  shows "control_lines (ctl, enabled) (concat (map control_rule_line rs)) =
     (ctl\<lparr>ccontrol := foldl insert_rule (ccontrol ctl) (filter (\<lambda>r. \<not> is_default r) rs),
          default_action := foldl (\<lambda>d r. if is_default r then cc_action r else d) (default_action ctl) rs\<rparr>,
      enabled \<or> (\<exists>r \<in> set rs. cc_action r \<noteq> COOKIE_DENY))"
  using assms
proof (induction rs arbitrary: ctl enabled)
  case Nil
  then show ?case by (simp add: control_lines.simps)
next
  case (Cons r rs)
  have ne: "control_rule_line r @ concat (map control_rule_line rs) \<noteq> []" by (simp add: control_rule_line_def)
  have ok: "control_rule_ok r" using Cons.prems by simp
  have "control_lines (ctl, enabled) (concat (map control_rule_line (r # rs))) =
      control_lines (control_line (ctl, enabled) (control_rule_line r)) (concat (map control_rule_line rs))"
    unfolding list.map concat.simps
      control_lines.simps [of _ "control_rule_line r @ concat (map control_rule_line rs)"]
      if_not_P [OF ne] fgets_rule_line [OF ok] prod.case by (rule refl)
  then show ?case
    using Cons by (simp add: control_line_rule)
qed

text \<open>The rules that cover a host, as the comment and the code mean it.\<close>

definition rule_covers :: "string \<Rightarrow> string \<Rightarrow> bool" where
  "rule_covers rule host \<longleftrightarrow>
     (if deref rule = CHR ''.'' then \<exists>sub dom. host = sub @ dom \<and> ieq dom rule else ieq host rule)"

lemma casecmp_ieq: "cstr s \<Longrightarrow> cstr t \<Longrightarrow> dStrAsciiCasecmp s t = 0 \<longleftrightarrow> ieq s t"
  using casecmp_eq_0 by (simp add: ieq_def)

lemma suffix_ieq:
  "(\<exists>sub dom. h = sub @ dom \<and> ieq dom p) \<longleftrightarrow> length p \<le> length h \<and> ieq (drop (length h - length p) h) p"
proof
  assume "\<exists>sub dom. h = sub @ dom \<and> ieq dom p"
  then obtain sub dom where h: "h = sub @ dom" "ieq dom p" by blast
  then show "length p \<le> length h \<and> ieq (drop (length h - length p) h) p"
    using ieq_length [OF h(2)] by simp
next
  assume "length p \<le> length h \<and> ieq (drop (length h - length p) h) p"
  then show "\<exists>sub dom. h = sub @ dom \<and> ieq dom p"
    by (metis append_take_drop_id)
qed

lemma control_matches_covers:
  assumes "cstr host" "cstr rule"
  shows "control_matches host rule \<longleftrightarrow> rule_covers rule host"
proof -
  have e: "0 \<le> int (length host) - int (length rule) \<longleftrightarrow> length rule \<le> length host"
    "nat (int (length host) - int (length rule)) = length host - length rule" by linarith+
  show ?thesis
    using assms by (simp add: control_matches_def rule_covers_def Let_def e suffix_ieq casecmp_ieq)
qed

lemma check_rules_first:
  "check_rules cs d dflt =
     (case filter (\<lambda>r. control_matches d (cc_domain r)) cs of [] \<Rightarrow> dflt | r # _ \<Rightarrow> cc_action r)"
  by (induction cs) auto

section \<open>RFC 6265 matching\<close>

text \<open>Section 5.1.4: the cookie path is a prefix of the request path that ends at a segment.\<close>

definition rfc_path_match :: "string \<Rightarrow> string \<Rightarrow> bool" where
  "rfc_path_match u c \<longleftrightarrow> (\<exists>r. u = c @ r
     \<and> (r = [] \<or> c \<noteq> [] \<and> last c = CHR ''/'' \<or> r \<noteq> [] \<and> hd r = CHR ''/''))"

text \<open>Section 5.1.3, with the leading dot of the cookie domain ignored: equality, or a suffix after
  a dot when the cookie domain is not an address.\<close>

definition rfc_domain_match :: "string \<Rightarrow> string \<Rightarrow> bool" where
  "rfc_domain_match a b0 \<longleftrightarrow>
     (let b = (if deref b0 = CHR ''.'' then tl b0 else b0)
      in ieq a b \<or> \<not> Cookies_domain_is_ip (Some b) \<and> (\<exists>sub dom. a = sub @ CHR ''.'' # dom \<and> ieq dom b))"

lemma strncmp_prefix:
  assumes "cstr c" "cstr u"
  shows "strncmp c u (length c) = 0 \<longleftrightarrow> (\<exists>r. u = c @ r)"
proof -
  have "strncmp c u (length c) = 0 \<longleftrightarrow> c = take (length c) u"
    using assms by (simp add: strncmp_def strcmp_eq_0)
  also have "\<dots> \<longleftrightarrow> (\<exists>r. u = c @ r)" by (metis append_eq_conv_conj append_take_drop_id)
  finally show ?thesis .
qed

lemma path_matches_rfc:
  assumes "cstr u" "cstr c"
  shows "Cookies_path_matches (Some u) (Some c) \<longleftrightarrow> rfc_path_match u c"
proof -
  have "(length c = length u \<or> 0 < length c \<and> char_at c (length c - 1) = CHR ''/'' \<or> char_at u (length c) = CHR ''/'')
      \<longleftrightarrow> (r = [] \<or> c \<noteq> [] \<and> last c = CHR ''/'' \<or> r \<noteq> [] \<and> hd r = CHR ''/'')" if "u = c @ r" for r
  proof -
    have "0 < length c \<and> char_at c (length c - 1) = CHR ''/'' \<longleftrightarrow> c \<noteq> [] \<and> last c = CHR ''/''"
      by (cases "c = []") (simp_all add: char_at_def last_conv_nth)
    moreover have "char_at u (length c) = CHR ''/'' \<longleftrightarrow> r \<noteq> [] \<and> hd r = CHR ''/''"
      using that by (cases r) (simp_all add: char_at_def)
    moreover have "length c = length u \<longleftrightarrow> r = []" using that by simp
    ultimately show ?thesis by simp
  qed
  then show ?thesis
    using strncmp_prefix [OF assms(2,1)]
    unfolding Cookies_path_matches_def rfc_path_match_def prod.case option.case Let_def by blast
qed

lemma dot_suffix_ieq:
  "(\<exists>sub dom. a = sub @ CHR ''.'' # dom \<and> ieq dom b) \<longleftrightarrow>
     length b < length a \<and> ieq (drop (length a - length b) a) b \<and> a ! (length a - length b - 1) = CHR ''.''"
proof
  assume "\<exists>sub dom. a = sub @ CHR ''.'' # dom \<and> ieq dom b"
  then obtain sub dom where h: "a = sub @ CHR ''.'' # dom" "ieq dom b" by blast
  then show "length b < length a \<and> ieq (drop (length a - length b) a) b \<and> a ! (length a - length b - 1) = CHR ''.''"
    using ieq_length [OF h(2)] by simp
next
  assume h: "length b < length a \<and> ieq (drop (length a - length b) a) b \<and> a ! (length a - length b - 1) = CHR ''.''"
  let ?k = "length a - length b - 1"
  have "a = take ?k a @ a ! ?k # drop (Suc ?k) a"
    by (rule id_take_nth_drop) (use h in linarith)
  moreover have "Suc ?k = length a - length b" using h by linarith
  ultimately show "\<exists>sub dom. a = sub @ CHR ''.'' # dom \<and> ieq dom b" using h by metis
qed

lemma cstr_tl: "cstr s \<Longrightarrow> cstr (tl s)"
  by (cases s) auto

lemma domain_matches_rfc:
  assumes "cstr a" "cstr b0" "a \<noteq> []" "b0 \<noteq> []"
  shows "Cookies_domain_matches (Some a) (Some b0) \<longleftrightarrow> rfc_domain_match a b0"
proof -
  define b where "b = (if deref b0 = CHR ''.'' then tl b0 else b0)"
  have b: "cstr b" using assms(2) cstr_tl by (simp add: b_def)
  have "(0 < int (length a) - int (length b) \<and>
         dStrAsciiCasecmp (drop (nat (int (length a) - int (length b))) a) b = 0 \<and>
         char_at a (nat (int (length a) - int (length b)) - 1) = CHR ''.'') \<longleftrightarrow>
        (\<exists>sub dom. a = sub @ CHR ''.'' # dom \<and> ieq dom b)"
  proof -
    have "0 < int (length a) - int (length b) \<longleftrightarrow> length b < length a"
      "nat (int (length a) - int (length b)) = length a - length b" by linarith+
    then show ?thesis using assms(1) b by (auto simp: dot_suffix_ieq casecmp_ieq char_at_def)
  qed
  then show ?thesis
    using assms b unfolding Cookies_domain_matches_def rfc_domain_match_def prod.case option.case
      b_def [symmetric] Let_def by (auto simp: casecmp_ieq)
qed

lemma dir_len_spec:
  "dir_len p n \<le> n \<and> (0 < dir_len p n \<longrightarrow> char_at p (dir_len p n) = CHR ''/'')
     \<and> (\<forall>k. dir_len p n < k \<and> k \<le> n \<longrightarrow> char_at p k \<noteq> CHR ''/'')"
  by (induction p n rule: dir_len.induct) (auto simp: le_Suc_eq)

text \<open>The default path: the request path up to its last slash.\<close>

lemma default_path_matches:
  assumes "cstr u" "u \<noteq> []" "hd u = CHR ''/''" "c_path cookie = None \<or> deref (the (c_path cookie)) \<noteq> CHR ''/''"
  obtains p r where "Cookies_validate_path cookie (Some u) = cookie\<lparr>c_path := Some p\<rparr>" "hd p = CHR ''/''"
    "p \<noteq> []" "u = p @ r" "rfc_path_match u p" "CHR ''/'' \<notin> set (tl r)"
proof -
  define n where "n = dir_len u (length u)"
  define m where "m = (if n \<noteq> 0 then n else 1)"
  have d: "n \<le> length u" "0 < n \<Longrightarrow> char_at u n = CHR ''/''"
    "\<And>k. n < k \<Longrightarrow> k \<le> length u \<Longrightarrow> char_at u k \<noteq> CHR ''/''"
    using dir_len_spec [of u "length u"] unfolding n_def by blast+
  have m: "0 < m" "m \<le> length u" "n \<le> m" using d(1) assms(2) by (cases u; simp add: m_def)+
  have p: "take m u \<noteq> []" "hd (take m u) = CHR ''/''" using m(1) assms(2,3) by (simp_all add: hd_take)
  have match: "rfc_path_match u (take m u)"
  proof (cases "n = 0")
    case True
    have "take m u = [CHR ''/'']" using True assms(2,3) by (cases u) (simp_all add: m_def)
    moreover have "u = take m u @ drop m u" by simp
    ultimately show ?thesis unfolding rfc_path_match_def by (metis last.simps list.distinct(1))
  next
    case False
    then have "char_at u n = CHR ''/''" using d(2) by simp
    then have "n < length u" "u ! n = CHR ''/''" by (simp_all add: char_at_def split: if_splits)
    then have "drop m u \<noteq> [] \<and> hd (drop m u) = CHR ''/''"
      using False by (simp add: m_def hd_drop_conv_nth)
    moreover have "u = take m u @ drop m u" by simp
    ultimately show ?thesis unfolding rfc_path_match_def by metis
  qed
  have "CHR ''/'' \<notin> set (tl (drop m u))"
  proof
    assume "CHR ''/'' \<in> set (tl (drop m u))"
    then obtain k where k: "k < length u - Suc m" "u ! (Suc m + k) = CHR ''/''"
      by (auto simp: tl_drop in_set_conv_nth simp flip: drop_Suc)
    then have "char_at u (Suc m + k) = CHR ''/''" "n < Suc m + k" "Suc m + k \<le> length u"
      using m(3) by (simp_all add: char_at_def)
    with d(3) show False by blast
  qed
  then show ?thesis
    using p match assms(4) by (intro that [of "take m u" "drop m u"])
      (simp_all only: Cookies_validate_path_def if_P [OF assms(4)] if_True option.case Let_def dStrndup_def
        append_take_drop_id not_False_eq_True n_def [symmetric] m_def [symmetric])
qed

text \<open>
  A rules file with one rule per line is read as the list of its rules, sorted by decreasing
  length of the domain with the order of the file kept among equals; the default action is that of
  the last \<open>DEFAULT\<close> line, and the result tells whether some rule accepts.
\<close>

theorem Cookies_control_parse:
  assumes "\<forall>r \<in> set rs. control_rule_ok r"
  shows "Cookie_control_init control_init (Some (concat (map control_rule_line rs))) =
     (if \<exists>r \<in> set rs. cc_action r \<noteq> COOKIE_DENY then 0 else 1,
      \<lparr>ccontrol = sort_key (\<lambda>r. - int (length (cc_domain r))) (filter (\<lambda>r. \<not> is_default r) rs),
       default_action = foldl (\<lambda>d r. if is_default r then cc_action r else d) COOKIE_DENY rs\<rparr>)"
  using control_lines_rules [OF assms, of control_init False]
  by (simp add: Cookie_control_init_def control_init_def foldl_insert_rule_sort)

lemma Cookies_control_parse_witness:
  "Cookie_control_init control_init (Some (concat (map control_rule_line
       [\<lparr>cc_domain = ''.org'', cc_action = COOKIE_ACCEPT\<rparr>,
        \<lparr>cc_domain = ''.dillo.org'', cc_action = COOKIE_DENY\<rparr>]))) =
     (0, \<lparr>ccontrol = [\<lparr>cc_domain = ''.dillo.org'', cc_action = COOKIE_DENY\<rparr>,
                     \<lparr>cc_domain = ''.org'', cc_action = COOKIE_ACCEPT\<rparr>], default_action = COOKIE_DENY\<rparr>)"
  using Cookies_control_parse [of "[\<lparr>cc_domain = ''.org'', cc_action = COOKIE_ACCEPT\<rparr>,
        \<lparr>cc_domain = ''.dillo.org'', cc_action = COOKIE_DENY\<rparr>]"]
  by (simp add: control_rule_ok_def isspace_def uchar_def is_default_def D_ASCII_TOLOWER_def schar_def)

text \<open>
  C16: Whatever the file of rules, the action for a host is that of a rule that covers it and has the
  longest domain among those that do, and the default action when none covers it.
\<close>

theorem Cookies_control_most_specific:
  assumes "Cookie_control_init control_init (Some text) = (ret, ctl)" "cstr host"
    "\<forall>r \<in> set (ccontrol ctl). cstr (cc_domain r)"
  shows "(\<exists>r \<in> set (ccontrol ctl). rule_covers (cc_domain r) host
      \<and> Cookies_control_check_domain ctl host = cc_action r
      \<and> (\<forall>r' \<in> set (ccontrol ctl). rule_covers (cc_domain r') host \<longrightarrow>
           length (cc_domain r') \<le> length (cc_domain r)))
    \<or> (\<forall>r \<in> set (ccontrol ctl). \<not> rule_covers (cc_domain r) host)
      \<and> Cookies_control_check_domain ctl host = default_action ctl"
proof -
  have line: "longest_first (ccontrol (fst (control_line st buf)))" if "longest_first (ccontrol (fst st))" for st buf
    using that insert_rule_sorted(1) by (cases st) (auto simp: control_line_def Let_def split: option.splits)
  have lines: "longest_first (ccontrol (fst (control_lines st t)))" if "longest_first (ccontrol (fst st))" for st t
    using that
  proof (induction st t rule: control_lines.induct)
    case (1 st t)
    show ?case
    proof (cases "t = []")
      case True
      then show ?thesis using "1.prems" by (simp add: control_lines.simps)
    next
      case False
      obtain buf rest where f: "fgets LINE_MAXLEN t = (buf, rest)" by (cases "fgets LINE_MAXLEN t")
      show ?thesis
        using "1.IH" [OF False f [symmetric] line [OF "1.prems"]] False f
        by (simp add: control_lines.simps [of st t])
    qed
  qed
  from lines [of "(control_init, False)" "text"] have lf: "longest_first (ccontrol ctl)"
    using assms(1) by (simp add: Cookie_control_init_def control_init_def longest_first_def split: prod.splits)
  have cm: "control_matches host (cc_domain r) \<longleftrightarrow> rule_covers (cc_domain r) host" if "r \<in> set (ccontrol ctl)" for r
    using control_matches_covers assms(2,3) that by blast
  show ?thesis
  proof (cases "filter (\<lambda>r. control_matches host (cc_domain r)) (ccontrol ctl)")
    case Nil
    then have "\<forall>r \<in> set (ccontrol ctl). \<not> control_matches host (cc_domain r)" by (simp add: filter_empty_conv)
    then show ?thesis using cm Nil by (simp add: Cookies_control_check_domain_def check_rules_first)
  next
    case (Cons r rs)
    have "sorted_wrt (\<lambda>a b. length (cc_domain b) \<le> length (cc_domain a))
        (filter (\<lambda>r. control_matches host (cc_domain r)) (ccontrol ctl))"
      using lf unfolding longest_first_def by (rule sorted_wrt_filter)
    then have "\<forall>r' \<in> set rs. length (cc_domain r') \<le> length (cc_domain r)" by (simp add: Cons)
    moreover have m: "set (r # rs) = {x \<in> set (ccontrol ctl). control_matches host (cc_domain x)}"
      unfolding Cons [symmetric] by simp
    ultimately have "r \<in> set (ccontrol ctl)" "control_matches host (cc_domain r)"
      "\<forall>r' \<in> set (ccontrol ctl). control_matches host (cc_domain r') \<longrightarrow> length (cc_domain r') \<le> length (cc_domain r)"
      by (auto simp: set_eq_iff)
    moreover have "Cookies_control_check_domain ctl host = cc_action r"
      by (simp add: Cookies_control_check_domain_def check_rules_first Cons)
    ultimately show ?thesis using cm by blast
  qed
qed

lemma Cookies_control_most_specific_witness:
  "let ctl = \<lparr>ccontrol = [\<lparr>cc_domain = ''.org'', cc_action = COOKIE_ACCEPT\<rparr>], default_action = COOKIE_DENY\<rparr>
   in (\<exists>r \<in> set (ccontrol ctl). rule_covers (cc_domain r) ''dillo.org''
      \<and> Cookies_control_check_domain ctl ''dillo.org'' = cc_action r
      \<and> (\<forall>r' \<in> set (ccontrol ctl). rule_covers (cc_domain r') ''dillo.org'' \<longrightarrow>
           length (cc_domain r') \<le> length (cc_domain r)))
    \<or> (\<forall>r \<in> set (ccontrol ctl). \<not> rule_covers (cc_domain r) ''dillo.org'')
      \<and> Cookies_control_check_domain ctl ''dillo.org'' = default_action ctl"
proof -
  let ?r = "\<lparr>cc_domain = ''.org'', cc_action = COOKIE_ACCEPT\<rparr>"
  have "\<forall>r \<in> set [?r]. control_rule_ok r" by (simp add: control_rule_ok_def isspace_def uchar_def)
  from control_lines_rules [OF this, of control_init False]
  have "Cookie_control_init control_init (Some (concat (map control_rule_line [?r]))) =
      (0, \<lparr>ccontrol = [?r], default_action = COOKIE_DENY\<rparr>)"
    by (simp add: Cookie_control_init_def control_init_def foldl_insert_rule_sort is_default_def
        insert_rule_def D_ASCII_TOLOWER_def schar_def uchar_def)
  from Cookies_control_most_specific [OF this, of "''dillo.org''"]
  show ?thesis unfolding Let_def by simp
qed

text \<open>
  C17: The tests of domains and paths decide the domain-match of RFC 6265 (with a leading dot of the
  cookie domain ignored) and its path-match.
\<close>

theorem Cookies_match_is_rfc6265:
  assumes "cstr a" "cstr b" "a \<noteq> []" "b \<noteq> []" "cstr u" "cstr c"
  shows "(Cookies_domain_matches (Some a) (Some b) \<longleftrightarrow> rfc_domain_match a b)
    \<and> (Cookies_path_matches (Some u) (Some c) \<longleftrightarrow> rfc_path_match u c)"
  using domain_matches_rfc [OF assms(1-4)] path_matches_rfc [OF assms(5,6)] by blast

lemma Cookies_match_is_rfc6265_witness:
  "(Cookies_domain_matches (Some ''www.dillo.org'') (Some ''.dillo.org'') \<longleftrightarrow> rfc_domain_match ''www.dillo.org'' ''.dillo.org'')
   \<and> (Cookies_path_matches (Some ''/a/b'') (Some ''/a'') \<longleftrightarrow> rfc_path_match ''/a/b'' ''/a'')"
  using Cookies_match_is_rfc6265 [of "''www.dillo.org''" "''.dillo.org''" "''/a/b''" "''/a''"] by simp

end
