(* ===== verification/Cookies_Store.thy ===== *)
theory Cookies_Store
  imports Cookies_Match Dlib_List
begin

text \<open>
  The cookie server, third part: the cookies in memory. A cookie is an object of a heap, shared by
  the list \<open>all_cookies\<close> and the list of its domain; a \<open>DomainNode\<close> is known by its address
  \<open>dn_id\<close>, and the live nodes are those of the list \<open>domains\<close>. Following a pointer to a freed
  object, or freeing it again, is \<open>None\<close>. The addresses of new objects are fresh.
\<close>

section \<open>State\<close>

definition MAX_DOMAIN_COOKIES :: nat where "MAX_DOMAIN_COOKIES = 20"
definition MAX_TOTAL_COOKIES :: nat where "MAX_TOTAL_COOKIES = 1200"

record domain_node =
  dn_id :: nat
  dn_domain :: string
  dn_cookies :: "nat dlist"

record store =
  cookie_heap :: "nat \<Rightarrow> cookie_data option"
  all_cookies :: "nat dlist"
  domains :: "domain_node dlist"
  cookies_use_counter :: int
  next_address :: nat

definition store_init :: store where
  "store_init = \<lparr>cookie_heap = (\<lambda>_. None), all_cookies = \<lparr>dl_sz = 32, dl_list = []\<rparr>,
     domains = \<lparr>dl_sz = 32, dl_list = []\<rparr>, cookies_use_counter = 0, next_address = 0\<rparr>"

definition Domain_node_cmp :: "domain_node \<Rightarrow> domain_node \<Rightarrow> int" where
  "Domain_node_cmp n1 n2 = dStrAsciiCasecmp (dn_domain n1) (dn_domain n2)"

definition Domain_node_by_domain_cmp :: "domain_node \<Rightarrow> string \<Rightarrow> int" where
  "Domain_node_by_domain_cmp node domain = dStrAsciiCasecmp (dn_domain node) domain"

text \<open>Following a node pointer, and writing the list it holds.\<close>

definition get_node :: "store \<Rightarrow> nat \<Rightarrow> domain_node option" where
  "get_node st a = find (\<lambda>n. dn_id n = a) (dl_list (domains st))"

definition put_cookies :: "store \<Rightarrow> nat \<Rightarrow> nat dlist \<Rightarrow> store" where
  "put_cookies st a cookies =
     st\<lparr>domains := (domains st)\<lparr>dl_list :=
         map (\<lambda>n. if dn_id n = a then n\<lparr>dn_cookies := cookies\<rparr> else n) (dl_list (domains st))\<rparr>\<rparr>"

definition find_node :: "store \<Rightarrow> string \<Rightarrow> nat option" where
  "find_node st domain =
     map_option dn_id (dList_find_sorted (Some (domains st)) domain Domain_node_by_domain_cmp)"

definition Cookies_delete_node :: "store \<Rightarrow> nat \<Rightarrow> store option" where
  "Cookies_delete_node st a =
     do { node \<leftarrow> get_node st a; Some (st\<lparr>domains := dList_remove (domains st) node\<rparr>) }"

definition Cookies_free_cookie :: "store \<Rightarrow> nat \<Rightarrow> store option" where
  "Cookies_free_cookie st c =
     do { _ \<leftarrow> cookie_heap st c; Some (st\<lparr>cookie_heap := (cookie_heap st)(c := None)\<rparr>) }"

text \<open>\<open>dList_remove(node->cookies, c); dList_remove_fast(all_cookies, c); Cookies_free_cookie(c);\<close>\<close>

definition drop_cookie :: "store \<Rightarrow> nat \<Rightarrow> nat \<Rightarrow> store option" where
  "drop_cookie st a c =
     do {
       node \<leftarrow> get_node st a;
       let st1 = put_cookies st a (dList_remove (dn_cookies node) c);
       Cookies_free_cookie (st1\<lparr>all_cookies := dList_remove_fast (all_cookies st1) c\<rparr>) c
     }"

text \<open>\<open>if (dList_length(node->cookies) == 0) Cookies_delete_node(node);\<close>\<close>

definition delete_if_empty :: "store \<Rightarrow> nat \<Rightarrow> store option" where
  "delete_if_empty st a =
     do {
       node \<leftarrow> get_node st a;
       if dList_length (Some (dn_cookies node)) = 0 then Cookies_delete_node st a else Some st
     }"

section \<open>Making room\<close>

fun lru_loop :: "(nat \<Rightarrow> cookie_data option) \<Rightarrow> nat list \<Rightarrow> nat \<Rightarrow> nat option" where
  "lru_loop heap [] lru = Some lru"
| "lru_loop heap (cur # cs) lru =
     do {
       x \<leftarrow> heap cur;
       y \<leftarrow> heap lru;
       lru_loop heap cs (if c_last_used x < c_last_used y then cur else lru)
     }"

text \<open>The null pointer of an empty list is \<open>None\<close>: the caller follows it.\<close>

definition Cookies_get_LRU :: "(nat \<Rightarrow> cookie_data option) \<Rightarrow> nat dlist \<Rightarrow> nat option" where
  "Cookies_get_LRU heap cookies =
     (case dl_list cookies of [] \<Rightarrow> None | c # cs \<Rightarrow> lru_loop heap cs c)"

text \<open>\<open>node ? node->cookies : all_cookies\<close>\<close>

definition cookies_in :: "store \<Rightarrow> nat option \<Rightarrow> nat dlist option" where
  "cookies_in st node =
     (case node of Some a \<Rightarrow> map_option dn_cookies (get_node st a) | None \<Rightarrow> Some (all_cookies st))"

text \<open>One turn of the loop over the cookies: whether the cookie at \<open>i\<close> was deleted.\<close>

definition expire_at :: "store \<Rightarrow> nat option \<Rightarrow> int \<Rightarrow> nat \<Rightarrow> (bool \<times> store) option" where
  "expire_at st node now i =
     do {
       cookies \<leftarrow> cookies_in st node;
       c \<leftarrow> dList_nth_data (Some cookies) (int i);
       cd \<leftarrow> cookie_heap st c;
       if c_expires_at cd - now < 0 then
         do {
           domain \<leftarrow> c_domain cd;
           currnode \<leftarrow> (case node of Some a \<Rightarrow> Some a | None \<Rightarrow> find_node st domain);
           n \<leftarrow> get_node st currnode;
           let st1 = put_cookies st currnode (dList_remove (dn_cookies n) c);
           st2 \<leftarrow> delete_if_empty st1 currnode;
           st3 \<leftarrow> Cookies_free_cookie (st2\<lparr>all_cookies := dList_remove_fast (all_cookies st2) c\<rparr>) c;
           Some (True, st3)
         }
       else Some (False, st)
     }"

function rm_loop :: "store \<Rightarrow> nat option \<Rightarrow> int \<Rightarrow> nat \<Rightarrow> nat \<Rightarrow> nat \<Rightarrow> (nat \<times> store) option" where
  "rm_loop st node now i n removed =
     (if i < n then
        (case expire_at st node now i of
           None \<Rightarrow> None
         | Some (deleted, st') \<Rightarrow>
             if deleted then rm_loop st' node now i (n - 1) (removed + 1)
             else rm_loop st' node now (i + 1) n removed)
      else Some (removed, st))"
  by pat_completeness auto
termination
  by (relation "measure (\<lambda>(st, node, now, i, n, removed). n - i)") auto

declare rm_loop.simps [simp del]

definition Cookies_rm_expired_cookies :: "store \<Rightarrow> nat option \<Rightarrow> int \<Rightarrow> (nat \<times> store) option" where
  "Cookies_rm_expired_cookies st node now =
     do { cookies \<leftarrow> cookies_in st node; rm_loop st node now 0 (dList_length (Some cookies)) 0 }"

definition Cookies_too_many :: "store \<Rightarrow> nat option \<Rightarrow> store option" where
  "Cookies_too_many st node0 =
     do {
       cookies \<leftarrow> cookies_in st node0;
       lru \<leftarrow> Cookies_get_LRU (cookie_heap st) cookies;
       cd \<leftarrow> cookie_heap st lru;
       domain \<leftarrow> c_domain cd;
       node \<leftarrow> (case node0 of Some a \<Rightarrow> Some a | None \<Rightarrow> find_node st domain);
       st1 \<leftarrow> drop_cookie st node lru;
       delete_if_empty st1 node
     }"

section \<open>The state invariant\<close>

text \<open>The content of the list of domains, by the address of the node.\<close>

definition view :: "store \<Rightarrow> nat \<Rightarrow> (string \<times> nat list) option" where
  "view st a = map_option (\<lambda>n. (dn_domain n, dl_list (dn_cookies n))) (get_node st a)"

definition nodes_ok :: "store \<Rightarrow> bool" where
  "nodes_ok st \<longleftrightarrow> distinct (map dn_id (dl_list (domains st)))
     \<and> cmp_sorted Domain_node_cmp (dl_list (domains st))
     \<and> (\<forall>n \<in> set (dl_list (domains st)). cstr (dn_domain n))"

text \<open>
  One node per domain; the list of all cookies has each live cookie once, each live cookie is in the
  list of a node, and the cookies of a node are live and of its domain.
\<close>

definition shape_ok :: "(nat \<Rightarrow> (string \<times> nat list) option) \<Rightarrow> (nat \<Rightarrow> cookie_data option) \<Rightarrow> nat list \<Rightarrow> nat \<Rightarrow> bool" where
  "shape_ok V heap ac nxt \<longleftrightarrow>
     (\<forall>a d cs. V a = Some (d, cs) \<longrightarrow> a < nxt \<and> distinct cs
        \<and> (\<forall>c \<in> set cs. \<exists>cd dd. heap c = Some cd \<and> c_domain cd = Some dd \<and> cstr dd \<and> ieq dd d))
   \<and> (\<forall>a b d d' cs cs'. V a = Some (d, cs) \<longrightarrow> V b = Some (d', cs') \<longrightarrow> ieq d d' \<longrightarrow> a = b)
   \<and> distinct ac \<and> set ac = dom heap \<and> (\<forall>c \<in> dom heap. c < nxt)
   \<and> (\<forall>c \<in> dom heap. \<exists>a d cs. V a = Some (d, cs) \<and> c \<in> set cs)"

definition store_ok :: "store \<Rightarrow> bool" where
  "store_ok st \<longleftrightarrow> nodes_ok st
     \<and> shape_ok (view st) (cookie_heap st) (dl_list (all_cookies st)) (next_address st)"

interpretation domain_nodes: dsearch "\<lambda>n. cstr (dn_domain n)" Domain_node_cmp cstr Domain_node_by_domain_cmp
proof -
  have "dcompare (\<lambda>n. cstr (dn_domain n)) Domain_node_cmp"
    unfolding Domain_node_cmp_def [abs_def] by (rule dcompare_vimage) unfold_locales
  then show "dsearch (\<lambda>n. cstr (dn_domain n)) Domain_node_cmp cstr Domain_node_by_domain_cmp"
    unfolding dsearch_def dsearch_axioms_def Domain_node_cmp_def Domain_node_by_domain_cmp_def
    using casecmp_le_trans casecmp.cmp_le_less_trans by blast
qed

section \<open>Nodes\<close>

lemma find_map_id:
  "distinct (map f xs) \<Longrightarrow> x \<in> set xs \<Longrightarrow> find (\<lambda>y. f y = f x) xs = Some x"
  by (induction xs) (auto simp: image_iff)

lemma get_node_Some:
  "get_node st a = Some n \<Longrightarrow> n \<in> set (dl_list (domains st)) \<and> dn_id n = a"
  by (auto simp: get_node_def find_Some_iff)

lemma get_node_in:
  "nodes_ok st \<Longrightarrow> n \<in> set (dl_list (domains st)) \<Longrightarrow> get_node st (dn_id n) = Some n"
  using find_map_id [of dn_id "dl_list (domains st)" n] by (simp add: get_node_def nodes_ok_def)

lemma view_Some: "view st a = Some (d, cs) \<longleftrightarrow>
    (\<exists>n. get_node st a = Some n \<and> dn_domain n = d \<and> dl_list (dn_cookies n) = cs)"
  by (auto simp: view_def)

lemma find_map_update:
  "find (\<lambda>n. dn_id n = b) (map (\<lambda>n. if dn_id n = a then n\<lparr>dn_cookies := l\<rparr> else n) xs) =
     map_option (\<lambda>n. if b = a then n\<lparr>dn_cookies := l\<rparr> else n) (find (\<lambda>n. dn_id n = b) xs)"
  by (induction xs) auto

lemma get_node_put: "get_node (put_cookies st a l) b =
    map_option (\<lambda>n. if b = a then n\<lparr>dn_cookies := l\<rparr> else n) (get_node st b)"
  by (simp add: get_node_def put_cookies_def find_map_update)

lemma cmp_sorted_map:
  "(\<And>x y. cmp (f x) (f y) = cmp x y) \<Longrightarrow> cmp_sorted cmp (map f xs) \<longleftrightarrow> cmp_sorted cmp xs"
  by (simp add: cmp_sorted_def sorted_wrt_map)

lemma nodes_ok_put [simp]: "nodes_ok (put_cookies st a l) \<longleftrightarrow> nodes_ok st"
proof -
  let ?f = "\<lambda>n :: domain_node. if dn_id n = a then n\<lparr>dn_cookies := l\<rparr> else n"
  have "map dn_id (map ?f xs) = map dn_id xs" for xs by (induction xs) auto
  moreover have "cmp_sorted Domain_node_cmp (map ?f xs) \<longleftrightarrow> cmp_sorted Domain_node_cmp xs" for xs
    by (rule cmp_sorted_map) (simp add: Domain_node_cmp_def)
  moreover have "(\<forall>n \<in> set (map ?f xs). cstr (dn_domain n)) \<longleftrightarrow> (\<forall>n \<in> set xs. cstr (dn_domain n))" for xs
    by (induction xs) auto
  moreover have "dl_list (domains (put_cookies st a l)) = map ?f (dl_list (domains st))"
    by (simp add: put_cookies_def)
  ultimately show ?thesis unfolding nodes_ok_def by (simp only:)
qed

lemma view_put: "get_node st a = Some n \<Longrightarrow>
    view (put_cookies st a l) = (view st)(a \<mapsto> (dn_domain n, dl_list l))"
  by (rule ext) (simp add: view_def get_node_put option.map_comp comp_def)

lemma put_cookies_simps [simp]:
  "cookie_heap (put_cookies st a l) = cookie_heap st" "all_cookies (put_cookies st a l) = all_cookies st"
  "cookies_use_counter (put_cookies st a l) = cookies_use_counter st"
  "next_address (put_cookies st a l) = next_address st"
  by (simp_all add: put_cookies_def)

text \<open>Fields that nodes and views do not depend on.\<close>

lemma node_frame [simp]:
  "get_node (st\<lparr>cookie_heap := h\<rparr>) = get_node st" "get_node (st\<lparr>all_cookies := l\<rparr>) = get_node st"
  "view (st\<lparr>cookie_heap := h\<rparr>) = view st" "view (st\<lparr>all_cookies := l\<rparr>) = view st"
  "nodes_ok (st\<lparr>cookie_heap := h\<rparr>) = nodes_ok st" "nodes_ok (st\<lparr>all_cookies := l\<rparr>) = nodes_ok st"
  by (auto simp: get_node_def view_def nodes_ok_def fun_eq_iff)

lemma delete_node_view:
  assumes "nodes_ok st" "get_node st a = Some n"
  shows "\<exists>st'. Cookies_delete_node st a = Some st' \<and> nodes_ok st' \<and> view st' = (view st)(a := None)
    \<and> cookie_heap st' = cookie_heap st \<and> all_cookies st' = all_cookies st
    \<and> cookies_use_counter st' = cookies_use_counter st \<and> next_address st' = next_address st"
proof -
  let ?xs = "dl_list (domains st)" and ?st = "st\<lparr>domains := dList_remove (domains st) n\<rparr>"
  have n: "n \<in> set ?xs" "dn_id n = a" using get_node_Some [OF assms(2)] by auto
  have d: "distinct (map dn_id ?xs)" using assms(1) by (simp add: nodes_ok_def)
  have ids: "distinct (map dn_id (remove1 n xs))" if "distinct (map dn_id xs)" for xs
    using that by (induction xs) (auto simp: image_iff dest: subsetD [OF set_remove1_subset])
  have find: "find (\<lambda>m. dn_id m = b) (remove1 n xs) = (if b = dn_id n then None else find (\<lambda>m. dn_id m = b) xs)"
    if "distinct (map dn_id xs)" "n \<in> set xs" for b xs
    using that by (induction xs) (auto simp: find_None_iff image_iff)
  have "nodes_ok ?st"
    using assms(1) ids [OF d] cmp_sorted_remove1 [of Domain_node_cmp ?xs n]
    by (auto simp: nodes_ok_def dest: notin_set_remove1)
  moreover have "view ?st = (view st)(a := None)"
    using find [OF d n(1)] n(2) by (auto simp: fun_eq_iff view_def get_node_def)
  ultimately show ?thesis using assms(2) by (simp add: Cookies_delete_node_def)
qed

lemma find_node_Some:
  assumes "nodes_ok st" "cstr d" "find_node st d = Some a"
  shows "\<exists>d' cs. view st a = Some (d', cs) \<and> ieq d' d \<and> cstr d'"
proof -
  from assms(3) obtain n where n: "dList_find_sorted (Some (domains st)) d Domain_node_by_domain_cmp = Some n" "dn_id n = a"
    by (auto simp: find_node_def)
  have s: "cmp_sorted Domain_node_cmp (dl_list (domains st))" "\<forall>n \<in> set (dl_list (domains st)). cstr (dn_domain n)"
    using assms(1) by (simp_all add: nodes_ok_def)
  note f = domain_nodes.find_sorted_Some [OF s assms(2) n(1)]
  then have "cstr (dn_domain n)" using s(2) by blast
  then show ?thesis
    using f n(2) get_node_in [OF assms(1) f(1)] assms(2)
    by (auto simp: view_def Domain_node_by_domain_cmp_def casecmp_ieq)
qed

lemma find_node_None:
  assumes "nodes_ok st" "cstr d" "find_node st d = None" "view st a = Some (d', cs)"
  shows "\<not> ieq d' d"
proof
  assume "ieq d' d"
  from assms(4) obtain n where n: "get_node st a = Some n" "dn_domain n = d'" by (auto simp: view_Some)
  have s: "cmp_sorted Domain_node_cmp (dl_list (domains st))" "\<forall>n \<in> set (dl_list (domains st)). cstr (dn_domain n)"
    using assms(1) by (simp_all add: nodes_ok_def)
  have "dList_find_sorted (Some (domains st)) d Domain_node_by_domain_cmp = None"
    using assms(3) by (simp add: find_node_def)
  with domain_nodes.find_sorted_None [OF s assms(2)] get_node_Some [OF n(1)]
  have "Domain_node_by_domain_cmp n d \<noteq> 0" by blast
  then show False
    using \<open>ieq d' d\<close> n get_node_Some [OF n(1)] s(2) assms(2)
    by (auto simp: Domain_node_by_domain_cmp_def casecmp_ieq)
qed

lemma ieq_sym: "ieq a b \<Longrightarrow> ieq b a" by (simp add: ieq_def)
lemma ieq_trans: "ieq a b \<Longrightarrow> ieq b c \<Longrightarrow> ieq a c" by (simp add: ieq_def)

lemma shape_okD:
  assumes "shape_ok V h ac nxt"
  shows "distinct ac" "set ac = dom h" "\<And>c. c \<in> dom h \<Longrightarrow> c < nxt"
    "\<And>a d cs. V a = Some (d, cs) \<Longrightarrow> a < nxt \<and> distinct cs"
    "\<And>a b d d' cs cs'. V a = Some (d, cs) \<Longrightarrow> V b = Some (d', cs') \<Longrightarrow> ieq d d' \<Longrightarrow> a = b"
    "\<And>a d cs c. V a = Some (d, cs) \<Longrightarrow> c \<in> set cs \<Longrightarrow>
       \<exists>cd dd. h c = Some cd \<and> c_domain cd = Some dd \<and> cstr dd \<and> ieq dd d"
    "\<And>c. c \<in> dom h \<Longrightarrow> \<exists>a d cs. V a = Some (d, cs) \<and> c \<in> set cs"
  using assms unfolding shape_ok_def by blast+

text \<open>Two nodes share no cookie.\<close>

lemma shape_disjoint:
  assumes "shape_ok V h ac nxt" "V a = Some (d, cs)" "V b = Some (d', cs')" "c \<in> set cs" "c \<in> set cs'"
  shows "a = b"
proof -
  obtain cd dd where "h c = Some cd" "c_domain cd = Some dd" "ieq dd d"
    using shape_okD(6) [OF assms(1,2,4)] by blast
  moreover obtain cd' dd' where "h c = Some cd'" "c_domain cd' = Some dd'" "ieq dd' d'"
    using shape_okD(6) [OF assms(1,3,5)] by blast
  ultimately have "ieq d d'" using ieq_trans ieq_sym by (metis option.inject)
  then show ?thesis using shape_okD(5) [OF assms(1-3)] by blast
qed

lemma store_okD:
  assumes "store_ok st"
  shows "nodes_ok st" "shape_ok (view st) (cookie_heap st) (dl_list (all_cookies st)) (next_address st)"
  using assms by (simp_all add: store_ok_def)

lemmas store_okE = shape_okD [OF store_okD(2)]
lemmas view_disjoint = shape_disjoint [OF store_okD(2)]

lemma view_domain_cstr: "store_ok st \<Longrightarrow> view st a = Some (d, cs) \<Longrightarrow> cstr d"
  using get_node_Some by (fastforce simp: store_ok_def nodes_ok_def view_Some)

text \<open>The node found for a domain is the one that has it.\<close>

lemma find_node_iff:
  assumes "store_ok st" "cstr d"
  shows "find_node st d = Some a \<longleftrightarrow> (\<exists>d' cs. view st a = Some (d', cs) \<and> ieq d' d)"
proof
  assume "find_node st d = Some a"
  then show "\<exists>d' cs. view st a = Some (d', cs) \<and> ieq d' d"
    using find_node_Some store_okD(1) assms by blast
next
  assume "\<exists>d' cs. view st a = Some (d', cs) \<and> ieq d' d"
  then obtain d' cs where v: "view st a = Some (d', cs)" "ieq d' d" by blast
  show "find_node st d = Some a"
  proof (cases "find_node st d")
    case None
    then show ?thesis using find_node_None [OF store_okD(1) [OF assms(1)] assms(2) None v(1)] v(2) by blast
  next
    case (Some b)
    then obtain d2 cs2 where w: "view st b = Some (d2, cs2)" "ieq d2 d"
      using find_node_Some store_okD(1) assms by blast
    then have "a = b" using store_okE(5) [OF assms(1) v(1) w(1)] ieq_trans [OF v(2) ieq_sym [OF w(2)]] by blast
    then show ?thesis using Some by simp
  qed
qed

section \<open>Removing a cookie\<close>

lemma shape_drop:
  assumes "shape_ok V h ac nxt" "V a = Some (d, cs)" "c \<in> set cs" "mset ac' = mset ac - {#c#}"
  shows "shape_ok (V(a \<mapsto> (d, remove1 c cs))) (h(c := None)) ac' nxt"
proof -
  note D = shape_okD [OF assms(1)]
  have dist: "distinct cs" "distinct ac" "set ac = dom h" using D(1,2) D(4) [OF assms(2)] by auto
  have rem: "set (remove1 c cs) = set cs - {c}" using dist(1) by simp
  have "mset ac' = mset (remove1 c ac)" using assms(4) by simp
  note m = mset_eq_imp_distinct_iff [OF this] mset_eq_setD [OF this]
  have ac: "distinct ac'" "set ac' = dom h - {c}" unfolding m using dist by simp_all
  have old: "\<exists>cs0. V b = Some (d', cs0) \<and> set cs' = set cs0 - {c} \<and> distinct cs'"
    if "(V(a \<mapsto> (d, remove1 c cs))) b = Some (d', cs')" for b d' cs'
  proof (cases "b = a")
    case True
    then have "d' = d" "cs' = remove1 c cs" using that by simp_all
    then show ?thesis using True assms(2) rem dist(1) by simp
  next
    case False
    then have v: "V b = Some (d', cs')" using that by simp
    then have "c \<notin> set cs'" using shape_disjoint [OF assms(1,2) v assms(3)] False by blast
    then show ?thesis using v D(4) [OF v] by simp
  qed
  have new: "\<exists>b d' cs'. (V(a \<mapsto> (d, remove1 c cs))) b = Some (d', cs') \<and> c' \<in> set cs'"
    if h: "c' \<in> dom h" "c' \<noteq> c" for c'
  proof -
    obtain b d' cs' where v: "V b = Some (d', cs')" "c' \<in> set cs'" using D(7) [OF h(1)] by blast
    show ?thesis
    proof (cases "b = a")
      case True
      then have "c' \<in> set (remove1 c cs)" using v assms(2) h(2) rem by simp
      then show ?thesis by (intro exI [of _ a] exI [of _ d] exI [of _ "remove1 c cs"]) simp
    next
      case False
      then show ?thesis using v by (intro exI [of _ b] exI [of _ d'] exI [of _ cs']) simp
    qed
  qed
  show ?thesis
    unfolding shape_ok_def
  proof (intro conjI allI impI ballI)
    fix b d' cs'
    assume v: "(V(a \<mapsto> (d, remove1 c cs))) b = Some (d', cs')"
    then obtain cs0 where v0: "V b = Some (d', cs0)" "set cs' = set cs0 - {c}" "distinct cs'"
      using old by blast
    show "b < nxt" "distinct cs'" using D(4) [OF v0(1)] v0(3) by auto
    fix c'
    assume c': "c' \<in> set cs'"
    then have "c' \<in> set cs0" "c' \<noteq> c" using v0(2) by auto
    then show "\<exists>cd dd. (h(c := None)) c' = Some cd \<and> c_domain cd = Some dd \<and> cstr dd \<and> ieq dd d'"
      using D(6) [OF v0(1)] by simp
  next
    fix b b' d1 d2 cs1 cs2
    assume "(V(a \<mapsto> (d, remove1 c cs))) b = Some (d1, cs1)" "(V(a \<mapsto> (d, remove1 c cs))) b' = Some (d2, cs2)" "ieq d1 d2"
    then obtain x y where "V b = Some (d1, x)" "V b' = Some (d2, y)" using old by meson
    then show "b = b'" using D(5) \<open>ieq d1 d2\<close> by meson
  next
    show "distinct ac'" "set ac' = dom (h(c := None))" using ac by simp_all
  next
    fix c'
    assume "c' \<in> dom (h(c := None))"
    then have h: "c' \<in> dom h" "c' \<noteq> c" by auto
    show "c' < nxt" using D(3) [OF h(1)] .
    show "\<exists>b d' cs'. (V(a \<mapsto> (d, remove1 c cs))) b = Some (d', cs') \<and> c' \<in> set cs'"
      using new [OF h] .
  qed
qed

lemma shape_delete:
  assumes "shape_ok V h ac nxt" "V a = Some (d, [])"
  shows "shape_ok (V(a := None)) h ac nxt"
proof -
  note D = shape_okD [OF assms(1)]
  have new: "\<exists>b d' cs'. (V(a := None)) b = Some (d', cs') \<and> c \<in> set cs'" if c: "c \<in> dom h" for c
  proof -
    obtain b d' cs' where b: "V b = Some (d', cs')" "c \<in> set cs'" using D(7) [OF c] by blast
    then have "b \<noteq> a" using assms(2) by auto
    then show ?thesis using b by auto
  qed
  have old: "V b = Some (d', cs')" if "(V(a := None)) b = Some (d', cs')" for b d' cs'
    using that by (auto split: if_splits)
  show ?thesis
    unfolding shape_ok_def
  proof (intro conjI allI impI ballI)
    fix b b' d1 d2 cs1 cs2
    assume "(V(a := None)) b = Some (d1, cs1)" "(V(a := None)) b' = Some (d2, cs2)" "ieq d1 d2"
    then show "b = b'" using D(5) old by blast
  next
    fix b d' cs'
    assume v: "(V(a := None)) b = Some (d', cs')"
    show "b < nxt" "distinct cs'" using D(4) [OF old [OF v]] by blast+
    show "\<exists>cd dd. h c = Some cd \<and> c_domain cd = Some dd \<and> cstr dd \<and> ieq dd d'" if "c \<in> set cs'" for c
      using D(6) [OF old [OF v] that] .
  qed (use D(1-3) new in blast)+
qed

text \<open>What an operation on the cookies of a store leaves: the node map and the heap.\<close>

definition store_to :: "store \<Rightarrow> store \<Rightarrow> (nat \<Rightarrow> (string \<times> nat list) option) \<Rightarrow> (nat \<Rightarrow> cookie_data option) \<Rightarrow> bool" where
  "store_to st st' V h \<longleftrightarrow> store_ok st' \<and> view st' = V \<and> cookie_heap st' = h
     \<and> cookies_use_counter st' = cookies_use_counter st \<and> next_address st' = next_address st"

lemma drop_cookie_ok:
  assumes "store_ok st" "view st a = Some (d, cs)" "c \<in> set cs"
  shows "\<exists>st'. drop_cookie st a c = Some st'
    \<and> store_to st st' ((view st)(a \<mapsto> (d, remove1 c cs))) ((cookie_heap st)(c := None))
    \<and> all_cookies st' = dList_remove_fast (all_cookies st) c"
proof -
  obtain n where n: "get_node st a = Some n" "dn_domain n = d" "dl_list (dn_cookies n) = cs"
    using assms(2) by (auto simp: view_Some)
  obtain cd where cd: "cookie_heap st c = Some cd" using store_okE(6) [OF assms] by blast
  let ?st1 = "put_cookies st a (dList_remove (dn_cookies n) c)"
  let ?st' = "?st1\<lparr>all_cookies := dList_remove_fast (all_cookies ?st1) c, cookie_heap := (cookie_heap st)(c := None)\<rparr>"
  have v: "view ?st1 = (view st)(a \<mapsto> (d, remove1 c cs))" using n by (simp add: view_put)
  have "store_ok ?st'"
    using assms(1) shape_drop [where V = "view st", OF _ assms(2,3) mset_remove_fast [of "all_cookies st" c]]
    by (simp add: store_ok_def v)
  moreover have "drop_cookie st a c = Some ?st'"
    using n(1) cd by (simp add: drop_cookie_def Cookies_free_cookie_def)
  ultimately show ?thesis by (simp add: store_to_def v)
qed

lemma delete_if_empty_ok:
  assumes "store_ok st" "view st a = Some (d, cs)"
  shows "\<exists>st'. delete_if_empty st a = Some st'
    \<and> store_to st st' (if cs = [] then (view st)(a := None) else view st) (cookie_heap st)
    \<and> all_cookies st' = all_cookies st"
proof -
  obtain n where n: "get_node st a = Some n" "dl_list (dn_cookies n) = cs"
    using assms(2) by (auto simp: view_Some)
  show ?thesis
  proof (cases "cs = []")
    case True
    obtain st' where "Cookies_delete_node st a = Some st'" "nodes_ok st'" "view st' = (view st)(a := None)"
      "cookie_heap st' = cookie_heap st" "all_cookies st' = all_cookies st"
      "cookies_use_counter st' = cookies_use_counter st" "next_address st' = next_address st"
      using delete_node_view [OF store_okD(1) [OF assms(1)] n(1)] by blast
    moreover have "shape_ok ((view st)(a := None)) (cookie_heap st) (dl_list (all_cookies st)) (next_address st)"
      using assms True shape_delete by (auto simp: store_ok_def)
    ultimately show ?thesis using n True by (simp add: delete_if_empty_def dList_length_def store_to_def store_ok_def)
  next
    case False
    then show ?thesis using n assms(1) by (simp add: delete_if_empty_def dList_length_def store_to_def)
  qed
qed

lemma drop_delete_ok:
  assumes "store_ok st" "view st a = Some (d, cs)" "c \<in> set cs"
  shows "\<exists>st1 st2. drop_cookie st a c = Some st1 \<and> delete_if_empty st1 a = Some st2
    \<and> store_to st st2 ((view st)(a := if remove1 c cs = [] then None else Some (d, remove1 c cs)))
        ((cookie_heap st)(c := None))
    \<and> all_cookies st2 = dList_remove_fast (all_cookies st) c"
proof -
  obtain st1 where 1: "drop_cookie st a c = Some st1"
    "store_to st st1 ((view st)(a \<mapsto> (d, remove1 c cs))) ((cookie_heap st)(c := None))"
    "all_cookies st1 = dList_remove_fast (all_cookies st) c"
    using drop_cookie_ok [OF assms] by blast
  then have ok: "store_ok st1" "view st1 a = Some (d, remove1 c cs)" by (simp_all add: store_to_def)
  obtain st2 where "delete_if_empty st1 a = Some st2"
    "store_to st1 st2 (if remove1 c cs = [] then (view st1)(a := None) else view st1) (cookie_heap st1)"
    "all_cookies st2 = all_cookies st1"
    using delete_if_empty_ok [OF ok] by blast
  with 1 show ?thesis by (auto simp: store_to_def)
qed

text \<open>The deletion of an expired cookie frees the node before the cookie; the effect is the same.\<close>

lemma expire_order:
  assumes "get_node st a = Some n" "cookie_heap st c \<noteq> None"
  shows "do { let st1 = put_cookies st a (dList_remove (dn_cookies n) c);
              st2 \<leftarrow> delete_if_empty st1 a;
              st3 \<leftarrow> Cookies_free_cookie (st2\<lparr>all_cookies := dList_remove_fast (all_cookies st2) c\<rparr>) c;
              Some (True, st3) } =
         do { st1 \<leftarrow> drop_cookie st a c; st2 \<leftarrow> delete_if_empty st1 a; Some (True, st2) }"
  using assms
  by (auto simp: drop_cookie_def delete_if_empty_def Cookies_delete_node_def Cookies_free_cookie_def
      get_node_put Let_def)

text \<open>Cookies that have not expired.\<close>

definition live :: "(nat \<Rightarrow> cookie_data option) \<Rightarrow> int \<Rightarrow> nat \<Rightarrow> bool" where
  "live h now c \<longleftrightarrow> (case h c of None \<Rightarrow> False | Some cd \<Rightarrow> now \<le> c_expires_at cd)"

lemma live_drop: "\<not> live h now c \<Longrightarrow> live (h(c := None)) now = live h now"
  by (auto simp: live_def fun_eq_iff)

text \<open>What is left of a node when the cookies outside \<open>L\<close> are deleted.\<close>

definition purge :: "(nat \<Rightarrow> bool) \<Rightarrow> string \<times> nat list \<Rightarrow> (string \<times> nat list) option" where
  "purge L dcs = (case dcs of (d, cs) \<Rightarrow>
     if cs \<noteq> [] \<and> filter L cs = [] then None else Some (d, filter L cs))"

lemma purge_remove1:
  assumes "\<not> L c" "c \<in> set cs"
  shows "purge L (d, cs) = (if remove1 c cs = [] then None else purge L (d, remove1 c cs))"
proof -
  have f: "filter L (remove1 c cs) = filter L cs"
    using assms(1) by (simp add: filter_remove1)
  have "cs \<noteq> []" using assms(2) by auto
  moreover have "filter L cs = []" if "remove1 c cs = []" using f that by simp
  ultimately show ?thesis by (auto simp: purge_def f)
qed

text \<open>One turn of the loop: a live cookie stays, another one goes.\<close>

lemma expire_at_live:
  assumes "cookies_in st node = Some l" "i < length (dl_list l)" "live (cookie_heap st) now (dl_list l ! i)"
  shows "expire_at st node now i = Some (False, st)"
  using assms by (auto simp: expire_at_def dList_nth_data_def live_def split: option.splits)

lemma expire_at_expired:
  assumes "store_ok st" "cookies_in st node = Some l" "i < length (dl_list l)" "dl_list l ! i = c"
    "view st a = Some (d, cs)" "c \<in> set cs" "\<not> live (cookie_heap st) now c" "node = None \<or> node = Some a"
  shows "\<exists>st'. expire_at st node now i = Some (True, st')
    \<and> store_to st st' ((view st)(a := if remove1 c cs = [] then None else Some (d, remove1 c cs)))
        ((cookie_heap st)(c := None))
    \<and> all_cookies st' = dList_remove_fast (all_cookies st) c"
proof -
  obtain cd dd where cd: "cookie_heap st c = Some cd" "c_domain cd = Some dd" "cstr dd" "ieq dd d"
    using store_okE(6) [OF assms(1,5,6)] by blast
  have ex: "c_expires_at cd < now" using assms(7) cd(1) by (simp add: live_def)
  have find: "find_node st dd = Some a"
    using find_node_iff [OF assms(1) cd(3)] assms(5) ieq_sym [OF cd(4)] by blast
  obtain n where n: "get_node st a = Some n" using assms(5) by (auto simp: view_Some)
  have cur: "(case node of None \<Rightarrow> find_node st dd | Some x \<Rightarrow> Some x) = Some a"
    using assms(8) find by auto
  have nth: "dList_nth_data (Some l) (int i) = Some c"
    using assms(3,4) by (simp add: dList_nth_data_def)
  obtain st1 st2 where "drop_cookie st a c = Some st1" "delete_if_empty st1 a = Some st2"
    "store_to st st2 ((view st)(a := if remove1 c cs = [] then None else Some (d, remove1 c cs)))
        ((cookie_heap st)(c := None))"
    "all_cookies st2 = dList_remove_fast (all_cookies st) c"
    using drop_delete_ok [OF assms(1,5,6)] by blast
  moreover have "expire_at st node now i =
      do { st1 \<leftarrow> drop_cookie st a c; st2 \<leftarrow> delete_if_empty st1 a; Some (True, st2) }"
    using expire_order [OF n, of c] cd(1)
    by (simp add: expire_at_def assms(2) nth cd(1,2) ex cur n)
  ultimately show ?thesis by simp
qed

lemma rm_loop_all:
  assumes "store_ok st" "i \<le> length (dl_list (all_cookies st))"
    "\<forall>k < i. live (cookie_heap st) now (dl_list (all_cookies st) ! k)"
  shows "\<exists>r st'. rm_loop st None now i (length (dl_list (all_cookies st))) removed = Some (removed + r, st')
    \<and> store_to st st' (\<lambda>a. Option.bind (view st a) (purge (live (cookie_heap st) now)))
        (cookie_heap st |` {c. live (cookie_heap st) now c})
    \<and> r + length (dl_list (all_cookies st')) = length (dl_list (all_cookies st))"
  using assms
proof (induction "length (dl_list (all_cookies st)) - i" arbitrary: st i removed)
  case 0
  let ?ac = "dl_list (all_cookies st)" and ?L = "live (cookie_heap st) now"
  have all: "?L c" if "c \<in> dom (cookie_heap st)" for c
    using that store_okE(2) [OF "0.prems"(1)] "0.hyps" "0.prems"(2,3) by (metis in_set_conv_nth le_antisym diff_is_0_eq)
  have "cookie_heap st c = None" if "\<not> ?L c" for c using all [of c] that by (cases "cookie_heap st c") auto
  then have "cookie_heap st |` {c. ?L c} = cookie_heap st"
    by (auto simp: restrict_map_def fun_eq_iff)
  moreover have "Option.bind (view st a) (purge ?L) = view st a" for a
  proof (cases "view st a")
    case (Some dcs)
    obtain d cs where dcs: "dcs = (d, cs)" by (cases dcs)
    have "\<forall>c \<in> set cs. ?L c" using store_okE(6) [OF "0.prems"(1)] Some dcs all by blast
    then show ?thesis using Some dcs by (simp add: purge_def filter_True)
  qed simp
  ultimately show ?case using "0.hyps" "0.prems" by (simp add: rm_loop.simps store_to_def)
next
  case (Suc m)
  let ?ac = "dl_list (all_cookies st)" and ?L = "live (cookie_heap st) now"
  have i: "i < length ?ac" using Suc.hyps(2) by simp
  have ci: "cookies_in st None = Some (all_cookies st)" by (simp add: cookies_in_def)
  show ?case
  proof (cases "?L (?ac ! i)")
    case True
    have "\<forall>k < Suc i. ?L (?ac ! k)" using True Suc.prems(3) less_Suc_eq by auto
    then show ?thesis
      using Suc.hyps(1) [of st "Suc i" removed] Suc.hyps(2) Suc.prems(1) i expire_at_live [OF ci i True]
      by (simp add: rm_loop.simps [of st None now i])
  next
    case False
    define c where "c = ?ac ! i"
    have "c \<in> dom (cookie_heap st)" using i store_okE(2) [OF Suc.prems(1)] by (auto simp: c_def)
    then obtain a d cs where v: "view st a = Some (d, cs)" "c \<in> set cs"
      using store_okE(7) [OF Suc.prems(1)] by blast
    let ?v = "if remove1 c cs = [] then None else Some (d, remove1 c cs)"
    obtain st1 where 1: "expire_at st None now i = Some (True, st1)"
      "store_to st st1 ((view st)(a := ?v)) ((cookie_heap st)(c := None))"
      "all_cookies st1 = dList_remove_fast (all_cookies st) c"
      using expire_at_expired [OF Suc.prems(1) ci i c_def [symmetric] v] False c_def by blast
    have L1: "live (cookie_heap st1) now = ?L"
      using 1(2) False live_drop c_def by (simp add: store_to_def)
    have ac1: "take i (dl_list (all_cookies st1)) = take i ?ac"
      "length (dl_list (all_cookies st1)) = length ?ac - 1"
      using take_remove_fast [OF store_okE(1) [OF Suc.prems(1)] i] by (simp_all add: 1(3) c_def)
    have p1: "\<forall>k < i. live (cookie_heap st1) now (dl_list (all_cookies st1) ! k)"
      unfolding L1 using Suc.prems(3) ac1(1) by (metis nth_take)
    have "store_ok st1" using 1(2) by (simp add: store_to_def)
    have mm: "m = length (dl_list (all_cookies st1)) - i" "i \<le> length (dl_list (all_cookies st1))"
      using Suc.hyps(2) i ac1(2) by linarith+
    obtain r st' where r: "rm_loop st1 None now i (length ?ac - 1) (removed + 1) = Some (removed + 1 + r, st')"
      "store_to st1 st' (\<lambda>b. Option.bind (view st1 b) (purge ?L)) (cookie_heap st1 |` {c. ?L c})"
      "r + length (dl_list (all_cookies st')) = length ?ac - 1"
      using Suc.hyps(1) [OF mm(1) \<open>store_ok st1\<close> mm(2) p1, of "removed + 1"] unfolding L1 ac1(2) by blast
    have V: "Option.bind (view st1 b) (purge ?L) = Option.bind (view st b) (purge ?L)" for b
      using 1(2) v purge_remove1 [of ?L c cs d] False by (auto simp: store_to_def c_def)
    have H: "cookie_heap st1 |` {c. ?L c} = cookie_heap st |` {c. ?L c}"
      using 1(2) False by (auto simp: store_to_def restrict_map_def fun_eq_iff c_def)
    show ?thesis
      using r 1(1,2) i unfolding V H
      by (intro exI [of _ "r + 1"] exI [of _ st']) (simp add: rm_loop.simps [of st None now i] store_to_def)
  qed
qed

lemma rm_expired_all:
  assumes "store_ok st"
  shows "\<exists>r st'. Cookies_rm_expired_cookies st None now = Some (r, st')
    \<and> store_to st st' (\<lambda>a. Option.bind (view st a) (purge (live (cookie_heap st) now)))
        (cookie_heap st |` {c. live (cookie_heap st) now c})
    \<and> r + length (dl_list (all_cookies st')) = length (dl_list (all_cookies st))"
  using rm_loop_all [OF assms, of 0 now 0]
  by (simp add: Cookies_rm_expired_cookies_def cookies_in_def dList_length_def)

lemma rm_loop_node:
  assumes "store_ok st" "view st a = Some (d, cs)" "i \<le> length cs"
    "\<forall>k < i. live (cookie_heap st) now (cs ! k)"
  shows "\<exists>r st'. rm_loop st (Some a) now i (length cs) removed = Some (removed + r, st')
    \<and> store_to st st' ((view st)(a := purge (live (cookie_heap st) now) (d, cs)))
        (cookie_heap st |` {c. c \<in> set cs \<longrightarrow> live (cookie_heap st) now c})
    \<and> r + length (filter (live (cookie_heap st) now) cs) = length cs
    \<and> r + length (dl_list (all_cookies st')) = length (dl_list (all_cookies st))"
  using assms
proof (induction "length cs - i" arbitrary: st cs i removed)
  case 0
  let ?L = "live (cookie_heap st) now"
  have all: "\<forall>c \<in> set cs. ?L c" using "0.hyps" "0.prems"(3,4) by (metis in_set_conv_nth le_antisym diff_is_0_eq)
  then have "cookie_heap st |` {c. c \<in> set cs \<longrightarrow> ?L c} = cookie_heap st"
    by (auto simp: restrict_map_def fun_eq_iff)
  moreover have "(view st)(a := purge ?L (d, cs)) = view st"
    using all "0.prems"(2) by (auto simp: purge_def filter_True fun_eq_iff)
  ultimately show ?case using "0.hyps" "0.prems" all by (simp add: rm_loop.simps store_to_def filter_True)
next
  case (Suc m)
  let ?L = "live (cookie_heap st) now"
  have i: "i < length cs" using Suc.hyps(2) by simp
  obtain n where n: "get_node st a = Some n" "dl_list (dn_cookies n) = cs"
    using Suc.prems(2) by (auto simp: view_Some)
  have ci: "cookies_in st (Some a) = Some (dn_cookies n)" by (simp add: cookies_in_def n)
  show ?case
  proof (cases "?L (cs ! i)")
    case True
    have "\<forall>k < Suc i. ?L (cs ! k)" using True Suc.prems(4) less_Suc_eq by auto
    then show ?thesis
      using Suc.hyps(1) [of cs "Suc i" st removed] Suc.hyps(2) Suc.prems(1,2) i
        expire_at_live [OF ci, of i now] True
      by (simp add: rm_loop.simps [of st "Some a" now i] n(2))
  next
    case False
    define c where "c = cs ! i"
    have cs: "c \<in> set cs" "distinct cs" "\<not> ?L c"
      using i False store_okE(4) [OF Suc.prems(1,2)] by (auto simp: c_def)
    let ?v = "if remove1 c cs = [] then None else Some (d, remove1 c cs)"
    obtain st1 where 1: "expire_at st (Some a) now i = Some (True, st1)"
      "store_to st st1 ((view st)(a := ?v)) ((cookie_heap st)(c := None))"
      "all_cookies st1 = dList_remove_fast (all_cookies st) c"
      using expire_at_expired [OF Suc.prems(1) ci _ _ Suc.prems(2) cs(1,3)] i n(2) c_def by auto
    have "c \<in> set (dl_list (all_cookies st))"
      using store_okE(2,6) [OF Suc.prems(1)] Suc.prems(2) cs(1) by (metis domI)
    then have ac1: "length (dl_list (all_cookies st1)) + 1 = length (dl_list (all_cookies st))"
      unfolding 1(3) using length_pos_if_in_set by (fastforce simp: length_remove_fast)
    have L1: "live (cookie_heap st1) now = ?L"
      using 1(2) cs(3) live_drop by (simp add: store_to_def)
    have rm: "remove1 c cs = take i cs @ drop (Suc i) cs"
      by (rule remove1_split) (use i cs(2) c_def in \<open>auto simp: in_set_conv_nth nth_eq_iff_index_eq\<close>)
    have f1: "filter ?L (remove1 c cs) = filter ?L cs" using cs(3) by (simp add: filter_remove1)
    have H: "(cookie_heap st)(c := None) |` {x. x \<in> set (remove1 c cs) \<longrightarrow> ?L x} =
        cookie_heap st |` {x. x \<in> set cs \<longrightarrow> ?L x}"
      using cs by (auto simp: restrict_map_def fun_eq_iff)
    show ?thesis
    proof (cases "remove1 c cs = []")
      case True
      then have "length cs = 1" "i = 0" using rm i by (cases cs; simp)+
      moreover have "purge ?L (d, cs) = None" using purge_remove1 [of ?L c cs d] cs True by simp
      moreover have "filter ?L cs = []" using f1 True by simp
      moreover have "cs = [c]" using \<open>length cs = 1\<close> cs(1) by (cases cs) auto
      then have "(cookie_heap st)(c := None) = cookie_heap st |` {x. x \<in> set cs \<longrightarrow> ?L x}"
        using cs(3) by (auto simp: restrict_map_def fun_eq_iff)
      ultimately show ?thesis
        using 1(1,2) True ac1
        by (intro exI [of _ 1] exI [of _ st1]) (simp add: rm_loop.simps store_to_def)
    next
      case ne: False
      have ok: "store_ok st1" "view st1 a = Some (d, remove1 c cs)"
        using 1(2) ne by (simp_all add: store_to_def)
      have len: "length (remove1 c cs) = length cs - 1" using cs(1) by (simp add: length_remove1)
      have p: "\<forall>k < i. live (cookie_heap st1) now (remove1 c cs ! k)"
        unfolding L1 rm using Suc.prems(4) i by (simp add: nth_append)
      have mm: "m = length (remove1 c cs) - i" "i \<le> length (remove1 c cs)"
        using Suc.hyps(2) i len by linarith+
      obtain r st' where r: "rm_loop st1 (Some a) now i (length cs - 1) (removed + 1) = Some (removed + 1 + r, st')"
        "store_to st1 st' ((view st1)(a := purge ?L (d, remove1 c cs)))
           (cookie_heap st1 |` {x. x \<in> set (remove1 c cs) \<longrightarrow> ?L x})"
        "r + length (filter ?L (remove1 c cs)) = length cs - 1"
        "r + length (dl_list (all_cookies st')) = length (dl_list (all_cookies st1))"
        using Suc.hyps(1) [OF mm(1) ok mm(2) p, of "removed + 1"] unfolding L1 len by blast
      have V: "purge ?L (d, remove1 c cs) = purge ?L (d, cs)"
        using purge_remove1 [of ?L c cs d] cs ne by simp
      show ?thesis
        using r 1(1,2) i ne ac1 V H f1
        by (intro exI [of _ "r + 1"] exI [of _ st']) (simp add: rm_loop.simps [of st "Some a" now i] store_to_def)
    qed
  qed
qed

lemma rm_expired_node:
  assumes "store_ok st" "view st a = Some (d, cs)"
  shows "\<exists>r st'. Cookies_rm_expired_cookies st (Some a) now = Some (r, st')
    \<and> store_to st st' ((view st)(a := purge (live (cookie_heap st) now) (d, cs)))
        (cookie_heap st |` {c. c \<in> set cs \<longrightarrow> live (cookie_heap st) now c})
    \<and> r + length (filter (live (cookie_heap st) now) cs) = length cs
    \<and> r + length (dl_list (all_cookies st')) = length (dl_list (all_cookies st))"
proof -
  obtain n where "get_node st a = Some n" "dl_list (dn_cookies n) = cs"
    using assms(2) by (auto simp: view_Some)
  then show ?thesis
    using rm_loop_node [OF assms, of 0 now 0]
    by (simp add: Cookies_rm_expired_cookies_def cookies_in_def dList_length_def)
qed

section \<open>The least recently used cookie\<close>

lemma lru_loop_ok:
  assumes "set (lru # cs) \<subseteq> dom h"
  shows "\<exists>x cx. lru_loop h cs lru = Some x \<and> x \<in> set (lru # cs) \<and> h x = Some cx
    \<and> (\<forall>y \<in> set (lru # cs). c_last_used cx \<le> c_last_used (the (h y)))"
  using assms
proof (induction cs arbitrary: lru)
  case Nil
  then show ?case by auto
next
  case (Cons cur cs)
  obtain x y where xy: "h cur = Some x" "h lru = Some y" using Cons.prems by auto
  let ?l = "if c_last_used x < c_last_used y then cur else lru"
  have "set (?l # cs) \<subseteq> dom h" using Cons.prems by auto
  from Cons.IH [OF this] obtain z cz where z: "lru_loop h cs ?l = Some z" "z \<in> set (?l # cs)" "h z = Some cz"
    "\<forall>y \<in> set (?l # cs). c_last_used cz \<le> c_last_used (the (h y))" by blast
  moreover have "c_last_used cz \<le> c_last_used x" "c_last_used cz \<le> c_last_used y"
    using z(4) xy by (auto split: if_splits)
  ultimately show ?case using xy by (auto split: if_splits)
qed

lemma Cookies_get_LRU_ok:
  assumes "dl_list l \<noteq> []" "set (dl_list l) \<subseteq> dom h"
  shows "\<exists>x cx. Cookies_get_LRU h l = Some x \<and> x \<in> set (dl_list l) \<and> h x = Some cx
    \<and> (\<forall>y \<in> set (dl_list l). c_last_used cx \<le> c_last_used (the (h y)))"
  using assms lru_loop_ok [of "hd (dl_list l)" "tl (dl_list l)" h]
  by (cases "dl_list l") (simp_all add: Cookies_get_LRU_def)

end
