(* ===== verification/Cookies_Add.thy ===== *)
theory Cookies_Add
  imports Cookies_Store
begin

text \<open>
  The cookie server, fourth part: \<open>Cookies_add_cookie\<close> of \<^verbatim>\<open>dillo/dpi/cookies.c\<close>, with the limits
  of 20 cookies per domain and 1200 in all, and the cookie jar it implements: a map from the key of a
  cookie (domain without case, host-only flag, name, path) to the cookie.
\<close>

lemma drop_cookie_shrinks:
  assumes "get_node st a = Some n" "c \<in> set (dl_list (dn_cookies n))" "drop_cookie st a c = Some st'"
  shows "\<exists>n'. get_node st' a = Some n' \<and> length (dl_list (dn_cookies n')) < length (dl_list (dn_cookies n))"
proof -
  have "get_node st' a = Some (n\<lparr>dn_cookies := dList_remove (dn_cookies n) c\<rparr>)"
    using assms(1,3) by (auto simp: drop_cookie_def Cookies_free_cookie_def get_node_put Let_def split: Option.bind_splits)
  moreover have "length (remove1 c (dl_list (dn_cookies n))) < length (dl_list (dn_cookies n))"
    using assms(2) length_pos_if_in_set [OF assms(2)] by (simp add: length_remove1)
  ultimately show ?thesis by simp
qed

text \<open>
  \<open>while ((c = dList_find_custom(domain_cookies, cookie, Cookies_cmp)))\<close>: the cookies of the list
  that compare equal go; the list must hold no freed cookie.
\<close>

definition find_same :: "store \<Rightarrow> domain_node \<Rightarrow> cookie_data \<Rightarrow> nat option" where
  "find_same st n cookie =
     dList_find_custom (Some (dn_cookies n)) cookie (\<lambda>c k. Cookies_cmp (the (cookie_heap st c)) k)"

lemma find_same_in: "find_same st n cookie = Some c \<Longrightarrow>
    c \<in> set (dl_list (dn_cookies n)) \<and> Cookies_cmp (the (cookie_heap st c)) cookie = 0"
  unfolding find_same_def dList_find_custom_def option.case by (rule find_custom_loop_Some)

function remove_same :: "store \<Rightarrow> nat \<Rightarrow> cookie_data \<Rightarrow> store option" where
  "remove_same st a cookie =
     (case get_node st a of
        None \<Rightarrow> None
      | Some n \<Rightarrow>
          if list_all (\<lambda>c. cookie_heap st c \<noteq> None) (dl_list (dn_cookies n)) then
            (case find_same st n cookie of
               None \<Rightarrow> Some st
             | Some c \<Rightarrow> (case drop_cookie st a c of
                 None \<Rightarrow> None
               | Some st' \<Rightarrow> remove_same st' a cookie))
          else None)"
  by pat_completeness auto
termination
proof (relation "measure (\<lambda>(st, a, cookie). case get_node st a of None \<Rightarrow> 0
    | Some n \<Rightarrow> length (dl_list (dn_cookies n)))", goal_cases)
  case (2 st a cookie n c st')
  then show ?case using drop_cookie_shrinks [OF 2(1) _ 2(4)] find_same_in [OF 2(3)] by auto
qed simp

declare remove_same.simps [simp del]

text \<open>Room in the list of the domain, and in the list of all cookies: the state and the new value of
  \<open>node\<close> (the pointers \<open>node\<close> and \<open>domain_cookies\<close> are null together).\<close>

definition room_in_domain :: "store \<Rightarrow> nat option \<Rightarrow> string \<Rightarrow> int \<Rightarrow> (store \<times> nat option) option" where
  "room_in_domain st node domain now =
     (case node of
        None \<Rightarrow> Some (st, None)
      | Some a \<Rightarrow>
          do {
            n \<leftarrow> get_node st a;
            if MAX_DOMAIN_COOKIES \<le> dList_length (Some (dn_cookies n)) then
              do {
                (removed, st1) \<leftarrow> Cookies_rm_expired_cookies st (Some a) now;
                if removed = 0 then map_option (\<lambda>st2. (st2, Some a)) (Cookies_too_many st1 (Some a))
                else if MAX_DOMAIN_COOKIES \<le> removed then Some (st1, find_node st1 domain)
                else Some (st1, Some a)
              }
            else Some (st, Some a)
          })"

definition room_in_total :: "store \<Rightarrow> nat option \<Rightarrow> string \<Rightarrow> int \<Rightarrow> (store \<times> nat option) option" where
  "room_in_total st node domain now =
     (if MAX_TOTAL_COOKIES \<le> dList_length (Some (all_cookies st)) then
        do {
          (removed, st1) \<leftarrow> Cookies_rm_expired_cookies st None now;
          if removed = 0 then map_option (\<lambda>st2. (st2, node)) (Cookies_too_many st1 None)
          else if node \<noteq> None then Some (st1, find_node st1 domain)
          else Some (st1, node)
        }
      else Some (st, node))"

text \<open>The addition proper, to a new node or to the list of \<open>node\<close>.\<close>

definition insert_cookie :: "store \<Rightarrow> nat option \<Rightarrow> cookie_data \<Rightarrow> string \<Rightarrow> (store \<times> nat option) option" where
  "insert_cookie st node cookie domain =
     (let c = next_address st;
          st1 = st\<lparr>cookie_heap := (cookie_heap st)(c \<mapsto> cookie\<lparr>c_last_used := cookies_use_counter st\<rparr>),
                   cookies_use_counter := cookies_use_counter st + 1,
                   all_cookies := dList_append (all_cookies st) c,
                   next_address := next_address st + 2\<rparr>
      in case node of
           None \<Rightarrow>
             (let n = \<lparr>dn_id = c + 1, dn_domain = domain,
                       dn_cookies = dList_append \<lparr>dl_sz = 5, dl_list = []\<rparr> c\<rparr>
              in Some (st1\<lparr>domains := dList_insert_sorted (domains st1) n Domain_node_cmp\<rparr>, Some (c + 1)))
         | Some a \<Rightarrow>
             do { n \<leftarrow> get_node st1 a; Some (put_cookies st1 a (dList_append (dn_cookies n) c), Some a) })"

definition Cookies_add_cookie :: "store \<Rightarrow> cookie_data \<Rightarrow> int \<Rightarrow> store option" where
  "Cookies_add_cookie st cookie now =
     do {
       domain \<leftarrow> c_domain cookie;
       let node = find_node st domain;
       st1 \<leftarrow> (case node of None \<Rightarrow> Some st | Some a \<Rightarrow> remove_same st a cookie);
       (st4, node4) \<leftarrow>
         (if c_expires_at cookie = -1 \<or> c_expires_at cookie - now \<le> 0 then Some (st1, node)
          else do {
            (st2, node2) \<leftarrow> room_in_domain st1 node domain now;
            (st3, node3) \<leftarrow> room_in_total st2 node2 domain now;
            insert_cookie st3 node3 cookie domain
          });
       (case node4 of None \<Rightarrow> Some st4 | Some a \<Rightarrow> delete_if_empty st4 a)
     }"

section \<open>The cookie jar\<close>

type_synonym cookie_key = "int list \<times> bool \<times> string \<times> string"

definition cookie_key :: "cookie_data \<Rightarrow> cookie_key" where
  "cookie_key cd = (map tolow (the (c_domain cd)), c_host_only cd, c_name cd, the (c_path cd))"

definition jar :: "store \<Rightarrow> cookie_key \<Rightarrow> cookie_data option" where
  "jar st = map_of (map (\<lambda>c. (cookie_key (the (cookie_heap st c)), the (cookie_heap st c)))
     (dl_list (all_cookies st)))"

text \<open>What validation and parsing ensure of a cookie.\<close>

definition cookie_wf :: "cookie_data \<Rightarrow> bool" where
  "cookie_wf cd \<longleftrightarrow> (\<exists>d. c_domain cd = Some d \<and> cstr d) \<and> (\<exists>p. c_path cd = Some p \<and> cstr p)
     \<and> cstr (c_name cd)"

definition heap_wf :: "(nat \<Rightarrow> cookie_data option) \<Rightarrow> bool" where
  "heap_wf h \<longleftrightarrow> (\<forall>cd \<in> ran h. cookie_wf cd) \<and> inj_on (\<lambda>c. cookie_key (the (h c))) (dom h)"

definition cookies_inv :: "store \<Rightarrow> bool" where
  "cookies_inv st \<longleftrightarrow> store_ok st \<and> heap_wf (cookie_heap st)
     \<and> (\<forall>a d cs. view st a = Some (d, cs) \<longrightarrow> cs \<noteq> [] \<and> length cs \<le> MAX_DOMAIN_COOKIES)
     \<and> length (dl_list (all_cookies st)) \<le> MAX_TOTAL_COOKIES"

lemma cookies_inv_init: "cookies_inv store_init"
  by (simp add: cookies_inv_def store_init_def store_ok_def nodes_ok_def shape_ok_def heap_wf_def
      view_def get_node_def cmp_sorted_def MAX_TOTAL_COOKIES_def)

lemma cookie_wf_last_used [simp]: "cookie_wf (cd\<lparr>c_last_used := u\<rparr>) = cookie_wf cd"
  by (simp add: cookie_wf_def)

lemma cookie_key_last_used [simp]: "cookie_key (cd\<lparr>c_last_used := u\<rparr>) = cookie_key cd"
  by (simp add: cookie_key_def)

lemma Cookies_cmp_key:
  assumes "cookie_wf a" "cookie_wf b" "ieq (the (c_domain a)) (the (c_domain b))"
  shows "Cookies_cmp a b = 0 \<longleftrightarrow> cookie_key a = cookie_key b"
  using assms by (auto simp: Cookies_cmp_def cookie_wf_def cookie_key_def strcmp_eq_0 ieq_def)

lemma jar_Some:
  assumes "store_ok st" "heap_wf (cookie_heap st)"
  shows "jar st k = Some cd \<longleftrightarrow> (\<exists>c. cookie_heap st c = Some cd \<and> cookie_key cd = k)"
proof -
  let ?h = "cookie_heap st" and ?ac = "dl_list (all_cookies st)"
  have inj: "inj_on (\<lambda>c. cookie_key (the (?h c))) (set ?ac)"
    using assms store_okE(2) [OF assms(1)] by (simp add: heap_wf_def)
  have d: "distinct (map fst (map (\<lambda>c. (cookie_key (the (?h c)), the (?h c))) ?ac))"
    using inj store_okE(1) [OF assms(1)] by (simp add: distinct_map comp_def)
  have "jar st k = Some cd \<longleftrightarrow> (k, cd) \<in> set (map (\<lambda>c. (cookie_key (the (?h c)), the (?h c))) ?ac)"
    unfolding jar_def by (rule map_of_eq_Some_iff [OF d])
  also have "\<dots> \<longleftrightarrow> (\<exists>c \<in> dom ?h. k = cookie_key (the (?h c)) \<and> cd = the (?h c))"
    using store_okE(2) [OF assms(1)] by (simp add: image_iff)
  also have "\<dots> \<longleftrightarrow> (\<exists>c. ?h c = Some cd \<and> cookie_key cd = k)"
    by (metis domD domI option.sel)
  finally show ?thesis .
qed

lemma jar_eqI:
  assumes "\<And>cd. jar st k = Some cd \<longleftrightarrow> x = Some cd"
  shows "jar st k = x"
  using assms by (cases x; cases "jar st k") auto

section \<open>Cookies with the same key\<close>

lemma remove_same_ok:
  assumes "store_ok st" "view st a = Some (d, cs)"
    "K = (\<lambda>c. Cookies_cmp (the (cookie_heap st c)) cookie \<noteq> 0)"
  shows "\<exists>st'. remove_same st a cookie = Some st'
    \<and> store_to st st' ((view st)(a \<mapsto> (d, filter K cs))) (cookie_heap st |` {c. c \<in> set cs \<longrightarrow> K c})"
  using assms
proof (induction "length cs" arbitrary: st cs K rule: less_induct)
  case less
  obtain n where n: "get_node st a = Some n" "dn_domain n = d" "dl_list (dn_cookies n) = cs"
    using less.prems(2) by (auto simp: view_Some)
  have "\<forall>c \<in> set cs. cookie_heap st c \<noteq> None"
    using store_okE(6) [OF less.prems(1,2)] by force
  then have all: "list_all (\<lambda>c. cookie_heap st c \<noteq> None) (dl_list (dn_cookies n))"
    by (simp add: list_all_iff n(3))
  note u = remove_same.simps [of st a cookie, unfolded n(1) option.case if_P [OF all]]
  show ?case
  proof (cases "find_same st n cookie")
    case None
    then have k: "\<forall>c \<in> set cs. K c"
      by (simp add: find_same_def dList_find_custom_def find_custom_loop_None n(3) less.prems(3))
    then have "cookie_heap st |` {c. c \<in> set cs \<longrightarrow> K c} = cookie_heap st"
      by (auto simp: restrict_map_def fun_eq_iff)
    moreover have "(view st)(a \<mapsto> (d, filter K cs)) = view st"
      using k less.prems(2) by (auto simp: filter_True fun_eq_iff)
    ultimately show ?thesis using less.prems(1) None by (simp add: u store_to_def)
  next
    case (Some c)
    have c: "c \<in> set cs" "\<not> K c" using find_same_in [OF Some] by (simp_all add: n(3) less.prems(3))
    obtain st1 where 1: "drop_cookie st a c = Some st1"
      "store_to st st1 ((view st)(a \<mapsto> (d, remove1 c cs))) ((cookie_heap st)(c := None))"
      using drop_cookie_ok [OF less.prems(1,2) c(1)] by blast
    define K1 where "K1 = (\<lambda>c. Cookies_cmp (the (cookie_heap st1 c)) cookie \<noteq> 0)"
    have dist: "distinct cs" using store_okE(4) [OF less.prems(1,2)] by simp
    have h1: "cookie_heap st1 = (cookie_heap st)(c := None)" using 1(2) by (simp add: store_to_def)
    have K: "K1 x = K x" if "x \<noteq> c" for x using that by (simp add: K1_def less.prems(3) h1)
    have f: "filter K1 (remove1 c cs) = filter K cs"
    proof -
      have "filter K1 (remove1 c cs) = filter K (remove1 c cs)"
        using K dist by (auto intro!: filter_cong)
      then show ?thesis using c(2) by (simp add: filter_remove1)
    qed
    have H: "cookie_heap st1 |` {x. x \<in> set (remove1 c cs) \<longrightarrow> K1 x} =
        cookie_heap st |` {x. x \<in> set cs \<longrightarrow> K x}"
      using c dist K by (auto simp: h1 restrict_map_def fun_eq_iff)
    have "store_ok st1" "view st1 a = Some (d, remove1 c cs)" "length (remove1 c cs) < length cs"
      using 1(2) c(1) length_pos_if_in_set [OF c(1)] by (simp_all add: store_to_def length_remove1)
    from less.hyps [OF this(3,1,2) K1_def] obtain st' where "remove_same st1 a cookie = Some st'"
      "store_to st1 st' ((view st1)(a \<mapsto> (d, filter K1 (remove1 c cs)))) (cookie_heap st1 |` {x. x \<in> set (remove1 c cs) \<longrightarrow> K1 x})"
      by blast
    then show ?thesis unfolding f H using 1 by (simp add: u Some store_to_def)
  qed
qed

lemma length_all_cookies: "store_ok st \<Longrightarrow> length (dl_list (all_cookies st)) = card (dom (cookie_heap st))"
  using store_okE(1,2) [of st] by (metis distinct_card)

lemma finite_heap: "store_ok st \<Longrightarrow> finite (dom (cookie_heap st))"
  using store_okE(2) [of st] by (metis List.finite_set)

lemma heap_wf_mono: "heap_wf h \<Longrightarrow> h' \<subseteq>\<^sub>m h \<Longrightarrow> heap_wf h'"
  unfolding heap_wf_def
proof (intro conjI ballI)
  assume h: "(\<forall>cd \<in> ran h. cookie_wf cd) \<and> inj_on (\<lambda>c. cookie_key (the (h c))) (dom h)" and le: "h' \<subseteq>\<^sub>m h"
  then have eq: "h c = h' c" if "c \<in> dom h'" for c using that by (auto simp: map_le_def)
  show "cookie_wf cd" if "cd \<in> ran h'" for cd
  proof -
    obtain c where c: "h' c = Some cd" using \<open>cd \<in> ran h'\<close> by (auto simp: ran_def)
    then have "h c = Some cd" using eq [of c] by force
    then have "cd \<in> ran h" by (rule ranI)
    then show ?thesis using h by blast
  qed
  show "inj_on (\<lambda>c. cookie_key (the (h' c))) (dom h')"
  proof (rule inj_onI)
    fix x y
    assume xy: "x \<in> dom h'" "y \<in> dom h'" "cookie_key (the (h' x)) = cookie_key (the (h' y))"
    note e = eq [OF xy(1)] eq [OF xy(2)]
    have "x \<in> dom h" "y \<in> dom h" using xy(1,2) by (simp_all add: domIff e)
    then show "x = y" using inj_onD [OF h [THEN conjunct2]] xy(3) by (simp add: e)
  qed
qed

lemma heap_restrict_le: "h |` A \<subseteq>\<^sub>m h"
  by (simp add: map_le_def)

text \<open>The keys that a smaller heap keeps.\<close>

lemma jar_mono:
  assumes "store_ok st" "heap_wf (cookie_heap st)" "store_ok st'" "cookie_heap st' \<subseteq>\<^sub>m cookie_heap st"
  shows "jar st' k = jar st k \<or> jar st' k = None"
proof (cases "jar st' k")
  case (Some cd)
  then obtain c where "cookie_heap st' c = Some cd" "cookie_key cd = k"
    using jar_Some [OF assms(3) heap_wf_mono [OF assms(2,4)]] by blast
  then have "cookie_heap st c = Some cd" using assms(4) by (metis domI map_le_def)
  then show ?thesis using jar_Some [OF assms(1,2)] \<open>cookie_key cd = k\<close> Some by metis
qed simp

section \<open>Making room\<close>

text \<open>The nodes of a state that come from those of another one.\<close>

definition subview :: "store \<Rightarrow> store \<Rightarrow> bool" where
  "subview st' st \<longleftrightarrow> (\<forall>b d cs'. view st' b = Some (d, cs') \<longrightarrow>
     (\<exists>cs. view st b = Some (d, cs) \<and> length cs' \<le> length cs))"

lemma subviewD: "subview st' st \<Longrightarrow> view st' b = Some (d, cs') \<Longrightarrow>
    \<exists>cs. view st b = Some (d, cs) \<and> length cs' \<le> length cs"
  by (simp add: subview_def)

lemma find_node_sub:
  assumes "store_ok st" "store_ok st'" "subview st' st" "cstr dd"
  shows "find_node st' dd = (case find_node st dd of None \<Rightarrow> None
     | Some a \<Rightarrow> if view st' a = None then None else Some a)"
proof (cases "find_node st' dd")
  case (Some a)
  then obtain d cs' where v': "view st' a = Some (d, cs')" "ieq d dd"
    using find_node_iff [OF assms(2,4)] by blast
  then obtain cs where "view st a = Some (d, cs)" using subviewD [OF assms(3)] by blast
  then have "find_node st dd = Some a" using find_node_iff [OF assms(1,4)] v'(2) by blast
  then show ?thesis using Some v' by simp
next
  case None
  show ?thesis
  proof (cases "find_node st dd")
    case (Some a)
    then obtain d cs where v: "view st a = Some (d, cs)" "ieq d dd"
      using find_node_iff [OF assms(1,4)] by blast
    have "view st' a = None"
    proof (rule ccontr)
      assume "view st' a \<noteq> None"
      then obtain d' cs' where v': "view st' a = Some (d', cs')" by auto
      then have "d' = d" using subviewD [OF assms(3) v'] v(1) by auto
      then have "find_node st' dd = Some a" using find_node_iff [OF assms(2,4)] v(2) v' by blast
      with None show False by simp
    qed
    then show ?thesis using None Some by simp
  qed (simp add: None)
qed

text \<open>Only the node the cookie is for may be empty, and no node is over the limit.\<close>

definition lens_ok :: "store \<Rightarrow> nat option \<Rightarrow> bool" where
  "lens_ok st node \<longleftrightarrow> (\<forall>b d cs. view st b = Some (d, cs) \<longrightarrow>
     (Some b \<noteq> node \<longrightarrow> cs \<noteq> []) \<and> length cs \<le> MAX_DOMAIN_COOKIES)"

lemma lens_okD: "lens_ok st node \<Longrightarrow> view st b = Some (d, cs) \<Longrightarrow>
    (Some b \<noteq> node \<longrightarrow> cs \<noteq> []) \<and> length cs \<le> MAX_DOMAIN_COOKIES"
  unfolding lens_ok_def by blast

lemma too_many_ok:
  assumes "store_ok st" "cookies_in st node = Some l" "dl_list l \<noteq> []" "set (dl_list l) \<subseteq> dom (cookie_heap st)"
  shows "\<exists>x cx a d cs. Cookies_get_LRU (cookie_heap st) l = Some x \<and> x \<in> set (dl_list l)
    \<and> cookie_heap st x = Some cx
    \<and> (\<forall>y \<in> set (dl_list l). c_last_used cx \<le> c_last_used (the (cookie_heap st y)))
    \<and> view st a = Some (d, cs) \<and> x \<in> set cs
    \<and> (\<exists>st'. (node = None \<or> node = Some a \<longrightarrow> Cookies_too_many st node = Some st')
        \<and> store_to st st' ((view st)(a := if remove1 x cs = [] then None else Some (d, remove1 x cs)))
            ((cookie_heap st)(x := None)))"
proof -
  obtain x cx where x: "Cookies_get_LRU (cookie_heap st) l = Some x" "x \<in> set (dl_list l)"
    "cookie_heap st x = Some cx" "\<forall>y \<in> set (dl_list l). c_last_used cx \<le> c_last_used (the (cookie_heap st y))"
    using Cookies_get_LRU_ok [OF assms(3,4)] by blast
  obtain a d cs where v: "view st a = Some (d, cs)" "x \<in> set cs"
    using store_okE(7) [OF assms(1)] x(3) by blast
  obtain dd where dd: "c_domain cx = Some dd" "cstr dd" "ieq dd d"
    using store_okE(6) [OF assms(1) v] x(3) by auto
  have f: "find_node st dd = Some a" using find_node_iff [OF assms(1) dd(2)] v(1) ieq_sym [OF dd(3)] by blast
  obtain st1 st2 where st2: "drop_cookie st a x = Some st1" "delete_if_empty st1 a = Some st2"
    "store_to st st2 ((view st)(a := if remove1 x cs = [] then None else Some (d, remove1 x cs)))
        ((cookie_heap st)(x := None))"
    using drop_delete_ok [OF assms(1) v] by blast
  have "Cookies_too_many st node = Some st2" if "node = None \<or> node = Some a"
    using that assms(2) x(1,3) dd(1) f st2 by (auto simp: Cookies_too_many_def)
  then show ?thesis using x v st2(3) by blast
qed

lemma room_in_domain_ok:
  assumes "store_ok st" "cstr dd" "node = find_node st dd" "lens_ok st node"
  shows "\<exists>st' node'. room_in_domain st node dd now = Some (st', node')
    \<and> store_ok st' \<and> cookie_heap st' \<subseteq>\<^sub>m cookie_heap st \<and> node' = find_node st' dd \<and> lens_ok st' node'
    \<and> (\<forall>a d cs. node' = Some a \<longrightarrow> view st' a = Some (d, cs) \<longrightarrow> length cs < MAX_DOMAIN_COOKIES)
    \<and> cookies_use_counter st' = cookies_use_counter st \<and> next_address st' = next_address st
    \<and> (st' = st \<or> length (dl_list (all_cookies st')) < length (dl_list (all_cookies st)))
    \<and> ((\<forall>a d cs. node = Some a \<longrightarrow> view st a = Some (d, cs) \<longrightarrow> length cs < MAX_DOMAIN_COOKIES) \<longrightarrow> st' = st)"
proof (cases node)
  case None
  then show ?thesis using assms by (simp add: room_in_domain_def)
next
  case (Some a)
  then obtain d cs where v: "view st a = Some (d, cs)" "ieq d dd"
    using find_node_iff [OF assms(1,2)] assms(3) by metis
  then obtain n where n: "get_node st a = Some n" "dl_list (dn_cookies n) = cs" by (auto simp: view_Some)
  show ?thesis
  proof (cases "length cs < MAX_DOMAIN_COOKIES")
    case True
    then have "room_in_domain st node dd now = Some (st, node)"
      using n by (simp add: room_in_domain_def dList_length_def Some)
    moreover have "\<forall>b d' cs'. node = Some b \<longrightarrow> view st b = Some (d', cs') \<longrightarrow> length cs' < MAX_DOMAIN_COOKIES"
      using True v(1) Some by auto
    ultimately show ?thesis
      using assms(1,4) assms(3) by (intro exI [of _ st] exI [of _ node]) (metis map_le_refl)
  next
    case False
    let ?L = "live (cookie_heap st) now"
    obtain r st1 where r: "Cookies_rm_expired_cookies st (Some a) now = Some (r, st1)"
      "store_to st st1 ((view st)(a := purge ?L (d, cs))) (cookie_heap st |` {c. c \<in> set cs \<longrightarrow> ?L c})"
      "r + length (filter ?L cs) = length cs"
      "r + length (dl_list (all_cookies st1)) = length (dl_list (all_cookies st))"
      using rm_expired_node [OF assms(1) v(1)] by blast
    have len: "length cs = MAX_DOMAIN_COOKIES" using False lens_okD [OF assms(4) v(1)] by simp
    have ne: "cs \<noteq> []" using len by (auto simp: MAX_DOMAIN_COOKIES_def)
    have ok1: "store_ok st1" "view st1 = (view st)(a := purge ?L (d, cs))"
      "cookie_heap st1 \<subseteq>\<^sub>m cookie_heap st" "cookies_use_counter st1 = cookies_use_counter st"
      "next_address st1 = next_address st"
      using r(2) by (simp_all add: store_to_def heap_restrict_le)
    have pl: "length cs' \<le> length cs" "d' = d" "cs' = filter ?L cs"
      if "purge ?L (d, cs) = Some (d', cs')" for d' cs'
      using that by (auto simp: purge_def split: if_splits)
    have sub1: "subview st1 st"
      unfolding subview_def ok1(2) using v(1) pl by (auto split: if_splits)
    have u: "room_in_domain st node dd now =
        (if r = 0 then map_option (\<lambda>st2. (st2, Some a)) (Cookies_too_many st1 (Some a))
         else if MAX_DOMAIN_COOKIES \<le> r then Some (st1, find_node st1 dd) else Some (st1, Some a))"
      using Some n r(1) len by (simp add: room_in_domain_def dList_length_def)
    have fn: "find_node st1 dd = (if purge ?L (d, cs) = None then None else Some a)"
      using find_node_sub [OF assms(1) ok1(1) sub1 assms(2)] assms(3) [symmetric] Some ok1(2) by simp
    have lens1: "lens_ok st1 (Some a)"
      unfolding lens_ok_def ok1(2) using lens_okD [OF assms(4)] pl len by (auto simp: Some split: if_splits)
    show ?thesis
    proof (cases "r = 0")
      case True
      then have fL: "filter ?L cs = cs"
        using r(3) by (metis add_0 length_filter_less filter_True filter_id_conv nat_less_le)
      then have v1: "view st1 = view st" "view st1 a = Some (d, cs)"
        using v(1) ne by (auto simp: ok1(2) purge_def)
      then obtain n1 where n1: "get_node st1 a = Some n1" "dl_list (dn_cookies n1) = cs"
        using view_Some [of st1 a d cs] by blast
      have ci: "cookies_in st1 (Some a) = Some (dn_cookies n1)" by (simp add: cookies_in_def n1)
      have dom: "set (dl_list (dn_cookies n1)) \<subseteq> dom (cookie_heap st1)"
        using store_okE(6) [OF ok1(1) v1(2)] n1(2) by blast
      have nel: "dl_list (dn_cookies n1) \<noteq> []" using ne n1(2) by simp
      obtain x b d2 cs2 st2 where x: "x \<in> set cs" "view st1 b = Some (d2, cs2)" "x \<in> set cs2"
        "Some a = None \<or> Some a = Some b \<longrightarrow> Cookies_too_many st1 (Some a) = Some st2"
        "store_to st1 st2 ((view st1)(b := if remove1 x cs2 = [] then None else Some (d2, remove1 x cs2)))
            ((cookie_heap st1)(x := None))"
        using too_many_ok [OF ok1(1) ci nel dom] unfolding n1(2) by blast
      have ab: "b = a" using view_disjoint [OF ok1(1) x(2) v1(2) x(3,1)] .
      then have cs2: "cs2 = cs" "d2 = d" using x(2) v1(2) by auto
      have l19: "length (remove1 x cs) = 19" using x(1) len by (simp add: length_remove1 MAX_DOMAIN_COOKIES_def)
      then have rne: "remove1 x cs \<noteq> []" by auto
      have ok2: "store_ok st2" "view st2 = (view st1)(a \<mapsto> (d, remove1 x cs))"
        "cookie_heap st2 = (cookie_heap st1)(x := None)"
        using x(5) rne by (simp_all add: store_to_def ab cs2)
      have sub2: "subview st2 st"
        unfolding subview_def ok2(2) v1(1) using v(1) l19 len by (auto split: if_splits simp: MAX_DOMAIN_COOKIES_def)
      have "find_node st2 dd = Some a"
        using find_node_sub [OF assms(1) ok2(1) sub2 assms(2)] assms(3) [symmetric] Some ok2(2) by simp
      moreover have "lens_ok st2 (Some a)"
        unfolding lens_ok_def ok2(2) v1(1) using lens_okD [OF assms(4)] l19 Some
        by (auto split: if_splits simp: MAX_DOMAIN_COOKIES_def)
      moreover have "cookie_heap st2 \<subseteq>\<^sub>m cookie_heap st"
        using ok1(3) unfolding ok2(3) by (auto simp: map_le_def)
      moreover have "length (dl_list (all_cookies st2)) < length (dl_list (all_cookies st))"
      proof -
        have "x \<in> dom (cookie_heap st1)" using x(1) dom n1(2) by auto
        then have "card (dom (cookie_heap st2)) < card (dom (cookie_heap st1))"
          unfolding ok2(3) using card_Diff1_less [OF finite_heap [OF ok1(1)]] by simp
        then show ?thesis using True r(4) length_all_cookies ok1(1) ok2(1) by simp
      qed
      ultimately show ?thesis
        using u True x(4,5) ab ok1 ok2 l19 v(1) Some False
        by (intro exI [of _ st2] exI [of _ "Some a"]) (auto simp: store_to_def MAX_DOMAIN_COOKIES_def cs2)
    next
      case rpos: False
      have node': "room_in_domain st node dd now = Some (st1, find_node st1 dd)"
      proof (cases "purge ?L (d, cs) = None")
        case True
        then have "r = length cs" using r(3) by (auto simp: purge_def split: if_splits)
        then show ?thesis using u rpos len by simp
      next
        case False
        then have "find_node st1 dd = Some a" using fn by (simp only: if_False)
        then show ?thesis using u rpos by simp
      qed
      have "length (filter ?L cs) < MAX_DOMAIN_COOKIES" using r(3) rpos len by simp
      then have lt: "\<forall>b d' cs'. find_node st1 dd = Some b \<longrightarrow> view st1 b = Some (d', cs') \<longrightarrow> length cs' < MAX_DOMAIN_COOKIES"
        using fn pl by (auto simp: ok1(2) split: if_splits)
      have "lens_ok st1 (find_node st1 dd)"
      proof (cases "purge ?L (d, cs) = None")
        case True
        then have "view st1 a = None" by (simp add: ok1(2))
        then show ?thesis using lens1 unfolding lens_ok_def by (metis option.distinct(1) option.inject)
      next
        case False
        then have "find_node st1 dd = Some a" using fn by (simp only: if_False)
        then show ?thesis using lens1 by simp
      qed
      then show ?thesis
        using node' lt ok1 r(4) rpos v(1) Some False
        by (intro exI [of _ st1] exI [of _ "find_node st1 dd"]) auto
    qed
  qed
qed

lemma lens_ok_None: "lens_ok st node \<Longrightarrow> (\<And>a. node = Some a \<Longrightarrow> view st a = None) \<Longrightarrow> lens_ok st None"
  unfolding lens_ok_def by (metis option.distinct(1) not_Some_eq)

lemma room_in_total_ok:
  assumes "store_ok st" "cstr dd" "node = find_node st dd" "lens_ok st node"
    "length (dl_list (all_cookies st)) \<le> MAX_TOTAL_COOKIES"
    "\<forall>a d cs. node = Some a \<longrightarrow> view st a = Some (d, cs) \<longrightarrow> length cs < MAX_DOMAIN_COOKIES"
    "\<forall>a d cs. MAX_TOTAL_COOKIES \<le> length (dl_list (all_cookies st)) \<longrightarrow> node = Some a \<longrightarrow>
       view st a = Some (d, cs) \<longrightarrow> 1 < length cs"
  shows "\<exists>st' node'. room_in_total st node dd now = Some (st', node')
    \<and> store_ok st' \<and> cookie_heap st' \<subseteq>\<^sub>m cookie_heap st \<and> node' = find_node st' dd \<and> lens_ok st' node'
    \<and> (\<forall>a d cs. node' = Some a \<longrightarrow> view st' a = Some (d, cs) \<longrightarrow> length cs < MAX_DOMAIN_COOKIES)
    \<and> length (dl_list (all_cookies st')) < MAX_TOTAL_COOKIES
    \<and> cookies_use_counter st' = cookies_use_counter st \<and> next_address st' = next_address st
    \<and> (length (dl_list (all_cookies st)) < MAX_TOTAL_COOKIES \<longrightarrow> st' = st)"
proof (cases "length (dl_list (all_cookies st)) < MAX_TOTAL_COOKIES")
  case True
  then have "room_in_total st node dd now = Some (st, node)"
    by (simp add: room_in_total_def dList_length_def)
  then show ?thesis using assms True by (metis map_le_refl)
next
  case False
  let ?L = "live (cookie_heap st) now"
  have len: "length (dl_list (all_cookies st)) = MAX_TOTAL_COOKIES" using False assms(5) by simp
  obtain r st1 where r: "Cookies_rm_expired_cookies st None now = Some (r, st1)"
    "store_to st st1 (\<lambda>a. Option.bind (view st a) (purge ?L)) (cookie_heap st |` {c. ?L c})"
    "r + length (dl_list (all_cookies st1)) = length (dl_list (all_cookies st))"
    using rm_expired_all [OF assms(1)] by blast
  have ok1: "store_ok st1" "view st1 = (\<lambda>a. Option.bind (view st a) (purge ?L))"
    "cookie_heap st1 = cookie_heap st |` {c. ?L c}" "cookies_use_counter st1 = cookies_use_counter st"
    "next_address st1 = next_address st"
    using r(2) by (simp_all add: store_to_def)
  have v1: "\<exists>cs. view st b = Some (d, cs) \<and> cs' = filter ?L cs \<and> (cs = [] \<or> cs' \<noteq> [])"
    if "view st1 b = Some (d, cs')" for b d cs'
    using that by (cases "view st b") (auto simp: ok1(2) purge_def split: if_splits)
  have sub1: "subview st1 st"
    unfolding subview_def using v1 by (metis length_filter_le)
  have lens1: "lens_ok st1 node"
    unfolding lens_ok_def
  proof (intro allI impI conjI)
    fix b d cs'
    assume v: "view st1 b = Some (d, cs')"
    then obtain cs where cs: "view st b = Some (d, cs)" "cs' = filter ?L cs" "cs = [] \<or> cs' \<noteq> []" using v1 by blast
    then show "length cs' \<le> MAX_DOMAIN_COOKIES" using lens_okD [OF assms(4) cs(1)] by (meson length_filter_le le_trans)
    assume "Some b \<noteq> node"
    then show "cs' \<noteq> []" using lens_okD [OF assms(4) cs(1)] cs(3) by blast
  qed
  have u: "room_in_total st node dd now =
      (if r = 0 then map_option (\<lambda>st2. (st2, node)) (Cookies_too_many st1 None)
       else if node \<noteq> None then Some (st1, find_node st1 dd) else Some (st1, node))"
    using r(1) False by (simp add: room_in_total_def dList_length_def)
  note fn = find_node_sub [OF assms(1) ok1(1) sub1 assms(2), folded assms(3)]
  show ?thesis
  proof (cases "r = 0")
    case True
    have "finite (dom (cookie_heap st))" "card (dom (cookie_heap st1)) = card (dom (cookie_heap st))"
      using r(3) True length_all_cookies assms(1) ok1(1) finite_heap by simp_all
    moreover have "dom (cookie_heap st1) \<subseteq> dom (cookie_heap st)" by (auto simp: ok1(3))
    ultimately have dom1: "dom (cookie_heap st1) = dom (cookie_heap st)" by (simp add: card_subset_eq)
    have live: "?L c" if "c \<in> dom (cookie_heap st)" for c
    proof (rule ccontr)
      assume "\<not> ?L c"
      then have "c \<notin> dom (cookie_heap st1)" by (simp add: ok1(3))
      with that dom1 show False by simp
    qed
    then have heap1: "cookie_heap st1 = cookie_heap st"
      unfolding ok1(3) by (rule_tac ext) (metis domIff mem_Collect_eq restrict_map_def)
    have view1: "view st1 = view st"
    proof
      fix b
      show "view st1 b = view st b"
      proof (cases "view st b")
        case (Some dcs)
        obtain d cs where dcs: "dcs = (d, cs)" by (cases dcs)
        have "?L c" if "c \<in> set cs" for c
          using live [of c] store_okE(6) [OF assms(1) Some [unfolded dcs] that] by blast
        then have "filter ?L cs = cs" by (simp add: filter_id_conv)
        then show ?thesis using Some dcs by (auto simp: ok1(2) purge_def)
      qed (simp add: ok1(2))
    qed
    have ci: "cookies_in st1 None = Some (all_cookies st1)" by (simp add: cookies_in_def)
    have dom: "set (dl_list (all_cookies st1)) \<subseteq> dom (cookie_heap st1)" using store_okE(2) [OF ok1(1)] by simp
    have ne: "dl_list (all_cookies st1) \<noteq> []" using r(3) True len by (auto simp: MAX_TOTAL_COOKIES_def)
    obtain x b d2 cs2 st2 where x: "x \<in> set (dl_list (all_cookies st1))" "view st1 b = Some (d2, cs2)" "x \<in> set cs2"
      "Cookies_too_many st1 None = Some st2"
      "store_to st1 st2 ((view st1)(b := if remove1 x cs2 = [] then None else Some (d2, remove1 x cs2)))
          ((cookie_heap st1)(x := None))"
      using too_many_ok [OF ok1(1) ci ne dom] by blast
    have ok2: "store_ok st2" "view st2 = (view st)(b := if remove1 x cs2 = [] then None else Some (d2, remove1 x cs2))"
      "cookie_heap st2 = (cookie_heap st)(x := None)" "cookies_use_counter st2 = cookies_use_counter st"
      "next_address st2 = next_address st"
      using x(5) ok1 by (simp_all add: store_to_def view1 heap1)
    have vb: "view st b = Some (d2, cs2)" using x(2) view1 by simp
    have l2: "length (remove1 x cs2) = length cs2 - 1" using x(3) by (simp add: length_remove1)
    have vn: "(\<exists>cs. view st a = Some (d, cs) \<and> length cs' \<le> length cs) \<and> (Some a \<noteq> node \<longrightarrow> cs' \<noteq> [])"
      if "view st2 a = Some (d, cs')" for a d cs'
      using that vb l2 lens_okD [OF assms(4)] by (auto simp: ok2(2) split: if_splits)
    have sub2: "subview st2 st" unfolding subview_def using vn by blast
    have lens2: "lens_ok st2 node"
      unfolding lens_ok_def
    proof (intro allI impI conjI)
      fix a d cs'
      assume v: "view st2 a = Some (d, cs')"
      show "cs' \<noteq> []" if "Some a \<noteq> node" using vn [OF v] that by blast
      show "length cs' \<le> MAX_DOMAIN_COOKIES" using vn [OF v] lens_okD [OF assms(4)] le_trans by blast
    qed
    have "find_node st2 dd = node"
    proof (cases node)
      case (Some a)
      have "view st2 a \<noteq> None"
      proof (cases "a = b")
        case True
        then have "1 < length cs2" using assms(7) Some vb len by simp
        then have "remove1 x cs2 \<noteq> []" using l2 by auto
        then show ?thesis using True by (simp add: ok2(2))
      next
        case False
        moreover have "view st a \<noteq> None"
          using find_node_iff [OF assms(1,2), of a] assms(3) Some by auto
        ultimately show ?thesis by (simp add: ok2(2))
      qed
      then show ?thesis using find_node_sub [OF assms(1) ok2(1) sub2 assms(2), folded assms(3)] Some by simp
    qed (use find_node_sub [OF assms(1) ok2(1) sub2 assms(2), folded assms(3)] in simp)
    moreover have "length (dl_list (all_cookies st2)) < MAX_TOTAL_COOKIES"
    proof -
      have "x \<in> dom (cookie_heap st)" using x(1) dom dom1 by auto
      then have "card (dom (cookie_heap st2)) < card (dom (cookie_heap st))"
        unfolding ok2(3) using card_Diff1_less [OF finite_heap [OF assms(1)]] by simp
      then show ?thesis using len length_all_cookies assms(1) ok2(1) by simp
    qed
    moreover have "\<forall>a d cs. node = Some a \<longrightarrow> view st2 a = Some (d, cs) \<longrightarrow> length cs < MAX_DOMAIN_COOKIES"
      using vn assms(6) le_less_trans by blast
    moreover have "room_in_total st node dd now = Some (st2, node)" using u True x(4) by simp
    moreover have "cookie_heap st2 \<subseteq>\<^sub>m cookie_heap st" by (auto simp: ok2(3) map_le_def)
    ultimately show ?thesis using ok2(1,4,5) lens2 False by metis
  next
    case rpos: False
    have "room_in_total st node dd now = Some (st1, find_node st1 dd)"
      using u rpos fn by (cases node) simp_all
    moreover have "lens_ok st1 (find_node st1 dd)"
    proof (cases "\<exists>a. node = Some a \<and> view st1 a = None")
      case True
      then show ?thesis using fn lens_ok_None [OF lens1] by auto
    next
      case False
      then have "find_node st1 dd = node" using fn by (cases node) auto
      then show ?thesis using lens1 by simp
    qed
    moreover have "\<forall>a d cs. find_node st1 dd = Some a \<longrightarrow> view st1 a = Some (d, cs) \<longrightarrow> length cs < MAX_DOMAIN_COOKIES"
    proof (intro allI impI)
      fix a d cs'
      assume a: "find_node st1 dd = Some a" "view st1 a = Some (d, cs')"
      then have "node = Some a" using fn by (cases node) (auto split: if_splits)
      moreover obtain cs where "view st a = Some (d, cs)" "length cs' \<le> length cs"
        using subviewD [OF sub1 a(2)] by blast
      ultimately show "length cs' < MAX_DOMAIN_COOKIES" using assms(6) by fastforce
    qed
    moreover have "length (dl_list (all_cookies st1)) < MAX_TOTAL_COOKIES" using r(3) rpos len by simp
    moreover have "cookie_heap st1 \<subseteq>\<^sub>m cookie_heap st" by (simp add: ok1(3) heap_restrict_le)
    ultimately show ?thesis using ok1(1,4,5) False by metis
  qed
qed

section \<open>Inserting\<close>

lemma shape_insert:
  assumes "shape_ok V h ac nxt" "a < nxt + 2" "c_domain cd = Some dd" "cstr dd" "ieq dd d"
    "V a = Some (d, cs) \<or> V a = None \<and> cs = [] \<and> (\<forall>b d' cs'. V b = Some (d', cs') \<longrightarrow> \<not> ieq d' d)"
  shows "shape_ok (V(a \<mapsto> (d, cs @ [nxt]))) (h(nxt \<mapsto> cd)) (ac @ [nxt]) (nxt + 2)"
proof -
  note D = shape_okD [OF assms(1)]
  have fresh: "nxt \<notin> dom h" using D(3) by blast
  have cs: "distinct cs" "\<forall>c \<in> set cs. \<exists>cd dd. h c = Some cd \<and> c_domain cd = Some dd \<and> cstr dd \<and> ieq dd d"
    using assms(6) D(4,6) by fastforce+
  then have nin: "nxt \<notin> set cs" using fresh by blast
  let ?V = "V(a \<mapsto> (d, cs @ [nxt]))"
  have uniq: "b = a" if "V b = Some (d', cs')" "ieq d' d" for b d' cs'
    using assms(6) D(5) [OF that(1)] that by blast
  show ?thesis
    unfolding shape_ok_def
  proof (intro conjI allI impI ballI)
    fix b d' cs'
    assume v: "?V b = Some (d', cs')"
    show "b < nxt + 2" using v D(4) [of b] assms(2) by (cases "b = a") auto
    show "distinct cs'" using v D(4) [of b] cs(1) nin by (cases "b = a") auto
    fix c
    assume c: "c \<in> set cs'"
    show "\<exists>cd' dd'. (h(nxt \<mapsto> cd)) c = Some cd' \<and> c_domain cd' = Some dd' \<and> cstr dd' \<and> ieq dd' d'"
    proof (cases "c = nxt")
      case True
      have "b = a"
      proof (rule ccontr)
        assume "b \<noteq> a"
        then have "\<exists>cd dd. h c = Some cd \<and> c_domain cd = Some dd \<and> cstr dd \<and> ieq dd d'" using v D(6) c by simp
        then show False using fresh True by blast
      qed
      then show ?thesis using v True assms(3-5) by simp
    next
      case False
      then show ?thesis using v c cs(2) D(6) [of b d' cs' c] by (cases "b = a") auto
    qed
  next
    fix b b' d1 d2 cs1 cs2
    assume v: "?V b = Some (d1, cs1)" "?V b' = Some (d2, cs2)" "ieq d1 d2"
    show "b = b'"
    proof (cases "b = a"; cases "b' = a")
      assume "b \<noteq> a" "b' \<noteq> a"
      then show ?thesis using v D(5) [of b d1 cs1 b' d2 cs2] by simp
    next
      assume "b = a" "b' \<noteq> a"
      then show ?thesis using v uniq [of b' d2 cs2] ieq_sym by simp
    next
      assume "b \<noteq> a" "b' = a"
      then show ?thesis using v uniq [of b d1 cs1] by simp
    qed simp
  next
    show "distinct (ac @ [nxt])" using D(1,2) fresh by simp
    show "set (ac @ [nxt]) = dom (h(nxt \<mapsto> cd))" using D(2) by auto
  next
    fix c
    assume c: "c \<in> dom (h(nxt \<mapsto> cd))"
    show "c < nxt + 2" using c D(3) [of c] by (cases "c = nxt") auto
    show "\<exists>b d' cs'. ?V b = Some (d', cs') \<and> c \<in> set cs'"
    proof (cases "c = nxt")
      case True
      then show ?thesis by (intro exI [of _ a] exI [of _ d] exI [of _ "cs @ [nxt]"]) simp
    next
      case False
      then obtain b d' cs' where b: "V b = Some (d', cs')" "c \<in> set cs'" using D(7) [of c] c by auto
      show ?thesis
      proof (cases "b = a")
        case True
        then have "c \<in> set cs" using b assms(6) by auto
        then show ?thesis by (intro exI [of _ a] exI [of _ d] exI [of _ "cs @ [nxt]"]) simp
      next
        case False
        then show ?thesis using b by (intro exI [of _ b] exI [of _ d'] exI [of _ cs']) simp
      qed
    qed
  qed
qed

lemma find_insert_sorted:
  assumes "set xs' = insert n (set xs)" "distinct (map dn_id xs')" "distinct (map dn_id xs)" "n \<notin> set xs"
  shows "find (\<lambda>m. dn_id m = b) xs' = (if b = dn_id n then Some n else find (\<lambda>m. dn_id m = b) xs)"
proof (cases "find (\<lambda>m. dn_id m = b) xs'")
  case None
  then have "\<forall>m \<in> set xs'. dn_id m \<noteq> b" by (simp add: find_None_iff)
  then have "find (\<lambda>m. dn_id m = b) xs = None" "b \<noteq> dn_id n" using assms(1) by (auto simp: find_None_iff)
  then show ?thesis using None by simp
next
  case (Some m)
  then have m: "m \<in> set xs'" "dn_id m = b" by (auto simp: find_Some_iff)
  show ?thesis
  proof (cases "m = n")
    case True
    then show ?thesis using Some m by simp
  next
    case False
    then have "m \<in> set xs" using m(1) assms(1) by simp
    moreover have "dn_id n \<noteq> b"
      using False m assms(1,2) by (metis distinct_map inj_onD insertI1)
    ultimately show ?thesis using Some m find_map_id [OF assms(3)] by auto
  qed
qed

lemma insert_cookie_ok:
  assumes "store_ok st" "c_domain cookie = Some dd" "cstr dd" "node = find_node st dd"
  shows "\<exists>st' a d cs. insert_cookie st node cookie dd = Some (st', Some a) \<and> store_ok st'
    \<and> view st' = (view st)(a \<mapsto> (d, cs @ [next_address st])) \<and> ieq d dd
    \<and> (node = Some a \<and> view st a = Some (d, cs) \<or> node = None \<and> view st a = None \<and> cs = [])
    \<and> cookie_heap st' = (cookie_heap st)(next_address st \<mapsto> cookie\<lparr>c_last_used := cookies_use_counter st\<rparr>)
    \<and> cookies_use_counter st' = cookies_use_counter st + 1"
proof -
  let ?c = "next_address st" and ?cd = "cookie\<lparr>c_last_used := cookies_use_counter st\<rparr>"
  define st1 where "st1 = st\<lparr>cookie_heap := (cookie_heap st)(?c \<mapsto> ?cd),
      cookies_use_counter := cookies_use_counter st + 1,
      all_cookies := dList_append (all_cookies st) ?c, next_address := ?c + 2\<rparr>"
  have fr: "get_node st1 = get_node st" "view st1 = view st" "nodes_ok st1 = nodes_ok st" "domains st1 = domains st"
    by (auto simp: st1_def get_node_def view_def nodes_ok_def fun_eq_iff)
  have cd: "c_domain ?cd = Some dd" using assms(2) by simp
  have ins: "insert_cookie st node cookie dd = (case node of
      None \<Rightarrow> Some (st1\<lparr>domains := dList_insert_sorted (domains st1) \<lparr>dn_id = ?c + 1, dn_domain = dd,
                   dn_cookies = dList_append \<lparr>dl_sz = 5, dl_list = []\<rparr> ?c\<rparr> Domain_node_cmp\<rparr>, Some (?c + 1))
    | Some a \<Rightarrow> do { n \<leftarrow> get_node st1 a; Some (put_cookies st1 a (dList_append (dn_cookies n) ?c), Some a) })"
    unfolding insert_cookie_def Let_def st1_def by (rule refl)
  show ?thesis
  proof (cases node)
    case (Some a)
    then obtain d cs where v: "view st a = Some (d, cs)" "ieq d dd"
      using find_node_iff [OF assms(1,3)] assms(4) by metis
    then obtain n where n: "get_node st a = Some n" "dn_domain n = d" "dl_list (dn_cookies n) = cs" by (auto simp: view_Some)
    let ?st' = "put_cookies st1 a (dList_append (dn_cookies n) ?c)"
    have view': "view ?st' = (view st)(a \<mapsto> (d, cs @ [?c]))"
      using view_put [of st1 a n "dList_append (dn_cookies n) ?c"] n by (simp add: fr)
    have "a < ?c + 2" using store_okE(4) [OF assms(1) v(1)] by simp
    from shape_insert [OF store_okD(2) [OF assms(1)] this cd assms(3) ieq_sym [OF v(2)] disjI1 [OF v(1)]]
    moreover have "nodes_ok st1" using store_okD(1) [OF assms(1)] by (simp add: fr(3))
    ultimately have "store_ok ?st'" by (simp add: store_ok_def view') (simp add: st1_def)
    moreover have "insert_cookie st node cookie dd = Some (?st', Some a)"
      using n by (simp add: ins [unfolded Some] Some fr)
    moreover have "cookie_heap ?st' = (cookie_heap st)(?c \<mapsto> ?cd)" "cookies_use_counter ?st' = cookies_use_counter st + 1"
      by (simp_all add: st1_def)
    ultimately show ?thesis using Some v view' by blast
  next
    case None
    define nn where "nn = \<lparr>dn_id = ?c + 1, dn_domain = dd, dn_cookies = dList_append \<lparr>dl_sz = 5, dl_list = []\<rparr> ?c\<rparr>"
    have nn: "dn_id nn = ?c + 1" "dn_domain nn = dd" "dl_list (dn_cookies nn) = [] @ [?c]"
      unfolding nn_def by simp_all
    let ?st' = "st1\<lparr>domains := dList_insert_sorted (domains st1) nn Domain_node_cmp\<rparr>"
    let ?xs = "dl_list (domains st)" and ?xs' = "dl_list (dList_insert_sorted (domains st) nn Domain_node_cmp)"
    have s: "cmp_sorted Domain_node_cmp ?xs" "\<forall>n \<in> set ?xs. cstr (dn_domain n)" "distinct (map dn_id ?xs)"
      using store_okD(1) [OF assms(1)] by (simp_all add: nodes_ok_def)
    have cn: "cstr (dn_domain nn)" using assms(3) by (simp add: nn)
    note sorted = domain_nodes.insert_sorted_correct [OF s(1,2) cn]
    have set': "set ?xs' = insert nn (set ?xs)" by (rule domain_nodes.set_insert_sorted [OF s(1,2) cn])
    have old: "dn_id m < ?c" if "m \<in> set ?xs" for m
      using store_okE(4) [OF assms(1), of "dn_id m"] get_node_in [OF store_okD(1) [OF assms(1)] that]
      by (simp add: view_def)
    then have nin: "nn \<notin> set ?xs" "?c + 1 \<notin> dn_id ` set ?xs" using nn(1) by fastforce+
    have "mset (map dn_id ?xs') = mset (map dn_id (nn # ?xs))"
      using sorted by (metis image_mset_add_mset mset.simps(2) mset_map)
    then have "distinct (map dn_id ?xs') \<longleftrightarrow> distinct (map dn_id (nn # ?xs))" by (rule mset_eq_imp_distinct_iff)
    then have dist': "distinct (map dn_id ?xs')" using s(3) nin(2) by (simp add: nn)
    have ok': "nodes_ok ?st'"
      using sorted dist' set' s(2) assms(3) by (auto simp: nodes_ok_def fr nn)
    have find': "find (\<lambda>m. dn_id m = b) ?xs' = (if b = ?c + 1 then Some nn else find (\<lambda>m. dn_id m = b) ?xs)" for b
      using find_insert_sorted [OF set' dist' s(3) nin(1)] by (simp only: nn)
    have view': "view ?st' = (view st)(?c + 1 \<mapsto> (dd, [] @ [?c]))"
    proof
      fix b
      have "get_node ?st' b = find (\<lambda>m. dn_id m = b) ?xs'" by (simp add: get_node_def fr)
      also have "\<dots> = (if b = ?c + 1 then Some nn else get_node st b)" by (simp only: find' get_node_def)
      finally show "view ?st' b = ((view st)(?c + 1 \<mapsto> (dd, [] @ [?c]))) b" by (simp add: view_def nn)
    qed
    have vnone: "view st (?c + 1) = None"
      using old by (auto simp: view_def get_node_def find_None_iff) fastforce?
    have "\<not> ieq d' dd" if "view st b = Some (d', cs')" for b d' cs'
      using find_node_None [OF store_okD(1) [OF assms(1)] assms(3) _ that] assms(4) None by simp
    then have "view st (?c + 1) = Some (dd, []) \<or> view st (?c + 1) = None \<and> [] = [] \<and>
        (\<forall>b d' cs'. view st b = Some (d', cs') \<longrightarrow> \<not> ieq d' dd)"
      using vnone by blast
    from shape_insert [OF store_okD(2) [OF assms(1)] _ cd assms(3) _ this]
    have "shape_ok ((view st)(?c + 1 \<mapsto> (dd, [] @ [?c]))) ((cookie_heap st)(?c \<mapsto> ?cd))
        (dl_list (all_cookies st) @ [?c]) (?c + 2)"
      by (simp add: ieq_def)
    then have "store_ok ?st'" using ok' by (simp add: store_ok_def view') (simp add: st1_def)
    moreover have "insert_cookie st node cookie dd = Some (?st', Some (?c + 1))"
      by (simp add: ins [unfolded None, folded nn_def] None)
    moreover have "cookie_heap ?st' = (cookie_heap st)(?c \<mapsto> ?cd)" "cookies_use_counter ?st' = cookies_use_counter st + 1"
      by (simp_all add: st1_def)
    moreover have "ieq dd dd" by (simp add: ieq_def)
    ultimately show ?thesis using None vnone view' by blast
  qed
qed

section \<open>The jar after an addition\<close>

lemma jar_restrict:
  assumes "store_ok st" "heap_wf (cookie_heap st)" "store_ok st'"
    "cookie_heap st' = cookie_heap st |` {c. cookie_key (the (cookie_heap st c)) \<noteq> k0}"
  shows "jar st' = (jar st)(k0 := None)"
proof
  fix k
  have w: "heap_wf (cookie_heap st')" using heap_wf_mono [OF assms(2)] by (simp add: assms(4) heap_restrict_le)
  show "jar st' k = ((jar st)(k0 := None)) k"
  proof (rule jar_eqI)
    fix cd
    have h: "cookie_heap st' c = Some cd \<longleftrightarrow> cookie_heap st c = Some cd \<and> cookie_key cd \<noteq> k0" for c
      by (cases "cookie_heap st c") (auto simp: assms(4) restrict_map_def)
    have "jar st' k = Some cd \<longleftrightarrow> (\<exists>c. cookie_heap st' c = Some cd \<and> cookie_key cd = k)"
      by (rule jar_Some [OF assms(3) w])
    also have "\<dots> \<longleftrightarrow> k \<noteq> k0 \<and> (\<exists>c. cookie_heap st c = Some cd \<and> cookie_key cd = k)"
      unfolding h by blast
    also have "\<dots> \<longleftrightarrow> ((jar st)(k0 := None)) k = Some cd"
      by (cases "k = k0") (simp_all add: jar_Some [OF assms(1,2)])
    finally show "jar st' k = Some cd \<longleftrightarrow> ((jar st)(k0 := None)) k = Some cd" .
  qed
qed

lemma jar_insert:
  assumes "store_ok st" "heap_wf (cookie_heap st)" "store_ok st'" "c \<notin> dom (cookie_heap st)"
    "cookie_heap st' = (cookie_heap st)(c \<mapsto> cd)" "cookie_wf cd" "jar st (cookie_key cd) = None"
  shows "heap_wf (cookie_heap st')" "jar st' = (jar st)(cookie_key cd \<mapsto> cd)"
proof -
  have new: "cookie_key x \<noteq> cookie_key cd" if "cookie_heap st y = Some x" for x y
    using jar_Some [OF assms(1,2), of "cookie_key cd" x] assms(7) that by auto
  have inj: "inj_on (\<lambda>c. cookie_key (the (cookie_heap st c))) (dom (cookie_heap st))"
    using assms(2) by (simp add: heap_wf_def)
  show w: "heap_wf (cookie_heap st')"
    unfolding heap_wf_def
  proof
    show "\<forall>x \<in> ran (cookie_heap st'). cookie_wf x"
      using assms(2,4,6) by (auto simp: assms(5) heap_wf_def domIff)
    have "inj_on (\<lambda>x. cookie_key (the (cookie_heap st' x))) (dom (cookie_heap st))"
      using inj assms(4) by (auto simp: inj_on_def assms(5))
    moreover have "cookie_key cd \<notin> (\<lambda>x. cookie_key (the (cookie_heap st' x))) ` dom (cookie_heap st)"
    proof
      assume "cookie_key cd \<in> (\<lambda>x. cookie_key (the (cookie_heap st' x))) ` dom (cookie_heap st)"
      then obtain x y where "cookie_heap st x = Some y" "cookie_key cd = cookie_key (the (cookie_heap st' x))"
        by auto
      moreover from this(1) have "x \<noteq> c" using assms(4) by auto
      ultimately show False using new [of x y] by (simp add: assms(5))
    qed
    ultimately show "inj_on (\<lambda>x. cookie_key (the (cookie_heap st' x))) (dom (cookie_heap st'))"
      using assms(4) by (simp add: assms(5))
  qed
  show "jar st' = (jar st)(cookie_key cd \<mapsto> cd)"
  proof
    fix k
    show "jar st' k = ((jar st)(cookie_key cd \<mapsto> cd)) k"
    proof (rule jar_eqI)
      fix x
      have "jar st' k = Some x \<longleftrightarrow> (\<exists>y. cookie_heap st' y = Some x \<and> cookie_key x = k)"
        by (rule jar_Some [OF assms(3) w])
      also have "\<dots> \<longleftrightarrow> (x = cd \<and> cookie_key cd = k) \<or> (\<exists>y. cookie_heap st y = Some x \<and> cookie_key x = k)"
        using assms(4) unfolding assms(5) by (metis domI fun_upd_apply option.inject)
      also have "\<dots> \<longleftrightarrow> ((jar st)(cookie_key cd \<mapsto> cd)) k = Some x"
        using new by (cases "cookie_key cd = k") (auto simp: jar_Some [OF assms(1,2)])
      finally show "jar st' k = Some x \<longleftrightarrow> ((jar st)(cookie_key cd \<mapsto> cd)) k = Some x" .
    qed
  qed
qed

lemma cookies_invD:
  assumes "cookies_inv st"
  shows "store_ok st" "heap_wf (cookie_heap st)" "lens_ok st None"
    "length (dl_list (all_cookies st)) \<le> MAX_TOTAL_COOKIES"
  using assms by (simp_all add: cookies_inv_def lens_ok_def)

lemma cookies_invI:
  assumes "store_ok st" "heap_wf (cookie_heap st)" "lens_ok st None"
    "length (dl_list (all_cookies st)) \<le> MAX_TOTAL_COOKIES"
  shows "cookies_inv st"
  using assms by (simp add: cookies_inv_def lens_ok_def)

text \<open>The cookies with the key of the new one are in the node of its domain, and go first.\<close>

lemma remove_same_key:
  assumes "cookies_inv st" "cookie_wf cookie" "c_domain cookie = Some dd" "node = find_node st dd"
  shows "\<exists>st1. (case node of None \<Rightarrow> Some st | Some a \<Rightarrow> remove_same st a cookie) = Some st1
    \<and> store_ok st1 \<and> cookie_heap st1 = cookie_heap st |` {c. cookie_key (the (cookie_heap st c)) \<noteq> cookie_key cookie}
    \<and> node = find_node st1 dd \<and> lens_ok st1 node \<and> subview st1 st
    \<and> cookies_use_counter st1 = cookies_use_counter st \<and> next_address st1 = next_address st
    \<and> (view st1 = view st \<or> length (dl_list (all_cookies st1)) < length (dl_list (all_cookies st)))"
proof -
  note inv = cookies_invD [OF assms(1)]
  have dd: "cstr dd" using assms(2,3) by (simp add: cookie_wf_def)
  have wf: "cookie_wf cd" if "cookie_heap st c = Some cd" for c cd
    using inv(2) that by (auto simp: heap_wf_def ran_def)
  have key: "\<exists>d cs. view st b = Some (d, cs) \<and> c \<in> set cs \<and> ieq d dd" if h: "cookie_heap st c = Some cd"
    "cookie_key cd = cookie_key cookie" "view st b = Some (d, cs)" "c \<in> set cs" for c cd b d cs
  proof -
    obtain e where e: "c_domain cd = Some e" "ieq e d" using store_okE(6) [OF inv(1) h(3,4)] h(1) by auto
    moreover have "ieq e dd" using h(2) assms(3) e(1) by (simp add: cookie_key_def ieq_def)
    ultimately show ?thesis using h(3,4) ieq_trans ieq_sym by blast
  qed
  show ?thesis
  proof (cases node)
    case None
    have "cookie_key cd \<noteq> cookie_key cookie" if h: "cookie_heap st c = Some cd" for c cd
    proof
      assume k: "cookie_key cd = cookie_key cookie"
      have "c \<in> dom (cookie_heap st)" using h by blast
      then obtain b d cs where b: "view st b = Some (d, cs)" "c \<in> set cs" using store_okE(7) [OF inv(1)] by blast
      obtain d' cs' where "view st b = Some (d', cs')" "ieq d' dd" using key [OF h k b] by blast
      then show False using find_node_iff [OF inv(1) dd, of b] None assms(4) by auto
    qed
    then have "cookie_heap st |` {c. cookie_key (the (cookie_heap st c)) \<noteq> cookie_key cookie} = cookie_heap st"
      by (intro ext) (metis (mono_tags, lifting) mem_Collect_eq option.collapse option.sel restrict_map_def)
    moreover have "subview st st" by (auto simp: subview_def)
    ultimately show ?thesis using None inv(1,3) assms(4) by simp
  next
    case (Some a)
    obtain d cs where v: "view st a = Some (d, cs)" "ieq d dd"
      using find_node_iff [OF inv(1) dd, of a] assms(4) Some by auto
    define K where "K = (\<lambda>c. Cookies_cmp (the (cookie_heap st c)) cookie \<noteq> 0)"
    obtain st1 where st1: "remove_same st a cookie = Some st1"
      "store_to st st1 ((view st)(a \<mapsto> (d, filter K cs))) (cookie_heap st |` {c. c \<in> set cs \<longrightarrow> K c})"
      using remove_same_ok [OF inv(1) v(1) K_def] by blast
    have iff: "(c \<in> set cs \<longrightarrow> K c) \<longleftrightarrow> cookie_key cd \<noteq> cookie_key cookie" if h: "cookie_heap st c = Some cd" for c cd
    proof (cases "c \<in> set cs")
      case True
      then obtain e where e: "c_domain cd = Some e" "ieq e d" using store_okE(6) [OF inv(1) v(1) True] h by auto
      then have "ieq (the (c_domain cd)) (the (c_domain cookie))" using ieq_trans [OF e(2) v(2)] assms(3) by simp
      then show ?thesis using True Cookies_cmp_key [OF wf [OF h] assms(2)] by (simp add: K_def h)
    next
      case False
      have "cookie_key cd \<noteq> cookie_key cookie"
      proof
        assume k: "cookie_key cd = cookie_key cookie"
        obtain b d2 cs2 where b: "view st b = Some (d2, cs2)" "c \<in> set cs2" using store_okE(7) [OF inv(1)] h by blast
        then have "ieq d2 dd" using key [OF h k b] by auto
        then have "b = a" using store_okE(5) [OF inv(1) b(1) v(1)] ieq_trans ieq_sym [OF v(2)] by blast
        then show False using b v(1) False by simp
      qed
      then show ?thesis using False by simp
    qed
    have heap1: "cookie_heap st1 = cookie_heap st |` {c. cookie_key (the (cookie_heap st c)) \<noteq> cookie_key cookie}"
    proof
      fix c
      show "cookie_heap st1 c = (cookie_heap st |` {c. cookie_key (the (cookie_heap st c)) \<noteq> cookie_key cookie}) c"
        using st1(2) iff [of c] by (cases "cookie_heap st c") (auto simp: store_to_def restrict_map_def)
    qed
    have ok1: "store_ok st1" "view st1 = (view st)(a \<mapsto> (d, filter K cs))"
      "cookies_use_counter st1 = cookies_use_counter st" "next_address st1 = next_address st"
      using st1(2) by (simp_all add: store_to_def)
    have sub: "subview st1 st"
      unfolding subview_def ok1(2) using v(1) by (auto split: if_splits)
    have "find_node st1 dd = node"
      using find_node_sub [OF inv(1) ok1(1) sub dd] assms(4) [symmetric] Some ok1(2) by simp
    moreover have "lens_ok st1 node"
      unfolding lens_ok_def ok1(2) using lens_okD [OF inv(3)] v(1)
      by (auto simp: Some split: if_splits) (meson length_filter_le le_trans)
    moreover have "view st1 = view st \<or> length (dl_list (all_cookies st1)) < length (dl_list (all_cookies st))"
    proof (cases "filter K cs = cs")
      case True
      then show ?thesis using v(1) by (auto simp: ok1(2) fun_eq_iff)
    next
      case False
      then obtain c where c: "c \<in> set cs" "\<not> K c" by (auto simp: filter_id_conv)
      then have "c \<in> dom (cookie_heap st)" "c \<notin> dom (cookie_heap st1)"
        using store_okE(6) [OF inv(1) v(1) c(1)] st1(2) by (auto simp: store_to_def restrict_map_def split: if_splits)
      moreover have "dom (cookie_heap st1) \<subseteq> dom (cookie_heap st)" by (auto simp: heap1)
      ultimately have "card (dom (cookie_heap st1)) < card (dom (cookie_heap st))"
        by (intro psubset_card_mono [OF finite_heap [OF inv(1)]]) blast
      then show ?thesis using length_all_cookies inv(1) ok1(1) by simp
    qed
    ultimately show ?thesis using Some st1(1) ok1(1,3,4) heap1 sub by simp
  qed
qed

text \<open>A cookie that is not stored: \<open>mktime\<close> failed, or the time has come.\<close>

definition cookie_expired :: "cookie_data \<Rightarrow> int \<Rightarrow> bool" where
  "cookie_expired cookie now \<longleftrightarrow> c_expires_at cookie = -1 \<or> c_expires_at cookie \<le> now"

text \<open>The cookies of the domain of a cookie.\<close>

definition domain_full :: "store \<Rightarrow> string \<Rightarrow> bool" where
  "domain_full st dd \<longleftrightarrow> (\<exists>a d cs. view st a = Some (d, cs) \<and> ieq d dd \<and> MAX_DOMAIN_COOKIES \<le> length cs)"

definition sole_cookie :: "store \<Rightarrow> string \<Rightarrow> bool" where
  "sole_cookie st dd \<longleftrightarrow> (\<exists>a d cs. view st a = Some (d, cs) \<and> ieq d dd \<and> length cs = 1)"

lemma add_finish:
  assumes "store_ok st" "case node of None \<Rightarrow> True | Some a \<Rightarrow> view st a \<noteq> None" "lens_ok st node"
  shows "\<exists>st'. (case node of None \<Rightarrow> Some st | Some a \<Rightarrow> delete_if_empty st a) = Some st'
    \<and> store_ok st' \<and> lens_ok st' None \<and> cookie_heap st' = cookie_heap st
    \<and> cookies_use_counter st' = cookies_use_counter st"
proof (cases node)
  case None
  then show ?thesis using assms by simp
next
  case (Some a)
  then obtain d cs where v: "view st a = Some (d, cs)" using assms(2) by auto
  obtain st' where st': "delete_if_empty st a = Some st'"
    "store_to st st' (if cs = [] then (view st)(a := None) else view st) (cookie_heap st)"
    using delete_if_empty_ok [OF assms(1) v] by blast
  have "lens_ok st' None"
    unfolding lens_ok_def
  proof (intro allI impI conjI)
    fix b d' cs'
    assume "view st' b = Some (d', cs')"
    then have b: "view st b = Some (d', cs')" "b = a \<longrightarrow> cs' \<noteq> []"
      using st'(2) v by (auto simp: store_to_def split: if_splits)
    show "cs' \<noteq> []" using lens_okD [OF assms(3) b(1)] b(2) Some by auto
    show "length cs' \<le> MAX_DOMAIN_COOKIES" using lens_okD [OF assms(3) b(1)] by simp
  qed
  then show ?thesis using Some st' by (simp add: store_to_def)
qed

lemma Cookies_add_ok:
  assumes "cookies_inv st" "cookie_wf cookie" "c_domain cookie = Some dd"
    "MAX_TOTAL_COOKIES \<le> length (dl_list (all_cookies st)) \<Longrightarrow> \<not> sole_cookie st dd"
  shows "\<exists>st'. Cookies_add_cookie st cookie now = Some st' \<and> cookies_inv st'
    \<and> jar st' (cookie_key cookie) = (if cookie_expired cookie now then None
         else Some (cookie\<lparr>c_last_used := cookies_use_counter st\<rparr>))
    \<and> (\<forall>k. k \<noteq> cookie_key cookie \<longrightarrow> jar st' k = jar st k \<or> jar st' k = None)
    \<and> (cookie_expired cookie now
       \<or> \<not> domain_full st dd \<and> length (dl_list (all_cookies st)) < MAX_TOTAL_COOKIES \<longrightarrow>
         (\<forall>k. k \<noteq> cookie_key cookie \<longrightarrow> jar st' k = jar st k))
    \<and> cookies_use_counter st \<le> cookies_use_counter st'"
proof -
  note inv = cookies_invD [OF assms(1)]
  define k0 where "k0 = cookie_key cookie"
  define node where "node = find_node st dd"
  have dd: "cstr dd" using assms(2,3) by (simp add: cookie_wf_def)
  obtain st1 where 1: "(case node of None \<Rightarrow> Some st | Some a \<Rightarrow> remove_same st a cookie) = Some st1"
    "store_ok st1" "cookie_heap st1 = cookie_heap st |` {c. cookie_key (the (cookie_heap st c)) \<noteq> k0}"
    "node = find_node st1 dd" "lens_ok st1 node" "subview st1 st"
    "cookies_use_counter st1 = cookies_use_counter st" "next_address st1 = next_address st"
    "view st1 = view st \<or> length (dl_list (all_cookies st1)) < length (dl_list (all_cookies st))"
    using remove_same_key [OF assms(1-3) node_def] unfolding k0_def by blast
  have w1: "heap_wf (cookie_heap st1)" using heap_wf_mono [OF inv(2)] by (simp add: 1(3) heap_restrict_le)
  have jar1: "jar st1 = (jar st)(k0 := None)" by (rule jar_restrict [OF inv(1,2) 1(2,3)])
  have tot1: "length (dl_list (all_cookies st1)) \<le> length (dl_list (all_cookies st))"
    using card_mono [OF finite_heap [OF inv(1)], of "dom (cookie_heap st1)"] length_all_cookies [OF inv(1)]
      length_all_cookies [OF 1(2)] by (simp add: 1(3))
  have vn: "case find_node s dd of None \<Rightarrow> True | Some a \<Rightarrow> view s a \<noteq> None" if "store_ok s" for s
    using find_node_iff [OF that dd] by (auto split: option.split)
  have u: "Cookies_add_cookie st cookie now =
      Option.bind (if cookie_expired cookie now then Some (st1, node)
          else do { (st2, node2) \<leftarrow> room_in_domain st1 node dd now;
                    (st3, node3) \<leftarrow> room_in_total st2 node2 dd now;
                    insert_cookie st3 node3 cookie dd })
        (\<lambda>(st4, node4). case node4 of None \<Rightarrow> Some st4 | Some a \<Rightarrow> delete_if_empty st4 a)"
    using 1(1) by (simp add: Cookies_add_cookie_def assms(3) node_def cookie_expired_def)
  show ?thesis
  proof (cases "cookie_expired cookie now")
    case True
    obtain st' where st': "(case node of None \<Rightarrow> Some st1 | Some a \<Rightarrow> delete_if_empty st1 a) = Some st'"
      "store_ok st'" "lens_ok st' None" "cookie_heap st' = cookie_heap st1"
      "cookies_use_counter st' = cookies_use_counter st1"
      using add_finish [OF 1(2) _ 1(5)] vn [OF 1(2)] 1(4) by metis
    have "jar st' = (jar st)(k0 := None)" by (rule jar_restrict [OF inv(1,2) st'(2)]) (simp add: st'(4) 1(3))
    moreover have "cookies_inv st'"
      using st' w1 tot1 inv(4) length_all_cookies [OF st'(2)] length_all_cookies [OF 1(2)]
      by (intro cookies_invI) simp_all
    moreover have "Cookies_add_cookie st cookie now = Some st'" using u True st'(1) by simp
    ultimately show ?thesis using True st'(5) 1(7) by (simp add: k0_def)
  next
    case False
    obtain st2 node2 where 2: "room_in_domain st1 node dd now = Some (st2, node2)"
      "store_ok st2" "cookie_heap st2 \<subseteq>\<^sub>m cookie_heap st1" "node2 = find_node st2 dd" "lens_ok st2 node2"
      "\<forall>a d cs. node2 = Some a \<longrightarrow> view st2 a = Some (d, cs) \<longrightarrow> length cs < MAX_DOMAIN_COOKIES"
      "cookies_use_counter st2 = cookies_use_counter st1" "next_address st2 = next_address st1"
      "st2 = st1 \<or> length (dl_list (all_cookies st2)) < length (dl_list (all_cookies st1))"
      "(\<forall>a d cs. node = Some a \<longrightarrow> view st1 a = Some (d, cs) \<longrightarrow> length cs < MAX_DOMAIN_COOKIES) \<longrightarrow> st2 = st1"
      using room_in_domain_ok [OF 1(2) dd 1(4,5)] by blast
    have tot2: "length (dl_list (all_cookies st2)) \<le> length (dl_list (all_cookies st1))" using 2(9) by auto
    have "1 < length cs" if h: "MAX_TOTAL_COOKIES \<le> length (dl_list (all_cookies st2))" "node2 = Some a"
        "view st2 a = Some (d, cs)" for a d cs
    proof -
      have full: "length (dl_list (all_cookies st)) = MAX_TOTAL_COOKIES" "st2 = st1" "view st1 = view st"
        using h(1) tot1 tot2 2(9) 1(9) inv(4) by linarith+
      have "view st a = Some (d, cs)" using h(3) full by simp
      moreover have "find_node st dd = Some a" using h(2) 2(4) 1(4) full(2) node_def by simp
      then have "ieq d dd" using find_node_iff [OF inv(1) dd, of a] calculation by auto
      ultimately have "length cs \<noteq> 1" "cs \<noteq> []"
        using assms(4) full(1) lens_okD [OF inv(3)] unfolding sole_cookie_def by auto
      then show ?thesis by (cases cs) auto
    qed
    then have many: "\<forall>a d cs. MAX_TOTAL_COOKIES \<le> length (dl_list (all_cookies st2)) \<longrightarrow> node2 = Some a \<longrightarrow>
       view st2 a = Some (d, cs) \<longrightarrow> 1 < length cs" by blast
    have "length (dl_list (all_cookies st2)) \<le> MAX_TOTAL_COOKIES" using tot1 tot2 inv(4) by linarith
    from room_in_total_ok [OF 2(2) dd 2(4,5) this 2(6) many]
    obtain st3 node3 where 3: "room_in_total st2 node2 dd now = Some (st3, node3)"
      "store_ok st3" "cookie_heap st3 \<subseteq>\<^sub>m cookie_heap st2" "node3 = find_node st3 dd" "lens_ok st3 node3"
      "\<forall>a d cs. node3 = Some a \<longrightarrow> view st3 a = Some (d, cs) \<longrightarrow> length cs < MAX_DOMAIN_COOKIES"
      "length (dl_list (all_cookies st3)) < MAX_TOTAL_COOKIES"
      "cookies_use_counter st3 = cookies_use_counter st2" "next_address st3 = next_address st2"
      "length (dl_list (all_cookies st2)) < MAX_TOTAL_COOKIES \<longrightarrow> st3 = st2"
      by blast
    define cd where "cd = cookie\<lparr>c_last_used := cookies_use_counter st3\<rparr>"
    obtain st4 a d cs where 4: "insert_cookie st3 node3 cookie dd = Some (st4, Some a)" "store_ok st4"
      "view st4 = (view st3)(a \<mapsto> (d, cs @ [next_address st3]))"
      "node3 = Some a \<and> view st3 a = Some (d, cs) \<or> node3 = None \<and> view st3 a = None \<and> cs = []"
      "cookie_heap st4 = (cookie_heap st3)(next_address st3 \<mapsto> cd)"
      "cookies_use_counter st4 = cookies_use_counter st3 + 1"
      using insert_cookie_ok [OF 3(2) assms(3) dd 3(4)] unfolding cd_def by blast
    have le31: "cookie_heap st3 \<subseteq>\<^sub>m cookie_heap st1" using 2(3) 3(3) map_le_trans by blast
    have w3: "heap_wf (cookie_heap st3)" by (rule heap_wf_mono [OF w1 le31])
    have fresh: "next_address st3 \<notin> dom (cookie_heap st3)" using store_okE(3) [OF 3(2)] by blast
    have kc: "cookie_key cd = k0" "cookie_wf cd" using assms(2) by (simp_all add: cd_def k0_def)
    have jar31: "jar st3 k = jar st1 k \<or> jar st3 k = None" for k by (rule jar_mono [OF 1(2) w1 3(2) le31])
    then have "jar st3 k0 = None" using jar1 by (metis fun_upd_same)
    note ji = jar_insert [OF 3(2) w3 4(2) fresh 4(5) kc(2), unfolded kc(1), OF this]
    have lens4: "lens_ok st4 (Some a)"
      unfolding lens_ok_def 4(3) using lens_okD [OF 3(5)] 4(4) 3(6) by (fastforce simp: MAX_DOMAIN_COOKIES_def split: if_splits)
    then have lens4': "lens_ok st4 None"
      using 4(3) by (auto simp: lens_ok_def split: if_splits)
    obtain st' where st': "delete_if_empty st4 a = Some st'" "store_ok st'" "lens_ok st' None"
      "cookie_heap st' = cookie_heap st4" "cookies_use_counter st' = cookies_use_counter st4"
      using add_finish [OF 4(2), of "Some a"] lens4 4(3) by auto
    have jar': "jar st' = jar st4"
    proof
      fix k
      show "jar st' k = jar st4 k"
        by (rule jar_eqI) (simp add: jar_Some [OF st'(2)] jar_Some [OF 4(2) ji(1)] st'(4) ji(1))
    qed
    have "length (dl_list (all_cookies st')) \<le> MAX_TOTAL_COOKIES"
      using 3(7) fresh finite_heap [OF 3(2)] length_all_cookies [OF st'(2)] length_all_cookies [OF 3(2)]
      by (simp add: st'(4) 4(5))
    then have inv': "cookies_inv st'" using st'(2-4) ji(1) by (intro cookies_invI) simp_all
    have add: "Cookies_add_cookie st cookie now = Some st'"
      using u False 2(1) 3(1) 4(1) st'(1) by simp
    have cnt: "cookies_use_counter st3 = cookies_use_counter st" using 3(8) 2(7) 1(7) by simp
    have same: "st3 = st1" if h: "\<not> domain_full st dd" "length (dl_list (all_cookies st)) < MAX_TOTAL_COOKIES"
    proof -
      have "length cs < MAX_DOMAIN_COOKIES" if a: "node = Some a" "view st1 a = Some (d, cs)" for a d cs
      proof -
        obtain cs0 where c0: "view st a = Some (d, cs0)" "length cs \<le> length cs0" using subviewD [OF 1(6) a(2)] by blast
        moreover have "ieq d dd" using find_node_iff [OF inv(1) dd, of a] a(1) c0(1) node_def by auto
        ultimately show ?thesis using h(1) unfolding domain_full_def by (meson le_less_trans not_le)
      qed
      then have "st2 = st1" using 2(10) by blast
      then show ?thesis using 3(10) tot1 h(2) by simp
    qed
    show ?thesis
    proof (intro exI [of _ st'] conjI impI allI)
      show "jar st' (cookie_key cookie) = (if cookie_expired cookie now then None
          else Some (cookie\<lparr>c_last_used := cookies_use_counter st\<rparr>))"
        using False by (simp add: jar' ji(2) k0_def [symmetric] cd_def cnt)
      show "jar st' k = jar st k \<or> jar st' k = None" if "k \<noteq> cookie_key cookie" for k
        using that jar31 [of k] by (auto simp: jar' ji(2) jar1 k0_def)
      show "jar st' k = jar st k" if "cookie_expired cookie now \<or> \<not> domain_full st dd
          \<and> length (dl_list (all_cookies st)) < MAX_TOTAL_COOKIES" "k \<noteq> cookie_key cookie" for k
        using that False same by (auto simp: jar' ji(2) jar1 k0_def)
      show "cookies_use_counter st \<le> cookies_use_counter st'" using st'(5) 4(6) cnt by simp
    qed (use add inv' in simp_all)
  qed
qed

section \<open>The freed list\<close>

lemma add_frees_own_node:
  assumes "cookies_inv st" "cookie_wf cookie" "c_domain cookie = Some dd" "\<not> cookie_expired cookie now"
    "length (dl_list (all_cookies st)) = MAX_TOTAL_COOKIES"
    "view st a = Some (d, [x])" "ieq d dd" "cookie_heap st x = Some cx" "cookie_key cx \<noteq> cookie_key cookie"
    "\<forall>y cy. cookie_heap st y = Some cy \<longrightarrow> now \<le> c_expires_at cy \<and> (y \<noteq> x \<longrightarrow> c_last_used cx < c_last_used cy)"
  shows "Cookies_add_cookie st cookie now = None"
proof -
  note inv = cookies_invD [OF assms(1)]
  have dd: "cstr dd" using assms(2,3) by (simp add: cookie_wf_def)
  have node: "find_node st dd = Some a" using find_node_iff [OF inv(1) dd] assms(6,7) by blast
  obtain n where n: "get_node st a = Some n" "dl_list (dn_cookies n) = [x]" using assms(6) by (auto simp: view_Some)
  obtain e where e: "c_domain cx = Some e" "ieq e d" using store_okE(6) [OF inv(1) assms(6)] assms(8) by auto
  have "cookie_wf cx" using inv(2) assms(8) by (auto simp: heap_wf_def ran_def)
  then have "Cookies_cmp cx cookie \<noteq> 0"
    using Cookies_cmp_key assms(2,3,9) e ieq_trans [OF e(2) assms(7)] by simp
  then have "find_same st n cookie = None"
    by (simp add: find_same_def dList_find_custom_def n(2) assms(8))
  then have 1: "remove_same st a cookie = Some st" using n assms(8) by (simp add: remove_same.simps [of st a])
  have 2: "room_in_domain st (Some a) dd now = Some (st, Some a)"
    using n by (simp add: room_in_domain_def dList_length_def MAX_DOMAIN_COOKIES_def)
  let ?L = "live (cookie_heap st) now"
  have live: "?L c" if "c \<in> dom (cookie_heap st)" for c
    using that assms(10) by (auto simp: live_def)
  obtain r st1 where r: "Cookies_rm_expired_cookies st None now = Some (r, st1)"
    "store_to st st1 (\<lambda>a. Option.bind (view st a) (purge ?L)) (cookie_heap st |` {c. ?L c})"
    "r + length (dl_list (all_cookies st1)) = length (dl_list (all_cookies st))"
    using rm_expired_all [OF inv(1)] by blast
  have "cookie_heap st c = None" if "\<not> ?L c" for c using live [of c] that by (cases "cookie_heap st c") auto
  then have heap1: "cookie_heap st1 = cookie_heap st"
    using r(2) by (auto simp: store_to_def restrict_map_def fun_eq_iff)
  have ok1: "store_ok st1" using r(2) by (simp add: store_to_def)
  have r0: "r = 0" using r(3) length_all_cookies [OF ok1] length_all_cookies [OF inv(1)] heap1 by simp
  have "?L x" using live assms(8) by blast
  moreover have "view st1 a = Option.bind (view st a) (purge ?L)" using r(2) by (simp add: store_to_def)
  ultimately have view1: "view st1 a = Some (d, [x])"
    using assms(6) by (simp add: purge_def)
  have ci: "cookies_in st1 None = Some (all_cookies st1)" by (simp add: cookies_in_def)
  have dom: "set (dl_list (all_cookies st1)) \<subseteq> dom (cookie_heap st1)" "x \<in> set (dl_list (all_cookies st1))"
    using store_okE(2) [OF ok1] assms(8) heap1 by auto
  have ne: "dl_list (all_cookies st1) \<noteq> []" using dom(2) by auto
  obtain z cz b d2 cs2 st2 where z: "z \<in> set (dl_list (all_cookies st1))" "cookie_heap st1 z = Some cz"
    "\<forall>y \<in> set (dl_list (all_cookies st1)). c_last_used cz \<le> c_last_used (the (cookie_heap st1 y))"
    "view st1 b = Some (d2, cs2)" "z \<in> set cs2" "Cookies_too_many st1 None = Some st2"
    "store_to st1 st2 ((view st1)(b := if remove1 z cs2 = [] then None else Some (d2, remove1 z cs2)))
        ((cookie_heap st1)(z := None))"
    using too_many_ok [OF ok1 ci ne dom(1)] by blast
  have "z = x"
  proof (rule ccontr)
    assume "z \<noteq> x"
    then have "c_last_used cx < c_last_used cz" using z(2) assms(10) heap1 by simp
    moreover have "c_last_used cz \<le> c_last_used cx" using z(3) dom(2) assms(8) heap1 by auto
    ultimately show False by simp
  qed
  then have "b = a" using view_disjoint [OF ok1 z(4) view1] z(5) by simp
  then have "cs2 = [x]" using z(4) view1 by simp
  then have "view st2 a = None" using z(7) \<open>b = a\<close> \<open>z = x\<close> by (simp add: store_to_def)
  then have dang: "get_node st2 a = None" by (simp add: view_def)
  have 3: "room_in_total st (Some a) dd now = Some (st2, Some a)"
    using r(1) r0 z(6) assms(5) by (simp add: room_in_total_def dList_length_def)
  have "insert_cookie st2 (Some a) cookie dd = None"
    using dang by (simp add: insert_cookie_def Let_def get_node_def)
  then show ?thesis
    using assms(3,4) node 1 2 3 by (simp add: Cookies_add_cookie_def cookie_expired_def)
qed

text \<open>A store of \<open>n\<close> cookies, each alone in its domain.\<close>

definition one_each :: "nat \<Rightarrow> store" where
  "one_each n = \<lparr>cookie_heap = (\<lambda>i. if i < n then Some (cookie_zero\<lparr>c_name := ''a'',
        c_domain := Some (replicate (i + 1) CHR ''a''), c_path := Some ''/'', c_expires_at := 100,
        c_last_used := int i\<rparr>) else None),
     all_cookies = \<lparr>dl_sz = n + 1, dl_list = [0..<n]\<rparr>,
     domains = \<lparr>dl_sz = n + 1, dl_list = map (\<lambda>i. \<lparr>dn_id = n + i, dn_domain = replicate (i + 1) CHR ''a'',
        dn_cookies = \<lparr>dl_sz = 5, dl_list = [i]\<rparr>\<rparr>) [0..<n]\<rparr>,
     cookies_use_counter = int n, next_address = 2 * n\<rparr>"

lemma casecmp_replicate: "i \<le> j \<Longrightarrow> dStrAsciiCasecmp (replicate i CHR ''a'') (replicate j CHR ''a'') \<le> 0"
proof (induction i arbitrary: j)
  case 0
  then show ?case by (cases j) (simp_all add: D_ASCII_TOLOWER_def schar_def uchar_def)
next
  case (Suc i)
  then show ?case by (cases j) auto
qed

lemma view_one_each: "view (one_each n) b =
    (if n \<le> b \<and> b < 2 * n then Some (replicate (b - n + 1) CHR ''a'', [b - n]) else None)"
proof -
  let ?f = "\<lambda>i. \<lparr>dn_id = n + i, dn_domain = replicate (i + 1) CHR ''a'', dn_cookies = \<lparr>dl_sz = 5, dl_list = [i]\<rparr>\<rparr>"
  have find: "find (\<lambda>m. dn_id m = b) (map ?f [0..<k]) = (if n \<le> b \<and> b < n + k then Some (?f (b - n)) else None)" for k
  proof (induction k)
    case (Suc k)
    have "find P (xs @ [y]) = (case find P xs of Some z \<Rightarrow> Some z | None \<Rightarrow> if P y then Some y else None)"
      for P and xs :: "domain_node list" and y
      by (induction xs) auto
    then show ?case using Suc by auto
  qed simp
  have "get_node (one_each n) b = find (\<lambda>m. dn_id m = b) (map ?f [0..<n])" by (simp add: get_node_def one_each_def)
  then show ?thesis by (simp only: view_def find) auto
qed

lemma cookies_inv_one_each:
  assumes "n \<le> MAX_TOTAL_COOKIES"
  shows "cookies_inv (one_each n)"
proof -
  let ?st = "one_each n"
  have nodes: "nodes_ok ?st"
    unfolding nodes_ok_def
  proof (intro conjI)
    show "distinct (map dn_id (dl_list (domains ?st)))"
      by (simp add: one_each_def comp_def distinct_map inj_on_def)
    show "cmp_sorted Domain_node_cmp (dl_list (domains ?st))"
      using casecmp_replicate by (auto simp: one_each_def cmp_sorted_def sorted_wrt_map Domain_node_cmp_def
          sorted_wrt_iff_nth_less simp del: replicate.simps)
    show "\<forall>m \<in> set (dl_list (domains ?st)). cstr (dn_domain m)"
      by (auto simp: one_each_def cstr_def)
  qed
  have dom: "dom (cookie_heap ?st) = {0..<n}" by (auto simp: one_each_def split: if_splits)
  have shape: "shape_ok (view ?st) (cookie_heap ?st) (dl_list (all_cookies ?st)) (next_address ?st)"
    unfolding shape_ok_def dom
  proof (intro conjI allI impI ballI)
    fix a d cs
    assume "view ?st a = Some (d, cs)"
    then have a: "n \<le> a" "a < 2 * n" "d = replicate (a - n + 1) CHR ''a''" "cs = [a - n]"
      by (auto simp: view_one_each split: if_splits)
    show "a < next_address ?st" "distinct cs" using a by (simp_all add: one_each_def)
    show "\<exists>cd dd. cookie_heap ?st c = Some cd \<and> c_domain cd = Some dd \<and> cstr dd \<and> ieq dd d" if "c \<in> set cs" for c
      using that a by (simp add: one_each_def ieq_def cstr_def)
  next
    fix a b d d' cs cs'
    assume v: "view ?st a = Some (d, cs)" "view ?st b = Some (d', cs')" "ieq d d'"
    have "length d = length d'" using ieq_length [OF v(3)] .
    then show "a = b" using v(1,2) by (auto simp: view_one_each split: if_splits)
  next
    fix c
    assume c: "c \<in> {0..<n}"
    show "c < next_address ?st" using c by (simp add: one_each_def)
    show "\<exists>a d cs. view ?st a = Some (d, cs) \<and> c \<in> set cs"
      using c by (intro exI [of _ "n + c"]) (simp add: view_one_each)
  qed (simp_all add: one_each_def atLeast0LessThan lessThan_def)
  have "heap_wf (cookie_heap ?st)"
    unfolding heap_wf_def
  proof
    show "\<forall>cd \<in> ran (cookie_heap ?st). cookie_wf cd"
      by (auto simp: one_each_def ran_def cookie_wf_def cstr_def cookie_zero_def)
    show "inj_on (\<lambda>c. cookie_key (the (cookie_heap ?st c))) (dom (cookie_heap ?st))"
    proof (rule inj_onI)
      fix x y
      assume "x \<in> dom (cookie_heap ?st)" "y \<in> dom (cookie_heap ?st)"
        "cookie_key (the (cookie_heap ?st x)) = cookie_key (the (cookie_heap ?st y))"
      then have "replicate (x + 1) (tolow CHR ''a'') = replicate (y + 1) (tolow CHR ''a'')"
        unfolding dom by (simp add: one_each_def cookie_key_def)
      then have "length (replicate (x + 1) (tolow CHR ''a'')) = length (replicate (y + 1) (tolow CHR ''a''))"
        by (rule arg_cong)
      then show "x = y" by simp
    qed
  qed
  moreover have "length (dl_list (all_cookies ?st)) = n" by (simp add: one_each_def)
  moreover have "lens_ok ?st None"
    by (auto simp: lens_ok_def view_one_each MAX_DOMAIN_COOKIES_def split: if_splits)
  ultimately show ?thesis using nodes shape assms by (intro cookies_invI) (simp_all add: store_ok_def)
qed

text \<open>A cookie of the domain \<open>''a''\<close>, as validation leaves it.\<close>

definition cookie_a :: "string \<Rightarrow> string \<Rightarrow> int \<Rightarrow> cookie_data" where
  "cookie_a n v t = cookie_zero\<lparr>c_name := n, c_value := v, c_domain := Some ''a'', c_path := Some ''/'',
     c_expires_at := t\<rparr>"

lemma cookie_wf_a: "cstr n \<Longrightarrow> cookie_wf (cookie_a n v t)"
  by (simp add: cookie_wf_def cookie_a_def cstr_def)

lemma cookie_a_domain: "c_domain (cookie_a n v t) = Some ''a''" by (simp add: cookie_a_def)

text \<open>
  C18: Adding a cookie keeps the store consistent: every cookie of the list of all cookies is in
  exactly one domain list and the other way round, no freed cookie is left in a list, no two cookies
  have the same domain, name, path and host-only flag, no domain list is empty or longer than 20, and
  there are at most 1200 cookies. The one exception is a full store in which the domain of the new
  cookie has a single cookie.
\<close>

theorem Cookies_add_keeps_store:
  assumes "cookies_inv st" "cookie_wf cookie" "c_domain cookie = Some dd"
    "MAX_TOTAL_COOKIES \<le> length (dl_list (all_cookies st)) \<longrightarrow> \<not> sole_cookie st dd"
  shows "\<exists>st'. Cookies_add_cookie st cookie now = Some st' \<and> cookies_inv st'"
  using Cookies_add_ok [OF assms(1-3), of now] assms(4) by blast

lemma Cookies_add_keeps_store_witness:
  "\<exists>st'. Cookies_add_cookie store_init (cookie_a ''n'' ''v'' 10) 5 = Some st' \<and> cookies_inv st'"
  by (rule Cookies_add_keeps_store [OF cookies_inv_init cookie_wf_a cookie_a_domain])
    (simp_all add: cstr_def store_init_def MAX_TOTAL_COOKIES_def)

text \<open>
  C19: While the domain of the cookie has fewer than 20 cookies and the store fewer than 1200, the store
  is a map from keys (domain without case, host-only flag, name, path) to cookies that
  \<open>Cookies_add_cookie\<close> updates at the key of the cookie, deleting the entry when the cookie has
  expired; no other entry changes.
\<close>

theorem Cookies_add_is_map_update:
  assumes "cookies_inv st" "cookie_wf cookie" "c_domain cookie = Some dd"
    "\<not> domain_full st dd" "length (dl_list (all_cookies st)) < MAX_TOTAL_COOKIES"
  shows "\<exists>st'. Cookies_add_cookie st cookie now = Some st' \<and>
    jar st' = (jar st)(cookie_key cookie := if cookie_expired cookie now then None
                 else Some (cookie\<lparr>c_last_used := cookies_use_counter st\<rparr>))"
proof -
  obtain st' where st': "Cookies_add_cookie st cookie now = Some st'"
    "jar st' (cookie_key cookie) = (if cookie_expired cookie now then None
       else Some (cookie\<lparr>c_last_used := cookies_use_counter st\<rparr>))"
    "\<forall>k. k \<noteq> cookie_key cookie \<longrightarrow> jar st' k = jar st k"
    using Cookies_add_ok [OF assms(1-3), of now] assms(4,5) by auto
  then show ?thesis by (intro exI [of _ st']) (auto simp: fun_eq_iff)
qed

lemma Cookies_add_is_map_update_witness:
  "\<exists>st'. Cookies_add_cookie store_init (cookie_a ''n'' ''v'' 10) 5 = Some st' \<and>
    jar st' = (jar store_init)(cookie_key (cookie_a ''n'' ''v'' 10) :=
      if cookie_expired (cookie_a ''n'' ''v'' 10) 5 then None
      else Some ((cookie_a ''n'' ''v'' 10)\<lparr>c_last_used := cookies_use_counter store_init\<rparr>))"
  by (rule Cookies_add_is_map_update [OF cookies_inv_init cookie_wf_a cookie_a_domain])
    (simp_all add: cstr_def store_init_def MAX_TOTAL_COOKIES_def domain_full_def view_def get_node_def)

text \<open>
  C20: In a full store where nothing has expired and the least recently used cookie is the only one of
  the domain of the new cookie, \<open>Cookies_add_cookie\<close> frees that domain's node and its list and then
  appends to the freed list.
\<close>

theorem Cookies_add_use_after_free:
  assumes "cookies_inv st" "cookie_wf cookie" "c_domain cookie = Some dd" "\<not> cookie_expired cookie now"
    "length (dl_list (all_cookies st)) = MAX_TOTAL_COOKIES"
    "view st a = Some (d, [x])" "ieq d dd" "cookie_heap st x = Some cx" "cookie_key cx \<noteq> cookie_key cookie"
    "\<forall>y cy. cookie_heap st y = Some cy \<longrightarrow> now \<le> c_expires_at cy \<and> (y \<noteq> x \<longrightarrow> c_last_used cx < c_last_used cy)"
  shows "Cookies_add_cookie st cookie now = None"
  using add_frees_own_node [OF assms] .

lemma Cookies_add_use_after_free_witness:
  "Cookies_add_cookie (one_each MAX_TOTAL_COOKIES) (cookie_a ''b'' ''v'' 10) 5 = None"
proof (rule Cookies_add_use_after_free [OF cookies_inv_one_each cookie_wf_a cookie_a_domain,
        where a = MAX_TOTAL_COOKIES and d = "''a''" and x = 0
          and cx = "the (cookie_heap (one_each MAX_TOTAL_COOKIES) 0)"])
  show "view (one_each MAX_TOTAL_COOKIES) MAX_TOTAL_COOKIES = Some (''a'', [0])"
    by (simp add: view_one_each MAX_TOTAL_COOKIES_def)
qed (auto simp: cstr_def cookie_expired_def cookie_a_def cookie_zero_def MAX_TOTAL_COOKIES_def
      one_each_def cookie_key_def ieq_def split: if_splits)

end
