(* ===== verification/Cookies_Get.thy ===== *)
theory Cookies_Get
  imports Cookies_Add
begin

text \<open>
  The cookie server, fifth part: \<open>Cookies_add_matching_cookies\<close> and \<open>Cookies_get\<close> of
  \<^verbatim>\<open>dillo/dpi/cookies.c\<close>: the header line for a request, with the cookies that match it,
  the longest paths first. \<open>time(NULL)\<close> is read once for every cookie looked at: the clock is the
  sequence \<open>clk\<close> of its answers and \<open>t\<close> counts the readings so far. A result \<open>None\<close> is the use of
  a freed cookie or node, or of a null pointer.
\<close>

section \<open>The code\<close>

text \<open>\<open>for (j = 0; (curr = dList_nth_data(matching_cookies, j)) && strlen(curr->path) >= path_length; j++)\<close>\<close>

fun path_pos :: "(nat \<Rightarrow> cookie_data option) \<Rightarrow> nat list \<Rightarrow> nat \<Rightarrow> nat \<Rightarrow> nat option" where
  "path_pos heap [] path_length j = Some j"
| "path_pos heap (cur # cs) path_length j =
     do {
       cd \<leftarrow> heap cur;
       p \<leftarrow> c_path cd;
       if path_length \<le> length p then path_pos heap cs path_length (j + 1) else Some j
     }"

text \<open>\<open>cookie->last_used = cookies_use_counter\<close>\<close>

definition touch :: "store \<Rightarrow> nat \<Rightarrow> cookie_data \<Rightarrow> store" where
  "touch st c cd = st\<lparr>cookie_heap := (cookie_heap st)(c \<mapsto> cd\<lparr>c_last_used := cookies_use_counter st\<rparr>)\<rparr>"

function match_loop :: "store \<Rightarrow> nat \<Rightarrow> nat \<Rightarrow> (nat \<Rightarrow> int) \<Rightarrow> nat \<Rightarrow> string option \<Rightarrow> bool \<Rightarrow> nat dlist \<Rightarrow> bool
    \<Rightarrow> (store \<times> nat \<times> nat dlist) option" where
  "match_loop st a i clk t url_path host_only_val matching is_ssl =
     (case get_node st a of
        None \<Rightarrow> None
      | Some n \<Rightarrow>
          (case dList_nth_data (Some (dn_cookies n)) (int i) of
             None \<Rightarrow> Some (st, t, matching)
           | Some c \<Rightarrow>
               (case cookie_heap st c of
                  None \<Rightarrow> None
                | Some cd \<Rightarrow>
                    if c_expires_at cd - clk t < 0 then
                      (case drop_cookie st a c of
                         None \<Rightarrow> None
                       | Some st' \<Rightarrow> match_loop st' a i clk (t + 1) url_path host_only_val matching is_ssl)
                    else if Cookies_match cd url_path host_only_val is_ssl then
                      (case c_path cd of
                         None \<Rightarrow> None
                       | Some p \<Rightarrow>
                           (case path_pos (cookie_heap st) (dl_list matching) (length p) 0 of
                              None \<Rightarrow> None
                            | Some j \<Rightarrow> match_loop (touch st c cd) a (i + 1) clk (t + 1) url_path host_only_val
                                         (dList_insert_pos matching c (int j)) is_ssl))
                    else match_loop st a (i + 1) clk (t + 1) url_path host_only_val matching is_ssl)))"
  by pat_completeness auto
termination
proof (relation "measure (\<lambda>(st, a, i, clk, t, up, ho, m, ssl). case get_node st a of None \<Rightarrow> 0
    | Some n \<Rightarrow> length (dl_list (dn_cookies n)) - i)", goal_cases)
  case 1
  then show ?case by simp
next
  case (2 st a i clk t up ho m ssl n c cd st')
  then have i: "c = dl_list (dn_cookies n) ! i" "i < length (dl_list (dn_cookies n))"
    by (auto simp: dList_nth_data_def split: if_splits)
  have "get_node st' a = Some (n\<lparr>dn_cookies := dList_remove (dn_cookies n) c\<rparr>)"
    using 2(1,5) by (auto simp: drop_cookie_def Cookies_free_cookie_def get_node_put Let_def split: Option.bind_splits)
  moreover have "c \<in> set (dl_list (dn_cookies n))" using i by simp
  then have "length (remove1 c (dl_list (dn_cookies n))) = length (dl_list (dn_cookies n)) - 1"
    by (simp add: length_remove1)
  ultimately show ?case using 2(1) i by simp
next
  case (3 st a i clk t up ho m ssl n c cd p j)
  then show ?case by (auto simp: dList_nth_data_def touch_def get_node_def split: if_splits)
next
  case (4 st a i clk t up ho m ssl n c cd)
  then show ?case by (auto simp: dList_nth_data_def split: if_splits)
qed

declare match_loop.simps [simp del]

definition Cookies_add_matching_cookies ::
    "store \<Rightarrow> (nat \<Rightarrow> int) \<Rightarrow> nat \<Rightarrow> string \<Rightarrow> string option \<Rightarrow> bool \<Rightarrow> nat dlist \<Rightarrow> bool
     \<Rightarrow> (store \<times> nat \<times> nat dlist) option" where
  "Cookies_add_matching_cookies st clk t domain url_path host_only_val matching is_ssl =
     (case find_node st domain of
        None \<Rightarrow> Some (st, t, matching)
      | Some a \<Rightarrow>
          do {
            (st1, t1, matching1) \<leftarrow> match_loop st a 0 clk t url_path host_only_val matching is_ssl;
            st2 \<leftarrow> delete_if_empty st1 a;
            Some (st2, t1, matching1)
          })"

text \<open>The loop over the dots of the host name: \<open>s\<close> is what \<open>strchr\<close> is asked to search next.\<close>

function dots_loop :: "store \<Rightarrow> (nat \<Rightarrow> int) \<Rightarrow> nat \<Rightarrow> string \<Rightarrow> string option \<Rightarrow> nat dlist \<Rightarrow> bool
    \<Rightarrow> (store \<times> nat \<times> nat dlist) option" where
  "dots_loop st clk t s url_path matching is_ssl =
     (case strchr s CHR ''.'' of
        None \<Rightarrow> Some (st, t, matching)
      | Some domain_str \<Rightarrow>
          (case Cookies_add_matching_cookies st clk t domain_str url_path False matching is_ssl of
             None \<Rightarrow> None
           | Some (st1, t1, m1) \<Rightarrow>
               if tl domain_str \<noteq> [] then
                 (case Cookies_add_matching_cookies st1 clk t1 (tl domain_str) url_path False m1 is_ssl of
                    None \<Rightarrow> None
                  | Some (st2, t2, m2) \<Rightarrow> dots_loop st2 clk t2 (tl (tl domain_str)) url_path m2 is_ssl)
               else Some (st1, t1, m1)))"
  by pat_completeness auto
termination
proof (relation "measure (\<lambda>(st, clk, t, s, up, m, ssl). length s)", goal_cases)
  case (2 st clk t s up m ssl d x st1 y t1 m1 x' st2 y' t2 m2)
  have "d = dropWhile (\<lambda>x. x \<noteq> CHR ''.'') s" using 2(1) by (auto simp: strchr_def split: list.splits)
  then have "length d \<le> length s" by (simp add: length_dropWhile_le)
  moreover have "d \<noteq> []" using 2(1) by (auto simp: strchr_def split: list.splits)
  then have "length (tl (tl d)) < length d" by (cases d) auto
  ultimately show ?case unfolding in_measure prod.case by (rule order_less_le_trans [rotated])
qed simp

declare dots_loop.simps [simp del]

text \<open>The header line; \<open>n\<close> is the length of the list of matching cookies.\<close>

fun header_loop :: "(nat \<Rightarrow> cookie_data option) \<Rightarrow> nat \<Rightarrow> nat \<Rightarrow> nat list \<Rightarrow> string option" where
  "header_loop heap n i [] = Some []"
| "header_loop heap n i (c # cs) =
     do {
       cookie \<leftarrow> heap c;
       rest \<leftarrow> header_loop heap n (i + 1) cs;
       Some (c_name cookie @ ''='' @ c_value cookie
             @ (if i + 1 < n then ''; '' else [CHR 0x0D, CHR 0x0A]) @ rest)
     }"

text \<open>The state of the server: the flag \<open>disabled\<close>, the access rules and the cookies.\<close>

record server =
  sv_disabled :: bool
  sv_control :: control
  sv_store :: store

definition Cookies_get :: "server \<Rightarrow> (nat \<Rightarrow> int) \<Rightarrow> string option \<Rightarrow> string option \<Rightarrow> string option
    \<Rightarrow> (string \<times> server) option" where
  "Cookies_get sv clk url_host url_path url_scheme =
     (if sv_disabled sv then Some ([], sv)
      else
        do {
          scheme \<leftarrow> url_scheme;
          host \<leftarrow> url_host;
          let is_ssl = (dStrAsciiCasecmp scheme ''https'' = 0);
          let is_ip_addr = Cookies_domain_is_ip (Some host);
          let m = \<lparr>dl_sz = 8, dl_list = []\<rparr>;
          (st, t, m) \<leftarrow> (if is_ip_addr then Some (sv_store sv, 0, m)
             else Cookies_add_matching_cookies (sv_store sv) clk 0 (CHR ''.'' # host) url_path False m is_ssl);
          (st, t, m) \<leftarrow> Cookies_add_matching_cookies st clk t host url_path True m is_ssl;
          (st, t, m) \<leftarrow> Cookies_add_matching_cookies st clk t host url_path False m is_ssl;
          (st, t, m) \<leftarrow> (if is_ip_addr then Some (st, t, m)
             else dots_loop st clk t (tl host) url_path m is_ssl);
          str \<leftarrow> (if 0 < dList_length (Some m)
             then map_option (\<lambda>s. ''Cookie: '' @ s)
                    (header_loop (cookie_heap st) (dList_length (Some m)) 0 (dl_list m))
             else Some []);
          Some (str, sv\<lparr>sv_store := if str \<noteq> [] then st\<lparr>cookies_use_counter := cookies_use_counter st + 1\<rparr>
                                   else st\<rparr>)
        })"


section \<open>Order of the matching cookies\<close>

text \<open>Stable insertion by decreasing key.\<close>

definition ins_after :: "('a \<Rightarrow> nat) \<Rightarrow> 'a \<Rightarrow> 'a list \<Rightarrow> 'a list" where
  "ins_after k c m = takeWhile (\<lambda>x. k c \<le> k x) m @ c # dropWhile (\<lambda>x. k c \<le> k x) m"

lemma ins_after_split:
  "\<exists>A B. m = A @ B \<and> ins_after k c m = A @ c # B \<and> dropWhile (\<lambda>x. k c \<le> k x) m = B"
  by (intro exI [of _ "takeWhile (\<lambda>x. k c \<le> k x) m"] exI [of _ "dropWhile (\<lambda>x. k c \<le> k x) m"])
    (simp add: ins_after_def)

lemma mset_ins_after: "mset (ins_after k c m) = add_mset c (mset m)"
  using ins_after_split [of m k c]
  by (elim exE conjE) (simp only: mset_append mset.simps union_mset_add_mset_right)

lemma set_ins_after: "set (ins_after k c m) = insert c (set m)"
  using arg_cong [OF mset_ins_after [of k c m], of set_mset] by simp

lemma ins_after_sort:
  "foldl (\<lambda>m c. ins_after k c m) [] xs = sort_key (\<lambda>x. - int (k x)) xs"
proof (rule properties_for_sort_key [symmetric])
  have S: "sorted_wrt (\<lambda>x y. k y \<le> k x) (ins_after k c m)" if "sorted_wrt (\<lambda>x y. k y \<le> k x) m" for c m
    using that by (induction m) (auto simp: ins_after_def dest: set_takeWhileD set_dropWhileD)
  have F: "filter (\<lambda>x. k x = k y) (ins_after k c m) = filter (\<lambda>x. k x = k y) (m @ [c])"
    if "sorted_wrt (\<lambda>x y. k y \<le> k x) m" for y c m
  proof -
    have "filter (\<lambda>x. k x = k c) (dropWhile (\<lambda>x. k c \<le> k x) m) = []"
      using that by (induction m) (force simp: filter_empty_conv)+
    moreover obtain A B where s: "m = A @ B" "ins_after k c m = A @ c # B" "dropWhile (\<lambda>x. k c \<le> k x) m = B"
      using ins_after_split by metis
    ultimately have "filter (\<lambda>x. k x = k c) B = []" by simp
    then show ?thesis unfolding s(2) unfolding s(1) by (cases "k c = k y") simp_all
  qed
  have "sorted_wrt (\<lambda>x y. k y \<le> k x) (foldl (\<lambda>m c. ins_after k c m) m xs)
     \<and> mset (foldl (\<lambda>m c. ins_after k c m) m xs) = mset (m @ xs)
     \<and> filter (\<lambda>x. k x = k y) (foldl (\<lambda>m c. ins_after k c m) m xs) = filter (\<lambda>x. k x = k y) (m @ xs)"
    if "sorted_wrt (\<lambda>x y. k y \<le> k x) m" for y m
    using that
  proof (induction xs arbitrary: m)
    case (Cons x xs)
    have "mset (ins_after k x m) = mset (m @ [x])" by (simp add: mset_ins_after)
    then show ?case using Cons.IH [OF S [OF Cons.prems], of x] F [OF Cons.prems, of y x] by simp
  qed simp
  from this [of "[]"] show "mset (foldl (\<lambda>m c. ins_after k c m) [] xs) = mset xs"
    "sorted (map (\<lambda>x. - int (k x)) (foldl (\<lambda>m c. ins_after k c m) [] xs))"
    "\<And>y. filter (\<lambda>x. - int (k y) = - int (k x)) (foldl (\<lambda>m c. ins_after k c m) [] xs) =
      filter (\<lambda>x. - int (k y) = - int (k x)) xs"
    by (simp_all add: sorted_map eq_commute)
qed

lemma path_pos_ok:
  assumes "\<forall>c \<in> set m. \<exists>cd p. heap c = Some cd \<and> c_path cd = Some p \<and> k c = length p"
  shows "path_pos heap m len j = Some (j + length (takeWhile (\<lambda>c. len \<le> k c) m))"
  using assms by (induction m arbitrary: j) auto

lemma insert_pos_path:
  assumes "\<forall>c \<in> set (dl_list m). \<exists>cd p. heap c = Some cd \<and> c_path cd = Some p \<and> k c = length p"
    "path_pos heap (dl_list m) (k c) 0 = Some j"
  shows "dl_list (dList_insert_pos m c (int j)) = ins_after k c (dl_list m)"
proof -
  have j: "j = length (takeWhile (\<lambda>x. k c \<le> k x) (dl_list m))"
    using assms(2) path_pos_ok [OF assms(1), of "k c" 0] by simp
  have "j \<le> length (dl_list m)" unfolding j by (rule length_takeWhile_le)
  then show ?thesis
    by (simp add: dl_list_insert_pos ins_after_def j takeWhile_eq_take [symmetric] dropWhile_eq_drop [symmetric])
qed

section \<open>Cookies while time stands still\<close>

text \<open>
  Between two moments of the same second a heap \<open>h\<close> may lose cookies that have expired, and cookies
  may be marked as used; nothing else happens to them.
\<close>

definition aged :: "int \<Rightarrow> (nat \<Rightarrow> cookie_data option) \<Rightarrow> (nat \<Rightarrow> cookie_data option) \<Rightarrow> bool" where
  "aged now h h' \<longleftrightarrow> (\<forall>c. case h' c of Some cd' \<Rightarrow> (\<exists>cd u. h c = Some cd \<and> cd' = cd\<lparr>c_last_used := u\<rparr>)
     | None \<Rightarrow> \<not> live h now c)"

definition cmatch :: "(nat \<Rightarrow> cookie_data option) \<Rightarrow> string option \<Rightarrow> bool \<Rightarrow> bool \<Rightarrow> nat \<Rightarrow> bool" where
  "cmatch h url_path ho ssl c = (case h c of None \<Rightarrow> False | Some cd \<Rightarrow> Cookies_match cd url_path ho ssl)"

definition plen :: "(nat \<Rightarrow> cookie_data option) \<Rightarrow> nat \<Rightarrow> nat" where
  "plen h c = (case h c of None \<Rightarrow> 0 | Some cd \<Rightarrow> length (the (c_path cd)))"

lemma aged_refl: "aged now h h"
proof -
  have "\<exists>u. cd = cd\<lparr>c_last_used := u\<rparr>" for cd :: cookie_data
    by (rule exI [of _ "c_last_used cd"]) simp
  then show ?thesis by (auto simp: aged_def live_def split: option.splits)
qed

lemma agedD: "aged now h h' \<Longrightarrow> h' c = Some cd' \<Longrightarrow> \<exists>cd u. h c = Some cd \<and> cd' = cd\<lparr>c_last_used := u\<rparr>"
  unfolding aged_def by (drule spec [of _ c]) simp

lemma aged_live: "aged now h h' \<Longrightarrow> live h now c \<Longrightarrow> \<exists>cd'. h' c = Some cd'"
  unfolding aged_def by (drule spec [of _ c]) (auto split: option.splits)

lemma aged_facts:
  assumes "aged now h h'" "h' c = Some cd"
  shows "live h now c \<longleftrightarrow> now \<le> c_expires_at cd"
    "cmatch h url_path ho ssl c = Cookies_match cd url_path ho ssl"
    "plen h c = length (the (c_path cd))"
  using agedD [OF assms] by (auto simp: live_def cmatch_def plen_def Cookies_match_def)

lemma aged_drop: "aged now h h' \<Longrightarrow> \<not> live h now c \<Longrightarrow> aged now h (h'(c := None))"
  by (auto simp: aged_def)

lemma aged_touch:
  assumes "aged now h h'" "h' c = Some cd"
  shows "aged now h (h'(c \<mapsto> cd\<lparr>c_last_used := u\<rparr>))"
  unfolding aged_def
proof
  fix x
  show "case (h'(c \<mapsto> cd\<lparr>c_last_used := u\<rparr>)) x of Some cd' \<Rightarrow> \<exists>cd u. h x = Some cd \<and> cd' = cd\<lparr>c_last_used := u\<rparr>
      | None \<Rightarrow> \<not> live h now x"
    using agedD [OF assms] assms(1) unfolding aged_def by (cases "x = c") auto
qed

lemma aged_wf:
  assumes "heap_wf h" "aged now h h'"
  shows "heap_wf h'"
  unfolding heap_wf_def
proof
  have *: "\<exists>cd. h x = Some cd \<and> cookie_wf (the (h' x)) = cookie_wf cd \<and> cookie_key (the (h' x)) = cookie_key cd"
    if "x \<in> dom h'" for x
    using that agedD [OF assms(2)] by force
  show "\<forall>cd \<in> ran h'. cookie_wf cd"
  proof
    fix cd
    assume "cd \<in> ran h'"
    then obtain x where x: "h' x = Some cd" by (auto simp: ran_def)
    then obtain cd0 where "h x = Some cd0" "cookie_wf cd = cookie_wf cd0" using * [of x] by auto
    then show "cookie_wf cd" using assms(1) by (auto simp: heap_wf_def ran_def)
  qed
  show "inj_on (\<lambda>c. cookie_key (the (h' c))) (dom h')"
  proof (rule inj_onI)
    fix x y
    assume xy: "x \<in> dom h'" "y \<in> dom h'" "cookie_key (the (h' x)) = cookie_key (the (h' y))"
    obtain cx cy where "h x = Some cx" "h y = Some cy" "cookie_key cx = cookie_key cy"
      using * [OF xy(1)] * [OF xy(2)] xy(3) by metis
    moreover from this have "x \<in> dom h" "y \<in> dom h" by blast+
    ultimately show "x = y"
      using inj_onD [of "\<lambda>c. cookie_key (the (h c))" "dom h" x y] assms(1) unfolding heap_wf_def by simp
  qed
qed

lemma touch_ok:
  assumes "store_ok st" "cookie_heap st c = Some cd"
  shows "store_ok (touch st c cd)" "view (touch st c cd) = view st"
proof -
  let ?h = "(cookie_heap st)(c \<mapsto> cd\<lparr>c_last_used := cookies_use_counter st\<rparr>)"
  show v: "view (touch st c cd) = view st" by (simp add: touch_def view_def get_node_def)
  have dom: "dom ?h = dom (cookie_heap st)" using assms(2) by auto
  have dom_of: "\<exists>cd' dd. ?h x = Some cd' \<and> c_domain cd' = Some dd \<and> cstr dd \<and> ieq dd d"
    if "\<exists>e dd. cookie_heap st x = Some e \<and> c_domain e = Some dd \<and> cstr dd \<and> ieq dd d" for x d
    using that assms(2) by (cases "x = c") auto
  have "shape_ok (view st) ?h (dl_list (all_cookies st)) (next_address st)"
    using store_okD(2) [OF assms(1)] dom_of unfolding shape_ok_def dom by simp
  then show "store_ok (touch st c cd)"
    using store_okD(1) [OF assms(1)] unfolding store_ok_def v
    by (simp add: touch_def nodes_ok_def)
qed

lemma match_loop_ok:
  assumes "store_ok st" "heap_wf (cookie_heap st)" "view st a = Some (d, cs)" "i \<le> length cs"
    "\<forall>k < i. live h now (cs ! k)" "aged now h (cookie_heap st)"
    "\<forall>c \<in> set (dl_list m). live h now c"
  shows "\<exists>st' t' m'. match_loop st a i (\<lambda>_. now) t url_path ho m ssl = Some (st', t', m')
    \<and> store_ok st' \<and> view st' = (view st)(a \<mapsto> (d, filter (live h now) cs)) \<and> aged now h (cookie_heap st')
    \<and> cookies_use_counter st' = cookies_use_counter st
    \<and> dl_list m' = foldl (\<lambda>m c. ins_after (plen h) c m) (dl_list m)
        (filter (\<lambda>c. live h now c \<and> cmatch h url_path ho ssl c) (drop i cs))"
  using assms
proof (induction "length cs - i" arbitrary: st cs i m t)
  case 0
  then have i: "i = length cs" and all: "\<forall>c \<in> set cs. live h now c" by (auto simp: in_set_conv_nth)
  obtain n where n: "get_node st a = Some n" "dl_list (dn_cookies n) = cs"
    using "0.prems"(3) by (auto simp: view_Some)
  have "(view st)(a \<mapsto> (d, filter (live h now) cs)) = view st" using all "0.prems"(3) by (auto simp: filter_True)
  moreover have "match_loop st a i (\<lambda>_. now) t url_path ho m ssl = Some (st, t, m)"
    using n i by (simp add: match_loop.simps [of st] dList_nth_data_def)
  ultimately show ?case using "0.prems" i by simp
next
  case (Suc l)
  let ?L = "live h now" and ?h = "cookie_heap st"
  let ?F = "filter (\<lambda>c. live h now c \<and> cmatch h url_path ho ssl c)"
  have i: "i < length cs" using Suc.hyps(2) by simp
  define c where "c = cs ! i"
  have c: "c \<in> set cs" "drop i cs = c # drop (Suc i) cs"
    using i by (simp_all add: c_def Cons_nth_drop_Suc)
  obtain n where n: "get_node st a = Some n" "dl_list (dn_cookies n) = cs"
    using Suc.prems(3) by (auto simp: view_Some)
  obtain cd where cd: "?h c = Some cd" using store_okE(6) [OF Suc.prems(1,3) c(1)] by blast
  note facts = aged_facts [OF Suc.prems(6) cd]
  have nth: "dList_nth_data (Some (dn_cookies n)) (int i) = Some c"
    using i n(2) by (simp add: dList_nth_data_def c_def)
  note step = match_loop.simps [of st a i "\<lambda>_. now" t url_path ho m ssl, unfolded n(1) option.case nth cd]
  have k: "\<forall>k < Suc i. ?L (cs ! k)" if "?L c" using that Suc.prems(5) less_Suc_eq c_def by auto
  show ?case
  proof (cases "?L c")
    case False
    have dist: "distinct cs" using store_okE(4) [OF Suc.prems(1,3)] by simp
    obtain st1 where 1: "drop_cookie st a c = Some st1"
      "store_to st st1 ((view st)(a \<mapsto> (d, remove1 c cs))) (?h(c := None))"
      using drop_cookie_ok [OF Suc.prems(1,3) c(1)] by blast
    have rm: "remove1 c cs = take i cs @ drop (Suc i) cs"
      by (rule remove1_split) (use i dist c_def in \<open>auto simp: in_set_conv_nth nth_eq_iff_index_eq\<close>)
    have ag: "aged now h (cookie_heap st1)" using 1(2) aged_drop [OF Suc.prems(6) False] by (simp add: store_to_def)
    have wf: "heap_wf (cookie_heap st1)"
      by (rule heap_wf_mono [OF Suc.prems(2)]) (use 1(2) in \<open>auto simp: store_to_def map_le_def\<close>)
    have mm: "l = length (remove1 c cs) - i" "i \<le> length (remove1 c cs)"
      using Suc.hyps(2) i c(1) by (simp_all add: length_remove1)
    have p: "\<forall>k < i. ?L (remove1 c cs ! k)" unfolding rm using Suc.prems(5) i by (simp add: nth_append)
    have st1: "store_ok st1" "view st1 a = Some (d, remove1 c cs)" "cookies_use_counter st1 = cookies_use_counter st"
      using 1(2) by (simp_all add: store_to_def)
    have f: "filter ?L (remove1 c cs) = filter ?L cs" using False by (simp add: filter_remove1)
    have "drop i (remove1 c cs) = drop (Suc i) cs" unfolding rm using i by simp
    then have F: "?F (drop i (remove1 c cs)) = ?F (drop i cs)" using False c(2) by simp
    have "match_loop st a i (\<lambda>_. now) t url_path ho m ssl = match_loop st1 a i (\<lambda>_. now) (t + 1) url_path ho m ssl"
      using step 1(1) False facts(1) by simp
    then show ?thesis
      using Suc.hyps(1) [OF mm(1) st1(1) wf st1(2) mm(2) p ag Suc.prems(7), of "t + 1"] 1(2)
      unfolding f F by (simp add: store_to_def)
  next
    case live: True
    have l: "l = length cs - Suc i" "Suc i \<le> length cs" using Suc.hyps(2) i by simp_all
    show ?thesis
    proof (cases "cmatch h url_path ho ssl c")
      case False
      have "match_loop st a i (\<lambda>_. now) t url_path ho m ssl = match_loop st a (i + 1) (\<lambda>_. now) (t + 1) url_path ho m ssl"
        using step False live facts(1,2) by simp
      moreover have "?F (drop i cs) = ?F (drop (Suc i) cs)" using False c(2) by simp
      ultimately show ?thesis
        using Suc.hyps(1) [OF l(1) Suc.prems(1-3) l(2) k [OF live] Suc.prems(6,7), of "t + 1"] by simp
    next
      case True
      have "cookie_wf cd" using Suc.prems(2) cd by (auto simp: heap_wf_def ran_def)
      then obtain p where p: "c_path cd = Some p" by (auto simp: cookie_wf_def)
      have pl: "plen h c = length p" using facts(3) p by simp
      have ms: "\<forall>c \<in> set (dl_list m). \<exists>cd p. ?h c = Some cd \<and> c_path cd = Some p \<and> plen h c = length p"
      proof
        fix x
        assume "x \<in> set (dl_list m)"
        then obtain cx where x: "?h x = Some cx" using aged_live [OF Suc.prems(6)] Suc.prems(7) by blast
        then have "cookie_wf cx" using Suc.prems(2) by (auto simp: heap_wf_def ran_def)
        then show "\<exists>cd p. ?h x = Some cd \<and> c_path cd = Some p \<and> plen h x = length p"
          using aged_facts(3) [OF Suc.prems(6) x] x by (auto simp: cookie_wf_def)
      qed
      obtain j where j: "path_pos ?h (dl_list m) (plen h c) 0 = Some j" using path_pos_ok [OF ms] by blast
      let ?m1 = "dList_insert_pos m c (int j)"
      have m1: "dl_list ?m1 = ins_after (plen h) c (dl_list m)" by (rule insert_pos_path [OF ms j])
      have lm: "\<forall>c \<in> set (dl_list ?m1). ?L c"
        using Suc.prems(7) live unfolding m1 set_ins_after by simp
      let ?st1 = "touch st c cd"
      have ag: "aged now h (cookie_heap ?st1)"
        unfolding touch_def by (simp add: aged_touch [OF Suc.prems(6) cd])
      have wf: "heap_wf (cookie_heap ?st1)"
        by (rule aged_wf [OF Suc.prems(2), of now]) (simp add: touch_def aged_touch [of now ?h ?h, OF aged_refl cd])
      note ok = touch_ok [OF Suc.prems(1) cd]
      have v: "view ?st1 a = Some (d, cs)" using ok(2) Suc.prems(3) by simp
      have "match_loop st a i (\<lambda>_. now) t url_path ho m ssl =
          match_loop ?st1 a (i + 1) (\<lambda>_. now) (t + 1) url_path ho ?m1 ssl"
        using step True live facts(1,2) p j pl by simp
      moreover have "?F (drop i cs) = c # ?F (drop (Suc i) cs)" using True live c(2) by simp
      moreover have "cookies_use_counter ?st1 = cookies_use_counter st" by (simp add: touch_def)
      ultimately show ?thesis
        using Suc.hyps(1) [OF l(1) ok(1) wf v l(2) k [OF live] ag lm, of "t + 1"] ok(2) m1 by simp
    qed
  qed
qed

section \<open>The lookups of a request\<close>

text \<open>The cookies in the list of a domain.\<close>

definition cookies_of :: "store \<Rightarrow> string \<Rightarrow> nat list" where
  "cookies_of st dn = (case find_node st dn of None \<Rightarrow> [] | Some a \<Rightarrow> snd (the (view st a)))"

lemma cookies_of_view:
  assumes "store_ok st" "cstr dn"
  shows "view st a = Some (d, cs) \<Longrightarrow> ieq d dn \<Longrightarrow> cookies_of st dn = cs"
    "(\<And>a d cs. view st a = Some (d, cs) \<Longrightarrow> \<not> ieq d dn) \<Longrightarrow> cookies_of st dn = []"
proof -
  note f = find_node_iff [OF assms]
  show "cookies_of st dn = cs" if "view st a = Some (d, cs)" "ieq d dn"
    using that f [of a] by (simp add: cookies_of_def)
  show "cookies_of st dn = []" if "\<And>a d cs. view st a = Some (d, cs) \<Longrightarrow> \<not> ieq d dn"
    using that f by (auto simp: cookies_of_def split: option.split)
qed

text \<open>What a request at time \<open>now\<close> leaves of the store it started with.\<close>

definition request_ok :: "int \<Rightarrow> store \<Rightarrow> store \<Rightarrow> bool" where
  "request_ok now st0 st \<longleftrightarrow> store_ok st \<and> heap_wf (cookie_heap st0) \<and> lens_ok st None
     \<and> aged now (cookie_heap st0) (cookie_heap st) \<and> cookies_use_counter st = cookies_use_counter st0
     \<and> (\<forall>dn. cstr dn \<longrightarrow> filter (live (cookie_heap st0) now) (cookies_of st dn) =
                           filter (live (cookie_heap st0) now) (cookies_of st0 dn))"

lemma request_ok_refl: "cookies_inv st \<Longrightarrow> request_ok now st st"
  using cookies_invD [of st] by (simp add: request_ok_def aged_refl)

lemma request_ok_inv:
  assumes "cookies_inv st0" "request_ok now st0 st"
  shows "cookies_inv st"
proof -
  note r = assms(2) [unfolded request_ok_def]
  have "dom (cookie_heap st) \<subseteq> dom (cookie_heap st0)" using agedD r by blast
  then have "card (dom (cookie_heap st)) \<le> card (dom (cookie_heap st0))"
    by (rule card_mono [OF finite_heap [OF cookies_invD(1) [OF assms(1)]]])
  then have "length (dl_list (all_cookies st)) \<le> MAX_TOTAL_COOKIES"
    using r cookies_invD [OF assms(1)] by (simp add: length_all_cookies)
  then show ?thesis using r aged_wf [of "cookie_heap st0"] by (intro cookies_invI) blast+
qed

text \<open>What one call of \<open>Cookies_add_matching_cookies\<close> selects.\<close>

definition selected :: "int \<Rightarrow> store \<Rightarrow> string option \<Rightarrow> bool \<Rightarrow> string \<times> bool \<Rightarrow> nat list" where
  "selected now st url_path ssl q =
     filter (\<lambda>c. live (cookie_heap st) now c \<and> cmatch (cookie_heap st) url_path (snd q) ssl c) (cookies_of st (fst q))"

lemma add_matching_ok:
  assumes "request_ok now st0 st" "cstr domain" "\<forall>c \<in> set (dl_list m). live (cookie_heap st0) now c"
  shows "\<exists>st' t' m'. Cookies_add_matching_cookies st (\<lambda>_. now) t domain url_path ho m ssl = Some (st', t', m')
    \<and> request_ok now st0 st'
    \<and> dl_list m' = foldl (\<lambda>m c. ins_after (plen (cookie_heap st0)) c m) (dl_list m)
        (selected now st0 url_path ssl (domain, ho))"
proof -
  let ?h = "cookie_heap st0" let ?L = "live ?h now"
  note r = assms(1) [unfolded request_ok_def]
  have wf: "heap_wf (cookie_heap st)" using r aged_wf by blast
  have sel: "selected now st0 url_path ssl (domain, ho) =
      filter (\<lambda>c. ?L c \<and> cmatch ?h url_path ho ssl c) (cookies_of st domain)"
  proof -
    have "filter (cmatch ?h url_path ho ssl) (filter ?L (cookies_of st domain)) =
        filter (cmatch ?h url_path ho ssl) (filter ?L (cookies_of st0 domain))" using r assms(2) by simp
    then show ?thesis by (simp add: selected_def conj_commute)
  qed
  show ?thesis
  proof (cases "find_node st domain")
    case None
    then have "cookies_of st domain = []" by (simp add: cookies_of_def)
    then show ?thesis using None assms(1) sel by (simp add: Cookies_add_matching_cookies_def)
  next
    case (Some a)
    obtain d cs where v: "view st a = Some (d, cs)" "ieq d domain"
      using Some find_node_iff [OF _ assms(2)] r by blast
    have co: "cookies_of st domain = cs" using cookies_of_view(1) [OF _ assms(2) v] r by blast
    obtain st1 t1 m1 where 1: "match_loop st a 0 (\<lambda>_. now) t url_path ho m ssl = Some (st1, t1, m1)"
      "store_ok st1" "view st1 = (view st)(a \<mapsto> (d, filter ?L cs))" "aged now ?h (cookie_heap st1)"
      "cookies_use_counter st1 = cookies_use_counter st"
      "dl_list m1 = foldl (\<lambda>m c. ins_after (plen ?h) c m) (dl_list m)
         (filter (\<lambda>c. ?L c \<and> cmatch ?h url_path ho ssl c) (drop 0 cs))"
      using match_loop_ok [of st a d cs 0 ?h now m t url_path ho ssl] r wf v(1) assms(3) by auto
    have v1: "view st1 a = Some (d, filter ?L cs)" using 1(3) by simp
    obtain st2 where 2: "delete_if_empty st1 a = Some st2"
      "store_to st1 st2 (if filter ?L cs = [] then (view st1)(a := None) else view st1) (cookie_heap st1)"
      using delete_if_empty_ok [OF 1(2) v1] by blast
    have ok2: "store_ok st2" "cookie_heap st2 = cookie_heap st1" using 2(2) by (simp_all add: store_to_def)
    have v2: "view st2 = (view st)(a := if filter ?L cs = [] then None else Some (d, filter ?L cs))"
      using 2(2) 1(3) by (simp add: store_to_def)
    have "length (filter ?L cs) \<le> MAX_DOMAIN_COOKIES"
      using lens_okD [of st None a d cs] r v(1) length_filter_le [of ?L cs] by linarith
    then have lens: "lens_ok st2 None"
      unfolding lens_ok_def
    proof (intro allI impI)
      fix b d' cs'
      assume b: "view st2 b = Some (d', cs')"
      show "(Some b \<noteq> None \<longrightarrow> cs' \<noteq> []) \<and> length cs' \<le> MAX_DOMAIN_COOKIES"
        using b lens_okD [of st None b d' cs'] r v2 \<open>length (filter ?L cs) \<le> MAX_DOMAIN_COOKIES\<close>
        by (cases "b = a") (auto split: if_splits)
    qed
    have lists: "filter ?L (cookies_of st2 dn) = filter ?L (cookies_of st0 dn)" if "cstr dn" for dn
    proof -
      have "filter ?L (cookies_of st2 dn) = filter ?L (cookies_of st dn)"
      proof (cases "\<exists>b d' cs'. view st b = Some (d', cs') \<and> ieq d' dn")
        case True
        then obtain b d' cs' where b: "view st b = Some (d', cs')" "ieq d' dn" by blast
        have st: "cookies_of st dn = cs'" using cookies_of_view(1) [OF _ that b] r by blast
        show ?thesis
        proof (cases "b = a \<and> filter ?L cs = []")
          case e: True
          have "\<not> ieq d2 dn" if "view st2 x = Some (d2, cs2)" for x d2 cs2
          proof
            assume i: "ieq d2 dn"
            have x: "x \<noteq> a" "view st x = Some (d2, cs2)" using that v2 e by (auto split: if_splits)
            have "ieq d2 d'" using ieq_trans [OF i ieq_sym [OF b(2)]] .
            then have "x = b" using store_okE(5) [of st, OF _ x(2) b(1)] r by blast
            then show False using x(1) e by blast
          qed
          then have "cookies_of st2 dn = []" using cookies_of_view(2) [OF ok2(1) that] by blast
          then show ?thesis using st e b(1) v(1) by simp
        next
          case ne: False
          have "view st2 b = Some (d', if b = a then filter ?L cs else cs')" using ne v2 b(1) v(1) by auto
          then have "cookies_of st2 dn = (if b = a then filter ?L cs else cs')"
            using cookies_of_view(1) [OF ok2(1) that _ b(2)] by blast
          then show ?thesis using st b(1) v(1) by auto
        qed
      next
        case False
        then have "\<not> ieq d2 dn" if "view st2 x = Some (d2, cs2)" for x d2 cs2
          using that v2 v(1) by (auto split: if_splits)
        then have "cookies_of st2 dn = []" using cookies_of_view(2) [OF ok2(1) that] by blast
        moreover have "cookies_of st dn = []" using False cookies_of_view(2) [OF _ that] r by blast
        ultimately show ?thesis by simp
      qed
      then show ?thesis using r that by simp
    qed
    have "request_ok now st0 st2"
      using r ok2 lens 1(4,5) 2(2) lists by (simp add: request_ok_def store_to_def)
    moreover have "Cookies_add_matching_cookies st (\<lambda>_. now) t domain url_path ho m ssl = Some (st2, t1, m1)"
      using Some 1(1) 2(1) by (simp add: Cookies_add_matching_cookies_def)
    ultimately show ?thesis using 1(6) sel co by simp
  qed
qed

text \<open>The queries of a sequence of calls, answered from the store \<open>st0\<close>.\<close>

definition answers :: "int \<Rightarrow> store \<Rightarrow> string option \<Rightarrow> bool \<Rightarrow> nat dlist \<Rightarrow> (string \<times> bool) list
    \<Rightarrow> (store \<times> nat \<times> nat dlist) option \<Rightarrow> bool" where
  "answers now st0 url_path ssl m qs r \<longleftrightarrow> (\<exists>st t m'. r = Some (st, t, m') \<and> request_ok now st0 st
     \<and> dl_list m' = foldl (\<lambda>m c. ins_after (plen (cookie_heap st0)) c m) (dl_list m)
         (concat (map (selected now st0 url_path ssl) qs))
     \<and> (\<forall>c \<in> set (dl_list m'). live (cookie_heap st0) now c))"

lemma set_foldl_ins: "set (foldl (\<lambda>m c. ins_after k c m) m xs) = set m \<union> set xs"
  by (induction xs arbitrary: m) (auto simp: set_ins_after)

lemma answers_call:
  assumes "request_ok now st0 st" "cstr domain" "\<forall>c \<in> set (dl_list m). live (cookie_heap st0) now c"
  shows "answers now st0 url_path ssl m [(domain, ho)]
    (Cookies_add_matching_cookies st (\<lambda>_. now) t domain url_path ho m ssl)"
proof -
  obtain st' t' m' where r: "Cookies_add_matching_cookies st (\<lambda>_. now) t domain url_path ho m ssl = Some (st', t', m')"
    "request_ok now st0 st'" "dl_list m' = foldl (\<lambda>m c. ins_after (plen (cookie_heap st0)) c m) (dl_list m)
        (selected now st0 url_path ssl (domain, ho))"
    using add_matching_ok [OF assms] by blast
  have "\<forall>c \<in> set (dl_list m'). live (cookie_heap st0) now c"
    using assms(3) unfolding r(3) set_foldl_ins by (auto simp: selected_def)
  then show ?thesis using r by (simp add: answers_def)
qed

lemma answers_start:
  assumes "cookies_inv st" "\<forall>c \<in> set (dl_list m). live (cookie_heap st) now c"
  shows "answers now st url_path ssl m [] (Some (st, t, m))"
  using assms by (simp add: answers_def request_ok_refl)

lemma answers_bind:
  assumes "answers now st0 url_path ssl m qs r"
    "\<And>st t m'. r = Some (st, t, m') \<Longrightarrow> request_ok now st0 st \<Longrightarrow>
       \<forall>c \<in> set (dl_list m'). live (cookie_heap st0) now c \<Longrightarrow> answers now st0 url_path ssl m' qs' (f st t m')"
  shows "answers now st0 url_path ssl m (qs @ qs') (case r of None \<Rightarrow> None | Some (st, t, m') \<Rightarrow> f st t m')"
proof -
  obtain st t m' where r: "r = Some (st, t, m')" "request_ok now st0 st"
    "dl_list m' = foldl (\<lambda>m c. ins_after (plen (cookie_heap st0)) c m) (dl_list m)
         (concat (map (selected now st0 url_path ssl) qs))"
    "\<forall>c \<in> set (dl_list m'). live (cookie_heap st0) now c"
    using assms(1) by (auto simp: answers_def)
  show ?thesis using assms(2) [OF r(1,2,4)] r(3) unfolding r(1) by (simp add: answers_def)
qed

text \<open>What follows the dots of a host name.\<close>

fun dot_suffixes :: "string \<Rightarrow> string list" where
  "dot_suffixes [] = []"
| "dot_suffixes (c # s) = (if c = CHR ''.'' then s # dot_suffixes s else dot_suffixes s)"

definition suffix_queries :: "string list \<Rightarrow> (string \<times> bool) list" where
  "suffix_queries xs = concat (map (\<lambda>s. [(CHR ''.'' # s, False), (s, False)]) xs)"

text \<open>Host names: no empty label, and no suffix of labels reads as an address.\<close>

definition host_ok :: "string \<Rightarrow> bool" where
  "host_ok host \<longleftrightarrow> cstr host
     \<and> (\<forall>s \<in> set (host # dot_suffixes host). s \<noteq> [] \<and> hd s \<noteq> CHR ''.'' \<and> \<not> Cookies_domain_is_ip (Some s))"

lemma dot_suffixes_strchr:
  "dot_suffixes s = (case strchr s CHR ''.'' of None \<Rightarrow> [] | Some d \<Rightarrow> tl d # dot_suffixes (tl d))"
  by (induction s) (auto simp: strchr_def)

lemma dots_loop_ok:
  assumes "request_ok now st0 st" "cstr s" "\<forall>x \<in> set (dot_suffixes s). x \<noteq> [] \<and> hd x \<noteq> CHR ''.''"
    "\<forall>c \<in> set (dl_list m). live (cookie_heap st0) now c"
  shows "answers now st0 url_path ssl m (suffix_queries (dot_suffixes s))
    (dots_loop st (\<lambda>_. now) t s url_path m ssl)"
  using assms
proof (induction "length s" arbitrary: s st m t rule: less_induct)
  case less
  note step = dots_loop.simps [of st "\<lambda>_. now" t s url_path m ssl]
  show ?case
  proof (cases "strchr s CHR ''.''")
    case None
    then have "dot_suffixes s = []" by (simp add: dot_suffixes_strchr [of s])
    then show ?thesis using less.prems None step by (simp add: answers_def suffix_queries_def)
  next
    case (Some d)
    have d: "d = dropWhile (\<lambda>x. x \<noteq> CHR ''.'') s" "d \<noteq> []" using Some by (auto simp: strchr_def split: list.splits)
    have ne: "tl d \<noteq> []" "hd (tl d) \<noteq> CHR ''.''"
      using less.prems(3) Some by (simp_all add: dot_suffixes_strchr [of s])
    then obtain c x where tld: "tl d = c # x" "c \<noteq> CHR ''.''" by (cases "tl d") auto
    have hd: "hd d = CHR ''.''" using d hd_dropWhile [of "\<lambda>x. x \<noteq> CHR ''.''" s] by simp
    then have ds: "CHR ''.'' # tl d = d" using d(2) by (cases d) auto
    have cs: "cstr d" "cstr (tl d)" "cstr x"
    proof -
      show 1: "cstr d" unfolding d(1) using less.prems(2) by (auto simp: cstr_def dest: set_dropWhileD)
      then show 2: "cstr (tl d)" using ds by (metis cstr_Cons)
      then show "cstr x" using tld(1) by simp
    qed
    have suf: "dot_suffixes s = tl d # dot_suffixes x" using Some tld by (simp add: dot_suffixes_strchr [of s])
    have len: "length x < length s"
      using length_dropWhile_le [of "\<lambda>x. x \<noteq> CHR ''.''" s] arg_cong [OF ds, of length] tld(1)
      unfolding d(1) [symmetric] by simp
    have "answers now st0 url_path ssl m ([(d, False)] @ ([(tl d, False)] @ suffix_queries (dot_suffixes x)))
        (case Cookies_add_matching_cookies st (\<lambda>_. now) t d url_path False m ssl of None \<Rightarrow> None
         | Some (st1, t1, m1) \<Rightarrow>
             (case Cookies_add_matching_cookies st1 (\<lambda>_. now) t1 (tl d) url_path False m1 ssl of None \<Rightarrow> None
              | Some (st2, t2, m2) \<Rightarrow> dots_loop st2 (\<lambda>_. now) t2 x url_path m2 ssl))"
      by (intro answers_bind answers_call less.prems cs less.hyps [OF len]) (use less.prems(3) suf in auto)
    moreover have "suffix_queries (dot_suffixes s) = [(d, False)] @ ([(tl d, False)] @ suffix_queries (dot_suffixes x))"
      using suf ds by (simp add: suffix_queries_def)
    moreover have "tl (tl d) = x" using tld(1) by simp
    ultimately show ?thesis unfolding step Some option.case if_P [OF ne(1)] by (simp only:)
  qed
qed

section \<open>The cookies of a request\<close>

definition queries :: "string \<Rightarrow> (string \<times> bool) list" where
  "queries host = (if Cookies_domain_is_ip (Some host) then [(host, True), (host, False)]
     else [(CHR ''.'' # host, False), (host, True), (host, False)] @ suffix_queries (dot_suffixes host))"

text \<open>The header line of a list of cookies.\<close>

definition cookie_header :: "cookie_data list \<Rightarrow> string" where
  "cookie_header cds = (if cds = [] then []
     else ''Cookie: '' @ concat (map (\<lambda>cd. c_name cd @ ''='' @ c_value cd @ ''; '') (butlast cds))
            @ c_name (last cds) @ ''='' @ c_value (last cds) @ [CHR 0x0D, CHR 0x0A])"

lemma header_loop_ok:
  assumes "\<forall>c \<in> set cs. \<exists>cd. heap c = Some cd \<and> c_name cd = c_name (the (h c)) \<and> c_value cd = c_value (the (h c))"
    "cs \<noteq> []" "n = i + length cs" "cds = map (\<lambda>c. the (h c)) cs"
  shows "header_loop heap n i cs = Some (concat (map (\<lambda>cd. c_name cd @ ''='' @ c_value cd @ ''; '') (butlast cds))
      @ c_name (last cds) @ ''='' @ c_value (last cds) @ [CHR 0x0D, CHR 0x0A])"
  using assms
proof (induction cs arbitrary: i cds)
  case (Cons c cs)
  obtain cd where cd: "heap c = Some cd" "c_name cd = c_name (the (h c))" "c_value cd = c_value (the (h c))"
    using Cons.prems(1) by auto
  show ?case
  proof (cases cs)
    case Nil
    then show ?thesis using Cons.prems cd by auto
  next
    case (Cons c' cs')
    then show ?thesis using Cons.IH [of "i + 1" "map (\<lambda>c. the (h c)) cs"] Cons.prems cd by simp
  qed
qed simp

definition selection :: "int \<Rightarrow> store \<Rightarrow> string option \<Rightarrow> bool \<Rightarrow> string \<Rightarrow> nat list" where
  "selection now st url_path ssl host = concat (map (selected now st url_path ssl) (queries host))"

lemma Cookies_get_ok:
  assumes "cookies_inv (sv_store sv)" "\<not> sv_disabled sv" "cstr host" "host_ok host \<or> Cookies_domain_is_ip (Some host)"
  shows "\<exists>sv'. Cookies_get sv (\<lambda>_. now) (Some host) url_path (Some scheme) =
      Some (cookie_header (map (\<lambda>c. the (cookie_heap (sv_store sv) c))
              (sort_key (\<lambda>c. - int (plen (cookie_heap (sv_store sv)) c))
                (selection now (sv_store sv) url_path (dStrAsciiCasecmp scheme ''https'' = 0) host))), sv')
    \<and> cookies_inv (sv_store sv')"
proof -
  let ?st0 = "sv_store sv" let ?h = "cookie_heap ?st0"
  let ?ssl = "dStrAsciiCasecmp scheme ''https'' = 0"
  let ?m = "\<lparr>dl_sz = 8, dl_list = []\<rparr> :: nat dlist"
  let ?q = "\<lambda>d ho st t m. Cookies_add_matching_cookies st (\<lambda>_. now) t d url_path ho m ?ssl"
  let ?ip = "Cookies_domain_is_ip (Some host)"
  let ?first = "if ?ip then Some (?st0, 0, ?m) else ?q (CHR ''.'' # host) False ?st0 0 ?m"
  let ?last = "\<lambda>st t m. if ?ip then Some (st, t, m) else dots_loop st (\<lambda>_. now) t (tl host) url_path m ?ssl"
  have m0: "\<forall>c \<in> set (dl_list ?m). live ?h now c" by simp
  have tl: "\<not> ?ip \<Longrightarrow> dot_suffixes (tl host) = dot_suffixes host" "\<not> ?ip \<Longrightarrow> cstr (tl host)"
    "\<not> ?ip \<Longrightarrow> \<forall>x \<in> set (dot_suffixes (tl host)). x \<noteq> [] \<and> hd x \<noteq> CHR ''.''"
    using assms(3,4) by (cases host; auto simp: host_ok_def)+
  have first: "answers now ?st0 url_path ?ssl ?m (if ?ip then [] else [(CHR ''.'' # host, False)]) ?first"
    using answers_start [OF assms(1) m0] answers_call [OF request_ok_refl [OF assms(1)] _ m0] assms(3) by simp
  have last: "answers now ?st0 url_path ?ssl m (if ?ip then [] else suffix_queries (dot_suffixes host)) (?last st t m)"
    if "request_ok now ?st0 st" "\<forall>c \<in> set (dl_list m). live ?h now c" for st t m
    using that dots_loop_ok [OF that(1) tl(2,3) that(2)] tl(1) by (simp add: answers_def)
  let ?r = "case ?first of None \<Rightarrow> None | Some (st, t, m) \<Rightarrow> (case ?q host True st t m of None \<Rightarrow> None
    | Some (st, t, m) \<Rightarrow> (case ?q host False st t m of None \<Rightarrow> None | Some (st, t, m) \<Rightarrow> ?last st t m))"
  have q: "queries host = (if ?ip then [] else [(CHR ''.'' # host, False)])
        @ ([(host, True)] @ ([(host, False)] @ (if ?ip then [] else suffix_queries (dot_suffixes host))))"
    by (simp add: queries_def)
  have "answers now ?st0 url_path ?ssl ?m (queries host) ?r"
    unfolding q by (intro answers_bind answers_call first last assms(3))
  then obtain st t m where run: "?r = Some (st, t, m)"
    "request_ok now ?st0 st" "\<forall>c \<in> set (dl_list m). live ?h now c"
    "dl_list m = foldl (\<lambda>m c. ins_after (plen ?h) c m) [] (selection now ?st0 url_path ?ssl host)"
    unfolding answers_def selection_def by auto
  let ?cs = "sort_key (\<lambda>c. - int (plen ?h c)) (selection now ?st0 url_path ?ssl host)"
  have m: "dl_list m = ?cs" using run(4) ins_after_sort by simp
  have cd: "\<exists>cd. cookie_heap st c = Some cd \<and> c_name cd = c_name (the (?h c)) \<and> c_value cd = c_value (the (?h c))"
    if "c \<in> set ?cs" for c
  proof -
    have ag: "aged now ?h (cookie_heap st)" using run(2) by (simp add: request_ok_def)
    have "live ?h now c" using run(3) that m by simp
    then obtain cd where "cookie_heap st c = Some cd" using aged_live [OF ag] by blast
    then show ?thesis using agedD [OF ag] by fastforce
  qed
  let ?str = "cookie_header (map (\<lambda>c. the (?h c)) ?cs)"
  have str: "(if 0 < dList_length (Some m) then map_option (\<lambda>s. ''Cookie: '' @ s)
        (header_loop (cookie_heap st) (dList_length (Some m)) 0 (dl_list m)) else Some []) = Some ?str"
  proof (cases "?cs = []")
    case True
    then show ?thesis by (simp add: m dList_length_def cookie_header_def)
  next
    case False
    have "\<forall>c \<in> set ?cs. \<exists>cd. cookie_heap st c = Some cd \<and> c_name cd = c_name (the (?h c))
        \<and> c_value cd = c_value (the (?h c))" using cd by blast
    note header_loop_ok [OF this False _ refl, of "length ?cs" 0]
    moreover have "0 < length ?cs" using False by (rule length_greater_0_conv [THEN iffD2])
    ultimately show ?thesis using False unfolding m dList_length_def option.case cookie_header_def by simp
  qed
  have inv: "cookies_inv st" by (rule request_ok_inv [OF assms(1) run(2)])
  have inv2: "cookies_inv (st\<lparr>cookies_use_counter := u\<rparr>)" for u
  proof -
    have "view (st\<lparr>cookies_use_counter := u\<rparr>) = view st" by (simp add: view_def get_node_def fun_eq_iff)
    then show ?thesis using inv by (simp add: cookies_inv_def store_ok_def nodes_ok_def)
  qed
  let ?sv' = "sv\<lparr>sv_store := if ?str \<noteq> [] then st\<lparr>cookies_use_counter := cookies_use_counter st + 1\<rparr> else st\<rparr>"
  have "Cookies_get sv (\<lambda>_. now) (Some host) url_path (Some scheme) = Some (?str, ?sv')"
  proof -
    obtain s1 t1 m1 where 1: "?first = Some (s1, t1, m1)"
      "(case ?q host True s1 t1 m1 of None \<Rightarrow> None
        | Some (st, t, m) \<Rightarrow> (case ?q host False st t m of None \<Rightarrow> None | Some (st, t, m) \<Rightarrow> ?last st t m))
       = Some (st, t, m)"
      using run(1) by (cases ?first) auto
    obtain s2 t2 m2 where 2: "?q host True s1 t1 m1 = Some (s2, t2, m2)"
      "(case ?q host False s2 t2 m2 of None \<Rightarrow> None | Some (st, t, m) \<Rightarrow> ?last st t m) = Some (st, t, m)"
      using 1(2) by (cases "?q host True s1 t1 m1") auto
    obtain s3 t3 m3 where 3: "?q host False s2 t2 m2 = Some (s3, t3, m3)" "?last s3 t3 m3 = Some (st, t, m)"
      using 2(2) by (cases "?q host False s2 t2 m2") auto
    show ?thesis
      unfolding Cookies_get_def if_not_P [OF assms(2)] Let_def Option.bind.simps 1(1) prod.case 2(1) 3 str
      by (rule refl)
  qed
  then show ?thesis using inv inv2 by (intro exI [of _ ?sv']) simp
qed

section \<open>Which cookies are sent\<close>

text \<open>The cookies a request must carry, by RFC 6265 section 5.4.\<close>

definition request_match :: "int \<Rightarrow> string \<Rightarrow> string \<Rightarrow> bool \<Rightarrow> cookie_data \<Rightarrow> bool" where
  "request_match now host path secure cd \<longleftrightarrow> now \<le> c_expires_at cd \<and> (c_secure cd \<longrightarrow> secure)
     \<and> rfc_path_match path (the (c_path cd))
     \<and> (if c_host_only cd then ieq (the (c_domain cd)) host else rfc_domain_match host (the (c_domain cd)))"

text \<open>What the code selects: for an address only the domains that are the address, letter for letter.\<close>

definition selects :: "int \<Rightarrow> string \<Rightarrow> string \<Rightarrow> bool \<Rightarrow> cookie_data \<Rightarrow> bool" where
  "selects now host path secure cd \<longleftrightarrow> now \<le> c_expires_at cd \<and> (c_secure cd \<longrightarrow> secure)
     \<and> rfc_path_match path (the (c_path cd))
     \<and> (if c_host_only cd \<or> Cookies_domain_is_ip (Some host) then ieq (the (c_domain cd)) host
        else rfc_domain_match host (the (c_domain cd)))"

text \<open>Addresses, of which what follows a dot is an address too.\<close>

definition address_ok :: "string \<Rightarrow> bool" where
  "address_ok host \<longleftrightarrow> Cookies_domain_is_ip (Some host) \<and> deref host \<noteq> CHR ''.''
     \<and> (\<forall>s \<in> set (dot_suffixes host). Cookies_domain_is_ip (Some s))"

lemma tolow_dot: "tolow c = tolow CHR ''.'' \<longleftrightarrow> c = CHR ''.''"
  using uchar_eq_iff [of c "CHR ''.''"] uchar_less [of c] uchar_ge0 [of c]
  by (auto simp: D_ASCII_TOLOWER_def schar_def uchar_def simp del: uchar_less uchar_ge0 split: if_splits)

lemma tolow_cases:
  assumes "tolow a = tolow b"
  shows "uchar a = uchar b \<or> 65 \<le> uchar b \<and> uchar b \<le> 90 \<and> uchar a = uchar b + 32
    \<or> 65 \<le> uchar a \<and> uchar a \<le> 90 \<and> uchar b = uchar a + 32"
  using assms uchar_less [of a] uchar_ge0 [of a] uchar_less [of b] uchar_ge0 [of b]
  by (auto simp: D_ASCII_TOLOWER_def schar_def simp del: uchar_less uchar_ge0 split: if_splits)

lemma in_set_uchar: "c \<in> set xs \<longleftrightarrow> uchar c \<in> uchar ` set xs"
  by (rule inj_image_mem_iff [symmetric, OF injI]) (simp add: uchar_eq_iff)

lemma int_ranges:
  "(48::int) \<le> x \<and> x \<le> 57 \<longleftrightarrow> x = 48 \<or> x = 49 \<or> x = 50 \<or> x = 51 \<or> x = 52 \<or> x = 53 \<or> x = 54 \<or> x = 55 \<or> x = 56 \<or> x = 57"
  "(48::int) \<le> x \<and> x \<le> 58 \<longleftrightarrow> x = 48 \<or> x = 49 \<or> x = 50 \<or> x = 51 \<or> x = 52 \<or> x = 53 \<or> x = 54 \<or> x = 55 \<or> x = 56 \<or> x = 57 \<or> x = 58"
  "(65::int) \<le> x \<and> x \<le> 70 \<longleftrightarrow> x = 65 \<or> x = 66 \<or> x = 67 \<or> x = 68 \<or> x = 69 \<or> x = 70"
  "(97::int) \<le> x \<and> x \<le> 102 \<longleftrightarrow> x = 97 \<or> x = 98 \<or> x = 99 \<or> x = 100 \<or> x = 101 \<or> x = 102"
  by presburger+

lemma digits_uchar: "c \<in> set ''0123456789.'' \<longleftrightarrow> uchar c = 46 \<or> 48 \<le> uchar c \<and> uchar c \<le> 57"
  unfolding in_set_uchar int_ranges by (auto simp: uchar_def)

lemma hexes_uchar: "c \<in> set ''0123456789abcdefABCDEF:.'' \<longleftrightarrow> uchar c = 46 \<or> 48 \<le> uchar c \<and> uchar c \<le> 58
    \<or> 65 \<le> uchar c \<and> uchar c \<le> 70 \<or> 97 \<le> uchar c \<and> uchar c \<le> 102"
  unfolding in_set_uchar int_ranges by (auto simp: uchar_def)

lemma colon_uchar: "c = CHR '':'' \<longleftrightarrow> uchar c = 58"
  using uchar_eq_iff [of c "CHR '':''"] by (simp add: uchar_def)

lemma list_all2_ieq: "ieq s t \<longleftrightarrow> list_all2 (\<lambda>a b. tolow a = tolow b) s t"
  by (auto simp: ieq_def list_all2_map1 list_all2_map2 list.rel_eq [symmetric])

lemma is_ip_ieq:
  assumes "ieq s t"
  shows "Cookies_domain_is_ip (Some s) = Cookies_domain_is_ip (Some t)"
proof -
  have l: "list_all2 (\<lambda>a b. tolow a = tolow b) s t" using assms by (simp add: list_all2_ieq)
  have all: "(\<forall>c \<in> set s. P c) = (\<forall>c \<in> set t. P c)" if "\<And>a b. tolow a = tolow b \<Longrightarrow> P a = P b" for P
    using l by (induction rule: list_all2_induct) (auto dest: that)
  have 1: "(\<forall>c \<in> set s. c \<in> set ''0123456789.'') = (\<forall>c \<in> set t. c \<in> set ''0123456789.'')"
  proof (rule all)
    fix a b
    assume "tolow a = tolow b"
    from tolow_cases [OF this] show "(a \<in> set ''0123456789.'') = (b \<in> set ''0123456789.'')"
      unfolding digits_uchar by linarith
  qed
  have 2: "(\<forall>c \<in> set s. c \<in> set ''0123456789abcdefABCDEF:.'') = (\<forall>c \<in> set t. c \<in> set ''0123456789abcdefABCDEF:.'')"
  proof (rule all)
    fix a b
    assume "tolow a = tolow b"
    from tolow_cases [OF this]
    show "(a \<in> set ''0123456789abcdefABCDEF:.'') = (b \<in> set ''0123456789abcdefABCDEF:.'')"
      unfolding hexes_uchar by linarith
  qed
  have 3: "(\<forall>c \<in> set s. c \<noteq> CHR '':'') = (\<forall>c \<in> set t. c \<noteq> CHR '':'')"
  proof (rule all)
    fix a b
    assume "tolow a = tolow b"
    from tolow_cases [OF this] show "(a \<noteq> CHR '':'') = (b \<noteq> CHR '':'')"
      unfolding colon_uchar by linarith
  qed
  have 4: "strchr x CHR '':'' \<noteq> None \<longleftrightarrow> \<not> (\<forall>c \<in> set x. c \<noteq> CHR '':'')" for x
    by (induction x) (auto simp: strchr_def)
  show ?thesis unfolding Cookies_domain_is_ip_def option.case strspn_all 1 2 3 4 by (rule refl)
qed

lemma dot_suffixes_iff: "x \<in> set (dot_suffixes s) \<longleftrightarrow> (\<exists>sub. s = sub @ CHR ''.'' # x)"
proof (induction s)
  case (Cons c s)
  have "(\<exists>sub. c # s = sub @ CHR ''.'' # x) \<longleftrightarrow> c = CHR ''.'' \<and> s = x \<or> (\<exists>sub. s = sub @ CHR ''.'' # x)"
    by (auto simp: Cons_eq_append_conv)
  then show ?case using Cons.IH by auto
qed simp

lemma queries_rfc:
  assumes "host_ok host"
  shows "(\<exists>q. (q, False) \<in> set (queries host) \<and> ieq d q) \<longleftrightarrow> rfc_domain_match host d"
proof -
  let ?S = "set (host # dot_suffixes host)"
  let ?b = "if deref d = CHR ''.'' then tl d else d"
  have S: "\<And>s. s \<in> ?S \<Longrightarrow> s \<noteq> [] \<and> hd s \<noteq> CHR ''.'' \<and> \<not> Cookies_domain_is_ip (Some s)"
    using assms unfolding host_ok_def by blast
  have q: "(q, False) \<in> set (queries host) \<longleftrightarrow> (\<exists>s \<in> ?S. q = s \<or> q = CHR ''.'' # s)" for q
    using S [of host] by (auto simp: queries_def suffix_queries_def)
  have "(\<exists>q. (q, False) \<in> set (queries host) \<and> ieq d q) \<longleftrightarrow> (\<exists>s \<in> ?S. ieq s ?b)"
  proof
    assume "\<exists>q. (q, False) \<in> set (queries host) \<and> ieq d q"
    then obtain s where s: "s \<in> ?S" "ieq d s \<or> ieq d (CHR ''.'' # s)" using q by blast
    have "\<not> (deref d = CHR ''.'')" if "ieq d s"
      using that S [OF s(1)] by (cases d; cases s) (auto simp: ieq_def tolow_dot eq_commute [of "tolow CHR ''.''"])
    moreover have "deref d = CHR ''.'' \<and> ieq (tl d) s" if "ieq d (CHR ''.'' # s)"
      using that tolow_dot by (cases d) (auto simp: ieq_def)
    ultimately have "ieq s ?b" using s(2) ieq_sym by auto
    then show "\<exists>s \<in> ?S. ieq s ?b" using s(1) by blast
  next
    assume "\<exists>s \<in> ?S. ieq s ?b"
    then obtain s where s: "s \<in> ?S" "ieq s ?b" by blast
    have "ieq d (if deref d = CHR ''.'' then CHR ''.'' # s else s)"
      using ieq_sym [OF s(2)] by (cases d) (auto simp: ieq_def)
    then show "\<exists>q. (q, False) \<in> set (queries host) \<and> ieq d q" using q s(1) by (cases "deref d = CHR ''.''") auto
  qed
  also have "\<dots> \<longleftrightarrow> ieq host ?b \<or> \<not> Cookies_domain_is_ip (Some ?b) \<and> (\<exists>s \<in> set (dot_suffixes host). ieq s ?b)"
  proof -
    have "\<not> Cookies_domain_is_ip (Some ?b)" if "s \<in> ?S" "ieq s ?b" for s using S [OF that(1)] is_ip_ieq [OF that(2)] by blast
    then show ?thesis unfolding set_simps by blast
  qed
  also have "\<dots> \<longleftrightarrow> rfc_domain_match host d"
    unfolding rfc_domain_match_def Let_def Bex_def dot_suffixes_iff by blast
  finally show ?thesis .
qed

lemma cookies_of_mem:
  assumes "store_ok st" "cstr dn"
  shows "c \<in> set (cookies_of st dn) \<longleftrightarrow> (\<exists>cd. cookie_heap st c = Some cd \<and> ieq (the (c_domain cd)) dn)"
    "distinct (cookies_of st dn)"
proof -
  note S = cookies_of_view [OF assms] store_okE [OF assms(1)]
  show "c \<in> set (cookies_of st dn) \<longleftrightarrow> (\<exists>cd. cookie_heap st c = Some cd \<and> ieq (the (c_domain cd)) dn)"
  proof
    assume c: "c \<in> set (cookies_of st dn)"
    have "\<exists>a d cs. view st a = Some (d, cs) \<and> ieq d dn"
    proof (rule ccontr)
      assume "\<not> ?thesis"
      then have "cookies_of st dn = []" using S(2) by blast
      then show False using c by simp
    qed
    then obtain a d cs where v: "view st a = Some (d, cs)" "ieq d dn" by blast
    have "c \<in> set cs" using c unfolding S(1) [OF v] .
    then obtain cd dd where "cookie_heap st c = Some cd" "c_domain cd = Some dd" "ieq dd d" using S(8) [OF v(1)] by blast
    then show "\<exists>cd. cookie_heap st c = Some cd \<and> ieq (the (c_domain cd)) dn"
      using ieq_trans [OF _ v(2)] by simp
  next
    assume "\<exists>cd. cookie_heap st c = Some cd \<and> ieq (the (c_domain cd)) dn"
    then obtain cd where cd: "cookie_heap st c = Some cd" "ieq (the (c_domain cd)) dn" by blast
    have "c \<in> dom (cookie_heap st)" using cd(1) by (simp add: dom_def)
    from S(9) [OF this] obtain a d cs where v: "view st a = Some (d, cs)" "c \<in> set cs" by blast
    obtain cd' dd where dd: "cookie_heap st c = Some cd'" "c_domain cd' = Some dd" "ieq dd d" using S(8) [OF v] by blast
    have "ieq dd dn" using cd dd(1,2) by simp
    then have "ieq d dn" using ieq_trans [OF ieq_sym [OF dd(3)]] by blast
    then show "c \<in> set (cookies_of st dn)" using S(1) [OF v(1)] v(2) by blast
  qed
  show "distinct (cookies_of st dn)"
  proof (cases "\<exists>a d cs. view st a = Some (d, cs) \<and> ieq d dn")
    case True
    then show ?thesis using S(1,6) by metis
  next
    case False
    then show ?thesis using S(2) by (metis distinct.simps(1))
  qed
qed

lemma selected_mem:
  assumes "cookies_inv st" "cstr (fst q)" "cstr path"
  shows "c \<in> set (selected now st (Some path) ssl q) \<longleftrightarrow> (\<exists>cd. cookie_heap st c = Some cd \<and> now \<le> c_expires_at cd
     \<and> (c_secure cd \<longrightarrow> ssl) \<and> rfc_path_match path (the (c_path cd)) \<and> c_host_only cd = snd q
     \<and> ieq (the (c_domain cd)) (fst q))"
proof -
  note inv = cookies_invD [OF assms(1)]
  have "cmatch (cookie_heap st) (Some path) (snd q) ssl c \<longleftrightarrow> c_host_only cd = snd q \<and> (c_secure cd \<longrightarrow> ssl)
      \<and> rfc_path_match path (the (c_path cd))" if "cookie_heap st c = Some cd" for cd
  proof -
    have "cookie_wf cd" using inv(2) that by (auto simp: heap_wf_def ran_def)
    then obtain p where "c_path cd = Some p" "cstr p" by (auto simp: cookie_wf_def)
    then show ?thesis using that path_matches_rfc [OF assms(3)] by (auto simp: cmatch_def Cookies_match_def)
  qed
  moreover have "live (cookie_heap st) now c \<longleftrightarrow> now \<le> c_expires_at cd" if "cookie_heap st c = Some cd" for cd
    using that by (simp add: live_def)
  ultimately show ?thesis
    unfolding selected_def set_filter mem_Collect_eq cookies_of_mem [OF inv(1) assms(2)] by fastforce
qed

lemma queries_cstr:
  assumes "cstr host" "q \<in> set (queries host)"
  shows "cstr (fst q)"
proof -
  have "cstr s" if "s \<in> set (dot_suffixes host)" for s
    using that assms(1) by (auto simp: dot_suffixes_iff)
  then show ?thesis using assms by (auto simp: queries_def suffix_queries_def split: if_splits)
qed

lemma selection_mem:
  assumes "cookies_inv st" "cstr host" "cstr path" "host_ok host \<or> Cookies_domain_is_ip (Some host)"
  shows "c \<in> set (selection now st (Some path) ssl host) \<longleftrightarrow>
    (\<exists>cd. cookie_heap st c = Some cd \<and> selects now host path ssl cd)"
proof -
  have ex: "(\<exists>q \<in> Q. b = snd q \<and> P (fst q)) \<longleftrightarrow> (\<exists>q. (q, b) \<in> Q \<and> P q)" for Q P and b :: bool by force
  have q: "(\<exists>q \<in> set (queries host). c_host_only cd = snd q \<and> ieq (the (c_domain cd)) (fst q)) \<longleftrightarrow>
      (if c_host_only cd \<or> Cookies_domain_is_ip (Some host) then ieq (the (c_domain cd)) host
        else rfc_domain_match host (the (c_domain cd)))" for cd
  proof (cases "c_host_only cd \<or> Cookies_domain_is_ip (Some host)")
    case True
    then have "(q, c_host_only cd) \<in> set (queries host) \<longleftrightarrow> q = host" for q
      by (cases "c_host_only cd") (auto simp: queries_def suffix_queries_def)
    then show ?thesis unfolding ex using True by simp
  next
    case False
    then have "host_ok host" using assms(4) by blast
    then show ?thesis unfolding ex using False queries_rfc [of host "the (c_domain cd)"] by simp
  qed
  have "c \<in> set (selection now st (Some path) ssl host) \<longleftrightarrow>
      (\<exists>q \<in> set (queries host). \<exists>cd. cookie_heap st c = Some cd \<and> now \<le> c_expires_at cd
     \<and> (c_secure cd \<longrightarrow> ssl) \<and> rfc_path_match path (the (c_path cd)) \<and> c_host_only cd = snd q
     \<and> ieq (the (c_domain cd)) (fst q))"
  proof -
    have "c \<in> set (selection now st (Some path) ssl host) \<longleftrightarrow>
        (\<exists>q \<in> set (queries host). c \<in> set (selected now st (Some path) ssl q))"
      by (simp add: selection_def)
    then show ?thesis using selected_mem [OF assms(1) queries_cstr [OF assms(2)] assms(3)] by (simp cong: bex_cong)
  qed
  also have "\<dots> \<longleftrightarrow> (\<exists>cd. cookie_heap st c = Some cd \<and> now \<le> c_expires_at cd \<and> (c_secure cd \<longrightarrow> ssl)
     \<and> rfc_path_match path (the (c_path cd))
     \<and> (\<exists>q \<in> set (queries host). c_host_only cd = snd q \<and> ieq (the (c_domain cd)) (fst q)))"
    by blast
  finally show ?thesis unfolding q selects_def .
qed

text \<open>The two differ on the dotted domains of addresses.\<close>

lemma selects_rfc:
  assumes "host_ok host \<or> address_ok host"
  shows "selects now host path secure cd \<longleftrightarrow> request_match now host path secure cd
     \<and> \<not> (Cookies_domain_is_ip (Some host) \<and> deref (the (c_domain cd)) = CHR ''.'')"
proof (cases "Cookies_domain_is_ip (Some host)")
  case False
  then show ?thesis by (simp add: selects_def request_match_def)
next
  case True
  then have ip: "deref host \<noteq> CHR ''.''" "\<forall>s \<in> set (dot_suffixes host). Cookies_domain_is_ip (Some s)"
    using assms by (auto simp: host_ok_def address_ok_def)
  let ?d = "the (c_domain cd)"
  have dot: "deref d \<noteq> CHR ''.''" if "ieq d host" for d
  proof
    assume "deref d = CHR ''.''"
    then obtain r where "d = CHR ''.'' # r" by (cases d) auto
    then have "map tolow host = tolow CHR ''.'' # map tolow r" using that by (simp only: ieq_def list.map)
    then obtain c t where "host = c # t" "tolow c = tolow CHR ''.''" by (metis map_eq_Cons_D)
    then show False using ip(1) tolow_dot by simp
  qed
  have no: "Cookies_domain_is_ip (Some ?d)" if "host = sub @ CHR ''.'' # dom" "ieq dom ?d" for sub dom
  proof -
    have "dom \<in> set (dot_suffixes host)" using that(1) dot_suffixes_iff by blast
    then show ?thesis using ip(2) is_ip_ieq [OF that(2)] by blast
  qed
  have "ieq ?d host \<longleftrightarrow> rfc_domain_match host ?d \<and> deref ?d \<noteq> CHR ''.''"
    using no dot [of ?d] by (auto simp: rfc_domain_match_def Let_def ieq_def)
  then show ?thesis using True dot [of ?d] by (auto simp: selects_def request_match_def)
qed

lemma distinct_concat_map:
  assumes "distinct (map g xs)" "\<And>x. x \<in> set xs \<Longrightarrow> distinct (f x)"
    "\<And>x y c. x \<in> set xs \<Longrightarrow> y \<in> set xs \<Longrightarrow> c \<in> set (f x) \<Longrightarrow> c \<in> set (f y) \<Longrightarrow> g x = g y"
  shows "distinct (concat (map f xs))"
  using assms
proof (induction xs)
  case (Cons x xs)
  have "set (f x) \<inter> set (concat (map f xs)) = {}"
  proof (rule ccontr)
    assume "set (f x) \<inter> set (concat (map f xs)) \<noteq> {}"
    then obtain c y where "c \<in> set (f x)" "y \<in> set xs" "c \<in> set (f y)" by auto
    then have "g x = g y" using Cons.prems(3) by (meson list.set_intros)
    then show False using Cons.prems(1) \<open>y \<in> set xs\<close> by simp
  qed
  moreover have "distinct (concat (map f xs))"
    by (rule Cons.IH) (use Cons.prems in \<open>simp, simp, meson list.set_intros(2)\<close>)
  ultimately show ?case using Cons.prems(2) by simp
qed simp

lemma dot_suffixes_length:
  assumes "s \<noteq> []" "hd s \<noteq> CHR ''.''" "\<forall>x \<in> set (dot_suffixes s). x \<noteq> [] \<and> hd x \<noteq> CHR ''.''"
  shows "sorted_wrt (\<lambda>a b. length b + 2 \<le> length a) (s # dot_suffixes s)"
proof -
  have short: "length x + 2 \<le> length s" if h: "x \<in> set (dot_suffixes s)" "s \<noteq> []" "hd s \<noteq> CHR ''.''" for x and s :: string
  proof -
    obtain sub where "s = sub @ CHR ''.'' # x" using h(1) unfolding dot_suffixes_iff by blast
    then show ?thesis using h(3) by (cases sub) auto
  qed
  have "sorted_wrt (\<lambda>a b. length b + 2 \<le> length a) (dot_suffixes s)"
    using assms(3)
  proof (induction s)
    case (Cons c s)
    then show ?case using short [of _ s] by auto
  qed simp
  then show ?thesis using short assms(1,2) by simp
qed

lemma queries_distinct:
  assumes "host_ok host \<or> Cookies_domain_is_ip (Some host)"
  shows "distinct (map (\<lambda>q. (length (fst q), snd q)) (queries host))"
proof (cases "Cookies_domain_is_ip (Some host)")
  case True
  then show ?thesis by (simp add: queries_def)
next
  case False
  then have ok: "host_ok host" using assms by blast
  let ?g = "\<lambda>q :: string \<times> bool. (length (fst q), snd q)"
  have s: "sorted_wrt (\<lambda>a b. length b + 2 \<le> length a) (host # dot_suffixes host)"
    using ok by (intro dot_suffixes_length) (auto simp: host_ok_def)
  have d: "distinct (map ?g (suffix_queries xs)) \<and> (\<forall>q \<in> set (suffix_queries xs). \<exists>x \<in> set xs. length (fst q) \<le> length x + 1)"
    if "sorted_wrt (\<lambda>a b. length b + 2 \<le> length a) xs" for xs
    using that
  proof (induction xs)
    case (Cons x xs)
    then have IH: "distinct (map ?g (suffix_queries xs))"
      "\<forall>q \<in> set (suffix_queries xs). length (fst q) + 1 \<le> length x" by fastforce+
    then have "length x \<noteq> length (fst q) \<and> length x + 1 \<noteq> length (fst q)" if "q \<in> set (suffix_queries xs)" for q
      using that by fastforce
    then show ?case using IH(1) Cons by (fastforce simp: suffix_queries_def)
  qed (simp add: suffix_queries_def)
  have "\<forall>q \<in> set (suffix_queries (dot_suffixes host)). length (fst q) < length host"
    using d [of "dot_suffixes host"] s by fastforce
  then show ?thesis using d [of "dot_suffixes host"] s False by (fastforce simp: queries_def)
qed

lemma selection_distinct:
  assumes "cookies_inv st" "cstr host" "cstr path" "host_ok host \<or> Cookies_domain_is_ip (Some host)"
  shows "distinct (selection now st (Some path) ssl host)"
  unfolding selection_def
proof (rule distinct_concat_map [OF queries_distinct [OF assms(4)]])
  note q = queries_cstr [OF assms(2)]
  show "distinct (selected now st (Some path) ssl x)" if "x \<in> set (queries host)" for x
    using cookies_of_mem(2) [OF cookies_invD(1) [OF assms(1)] q [OF that]] by (simp add: selected_def)
  fix x y c
  assume "x \<in> set (queries host)" "y \<in> set (queries host)" and
    xy: "c \<in> set (selected now st (Some path) ssl x)" "c \<in> set (selected now st (Some path) ssl y)"
  then have cs: "cstr (fst x)" "cstr (fst y)" using q by blast+
  obtain cx where x: "cookie_heap st c = Some cx" "ieq (the (c_domain cx)) (fst x)" "c_host_only cx = snd x"
    using selected_mem [OF assms(1) cs(1) assms(3), THEN iffD1, OF xy(1)] by blast
  obtain cy where y: "cookie_heap st c = Some cy" "ieq (the (c_domain cy)) (fst y)" "c_host_only cy = snd y"
    using selected_mem [OF assms(1) cs(2) assms(3), THEN iffD1, OF xy(2)] by blast
  show "(length (fst x), snd x) = (length (fst y), snd y)"
    using x y ieq_length [OF x(2)] ieq_length [OF y(2)] by simp
qed

lemma sort_key_selection:
  assumes "cookies_inv st" "\<And>c. c \<in> set cs \<longleftrightarrow> (\<exists>cd. cookie_heap st c = Some cd \<and> P cd)" "distinct cs"
    "cds = map (\<lambda>c. the (cookie_heap st c)) (sort_key (\<lambda>c. - int (plen (cookie_heap st) c)) cs)"
  shows "set cds = {cd \<in> ran (jar st). P cd}" "distinct (map cookie_key cds)"
    "sorted_wrt (\<lambda>a b. length (the (c_path b)) \<le> length (the (c_path a))) cds"
proof -
  let ?h = "cookie_heap st" let ?s = "sort_key (\<lambda>c. - int (plen ?h c)) cs"
  note inv = cookies_invD [OF assms(1)]
  have ran: "cd \<in> ran (jar st) \<longleftrightarrow> (\<exists>c. ?h c = Some cd)" for cd
    unfolding ran_def mem_Collect_eq jar_Some [OF inv(1,2)] by blast
  have "cd \<in> set cds \<longleftrightarrow> (\<exists>c. c \<in> set cs \<and> cd = the (?h c))" for cd by (auto simp: assms(4))
  also have "\<And>cd. (\<exists>c. c \<in> set cs \<and> cd = the (?h c)) \<longleftrightarrow> cd \<in> ran (jar st) \<and> P cd"
    unfolding assms(2) ran by (metis option.sel)
  finally show "set cds = {cd \<in> ran (jar st). P cd}" by blast
  have sub: "set ?s \<subseteq> dom ?h" using assms(2) by auto
  have "inj_on (\<lambda>c. cookie_key (the (?h c))) (set ?s)"
    using inv(2) sub by (auto simp: heap_wf_def intro: inj_on_subset)
  then show "distinct (map cookie_key cds)" using assms(3) by (simp add: assms(4) distinct_map comp_def)
  have "sorted_wrt (\<lambda>a b. plen ?h b \<le> plen ?h a) ?s"
    using sorted_sort_key [of "\<lambda>c. - int (plen ?h c)" cs] by (simp add: sorted_map)
  moreover have "plen ?h c = length (the (c_path (the (?h c))))" if "c \<in> set ?s" for c
    using sub that by (auto simp: plen_def)
  ultimately show "sorted_wrt (\<lambda>a b. length (the (c_path b)) \<le> length (the (c_path a))) cds"
    unfolding assms(4) sorted_wrt_map by (elim sorted_wrt_mono_rel [rotated]) simp
qed

lemma Cookies_get_sends:
  assumes "cookies_inv (sv_store sv)" "\<not> sv_disabled sv" "cstr host" "cstr path"
    "host_ok host \<or> Cookies_domain_is_ip (Some host)"
  shows "\<exists>cds sv'. Cookies_get sv (\<lambda>_. now) (Some host) (Some path) (Some scheme) = Some (cookie_header cds, sv')
    \<and> set cds = {cd \<in> ran (jar (sv_store sv)). selects now host path (dStrAsciiCasecmp scheme ''https'' = 0) cd}
    \<and> distinct (map cookie_key cds)
    \<and> sorted_wrt (\<lambda>a b. length (the (c_path b)) \<le> length (the (c_path a))) cds
    \<and> cookies_inv (sv_store sv')"
proof -
  define ssl where "ssl = (dStrAsciiCasecmp scheme ''https'' = 0)"
  note sel = sort_key_selection [OF assms(1) selection_mem [OF assms(1,3-5), of _ now ssl]
      selection_distinct [OF assms(1,3-5)] refl]
  from Cookies_get_ok [OF assms(1-3,5), of now "Some path" scheme]
  obtain sv' where "Cookies_get sv (\<lambda>_. now) (Some host) (Some path) (Some scheme) =
      Some (cookie_header (map (\<lambda>c. the (cookie_heap (sv_store sv) c))
              (sort_key (\<lambda>c. - int (plen (cookie_heap (sv_store sv)) c))
                (selection now (sv_store sv) (Some path) ssl host))), sv')"
    "cookies_inv (sv_store sv')" unfolding ssl_def by blast
  with sel show ?thesis unfolding ssl_def by blast
qed

text \<open>
  C21: \<open>Cookies_get\<close> answers with the header of exactly the cookies of the jar that RFC 6265, section 5.4,
  sends with the request (not expired, secure ones over https only, matched by path and by domain, equality for
  host-only cookies), but that none with a dot in front of its domain is sent to an address, where the
  RFC ignores the dot. Each is sent once, the longer paths first, and the store stays consistent. The
  conditions: the clock does not tick during the call, the server is not disabled, and the host is a name without
  empty labels and without an address at its end, or an address of which what follows a dot is an address
  too.
\<close>

theorem Cookies_get_is_rfc6265:
  assumes "cookies_inv (sv_store sv)" "\<not> sv_disabled sv" "cstr host" "cstr path"
    "host_ok host \<or> address_ok host"
  shows "\<exists>cds sv'. Cookies_get sv (\<lambda>_. now) (Some host) (Some path) (Some scheme) = Some (cookie_header cds, sv')
    \<and> set cds = {cd \<in> ran (jar (sv_store sv)). request_match now host path (dStrAsciiCasecmp scheme ''https'' = 0) cd
         \<and> \<not> (Cookies_domain_is_ip (Some host) \<and> deref (the (c_domain cd)) = CHR ''.'')}
    \<and> distinct (map cookie_key cds)
    \<and> sorted_wrt (\<lambda>a b. length (the (c_path b)) \<le> length (the (c_path a))) cds
    \<and> cookies_inv (sv_store sv')"
proof -
  have "host_ok host \<or> Cookies_domain_is_ip (Some host)" using assms(5) by (auto simp: address_ok_def)
  from Cookies_get_sends [OF assms(1-4) this] show ?thesis unfolding selects_rfc [OF assms(5)] .
qed

lemma Cookies_get_is_rfc6265_witness:
  "\<exists>cds sv'. Cookies_get \<lparr>sv_disabled = False, sv_control = control_init, sv_store = one_each 3\<rparr> (\<lambda>_. 50)
      (Some ''aa'') (Some ''/x'') (Some ''http'') = Some (cookie_header cds, sv')
    \<and> set cds = {cd \<in> ran (jar (one_each 3)). request_match 50 ''aa'' ''/x'' (dStrAsciiCasecmp ''http'' ''https'' = 0) cd
         \<and> \<not> (Cookies_domain_is_ip (Some ''aa'') \<and> deref (the (c_domain cd)) = CHR ''.'')}
    \<and> distinct (map cookie_key cds)
    \<and> sorted_wrt (\<lambda>a b. length (the (c_path b)) \<le> length (the (c_path a))) cds
    \<and> cookies_inv (sv_store sv')"
proof -
  let ?sv = "\<lparr>sv_disabled = False, sv_control = control_init, sv_store = one_each 3\<rparr>"
  have "host_ok ''aa''" by (simp add: host_ok_def Cookies_domain_is_ip_def strspn_def strchr_def)
  moreover have "cookies_inv (sv_store ?sv)" using cookies_inv_one_each [of 3] by (simp add: MAX_TOTAL_COOKIES_def)
  ultimately show ?thesis
    using Cookies_get_is_rfc6265 [of ?sv "''aa''" "''/x''" 50 "''http''"] by (simp del: list.set)
qed

text \<open>A store with one cookie.\<close>

definition cookie_one :: "string \<Rightarrow> int \<Rightarrow> cookie_data" where
  "cookie_one d t = cookie_zero\<lparr>c_name := ''n'', c_domain := Some d, c_path := Some ''/'',
     c_expires_at := t, c_host_only := True\<rparr>"

definition one_cookie :: "string \<Rightarrow> cookie_data \<Rightarrow> store" where
  "one_cookie d cd = \<lparr>cookie_heap = [0 \<mapsto> cd], all_cookies = \<lparr>dl_sz = 2, dl_list = [0]\<rparr>,
     domains = \<lparr>dl_sz = 2, dl_list = [\<lparr>dn_id = 1, dn_domain = d, dn_cookies = \<lparr>dl_sz = 5, dl_list = [0]\<rparr>\<rparr>]\<rparr>,
     cookies_use_counter = 0, next_address = 2\<rparr>"

lemma view_one_cookie: "view (one_cookie d cd) x = (if x = 1 then Some (d, [0]) else None)"
  by (simp add: view_def get_node_def one_cookie_def)

lemma store_ok_one: "c_domain cd = Some d \<Longrightarrow> cstr d \<Longrightarrow> store_ok (one_cookie d cd)"
  unfolding store_ok_def shape_ok_def view_one_cookie
  by (simp add: one_cookie_def nodes_ok_def cmp_sorted_def ieq_def)

text \<open>
  C22: The list of a host is looked up twice. When a host-only cookie of an address expires between the
  two readings of the clock, the second lookup frees it while it is among the matching cookies, and
  the header is built from the freed cookie.
\<close>

theorem Cookies_get_use_after_free:
  assumes "store_ok (sv_store sv)" "\<not> sv_disabled sv" "cstr host" "Cookies_domain_is_ip (Some host)"
    "view (sv_store sv) a = Some (d, [c])" "ieq d host" "cookie_heap (sv_store sv) c = Some cd"
    "Cookies_match cd (Some path) True (dStrAsciiCasecmp scheme ''https'' = 0)" "c_path cd = Some p"
    "clk 0 \<le> c_expires_at cd" "c_expires_at cd < clk 1"
  shows "Cookies_get sv clk (Some host) (Some path) (Some scheme) = None"
proof -
  let ?st = "sv_store sv" let ?ssl = "dStrAsciiCasecmp scheme ''https'' = 0"
  let ?m = "\<lparr>dl_sz = 8, dl_list = []\<rparr> :: nat dlist"
  obtain n where n: "get_node ?st a = Some n" "dl_list (dn_cookies n) = [c]"
    using assms(5) by (auto simp: view_Some)
  have f: "find_node ?st host = Some a" using find_node_iff [OF assms(1,3)] assms(5,6) by blast
  let ?st1 = "touch ?st c cd" let ?m1 = "dList_insert_pos ?m c 0"
  note ok1 = touch_ok [OF assms(1,7)]
  have n1: "get_node ?st1 a = Some n" using n(1) by (simp add: touch_def get_node_def)
  have "match_loop ?st a 0 clk 0 (Some path) True ?m ?ssl = match_loop ?st1 a 1 clk 1 (Some path) True ?m1 ?ssl"
    using n assms(7-10) by (subst match_loop.simps) (simp add: dList_nth_data_def)
  also have "\<dots> = Some (?st1, 1, ?m1)"
    using n1 n(2) by (subst match_loop.simps) (simp add: dList_nth_data_def)
  finally have 1: "Cookies_add_matching_cookies ?st clk 0 host (Some path) True ?m ?ssl = Some (?st1, 1, ?m1)"
    using f n1 n(2) by (simp add: Cookies_add_matching_cookies_def delete_if_empty_def dList_length_def)
  have f1: "find_node ?st1 host = Some a" using find_node_iff [OF ok1(1) assms(3)] ok1(2) assms(5,6) by simp
  have v1: "view ?st1 a = Some (d, [c])" using ok1(2) assms(5) by simp
  obtain st2 st3 where 2: "drop_cookie ?st1 a c = Some st2" "delete_if_empty st2 a = Some st3"
    "store_to ?st1 st3 ((view ?st1)(a := if remove1 c [c] = [] then None else Some (d, remove1 c [c])))
        ((cookie_heap ?st1)(c := None))"
    using drop_delete_ok [OF ok1(1) v1, of c] by auto
  have n2: "get_node st2 a = Some (n\<lparr>dn_cookies := dList_remove (dn_cookies n) c\<rparr>)"
    using 2(1) n1 by (auto simp: drop_cookie_def Cookies_free_cookie_def get_node_put Let_def split: Option.bind_splits)
  have h1: "cookie_heap ?st1 c = Some (cd\<lparr>c_last_used := cookies_use_counter ?st\<rparr>)" by (simp add: touch_def)
  have "match_loop ?st1 a 0 clk 1 (Some path) False ?m1 ?ssl = match_loop st2 a 0 clk 2 (Some path) False ?m1 ?ssl"
    using n1 n(2) h1 assms(11) 2(1) by (subst match_loop.simps) (simp add: dList_nth_data_def numeral_2_eq_2)
  also have "\<dots> = Some (st2, 2, ?m1)"
    using n2 n(2) by (subst match_loop.simps) (simp add: dList_nth_data_def)
  finally have 3: "Cookies_add_matching_cookies ?st1 clk 1 host (Some path) False ?m1 ?ssl = Some (st3, 2, ?m1)"
    using f1 2(2) by (simp add: Cookies_add_matching_cookies_def)
  have "cookie_heap st3 c = None" using 2(3) by (simp add: store_to_def)
  then show ?thesis
    using assms(2,4) 1 3 by (simp add: Cookies_get_def dList_length_def dl_list_insert_pos)
qed

lemma Cookies_get_use_after_free_witness:
  "Cookies_get \<lparr>sv_disabled = False, sv_control = control_init, sv_store = one_cookie ''1'' (cookie_one ''1'' 0)\<rparr>
     int (Some ''1'') (Some ''/'') (Some ''http'') = None" (is "Cookies_get ?sv _ _ _ _ = None")
proof (rule Cookies_get_use_after_free [where a = 1 and d = "''1''" and c = 0 and cd = "cookie_one ''1'' 0" and p = "''/''"])
  show "store_ok (sv_store ?sv)" using store_ok_one [of "cookie_one ''1'' 0" "''1''"] by (simp add: cookie_one_def)
  show "view (sv_store ?sv) 1 = Some (''1'', [0])" by (simp add: view_one_cookie)
  show "Cookies_match (cookie_one ''1'' 0) (Some ''/'') True (dStrAsciiCasecmp ''http'' ''https'' = 0)"
    by (simp add: Cookies_match_def Cookies_path_matches_def strncmp_def cookie_one_def cookie_zero_def)
qed (simp_all add: Cookies_domain_is_ip_def strspn_def ieq_def one_cookie_def cookie_one_def cookie_zero_def)

end
