(* ===== verification/Cookies_Server.thy ===== *)
theory Cookies_Server
  imports Cookies_Get Dpip "HOL-Library.Signed_Division"
begin

text \<open>
  The cookie server, last part: \<open>Cookies_set\<close>, the file \<^verbatim>\<open>cookies.txt\<close> (loading and saving), the
  start of the server and its command handler, from \<^verbatim>\<open>dillo/dpi/cookies.c\<close>. A result \<open>None\<close> is
  undefined behaviour of the C code (a null string followed, or the cases of the theories before).
\<close>

section \<open>Setting a cookie\<close>

text \<open>0 set, -1 disabled, -2 denied, -3 rejected.\<close>

definition Cookies_set :: "server \<Rightarrow> clock \<Rightarrow> string option \<Rightarrow> string option \<Rightarrow> string option \<Rightarrow> string option
    \<Rightarrow> (int \<times> server) option" where
  "Cookies_set sv ck cookie_string url_host url_path server_date =
     (if sv_disabled sv then Some (-1, sv)
      else
        do {
          host \<leftarrow> url_host;
          let action = Cookies_control_check_domain (sv_control sv) host;
          if action = COOKIE_DENY then Some (-2, sv)
          else
            do {
              parsed \<leftarrow> Cookies_parse ck cookie_string server_date;
              (case parsed of
                 None \<Rightarrow> Some (-3, sv)
               | Some cookie0 \<Rightarrow>
                   (case Cookies_validate_domain cookie0 (Some host) of (ok, cookie1) \<Rightarrow>
                      if ok then
                        (let cookie2 = Cookies_validate_path cookie1 url_path;
                             cookie = (if action = COOKIE_ACCEPT_SESSION then cookie2\<lparr>c_session_only := True\<rparr>
                                       else cookie2)
                         in do {
                              st \<leftarrow> Cookies_add_cookie (sv_store sv) cookie (ck_now ck);
                              Some (0, sv\<lparr>sv_store := st\<rparr>)
                            })
                      else Some (-3, sv)))
            }
        })"

section \<open>The cookies file\<close>

text \<open>\<open>%ld\<close>\<close>

fun dec_nat :: "nat \<Rightarrow> string" where
  "dec_nat n = (if n < 10 then [dec_digit n] else dec_nat (n div 10) @ [dec_digit (n mod 10)])"

declare dec_nat.simps [simp del]

definition dec_long :: "int \<Rightarrow> string" where
  "dec_long i = (if i < 0 then CHR ''-'' # dec_nat (nat (- i)) else dec_nat (nat i))"

text \<open>One piece of a line: \<open>dStrsep(&line_marker, "\t")\<close>.\<close>

definition piece :: "string option \<Rightarrow> string option \<times> string option" where
  "piece line_marker = dStrsep line_marker [CHR 0x09]"

definition file_expires :: "clock \<Rightarrow> string option \<Rightarrow> int" where
  "file_expires ck p =
     (case p of
        None \<Rightarrow> -1
      | Some s \<Rightarrow>
          (let seconds = fst (strtol s 10);
               tm = cookies_epoch_tm
           in ck_mktime ck (tm\<lparr>tm_min := c_int (tm_min tm + seconds sdiv 60),
                               tm_sec := c_int (tm_sec tm + seconds smod 60)\<rparr>)))"

text \<open>The cookie of a line, when the line is not malformed.\<close>

definition line_cookie :: "clock \<Rightarrow> string \<Rightarrow> cookie_data option" where
  "line_cookie ck line =
     (case piece (Some line) of (domain, m1) \<Rightarrow>
      case piece m1 of (tail, m2) \<Rightarrow>
      case piece m2 of (path, m3) \<Rightarrow>
      case piece m3 of (secure, m4) \<Rightarrow>
      case piece m4 of (expires, m5) \<Rightarrow>
      case piece m5 of (nam, m6) \<Rightarrow>
        if domain = None \<or> domain = Some [] \<or> path = None \<or> deref (the path) \<noteq> CHR ''/'' \<or> nam = None then None
        else Some (cookie_zero\<lparr>c_name := the nam,
               c_value := (case m6 of Some v \<Rightarrow> v | None \<Rightarrow> []),
               c_domain := domain, c_path := path, c_expires_at := file_expires ck expires,
               c_host_only := (case tail of Some p \<Rightarrow> deref p = CHR ''F'' | None \<Rightarrow> False),
               c_secure := (case secure of Some p \<Rightarrow> deref p = CHR ''T'' | None \<Rightarrow> False)\<rparr>))"

definition load_line :: "control \<Rightarrow> clock \<Rightarrow> store \<Rightarrow> string \<Rightarrow> store option" where
  "load_line ctl ck st buf =
     (let line = dStrstrip (c_line buf) in
      if line \<noteq> [] \<and> deref line \<noteq> CHR ''#'' then
        (case line_cookie ck line of
           None \<Rightarrow> Some st
         | Some cookie \<Rightarrow>
             (let action = Cookies_control_check_domain ctl (the (c_domain cookie)) in
              if action = COOKIE_DENY then Some st
              else Cookies_add_cookie st
                     (if action = COOKIE_ACCEPT_SESSION then cookie\<lparr>c_session_only := True\<rparr> else cookie)
                     (ck_now ck)))
      else Some st)"

text \<open>\<open>while (!feof(stream))\<close>: after the last line one more round reads the empty line.\<close>

function load_lines :: "control \<Rightarrow> clock \<Rightarrow> store \<Rightarrow> string \<Rightarrow> store option" where
  "load_lines ctl ck st stream =
     (if stream = [] then Some st
      else (case fgets LINE_MAXLEN stream of (buf, rest) \<Rightarrow>
        (case load_line ctl ck st buf of None \<Rightarrow> None | Some st' \<Rightarrow> load_lines ctl ck st' rest)))"
  by pat_completeness auto
termination
  by (relation "measure (\<lambda>(ctl, ck, st, stream). length stream)")
    (simp_all add: LINE_MAXLEN_def, metis fgets_shorter less_numeral_extra(4) numeral_One num.distinct(1)
      one_less_numeral_iff semiring_norm(76) snd_conv)

declare load_lines.simps [simp del]

definition Cookies_load_cookies :: "control \<Rightarrow> clock \<Rightarrow> string \<Rightarrow> store option" where
  "Cookies_load_cookies ctl ck stream = load_lines ctl ck store_init stream"

definition cookies_txt_header_str :: string where
  "cookies_txt_header_str = ''# HTTP Cookie File'' @ [CHR 0x0A]
     @ ''# This is a generated file!  Do not edit.'' @ [CHR 0x0A]
     @ ''# [domain  subdomains  path  secure  expiry_time  name  value]'' @ [CHR 0x0A, CHR 0x0A]"

definition save_line :: "clock \<Rightarrow> cookie_data \<Rightarrow> string option" where
  "save_line ck cookie =
     (if \<not> c_session_only cookie \<and> 0 < c_expires_at cookie - ck_now ck then
        do {
          domain \<leftarrow> c_domain cookie;
          path \<leftarrow> c_path cookie;
          let buf = domain @ [CHR 0x09] @ (if c_host_only cookie then ''FALSE'' else ''TRUE'') @ [CHR 0x09]
                @ path @ [CHR 0x09] @ (if c_secure cookie then ''TRUE'' else ''FALSE'') @ [CHR 0x09]
                @ dec_long (c_expires_at cookie - cookies_epoch_time ck) @ [CHR 0x09]
                @ c_name cookie @ [CHR 0x09] @ c_value cookie @ [CHR 0x0A];
          Some (if length buf < LINE_MAXLEN then buf else [])
        }
      else Some [])"

fun save_cookies :: "clock \<Rightarrow> (nat \<Rightarrow> cookie_data option) \<Rightarrow> nat list \<Rightarrow> string option" where
  "save_cookies ck heap [] = Some []"
| "save_cookies ck heap (c # cs) =
     do { cookie \<leftarrow> heap c; l \<leftarrow> save_line ck cookie; r \<leftarrow> save_cookies ck (heap(c := None)) cs; Some (l @ r) }"

fun save_nodes :: "clock \<Rightarrow> (nat \<Rightarrow> cookie_data option) \<Rightarrow> domain_node list \<Rightarrow> string option" where
  "save_nodes ck heap [] = Some []"
| "save_nodes ck heap (n # ns) =
     do { l \<leftarrow> save_cookies ck heap (dl_list (dn_cookies n));
          r \<leftarrow> save_nodes ck (heap |` (- set (dl_list (dn_cookies n)))) ns; Some (l @ r) }"

text \<open>The new text of the file, \<open>None\<close> inside when the server is disabled and leaves the file alone.\<close>

definition Cookies_save_and_free :: "server \<Rightarrow> clock \<Rightarrow> string option option" where
  "Cookies_save_and_free sv ck =
     (if sv_disabled sv then Some None
      else do {
        ls \<leftarrow> save_nodes ck (cookie_heap (sv_store sv)) (dl_list (domains (sv_store sv)));
        Some (Some (cookies_txt_header_str @ ls))
      })"

section \<open>The server\<close>

text \<open>
  \<open>Cookies_init\<close>: the files are \<open>None\<close> when they cannot be opened; \<open>locked\<close> is the answer of the
  file lock.
\<close>

definition Cookies_init :: "string option \<Rightarrow> string option \<Rightarrow> bool \<Rightarrow> clock \<Rightarrow> server option" where
  "Cookies_init cookiesrc cookies_txt locked ck =
     (case Cookie_control_init control_init cookiesrc of (r, ctl) \<Rightarrow>
        let off = \<lparr>sv_disabled = True, sv_control = ctl, sv_store = store_init\<rparr> in
        if r \<noteq> 0 then Some off
        else (case cookies_txt of
            None \<Rightarrow> Some off
          | Some file \<Rightarrow>
              if \<not> locked then Some off
              else do { st \<leftarrow> Cookies_load_cookies ctl ck file; Some (off\<lparr>sv_disabled := False, sv_store := st\<rparr>) }))"

datatype token_result = Exit | Code int

text \<open>
  One command. \<open>status\<close> is the field of \<open>ClientInfo\<close>, \<open>keys\<close> the file with the key, \<open>clk\<close> the clock
  as \<open>Cookies_get\<close> reads it.
\<close>

definition srv_parse_tok :: "server \<Rightarrow> clock \<Rightarrow> (nat \<Rightarrow> int) \<Rightarrow> string option \<Rightarrow> dsh \<Rightarrow> world \<Rightarrow> int \<Rightarrow> string
    \<Rightarrow> (token_result \<times> int \<times> server \<times> dsh \<times> world) option" where
  "srv_parse_tok sv ck clk keys sh w status Buf =
     (let attr = (\<lambda>a. a_Dpip_get_attr_l (Some Buf) (length Buf) (Some a)) in
      case attr ''cmd'' of
        None \<Rightarrow> Some (Code 1, status, sv, sh, w)
      | Some cmd \<Rightarrow>
          if status = 0 then
            do {
              r \<leftarrow> a_Dpip_check_auth (Some Buf) keys;
              Some (if r = 1 then (Code 0, 1, sv, sh, w) else (Code 1, status, sv, sh, w))
            }
          else if strcmp cmd ''DpiBye'' = 0 then Some (Exit, status, sv, sh, w)
          else if strcmp cmd ''set_cookie'' = 0 then
            do {
              (st, sv') \<leftarrow> Cookies_set sv ck (attr ''cookie'') (attr ''host'') (attr ''path'') (attr ''date'');
              out \<leftarrow> a_Dpip_build_cmd ''cmd=%s msg=%s'' [''set_cookie_answer'', if st = 0 then ''ok'' else ''not set''];
              str \<leftarrow> out;
              (_, sh', w') \<leftarrow> a_Dpip_dsh_write_str sh w True str;
              Some (Code 2, status, sv', sh', w')
            }
          else if strcmp cmd ''get_cookie'' = 0 then
            do {
              (cookie, sv') \<leftarrow> Cookies_get sv clk (attr ''host'') (attr ''path'') (attr ''scheme'');
              out \<leftarrow> a_Dpip_build_cmd ''cmd=%s cookie=%s'' [''get_cookie_answer'', cookie];
              str \<leftarrow> out;
              (r, sh', w') \<leftarrow> a_Dpip_dsh_write_str sh w True str;
              Some (Code (if r \<noteq> 0 then 1 else 2), status, sv', sh', w')
            }
          else Some (Code 1, status, sv, sh, w))"

section \<open>Commands\<close>

text \<open>An authenticated connection to the server, on which every write succeeds.\<close>

definition dpi_dsh :: dsh where
  "dpi_dsh = \<lparr>fd_in = 3, fd_out = 3, wrbuf = [], rdbuf = [], flush_sz = 8192, dsh_mode = DPIP_TAG, dsh_status = 0\<rparr>"

definition dpi_world :: "nat \<Rightarrow> world" where
  "dpi_world n = \<lparr>w_nonblock = (\<lambda>_. False), w_reads = [], w_writes = [Done (replicate n NUL)], w_wire = [], w_closed = []\<rparr>"

lemma mode_nb_dpi: "\<not> mode_nb dpi_dsh"
  by (simp add: mode_nb_def dpi_dsh_def DPIP_TAG_def DPIP_NONBLOCK_def)

lemma dpi_write:
  assumes "length str \<le> n"
  shows "\<exists>sh' w'. a_Dpip_dsh_write_str dpi_dsh (dpi_world n) True str = Some (0, sh', w') \<and> w_wire w' = str"
proof (cases "str = []")
  case True
  then show ?thesis by (simp add: a_Dpip_dsh_write_str_def a_Dpip_dsh_write_def dpi_dsh_def dpi_world_def)
next
  case False
  have nb: "\<not> mode_nb (dpi_dsh\<lparr>wrbuf := str\<rparr>)" using mode_nb_dpi by (simp add: mode_nb_def)
  have "write_loop False str 0 [Done (replicate n NUL)] = Some (int (length str), None, length str, [])"
    using assms by (simp add: Let_def)
  then show ?thesis
    using False nb by (simp add: a_Dpip_dsh_write_str_def a_Dpip_dsh_write_def Dpip_dsh_write_def dpi_dsh_def
        dpi_world_def Let_def)
qed

text \<open>What the server answers to a command, and its new state.\<close>

definition dpi_answer :: "nat \<Rightarrow> clock \<Rightarrow> (nat \<Rightarrow> int) \<Rightarrow> server \<Rightarrow> string \<Rightarrow> (string \<times> server) option" where
  "dpi_answer n ck clk sv cmd =
     (case srv_parse_tok sv ck clk None dpi_dsh (dpi_world n) 1 cmd of
        Some (Code _, _, sv', _, w) \<Rightarrow> Some (w_wire w, sv')
      | _ \<Rightarrow> None)"

definition tag_of :: "(string \<times> string) list \<Rightarrow> string" where
  "tag_of avs = ''<'' @ tag_body [] avs @ DPIP_TAG_END"

lemma attr_of_tag:
  assumes "\<forall>(m, v) \<in> set avs. name_ok m" "avs \<noteq> []" "name_ok a"
  shows "a_Dpip_get_attr_l (Some (tag_of avs)) (length (tag_of avs)) (Some a) = map_of avs a"
  using get_attr_of_tag [OF assms(3,1,2)] by (simp add: a_Dpip_get_attr_def tag_of_def)

lemma names_ok: "name_ok ''cmd''" "name_ok ''cookie''" "name_ok ''host''" "name_ok ''path''" "name_ok ''date''"
  "name_ok ''scheme''" "name_ok ''msg''"
  by (simp_all add: name_ok_def Quote_def)

lemma dpi_answer_get:
  assumes "\<forall>(m, v) \<in> set avs. name_ok m" "map_of avs ''cmd'' = Some ''get_cookie''"
    "Cookies_get sv clk (map_of avs ''host'') (map_of avs ''path'') (map_of avs ''scheme'') = Some (hdr, sv')"
    "length (tag_of [(''cmd'', ''get_cookie_answer''), (''cookie'', hdr)]) \<le> n"
  shows "dpi_answer n ck clk sv (tag_of avs) = Some (tag_of [(''cmd'', ''get_cookie_answer''), (''cookie'', hdr)], sv')"
proof -
  have ne: "avs \<noteq> []" using assms(2) by auto
  note attr = attr_of_tag [OF assms(1) ne]
  have build: "a_Dpip_build_cmd ''cmd=%s cookie=%s'' [''get_cookie_answer'', hdr] =
      Some (Some (tag_of [(''cmd'', ''get_cookie_answer''), (''cookie'', hdr)]))"
    using build_cmd_tag [of "[(''cmd'', ''get_cookie_answer''), (''cookie'', hdr)]"] names_ok
    by (simp add: tag_of_def)
  obtain sh' w' where w: "a_Dpip_dsh_write_str dpi_dsh (dpi_world n) True
      (tag_of [(''cmd'', ''get_cookie_answer''), (''cookie'', hdr)]) = Some (0, sh', w')"
    "w_wire w' = tag_of [(''cmd'', ''get_cookie_answer''), (''cookie'', hdr)]"
    using dpi_write [OF assms(4)] by blast
  have "srv_parse_tok sv ck clk None dpi_dsh (dpi_world n) 1 (tag_of avs) = Some (Code 2, 1, sv', sh', w')"
    unfolding srv_parse_tok_def Let_def attr [OF names_ok(1)] attr [OF names_ok(3)] attr [OF names_ok(4)]
      attr [OF names_ok(6)] assms(2) option.case
    by (simp add: assms(3) build w(1) uchar_eq_iff)
  then show ?thesis by (simp add: dpi_answer_def w(2))
qed

lemma dpi_answer_set:
  assumes "\<forall>(m, v) \<in> set avs. name_ok m" "map_of avs ''cmd'' = Some ''set_cookie''"
    "Cookies_set sv ck (map_of avs ''cookie'') (map_of avs ''host'') (map_of avs ''path'') (map_of avs ''date'') = Some (st, sv')"
    "100 \<le> n"
  shows "\<exists>ans. dpi_answer n ck clk sv (tag_of avs) = Some (ans, sv')"
proof -
  have ne: "avs \<noteq> []" using assms(2) by auto
  note attr = attr_of_tag [OF assms(1) ne]
  let ?m = "if st = 0 then ''ok'' else ''not set''"
  let ?t = "tag_of [(''cmd'', ''set_cookie_answer''), (''msg'', ?m)]"
  have build: "a_Dpip_build_cmd ''cmd=%s msg=%s'' [''set_cookie_answer'', ?m] = Some (Some ?t)"
    using build_cmd_tag [of "[(''cmd'', ''set_cookie_answer''), (''msg'', ?m)]"] names_ok
    by (simp add: tag_of_def)
  have "length ?t \<le> n" using assms(4) by (simp add: tag_of_def DPIP_TAG_END_def Quote_def)
  then obtain sh' w' where w: "a_Dpip_dsh_write_str dpi_dsh (dpi_world n) True ?t = Some (0, sh', w')"
    using dpi_write by blast
  have "srv_parse_tok sv ck clk None dpi_dsh (dpi_world n) 1 (tag_of avs) = Some (Code 2, 1, sv', sh', w')"
    unfolding srv_parse_tok_def Let_def attr [OF names_ok(1)] attr [OF names_ok(2)] attr [OF names_ok(3)]
      attr [OF names_ok(4)] attr [OF names_ok(5)] assms(2) option.case
    by (simp add: assms(3) build w uchar_eq_iff)
  then show ?thesis by (simp add: dpi_answer_def)
qed

section \<open>A cookie that was set is sent back\<close>

lemma Cookies_set_default:
  assumes "cookies_inv (sv_store sv)" "\<not> sv_disabled sv"
    "Cookies_control_check_domain (sv_control sv) host \<noteq> COOKIE_DENY" "cstr host"
    "cstr path" "path \<noteq> []" "hd path = CHR ''/''"
    "Cookies_parse ck (Some hdr) date = Some (Some cd)" "c_domain cd = None" "c_path cd = None" "cstr (c_name cd)"
    "length (dl_list (all_cookies (sv_store sv))) < MAX_TOTAL_COOKIES"
  shows "\<exists>sv' p cd'. Cookies_set sv ck (Some hdr) (Some host) (Some path) date = Some (0, sv')
    \<and> cookies_inv (sv_store sv') \<and> \<not> sv_disabled sv' \<and> sv_control sv' = sv_control sv
    \<and> (\<not> cookie_expired cd (ck_now ck) \<longrightarrow> cd' \<in> ran (jar (sv_store sv')))
    \<and> c_name cd' = c_name cd \<and> c_value cd' = c_value cd \<and> c_domain cd' = Some host \<and> c_host_only cd'
    \<and> c_path cd' = Some p \<and> rfc_path_match path p \<and> c_expires_at cd' = c_expires_at cd \<and> c_secure cd' = c_secure cd"
proof -
  let ?cd1 = "cd\<lparr>c_domain := Some host, c_host_only := True\<rparr>"
  obtain p r where p: "Cookies_validate_path ?cd1 (Some path) = ?cd1\<lparr>c_path := Some p\<rparr>" "path = p @ r"
    "rfc_path_match path p"
    using default_path_matches [OF assms(5-7), of ?cd1] assms(10) by (metis cookie_data.select_convs(4) cookie_data.surjective cookie_data.update_convs(3,6))
  define action where "action = Cookies_control_check_domain (sv_control sv) host"
  define cookie where "cookie = (if action = COOKIE_ACCEPT_SESSION then (?cd1\<lparr>c_path := Some p\<rparr>)\<lparr>c_session_only := True\<rparr>
      else ?cd1\<lparr>c_path := Some p\<rparr>)"
  have f: "c_name cookie = c_name cd" "c_value cookie = c_value cd" "c_domain cookie = Some host" "c_host_only cookie"
    "c_path cookie = Some p" "c_expires_at cookie = c_expires_at cd" "c_secure cookie = c_secure cd"
    by (simp_all add: cookie_def)
  have wf: "cookie_wf cookie" using f assms(4,5,11) p(2) by (simp add: cookie_wf_def)
  obtain st where st: "Cookies_add_cookie (sv_store sv) cookie (ck_now ck) = Some st" "cookies_inv st"
    "jar st (cookie_key cookie) = (if cookie_expired cookie (ck_now ck) then None
       else Some (cookie\<lparr>c_last_used := cookies_use_counter (sv_store sv)\<rparr>))"
    using Cookies_add_ok [OF assms(1) wf f(3), of "ck_now ck"] assms(12) by auto
  have ex: "cookie_expired cookie (ck_now ck) = cookie_expired cd (ck_now ck)" by (simp add: cookie_expired_def f)
  have val: "Cookies_validate_domain cd (Some host) = (True, ?cd1)"
    using assms(9) by (simp add: Cookies_validate_domain_def dStrdup_def)
  have "Cookies_set sv ck (Some hdr) (Some host) (Some path) date = Some (0, sv\<lparr>sv_store := st\<rparr>)"
    unfolding Cookies_set_def Let_def Option.bind.simps assms(8) action_def [symmetric] option.case val prod.case p(1)
      cookie_def [symmetric] st(1)
    using assms(2,3) by (simp add: action_def)
  then show ?thesis
    using st(2,3) f p(3) ex assms(2)
    by (intro exI [of _ "sv\<lparr>sv_store := st\<rparr>"] exI [of _ p]
        exI [of _ "cookie\<lparr>c_last_used := cookies_use_counter (sv_store sv)\<rparr>"]) (auto intro: ranI)
qed

end
