(* ===== verification/Cookies_File.thy ===== *)
theory Cookies_File
  imports Cookies_Server
begin

text \<open>
  What \<open>Cookies_save_and_free\<close> writes is what \<open>Cookies_load_cookies\<close> reads: the lines, the limits
  while loading, and the round trip of the persistent cookies through \<^verbatim>\<open>cookies.txt\<close>.
\<close>

section \<open>Numbers and pieces\<close>

lemma digits_value_snoc: "d < 10 \<Longrightarrow> digits_value 10 (xs @ [dec_digit d]) = digits_value 10 xs * 10 + int d"
  by (simp add: digits_value_def)

lemma dec_nat_digits: "dec_nat n \<noteq> [] \<and> (\<forall>c \<in> set (dec_nat n). is_digit_in 10 c) \<and> digits_value 10 (dec_nat n) = int n"
proof (induction n rule: dec_nat.induct)
  case (1 n)
  have d: "is_digit_in 10 (dec_digit k)" if "k < 10" for k using that by (simp add: is_digit_in_def)
  show ?case
  proof (cases "n < 10")
    case True
    then show ?thesis using d [of n] by (simp add: dec_nat.simps [of n] digits_value_def)
  next
    case False
    then have "digits_value 10 (dec_nat (n div 10) @ [dec_digit (n mod 10)]) = int (n div 10) * 10 + int (n mod 10)"
      using 1 digits_value_snoc [of "n mod 10" "dec_nat (n div 10)"] by simp
    also have "\<dots> = int (n div 10 * 10 + n mod 10)" by (simp only: of_nat_add of_nat_mult of_nat_numeral)
    also have "\<dots> = int n" by (simp only: div_mult_mod_eq)
    finally show ?thesis using 1 False d [of "n mod 10"] by (auto simp: dec_nat.simps [of n])
  qed
qed

lemma strtol_dec_long:
  assumes "0 \<le> i" "i \<le> 9223372036854775807"
  shows "strtol (dec_long i) 10 = (i, [])"
proof -
  have "dec_long i = dec_nat (nat i)" using assms(1) by (simp add: dec_long_def)
  then show ?thesis
    using strtol_digits [of "dec_nat (nat i)" "[]"] dec_nat_digits [of "nat i"] assms by (simp add: clamp_long_def)
qed

lemma dec_long_chars:
  assumes "0 \<le> i" "c \<in> set (dec_long i)"
  shows "\<not> isspace c \<and> c \<noteq> NUL"
proof -
  have "is_digit_in 10 c" using assms dec_nat_digits [of "nat i"] by (auto simp: dec_long_def)
  from is_digit_not_space [OF this] show ?thesis by auto
qed

lemma piece_tab: "CHR 0x09 \<notin> set a \<Longrightarrow> piece (Some (a @ CHR 0x09 # r)) = (Some a, Some r)"
proof -
  assume "CHR 0x09 \<notin> set a"
  then have "strpbrk (a @ CHR 0x09 # r) [CHR 0x09] = Some (CHR 0x09 # r)"
    by (induction a) (auto simp: strpbrk_def)
  then show ?thesis by (simp add: piece_def dStrsep_def)
qed

lemma piece_last: "CHR 0x09 \<notin> set a \<Longrightarrow> piece (Some a) = (Some a, None)"
proof -
  assume "CHR 0x09 \<notin> set a"
  then have "strpbrk a [CHR 0x09] = None" by (induction a) (auto simp: strpbrk_def)
  then show ?thesis by (simp add: piece_def dStrsep_def)
qed

lemma fgets_line:
  assumes "CHR 0x0A \<notin> set l" "length l < 4095"
  shows "fgets LINE_MAXLEN (l @ CHR 0x0A # t) = (l @ [CHR 0x0A], t)"
proof -
  have "takeWhile (\<lambda>c. c \<noteq> CHR 0x0A) (take 4095 (l @ CHR 0x0A # t)) = l"
    using assms by (subst take_append)
      (simp only: takeWhile_append takeWhile_eq_all_conv [THEN iffD2], auto simp: take_Cons' takeWhile_append)
  then show ?thesis using assms(2) by (simp add: fgets_def LINE_MAXLEN_def Let_def)
qed

lemma trim_len_append: "n \<le> length p \<Longrightarrow> trim_len (p @ x) n = trim_len p n"
  by (induction n) (auto simp: nth_append)

lemma dStrstrip_space: "isspace c \<Longrightarrow> dStrstrip (s @ [c]) = dStrstrip s"
proof -
  assume c: "isspace c"
  show ?thesis
  proof (cases "dropWhile isspace s = []")
    case True
    then have "dropWhile isspace (s @ [c]) = []" using c by (auto simp: dropWhile_eq_Nil_conv)
    then show ?thesis unfolding dStrstrip_def Let_def using True by simp
  next
    case False
    then have "dropWhile isspace (s @ [c]) = dropWhile isspace s @ [c]"
      by (auto simp: dropWhile_append dropWhile_eq_Nil_conv)
    moreover have "trim_len (dropWhile isspace s @ [c]) (length (dropWhile isspace s))
        = trim_len (dropWhile isspace s) (length (dropWhile isspace s))"
      by (rule trim_len_append) simp
    moreover have "trim_len (dropWhile isspace s) (length (dropWhile isspace s)) \<le> length (dropWhile isspace s)"
      by (rule trim_len_le)
    moreover have "s \<noteq> []" using False by auto
    ultimately show ?thesis using c by (simp add: dStrstrip_def Let_def)
  qed
qed

section \<open>One line\<close>

text \<open>The cookies the format of the file can hold, and their lines fit the buffers.\<close>

definition field_ok :: "string \<Rightarrow> bool" where
  "field_ok s \<longleftrightarrow> s \<noteq> [] \<and> NUL \<notin> set s \<and> CHR 0x0A \<notin> set s \<and> CHR 0x09 \<notin> set s"

definition line_ok :: "clock \<Rightarrow> cookie_data \<Rightarrow> bool" where
  "line_ok ck cd \<longleftrightarrow> (\<exists>d p l. c_domain cd = Some d \<and> c_path cd = Some p \<and> save_line ck cd = Some l \<and> l \<noteq> []
     \<and> field_ok d \<and> hd d \<noteq> CHR ''#'' \<and> \<not> isspace (hd d) \<and> field_ok p \<and> hd p = CHR ''/''
     \<and> field_ok (c_name cd) \<and> \<not> isspace (last (c_name cd)))
     \<and> NUL \<notin> set (c_value cd) \<and> CHR 0x0A \<notin> set (c_value cd)
     \<and> (c_value cd \<noteq> [] \<longrightarrow> \<not> isspace (last (c_value cd)))
     \<and> c_expires_at cd - cookies_epoch_time ck < 60 * 2147483648 \<and> cookies_epoch_time ck \<le> c_expires_at cd"

text \<open>The time that the clock of a later run gives to a time of an earlier one: the file holds the seconds
  since the date \<^verbatim>\<open>cookies_epoch_tm\<close>, which \<open>mktime\<close> gets back as minutes and seconds after this date.\<close>

definition retimed :: "clock \<Rightarrow> clock \<Rightarrow> int \<Rightarrow> int" where
  "retimed ck ck2 e = (let i = e - cookies_epoch_time ck
     in ck_mktime ck2 (cookies_epoch_tm\<lparr>tm_min := i div 60, tm_sec := i mod 60\<rparr>))"

lemma file_expires_back:
  assumes "0 \<le> e - cookies_epoch_time ck" "e - cookies_epoch_time ck < 60 * 2147483648"
  shows "file_expires ck2 (Some (dec_long (e - cookies_epoch_time ck))) = retimed ck ck2 e"
proof -
  let ?i = "e - cookies_epoch_time ck"
  have s: "strtol (dec_long ?i) 10 = (?i, [])" using assms by (intro strtol_dec_long) simp_all
  have d: "?i sdiv 60 = ?i div 60" "?i smod 60 = ?i mod 60"
    using assms(1) by (simp_all add: signed_divide_int_def signed_modulo_int_def sgn_if minus_div_mult_eq_mod)
  have b: "0 \<le> ?i div 60" "?i div 60 < 2147483648" "0 \<le> ?i mod 60" "?i mod 60 < 60" using assms by auto
  have c: "c_int (0 + ?i div 60) = ?i div 60" "c_int (0 + ?i mod 60) = ?i mod 60"
    using b by (simp_all add: c_int_def)
  have t: "tm_min cookies_epoch_tm = 0" "tm_sec cookies_epoch_tm = 0" by (simp_all add: cookies_epoch_tm_def)
  show ?thesis
    unfolding file_expires_def retimed_def option.case s fst_conv Let_def d t c ..
qed

text \<open>The cookie read back: the counters of the session are not in the file.\<close>

definition reset :: "cookie_data \<Rightarrow> cookie_data" where
  "reset cd = cd\<lparr>c_last_used := 0\<rparr>"

definition restored :: "clock \<Rightarrow> clock \<Rightarrow> cookie_data \<Rightarrow> cookie_data" where
  "restored ck ck2 cd = (reset cd)\<lparr>c_expires_at := retimed ck ck2 (c_expires_at cd)\<rparr>"

lemma line_cookie_back:
  assumes "c_domain cd = Some d" "c_path cd = Some p" "field_ok d" "field_ok p" "hd p = CHR ''/''"
    "field_ok (c_name cd)" "\<not> c_session_only cd"
    "0 \<le> c_expires_at cd - cookies_epoch_time ck" "c_expires_at cd - cookies_epoch_time ck < 60 * 2147483648"
    "tail = (if c_value cd = [] then [] else CHR 0x09 # c_value cd)"
  shows "line_cookie ck2 (d @ [CHR 0x09] @ (if c_host_only cd then ''FALSE'' else ''TRUE'') @ [CHR 0x09]
                @ p @ [CHR 0x09] @ (if c_secure cd then ''TRUE'' else ''FALSE'') @ [CHR 0x09]
                @ dec_long (c_expires_at cd - cookies_epoch_time ck) @ [CHR 0x09] @ c_name cd @ tail) = Some (restored ck ck2 cd)"
proof -
  let ?b = "\<lambda>b. if b then ''TRUE'' else ''FALSE''" and ?i = "c_expires_at cd - cookies_epoch_time ck"
  have t: "CHR 0x09 \<notin> set d" "CHR 0x09 \<notin> set p" "CHR 0x09 \<notin> set (c_name cd)" "CHR 0x09 \<notin> set (?b b)" for b
    using assms(3,4,6) by (simp_all add: field_ok_def)
  have n: "CHR 0x09 \<notin> set (dec_long ?i)" using dec_long_chars [OF assms(8)] isspace_lits(2) by blast
  have bb: "(if c_host_only cd then ''FALSE'' else ''TRUE'') = ?b (\<not> c_host_only cd)" by simp
  have l: "piece (Some (c_name cd @ tail)) = (Some (c_name cd), if c_value cd = [] then None else Some (c_value cd))"
    using piece_tab [OF t(3)] piece_last [OF t(3)] assms(10) by simp
  have sep: "piece (Some (x @ [CHR 0x09] @ y)) = (Some x, Some y)" if "CHR 0x09 \<notin> set x" for x y
    using piece_tab [OF that, of y] by simp
  have h: "deref p = CHR ''/''" "deref (?b b) = CHR ''F'' \<longleftrightarrow> \<not> b" "deref (?b b) = CHR ''T'' \<longleftrightarrow> b" for b
    using assms(4,5) by (cases p; simp add: field_ok_def)+
  have ne: "d \<noteq> []" using assms(3) by (simp add: field_ok_def)
  have v: "(case (if c_value cd = [] then None else Some (c_value cd)) of Some v \<Rightarrow> v | None \<Rightarrow> []) = c_value cd" by simp
  show ?thesis
    unfolding line_cookie_def bb sep [OF t(1)] sep [OF t(2)] sep [OF t(4)] sep [OF n] l prod.case option.case
      file_expires_back [OF assms(8,9)] option.sel h v
    using ne assms(1,2,7) by (cases cd) (simp add: restored_def reset_def cookie_zero_def)
qed

lemma load_saved_line:
  assumes "line_ok ck cd" "save_line ck cd = Some l"
    "Cookies_control_check_domain ctl (the (c_domain cd)) = COOKIE_ACCEPT"
  shows "load_line ctl ck2 st l = Cookies_add_cookie st (restored ck ck2 cd) (ck_now ck2)"
    "\<exists>b. l = b @ [CHR 0x0A] \<and> CHR 0x0A \<notin> set b \<and> length b < 4095"
proof -
  obtain d p where f: "c_domain cd = Some d" "c_path cd = Some p" "l \<noteq> []" "field_ok d" "hd d \<noteq> CHR ''#''"
    "\<not> isspace (hd d)" "field_ok p" "hd p = CHR ''/''" "field_ok (c_name cd)" "\<not> isspace (last (c_name cd))"
    using assms(1,2) by (auto simp: line_ok_def)
  have g: "NUL \<notin> set (c_value cd)" "CHR 0x0A \<notin> set (c_value cd)" "c_value cd \<noteq> [] \<Longrightarrow> \<not> isspace (last (c_value cd))"
    "c_expires_at cd - cookies_epoch_time ck < 60 * 2147483648" "0 \<le> c_expires_at cd - cookies_epoch_time ck"
    using assms(1) by (auto simp: line_ok_def)
  let ?a = "d @ [CHR 0x09] @ (if c_host_only cd then ''FALSE'' else ''TRUE'') @ [CHR 0x09]
                @ p @ [CHR 0x09] @ (if c_secure cd then ''TRUE'' else ''FALSE'') @ [CHR 0x09]
                @ dec_long (c_expires_at cd - cookies_epoch_time ck) @ [CHR 0x09] @ c_name cd"
  let ?b = "?a @ [CHR 0x09] @ c_value cd"
  have s: "\<not> c_session_only cd" "l = ?b @ [CHR 0x0A]" "length l < 4096"
    using assms(2) f(1-3) by (auto simp: save_line_def Let_def LINE_MAXLEN_def split: if_splits)
  have num: "c \<noteq> NUL \<and> c \<noteq> CHR 0x0A" if "c \<in> set (dec_long (c_expires_at cd - cookies_epoch_time ck))" for c
    using dec_long_chars [OF g(5) that] isspace_lits(3) by blast
  have chars: "NUL \<notin> set ?b" "CHR 0x0A \<notin> set ?b"
    using f(4,7,9) g(1,2) num by (auto simp: field_ok_def split: if_splits)
  show "\<exists>b. l = b @ [CHR 0x0A] \<and> CHR 0x0A \<notin> set b \<and> length b < 4095"
    using s chars by (intro exI [of _ ?b]) simp
  let ?t = "?a @ (if c_value cd = [] then [] else CHR 0x09 # c_value cd)"
  have c: "c_line l = l" unfolding c_line_def s(2)
    by (rule takeWhile_eq_all_conv [THEN iffD2]) (use chars in auto)
  have id: "dStrstrip ?t = ?t"
  proof (rule dStrstrip_id)
    have "hd ?t = hd d" using f(4) by (simp add: field_ok_def)
    moreover have "last ?t = (if c_value cd = [] then last (c_name cd) else last (c_value cd))"
      using f(9) by (simp add: field_ok_def)
    ultimately show "\<not> isspace (hd ?t) \<and> \<not> isspace (last ?t)" using f(6,10) g(3) by simp
  qed
  have strip: "dStrstrip (c_line l) = ?t"
  proof (cases "c_value cd = []")
    case True
    have "dStrstrip l = dStrstrip ?b" unfolding s(2) by (rule dStrstrip_space) simp
    also have "\<dots> = dStrstrip ?a" using True dStrstrip_space [of "CHR 0x09" ?a] by simp
    finally show ?thesis using c id True by simp
  next
    case False
    have "dStrstrip l = dStrstrip ?b" unfolding s(2) by (rule dStrstrip_space) simp
    then show ?thesis using c id False by simp
  qed
  have line: "line_cookie ck2 ?t = Some (restored ck ck2 cd)"
    using line_cookie_back [OF f(1,2,4,7,8,9) s(1) g(5,4) refl] by simp
  have first: "?t \<noteq> []" "deref ?t \<noteq> CHR ''#''" using f(4,5) by (cases d; simp add: field_ok_def)+
  show "load_line ctl ck2 st l = Cookies_add_cookie st (restored ck ck2 cd) (ck_now ck2)"
    unfolding load_line_def Let_def strip line using first f(1) assms(3) by (simp add: restored_def reset_def)
qed

section \<open>Adding many cookies\<close>

fun add_all :: "store \<Rightarrow> int \<Rightarrow> cookie_data list \<Rightarrow> store option" where
  "add_all st now [] = Some st"
| "add_all st now (cd # cds) = (case Cookies_add_cookie st cd now of None \<Rightarrow> None | Some st' \<Rightarrow> add_all st' now cds)"

lemma add_all_append: "add_all st now (xs @ ys) = Option.bind (add_all st now xs) (\<lambda>st. add_all st now ys)"
  by (induction xs arbitrary: st) (auto split: option.split)

lemma jar_count:
  assumes "cookies_inv st"
  shows "length (dl_list (all_cookies st)) = card (dom (jar st))"
    "view st a = Some (d, cs) \<Longrightarrow> length cs \<le> card {k \<in> dom (jar st). fst k = map tolow d}"
    "finite (dom (jar st))"
proof -
  note inv = cookies_invD [OF assms]
  let ?h = "cookie_heap st" let ?key = "\<lambda>c. cookie_key (the (?h c))"
  have dom: "dom (jar st) = ?key ` dom ?h"
  proof (rule set_eqI)
    fix k
    have "k \<in> dom (jar st) \<longleftrightarrow> (\<exists>cd. jar st k = Some cd)" by blast
    also have "\<dots> \<longleftrightarrow> (\<exists>c cd. ?h c = Some cd \<and> cookie_key cd = k)" unfolding jar_Some [OF inv(1,2)] by blast
    also have "\<dots> \<longleftrightarrow> k \<in> ?key ` dom ?h" by force
    finally show "k \<in> dom (jar st) \<longleftrightarrow> k \<in> ?key ` dom ?h" .
  qed
  have inj: "inj_on ?key (dom ?h)" using inv(2) by (simp add: heap_wf_def)
  show f: "finite (dom (jar st))" unfolding dom using finite_heap [OF inv(1)] by simp
  show "length (dl_list (all_cookies st)) = card (dom (jar st))"
    unfolding dom card_image [OF inj] by (rule length_all_cookies [OF inv(1)])
  assume v: "view st a = Some (d, cs)"
  have sub: "set cs \<subseteq> dom ?h" using store_okE(6) [OF inv(1) v] by blast
  have "length cs = card (set cs)" using store_okE(4) [OF inv(1) v] by (simp add: distinct_card)
  also have "\<dots> = card (?key ` set cs)" by (rule card_image [symmetric]) (rule inj_on_subset [OF inj sub])
  also have "\<dots> \<le> card {k \<in> dom (jar st). fst k = map tolow d}"
  proof (rule card_mono)
    show "finite {k \<in> dom (jar st). fst k = map tolow d}" using f by simp
    show "?key ` set cs \<subseteq> {k \<in> dom (jar st). fst k = map tolow d}"
    proof
      fix k
      assume "k \<in> ?key ` set cs"
      then obtain c where c: "c \<in> set cs" "k = ?key c" by blast
      obtain cd dd where "?h c = Some cd" "c_domain cd = Some dd" "ieq dd d" using store_okE(6) [OF inv(1) v c(1)] by blast
      then have "fst k = map tolow d" using c(2) by (simp add: cookie_key_def ieq_def)
      moreover have "k \<in> dom (jar st)" unfolding dom using c sub by blast
      ultimately show "k \<in> {k \<in> dom (jar st). fst k = map tolow d}" by blast
    qed
  qed
  finally show "length cs \<le> card {k \<in> dom (jar st). fst k = map tolow d}" .
qed

text \<open>While the limits are not reached, adding cookies with different keys fills the jar with those that
  have not expired.\<close>

lemma add_all_ok:
  assumes "distinct (map cookie_key cds)" "\<forall>cd \<in> set cds. cookie_wf cd"
    "length cds \<le> MAX_TOTAL_COOKIES" "\<forall>D. length (filter (\<lambda>cd. fst (cookie_key cd) = D) cds) \<le> MAX_DOMAIN_COOKIES"
  shows "\<exists>st. add_all store_init now cds = Some st \<and> cookies_inv st
    \<and> (\<forall>k. map_option reset (jar st k) =
         map_of (map (\<lambda>cd. (cookie_key cd, reset cd)) (filter (\<lambda>cd. \<not> cookie_expired cd now) cds)) k)"
  using assms
proof (induction cds rule: rev_induct)
  case Nil
  then show ?case using cookies_inv_init by (auto simp: jar_def store_init_def)
next
  case (snoc cd cds)
  let ?live = "filter (\<lambda>cd. \<not> cookie_expired cd now)"
  have pre: "length (filter (\<lambda>cd. fst (cookie_key cd) = D) cds) \<le> MAX_DOMAIN_COOKIES" for D
    using snoc.prems(4) [rule_format, of D] by simp
  then obtain st where st: "add_all store_init now cds = Some st" "cookies_inv st"
    "\<And>k. map_option reset (jar st k) = map_of (map (\<lambda>cd. (cookie_key cd, reset cd)) (?live cds)) k"
    using snoc.IH snoc.prems(1-3) pre by auto
  note inv = cookies_invD [OF st(2)]
  obtain dd where dd: "c_domain cd = Some dd" "cstr dd" using snoc.prems(2) by (auto simp: cookie_wf_def)
  have dom: "dom (jar st) = set (map cookie_key (?live cds))"
  proof (rule set_eqI)
    fix k
    have "map_option reset (jar st k) = None \<longleftrightarrow> k \<notin> fst ` set (map (\<lambda>cd. (cookie_key cd, reset cd)) (?live cds))"
      unfolding st(3) by (rule map_of_eq_None_iff)
    then show "k \<in> dom (jar st) \<longleftrightarrow> k \<in> set (map cookie_key (?live cds))" by (simp add: domIff image_image)
  qed
  then have sub: "dom (jar st) \<subseteq> set (map cookie_key cds)" by auto
  have n: "length (dl_list (all_cookies st)) \<le> length cds"
    unfolding jar_count(1) [OF st(2)]
    using card_mono [OF _ sub] card_length [of "map cookie_key cds"] by simp
  have full: "\<not> domain_full st dd"
  proof
    assume "domain_full st dd"
    then obtain a d cs where v: "view st a = Some (d, cs)" "ieq d dd" "MAX_DOMAIN_COOKIES \<le> length cs"
      by (auto simp: domain_full_def)
    have D: "map tolow d = fst (cookie_key cd)" using v(2) dd by (simp add: cookie_key_def ieq_def)
    have "length cs \<le> card {k \<in> dom (jar st). fst k = fst (cookie_key cd)}"
      using jar_count(2) [OF st(2) v(1)] unfolding D .
    also have "\<dots> \<le> card {k \<in> set (map cookie_key cds). fst k = fst (cookie_key cd)}"
      by (rule card_mono) (use sub in auto)
    also have "\<dots> = card (set (filter (\<lambda>k. fst k = fst (cookie_key cd)) (map cookie_key cds)))"
      by (simp only: set_filter)
    also have "\<dots> \<le> length (filter (\<lambda>k. fst k = fst (cookie_key cd)) (map cookie_key cds))" by (rule card_length)
    also have "\<dots> = length (filter (\<lambda>x. fst (cookie_key x) = fst (cookie_key cd)) cds)" by (simp add: filter_map comp_def)
    also have "\<dots> < MAX_DOMAIN_COOKIES" using snoc.prems(4) [rule_format, of "fst (cookie_key cd)"] by simp
    finally show False using v(3) by simp
  qed
  have wf: "cookie_wf cd" "length (dl_list (all_cookies st)) < MAX_TOTAL_COOKIES"
    using snoc.prems(2,3) n by auto
  obtain st' where st': "Cookies_add_cookie st cd now = Some st'" "cookies_inv st'"
    "jar st' (cookie_key cd) = (if cookie_expired cd now then None else Some (cd\<lparr>c_last_used := cookies_use_counter st\<rparr>))"
    "\<forall>k. k \<noteq> cookie_key cd \<longrightarrow> jar st' k = jar st k"
    using Cookies_add_ok [OF st(2) wf(1) dd(1), of now] wf(2) full by auto
  have "cookie_key cd \<notin> set (map cookie_key cds)" using snoc.prems(1) by simp
  then have fresh: "map_of (map (\<lambda>cd. (cookie_key cd, reset cd)) (?live cds)) (cookie_key cd) = None"
    by (auto simp: map_of_eq_None_iff image_image)
  have "map_option reset (jar st' k) = map_of (map (\<lambda>cd. (cookie_key cd, reset cd)) (?live (cds @ [cd]))) k" for k
    using st'(3) st'(4) [THEN spec, of k] st(3) [of k] fresh
    by (cases "k = cookie_key cd") (simp_all add: map_add_def reset_def split: option.split)
  then show ?case using st(1) st'(1,2) by (auto simp: add_all_append)
qed

section \<open>The file\<close>

lemma option_eqI: "(\<And>v. (x = Some v) = (y = Some v)) \<Longrightarrow> x = y"
  by (cases x; cases y) auto

definition saved :: "int \<Rightarrow> cookie_data \<Rightarrow> bool" where
  "saved now cd \<longleftrightarrow> \<not> c_session_only cd \<and> now < c_expires_at cd"

text \<open>The cookies in the order of the file.\<close>

definition stored :: "store \<Rightarrow> nat list" where
  "stored st = concat (map (\<lambda>n. dl_list (dn_cookies n)) (dl_list (domains st)))"

lemma save_cookies_concat:
  assumes "distinct cs" "\<forall>c \<in> set cs. \<exists>cd l. heap c = Some cd \<and> save_line ck cd = Some l"
  shows "save_cookies ck heap cs = Some (concat (map (\<lambda>c. the (save_line ck (the (heap c)))) cs))"
  using assms
proof (induction cs arbitrary: heap)
  case (Cons c cs)
  have "map (\<lambda>x. the (save_line ck (the ((heap(c := None)) x)))) cs = map (\<lambda>x. the (save_line ck (the (heap x)))) cs"
    using Cons.prems(1) by auto
  moreover have "save_cookies ck (heap(c := None)) cs =
      Some (concat (map (\<lambda>x. the (save_line ck (the ((heap(c := None)) x)))) cs))"
    by (rule Cons.IH) (use Cons.prems in auto)
  ultimately have "save_cookies ck (heap(c := None)) cs = Some (concat (map (\<lambda>x. the (save_line ck (the (heap x)))) cs))"
    by (simp only:)
  then show ?case using Cons.prems(2) by auto
qed simp

lemma save_nodes_concat:
  assumes "distinct (concat (map (\<lambda>n. dl_list (dn_cookies n)) ns))"
    "\<forall>c \<in> set (concat (map (\<lambda>n. dl_list (dn_cookies n)) ns)). \<exists>cd l. heap c = Some cd \<and> save_line ck cd = Some l"
  shows "save_nodes ck heap ns = Some (concat (map (\<lambda>c. the (save_line ck (the (heap c))))
     (concat (map (\<lambda>n. dl_list (dn_cookies n)) ns))))"
  using assms
proof (induction ns arbitrary: heap)
  case (Cons n ns)
  let ?cs = "dl_list (dn_cookies n)" let ?h = "heap |` (- set ?cs)" let ?r = "concat (map (\<lambda>n. dl_list (dn_cookies n)) ns)"
  have h: "?h x = heap x" if "x \<in> set ?r" for x
  proof -
    have "x \<notin> set ?cs" using Cons.prems(1) that by auto
    then show ?thesis by (simp add: restrict_map_def)
  qed
  have eq: "map (\<lambda>x. the (save_line ck (the (?h x)))) ?r = map (\<lambda>x. the (save_line ck (the (heap x)))) ?r"
    using h by (intro map_cong) auto
  have "save_nodes ck ?h ns = Some (concat (map (\<lambda>x. the (save_line ck (the (?h x)))) ?r))"
  proof (rule Cons.IH)
    show "distinct ?r" using Cons.prems(1) by simp
    show "\<forall>c \<in> set ?r. \<exists>cd l. ?h c = Some cd \<and> save_line ck cd = Some l"
    proof
      fix c
      assume "c \<in> set ?r"
      then show "\<exists>cd l. ?h c = Some cd \<and> save_line ck cd = Some l" using Cons.prems(2) h [of c] by auto
    qed
  qed
  then have "save_nodes ck ?h ns = Some (concat (map (\<lambda>x. the (save_line ck (the (heap x)))) ?r))"
    unfolding eq .
  moreover have "save_cookies ck heap ?cs = Some (concat (map (\<lambda>c. the (save_line ck (the (heap c)))) ?cs))"
    by (rule save_cookies_concat) (use Cons.prems in auto)
  ultimately show ?case by simp
qed simp

lemma load_line_step:
  assumes "CHR 0x0A \<notin> set b" "length b < 4095"
  shows "load_lines ctl ck st (b @ CHR 0x0A # t) =
    (case load_line ctl ck st (b @ [CHR 0x0A]) of None \<Rightarrow> None | Some st' \<Rightarrow> load_lines ctl ck st' t)"
  using fgets_line [OF assms, of t] by (subst load_lines.simps) simp

lemma load_comment:
  assumes "CHR 0x0A \<notin> set b" "length b < 4095" "cstr b" "b = [] \<or> hd b = CHR ''#'' \<and> \<not> isspace (last b)"
  shows "load_lines ctl ck st (b @ CHR 0x0A # t) = load_lines ctl ck st t"
proof -
  have c: "c_line (b @ [CHR 0x0A]) = b @ [CHR 0x0A]" unfolding c_line_def
    by (rule takeWhile_eq_all_conv [THEN iffD2]) (use assms(3) in \<open>auto simp: cstr_def\<close>)
  have "dStrstrip (b @ [CHR 0x0A]) = dStrstrip b" by (rule dStrstrip_space) simp
  also have "\<dots> = b" by (rule dStrstrip_id) (use assms(4) in \<open>auto simp: isspace_def uchar_def\<close>)
  finally have strip: "dStrstrip (b @ [CHR 0x0A]) = b" .
  have "load_line ctl ck st (b @ [CHR 0x0A]) = Some st"
    unfolding load_line_def c strip Let_def using assms(4) by (cases b) auto
  then show ?thesis by (simp add: load_line_step [OF assms(1,2)])
qed

lemma load_header: "load_lines ctl ck st (cookies_txt_header_str @ t) = load_lines ctl ck st t"
proof -
  have h: "cookies_txt_header_str @ t = ''# HTTP Cookie File'' @ CHR 0x0A #
      (''# This is a generated file!  Do not edit.'' @ CHR 0x0A #
      (''# [domain  subdomains  path  secure  expiry_time  name  value]'' @ CHR 0x0A # ([] @ CHR 0x0A # t)))"
    by (simp add: cookies_txt_header_str_def)
  show ?thesis
    unfolding h
    by (subst load_comment, simp, simp, simp add: cstr_def, simp add: isspace_def uchar_def)+ (rule refl)
qed

lemma load_saved_lines:
  assumes "\<forall>cd \<in> set cds. line_ok ck cd
      \<and> Cookies_control_check_domain ctl (the (c_domain cd)) = COOKIE_ACCEPT"
  shows "load_lines ctl ck2 st (concat (map (\<lambda>cd. the (save_line ck cd)) cds))
      = add_all st (ck_now ck2) (map (restored ck ck2) cds)"
  using assms
proof (induction cds arbitrary: st)
  case Nil
  then show ?case by (simp add: load_lines.simps)
next
  case (Cons cd cds)
  obtain l where l: "save_line ck cd = Some l" using Cons.prems by (auto simp: line_ok_def)
  note s = load_saved_line [OF _ l]
  have ok: "line_ok ck cd" "Cookies_control_check_domain ctl (the (c_domain cd)) = COOKIE_ACCEPT" using Cons.prems by simp_all
  obtain b where b: "l = b @ [CHR 0x0A]" "CHR 0x0A \<notin> set b" "length b < 4095" using s(2) [OF ok] by blast
  have "load_lines ctl ck2 st (l @ concat (map (\<lambda>cd. the (save_line ck cd)) cds)) =
      (case Cookies_add_cookie st (restored ck ck2 cd) (ck_now ck2) of None \<Rightarrow> None
       | Some st' \<Rightarrow> load_lines ctl ck2 st' (concat (map (\<lambda>cd. the (save_line ck cd)) cds)))"
    using load_line_step [OF b(2,3)] s(1) [OF ok] b(1) by simp
  then show ?case using Cons l by (simp cong: option.case_cong)
qed

lemma stored_ok:
  assumes "cookies_inv st"
  shows "distinct (stored st)" "set (stored st) = dom (cookie_heap st)"
    "length (filter (\<lambda>c. fst (cookie_key (the (cookie_heap st c))) = D) (stored st)) \<le> MAX_DOMAIN_COOKIES"
proof -
  note inv = cookies_invD [OF assms]
  let ?ns = "dl_list (domains st)" let ?h = "cookie_heap st"
  have ids: "distinct (map dn_id ?ns)" using store_okD(1) [OF inv(1)] by (simp add: nodes_ok_def)
  have v: "view st (dn_id n) = Some (dn_domain n, dl_list (dn_cookies n))" if "n \<in> set ?ns" for n
    using get_node_in [OF store_okD(1) [OF inv(1)] that] by (simp add: view_def)
  have vn: "\<exists>n \<in> set ?ns. dl_list (dn_cookies n) = cs" if "view st a = Some (d, cs)" for a d cs
    using that get_node_Some by (fastforce simp: view_Some)
  show dist: "distinct (stored st)"
    unfolding stored_def
  proof (rule distinct_concat_map [OF ids])
    show "distinct (dl_list (dn_cookies n))" if "n \<in> set ?ns" for n using store_okE(4) [OF inv(1) v [OF that]] by blast
    show "dn_id n = dn_id m" if "n \<in> set ?ns" "m \<in> set ?ns" "c \<in> set (dl_list (dn_cookies n))" "c \<in> set (dl_list (dn_cookies m))"
      for n m c using view_disjoint [OF inv(1) v [OF that(1)] v [OF that(2)] that(3,4)] .
  qed
  show set: "set (stored st) = dom ?h"
  proof
    show "set (stored st) \<subseteq> dom ?h" unfolding stored_def using store_okE(6) [OF inv(1) v] by fastforce
    show "dom ?h \<subseteq> set (stored st)"
    proof
      fix c
      assume "c \<in> dom ?h"
      then obtain a d cs where "view st a = Some (d, cs)" "c \<in> set cs" using store_okE(7) [OF inv(1)] by blast
      then show "c \<in> set (stored st)" using vn unfolding stored_def by fastforce
    qed
  qed
  let ?F = "filter (\<lambda>c. fst (cookie_key (the (?h c))) = D) (stored st)"
  show "length ?F \<le> MAX_DOMAIN_COOKIES"
  proof (cases ?F)
    case (Cons c0 r)
    then have c0: "c0 \<in> set ?F" by simp
    then have "c0 \<in> dom ?h" using set by auto
    then obtain a d cs where a: "view st a = Some (d, cs)" "c0 \<in> set cs" using store_okE(7) [OF inv(1)] by blast
    have dd: "map tolow d = fst (cookie_key (the (?h c)))" if vc: "view st b = Some (d, cs)" "c \<in> set cs" for b d cs c
    proof -
      obtain cd dd where "?h c = Some cd" "c_domain cd = Some dd" "ieq dd d" using store_okE(6) [OF inv(1) vc] by blast
      then show ?thesis by (simp add: cookie_key_def ieq_def)
    qed
    have "set ?F \<subseteq> set cs"
    proof
      fix c
      assume c: "c \<in> set ?F"
      then have "c \<in> dom ?h" using set by auto
      then obtain b d' cs' where b: "view st b = Some (d', cs')" "c \<in> set cs'" using store_okE(7) [OF inv(1)] by blast
      have "ieq d d'" using dd [OF a] dd [OF b] c c0 by (simp add: ieq_def)
      then have "a = b" using store_okE(5) [OF inv(1) a(1) b(1)] by blast
      then show "c \<in> set cs" using a b by simp
    qed
    then have "card (set ?F) \<le> card (set cs)" by (simp add: card_mono)
    moreover have "card (set ?F) = length ?F" by (rule distinct_card) (simp add: dist)
    moreover have "card (set cs) \<le> length cs" by (rule card_length)
    moreover have "length cs \<le> MAX_DOMAIN_COOKIES" using lens_okD [OF inv(3) a(1)] by simp
    ultimately show ?thesis by linarith
  qed simp
qed

text \<open>
  C24: The persistent cookies survive a restart. What \<open>Cookies_save_and_free\<close> writes to the file at one
  time, \<open>Cookies_load_cookies\<close> reads back at another time, perhaps with another clock and time zone,
  into a consistent store: with exactly the cookies that were not for the session only, had not expired
  when saved and have not expired when loaded, each as it was, up to the counter of its last use and with the
  expiry time that \<open>mktime\<close> then gives for the seconds since \<^verbatim>\<open>cookies_epoch_tm\<close> in the file. The
  conditions, on every cookie that is saved: the rules at the second start accept its domain for good, its
  line is shorter than 4096 bytes, its domain, path and name are not empty and have no tab, newline or NUL,
  the path begins with a slash, the domain with neither a space nor a hash, name and value do not end
  in a space, the value has no newline or NUL, and the expiry time is not before the epoch date nor 2^31
  minutes or more after it.
\<close>

theorem Cookies_file_roundtrip:
  assumes "cookies_inv (sv_store sv)" "\<not> sv_disabled sv"
    "\<forall>cd \<in> ran (jar (sv_store sv)). saved (ck_now ck) cd \<longrightarrow> line_ok ck cd
       \<and> Cookies_control_check_domain ctl (the (c_domain cd)) = COOKIE_ACCEPT"
  shows "\<exists>text st'. Cookies_save_and_free sv ck = Some (Some text)
    \<and> Cookies_load_cookies ctl ck2 text = Some st' \<and> cookies_inv st'
    \<and> (\<forall>k. map_option reset (jar st' k) =
         Option.bind (jar (sv_store sv) k) (\<lambda>cd.
           if saved (ck_now ck) cd \<and> \<not> cookie_expired (restored ck ck2 cd) (ck_now ck2)
           then Some (restored ck ck2 cd) else None))"
proof -
  let ?st = "sv_store sv" let ?h = "cookie_heap ?st" let ?now = "ck_now ck" let ?r = "restored ck ck2"
  note inv = cookies_invD [OF assms(1)] and stored = stored_ok [OF assms(1)]
  define cds where "cds = map (\<lambda>c. the (?h c)) (filter (\<lambda>c. saved ?now (the (?h c))) (stored ?st))"
  have ran: "the (?h c) \<in> ran (jar ?st)" "cookie_wf (the (?h c))" if "c \<in> set (stored ?st)" for c
  proof -
    obtain cd where cd: "?h c = Some cd" using \<open>c \<in> set (stored ?st)\<close> stored(2) by blast
    have "the (?h c) = cd" using cd by simp
    then show "the (?h c) \<in> ran (jar ?st)"
      unfolding ran_def mem_Collect_eq jar_Some [OF inv(1,2)] using cd by blast
    show "cookie_wf (the (?h c))" using inv(2) cd by (auto simp: heap_wf_def ran_def)
  qed
  have ok: "line_ok ck cd \<and> Cookies_control_check_domain ctl (the (c_domain cd)) = COOKIE_ACCEPT
      \<and> saved ?now cd \<and> cookie_wf cd" if "cd \<in> set cds" for cd
    using that ran assms(3) by (auto simp: cds_def)
  have line: "\<exists>l. save_line ck cd = Some l \<and> (\<not> saved ?now cd \<longrightarrow> l = [])" if "cookie_wf cd" for cd
    using that by (auto simp: save_line_def saved_def cookie_wf_def Let_def)
  have "save_nodes ck ?h (dl_list (domains ?st)) =
      Some (concat (map (\<lambda>c. the (save_line ck (the (?h c)))) (stored ?st)))"
    unfolding stored_def
  proof (rule save_nodes_concat)
    show "distinct (concat (map (\<lambda>n. dl_list (dn_cookies n)) (dl_list (domains ?st))))"
      using stored(1) by (simp only: stored_def)
    show "\<forall>c \<in> set (concat (map (\<lambda>n. dl_list (dn_cookies n)) (dl_list (domains ?st)))).
        \<exists>cd l. ?h c = Some cd \<and> save_line ck cd = Some l"
      unfolding stored_def [symmetric]
    proof
      fix c
      assume c: "c \<in> set (stored ?st)"
      then obtain cd where "?h c = Some cd" using stored(2) by blast
      then show "\<exists>cd l. ?h c = Some cd \<and> save_line ck cd = Some l" using line ran(2) [OF c] by auto
    qed
  qed
  also have "concat (map (\<lambda>c. the (save_line ck (the (?h c)))) (stored ?st)) = concat (map (\<lambda>cd. the (save_line ck cd)) cds)"
  proof -
    have "concat (map f xs) = concat (map f (filter P xs))" if "\<And>x. x \<in> set xs \<Longrightarrow> \<not> P x \<Longrightarrow> f x = []"
      for f :: "nat \<Rightarrow> string" and P xs using that by (induction xs) auto
    note this [of "stored ?st" "\<lambda>c. saved ?now (the (?h c))" "\<lambda>c. the (save_line ck (the (?h c)))"]
    then show ?thesis unfolding cds_def map_map comp_def using line ran(2) by (metis option.sel)
  qed
  finally have written: "Cookies_save_and_free sv ck =
      Some (Some (cookies_txt_header_str @ concat (map (\<lambda>cd. the (save_line ck cd)) cds)))"
    using assms(2) by (simp add: Cookies_save_and_free_def)
  have load: "Cookies_load_cookies ctl ck2 (cookies_txt_header_str @ concat (map (\<lambda>cd. the (save_line ck cd)) cds))
      = add_all store_init (ck_now ck2) (map ?r cds)"
    unfolding Cookies_load_cookies_def load_header by (rule load_saved_lines) (use ok in blast)
  have key: "cookie_key (?r cd) = cookie_key cd" "reset (?r cd) = ?r cd" "cookie_wf (?r cd) = cookie_wf cd" for cd
    by (simp_all add: restored_def reset_def cookie_key_def cookie_wf_def)
  have inj: "inj_on (\<lambda>c. cookie_key (the (?h c))) (set (stored ?st))" using inv(2) stored(2) by (simp add: heap_wf_def)
  have d: "distinct (map cookie_key (map ?r cds))"
    using stored(1) inj by (auto simp: cds_def key comp_def distinct_map intro: inj_on_subset)
  have wf: "\<forall>cd \<in> set (map ?r cds). cookie_wf cd" using ok by (auto simp: key)
  have tot: "length (map ?r cds) \<le> MAX_TOTAL_COOKIES"
  proof -
    have "length (stored ?st) = length (dl_list (all_cookies ?st))"
      using stored(1,2) length_all_cookies [OF inv(1)] distinct_card by metis
    then show ?thesis using inv(4) length_filter_le [of "\<lambda>c. saved ?now (the (?h c))" "stored ?st"] by (simp add: cds_def)
  qed
  have per: "\<forall>D. length (filter (\<lambda>cd. fst (cookie_key cd) = D) (map ?r cds)) \<le> MAX_DOMAIN_COOKIES"
  proof
    fix D
    have "length (filter (\<lambda>cd. fst (cookie_key cd) = D) (map ?r cds)) =
        length (filter (\<lambda>c. saved ?now (the (?h c))) (filter (\<lambda>c. fst (cookie_key (the (?h c))) = D) (stored ?st)))"
      by (simp add: cds_def filter_map comp_def key conj_commute)
    also have "\<dots> \<le> length (filter (\<lambda>c. fst (cookie_key (the (?h c))) = D) (stored ?st))" by (rule length_filter_le)
    finally show "length (filter (\<lambda>cd. fst (cookie_key cd) = D) (map ?r cds)) \<le> MAX_DOMAIN_COOKIES"
      using stored(3) [of D] by linarith
  qed
  let ?live = "\<lambda>cd. \<not> cookie_expired cd (ck_now ck2)"
  obtain st' where st': "add_all store_init (ck_now ck2) (map ?r cds) = Some st'" "cookies_inv st'"
    "\<And>k. map_option reset (jar st' k) = map_of (map (\<lambda>cd. (cookie_key cd, reset cd)) (filter ?live (map ?r cds))) k"
    using add_all_ok [OF d wf tot per] by blast
  have "map_of (map (\<lambda>cd. (cookie_key cd, reset cd)) (filter ?live (map ?r cds))) k =
      Option.bind (jar ?st k) (\<lambda>cd. if saved ?now cd \<and> ?live (?r cd) then Some (?r cd) else None)" for k
  proof -
    have mem: "cd \<in> set cds \<longleftrightarrow> (\<exists>c. ?h c = Some cd) \<and> saved ?now cd" for cd
    proof -
      have "cd \<in> set cds \<longleftrightarrow> (\<exists>c \<in> dom ?h. cd = the (?h c) \<and> saved ?now cd)" by (auto simp: cds_def stored(2))
      also have "\<dots> \<longleftrightarrow> (\<exists>c. ?h c = Some cd) \<and> saved ?now cd" by force
      finally show ?thesis .
    qed
    have dk: "distinct (map fst (map (\<lambda>cd. (cookie_key cd, reset cd)) (filter ?live (map ?r cds))))" using distinct_map_filter [OF d, of ?live] by (simp only: map_map comp_def fst_conv)
    have live: "map (\<lambda>cd. (cookie_key cd, reset cd)) (filter ?live (map ?r cds))
        = map (\<lambda>cd. (cookie_key cd, ?r cd)) (filter (\<lambda>cd. ?live (?r cd)) cds)"
      by (simp add: filter_map comp_def key)
    have "map_of (map (\<lambda>cd. (cookie_key cd, reset cd)) (filter ?live (map ?r cds))) k = Some v \<longleftrightarrow>
        Option.bind (jar ?st k) (\<lambda>cd. if saved ?now cd \<and> ?live (?r cd) then Some (?r cd) else None) = Some v" for v
    proof -
      have "map_of (map (\<lambda>cd. (cookie_key cd, reset cd)) (filter ?live (map ?r cds))) k = Some v \<longleftrightarrow>
          (\<exists>cd \<in> set cds. ?live (?r cd) \<and> k = cookie_key cd \<and> v = ?r cd)"
        unfolding live map_of_eq_Some_iff [OF dk [unfolded live]] by (auto simp: key)
      also have "\<dots> \<longleftrightarrow> (\<exists>cd. jar ?st k = Some cd \<and> saved ?now cd \<and> ?live (?r cd) \<and> v = ?r cd)"
        unfolding Bex_def mem jar_Some [OF inv(1,2)] by blast
      also have "\<dots> \<longleftrightarrow> Option.bind (jar ?st k) (\<lambda>cd. if saved ?now cd \<and> ?live (?r cd) then Some (?r cd) else None) = Some v"
        by (cases "jar ?st k") auto
      finally show ?thesis .
    qed
    then show ?thesis by (rule option_eqI)
  qed
  then have "map_option reset (jar st' k) =
      Option.bind (jar ?st k) (\<lambda>cd. if saved ?now cd \<and> ?live (?r cd) then Some (?r cd) else None)" for k unfolding st'(3) .
  moreover have "Cookies_load_cookies ctl ck2
      (cookies_txt_header_str @ concat (map (\<lambda>cd. the (save_line ck cd)) cds)) = Some st'" unfolding load by (rule st'(1))
  ultimately show ?thesis using written st'(2) by blast
qed

text \<open>When both runs have the same clock offset the expiry time is the old one.\<close>

lemma restored_same:
  assumes "retimed ck ck2 (c_expires_at cd) = c_expires_at cd"
  shows "restored ck ck2 cd = reset cd"
  using assms by (cases cd) (simp add: restored_def reset_def)

lemma Cookies_file_roundtrip_witness:
  "\<exists>text st'. Cookies_save_and_free \<lparr>sv_disabled = False, sv_control = control_init,
        sv_store = one_each 1\<rparr> \<lparr>ck_now = 50, ck_mktime = (\<lambda>t. 60 * tm_min t + tm_sec t), ck_gmtime = (\<lambda>_. cookies_epoch_tm)\<rparr>
        = Some (Some text)
    \<and> Cookies_load_cookies (control_init\<lparr>default_action := COOKIE_ACCEPT\<rparr>)
        \<lparr>ck_now = 70, ck_mktime = (\<lambda>t. 60 * tm_min t + tm_sec t), ck_gmtime = (\<lambda>_. cookies_epoch_tm)\<rparr> text = Some st'
    \<and> cookies_inv st' \<and> map_option reset (jar st' (map tolow ''a'', False, ''a'', ''/'')) =
         Some (cookie_zero\<lparr>c_name := ''a'', c_domain := Some ''a'', c_path := Some ''/'', c_expires_at := 100\<rparr>)"
proof -
  let ?ck = "\<lparr>ck_now = 50, ck_mktime = (\<lambda>t. 60 * tm_min t + tm_sec t), ck_gmtime = (\<lambda>_. cookies_epoch_tm)\<rparr>"
  let ?ck2 = "\<lparr>ck_now = 70, ck_mktime = (\<lambda>t. 60 * tm_min t + tm_sec t), ck_gmtime = (\<lambda>_. cookies_epoch_tm)\<rparr>"
  let ?ctl = "control_init\<lparr>default_action := COOKIE_ACCEPT\<rparr>"
  let ?cd = "cookie_zero\<lparr>c_name := ''a'', c_domain := Some ''a'', c_path := Some ''/'', c_expires_at := 100, c_last_used := 0\<rparr>"
  have inv: "cookies_inv (one_each 1)" by (rule cookies_inv_one_each) (simp add: MAX_TOTAL_COOKIES_def)
  have heap: "cookie_heap (one_each 1) 0 = Some ?cd" by (simp add: one_each_def)
  have ok: "line_ok ?ck cd \<and> Cookies_control_check_domain ?ctl (the (c_domain cd)) = COOKIE_ACCEPT"
    if h: "cd \<in> ran (jar (one_each 1))" for cd
  proof -
    obtain c where "cookie_heap (one_each 1) c = Some cd"
      using h unfolding ran_def mem_Collect_eq jar_Some [OF cookies_invD(1,2) [OF inv]] by blast
    then have cd: "cd = ?cd" by (auto simp: one_each_def split: if_splits)
    have "dec_long 100 = ''100''"
      by (simp add: dec_long_def dec_nat.simps dec_digit_def char_of_def bit_0)
    then show ?thesis
      by (simp add: cd line_ok_def save_line_def cookie_zero_def field_ok_def isspace_def uchar_def LINE_MAXLEN_def
          cookies_epoch_time_def cookies_epoch_tm_def Cookies_control_check_domain_def control_init_def)
  qed
  have "cookie_key ?cd = (map tolow ''a'', False, ''a'', ''/'')" by (simp add: cookie_key_def cookie_zero_def)
  then have jar: "jar (one_each 1) (map tolow ''a'', False, ''a'', ''/'') = Some ?cd"
    unfolding jar_Some [OF cookies_invD(1,2) [OF inv]] using heap by blast
  have r: "restored ?ck ?ck2 ?cd = ?cd"
    by (simp add: restored_def reset_def retimed_def cookies_epoch_time_def cookies_epoch_tm_def)
  have live: "saved 50 ?cd" "\<not> cookie_expired ?cd 70" by (simp_all add: saved_def cookie_expired_def cookie_zero_def)
  let ?sv = "\<lparr>sv_disabled = False, sv_control = control_init, sv_store = one_each 1\<rparr>" and ?k = "(map tolow ''a'', False, ''a'', ''/'')"
  have "\<exists>text st'. Cookies_save_and_free ?sv ?ck = Some (Some text)
    \<and> Cookies_load_cookies ?ctl ?ck2 text = Some st' \<and> cookies_inv st'
    \<and> (\<forall>k. map_option reset (jar st' k) =
         Option.bind (jar (sv_store ?sv) k) (\<lambda>cd.
           if saved (ck_now ?ck) cd \<and> \<not> cookie_expired (restored ?ck ?ck2 cd) (ck_now ?ck2)
           then Some (restored ?ck ?ck2 cd) else None))"
    by (rule Cookies_file_roundtrip) (use inv ok in simp_all)
  then obtain lines st' where st': "Cookies_save_and_free ?sv ?ck = Some (Some lines)"
    "Cookies_load_cookies ?ctl ?ck2 lines = Some st'" "cookies_inv st'"
    "map_option reset (jar st' ?k) = Option.bind (jar (one_each 1) ?k) (\<lambda>cd.
           if saved 50 cd \<and> \<not> cookie_expired (restored ?ck ?ck2 cd) 70 then Some (restored ?ck ?ck2 cd) else None)"
    by (metis server.select_convs(3) clock.select_convs(1))
  have "map_option reset (jar st' ?k) = Some ?cd"
    unfolding st'(4) jar Option.bind.bind_lunit r using live by (simp only: simp_thms if_True)
  moreover have "?cd = cookie_zero\<lparr>c_name := ''a'', c_domain := Some ''a'', c_path := Some ''/'', c_expires_at := 100\<rparr>"
    by (simp add: cookie_zero_def)
  ultimately show ?thesis using st'(1-3) by metis
qed

end
