(* ===== verification/Cookies_Client.thy ===== *)
theory Cookies_Client
  imports Cookies_Server Url_Host
begin

text \<open>
  The browser's side of the cookies, \<^verbatim>\<open>dillo/src/cookies.c\<close>: it asks the cookie server over the
  dpi protocol. \<open>send\<close> stands for \<open>a_Dpi_send_blocking_cmd("cookies", cmd)\<close>: it sends the command and
  returns the answer (\<open>None\<close> inside for the null pointer), changing the state of the other side. The
  access rules are those of \<open>Cookies_Match\<close>, which the browser has a copy of. The last section puts
  browser, protocol and server together.
\<close>

record client =
  cl_disabled :: bool
  cl_control :: control

definition a_Cookies_init :: "string option \<Rightarrow> client" where
  "a_Cookies_init cookiesrc =
     (case Cookie_control_init control_init cookiesrc of (r, ctl) \<Rightarrow> \<lparr>cl_disabled = (r \<noteq> 0), cl_control = ctl\<rparr>)"

definition Cookies_control_check :: "control \<Rightarrow> dillo_url \<Rightarrow> cookie_action" where
  "Cookies_control_check ctl url = Cookies_control_check_domain ctl (URL_HOST url)"

type_synonym 's sender = "'s \<Rightarrow> string \<Rightarrow> (string option \<times> 's) option"

definition url_path_or_slash :: "dillo_url \<Rightarrow> string" where
  "url_path_or_slash url = (case u_path url of Some path \<Rightarrow> path | None \<Rightarrow> ''/'')"

fun set_loop :: "'s sender \<Rightarrow> 's \<Rightarrow> string list \<Rightarrow> dillo_url \<Rightarrow> string option \<Rightarrow> 's option" where
  "set_loop send s [] set_url date = Some s"
| "set_loop send s (cookie_string # cs) set_url date =
     do {
       host \<leftarrow> fst (a_Url_hostname set_url);
       out \<leftarrow> (case date of
          Some d \<Rightarrow> a_Dpip_build_cmd ''cmd=%s cookie=%s host=%s path=%s date=%s''
                     [''set_cookie'', cookie_string, host, url_path_or_slash set_url, d]
        | None \<Rightarrow> a_Dpip_build_cmd ''cmd=%s cookie=%s host=%s path=%s''
                     [''set_cookie'', cookie_string, host, url_path_or_slash set_url]);
       cmd \<leftarrow> out;
       (dpip_tag, s') \<leftarrow> send s cmd;
       set_loop send s' cs set_url date
     }"

definition a_Cookies_set :: "client \<Rightarrow> 's sender \<Rightarrow> 's \<Rightarrow> string list \<Rightarrow> dillo_url \<Rightarrow> string option \<Rightarrow> 's option" where
  "a_Cookies_set cl send s cookie_strings set_url date =
     (if cl_disabled cl then Some s
      else if Cookies_control_check (cl_control cl) set_url = COOKIE_DENY then Some s
      else set_loop send s cookie_strings set_url date)"

definition a_Cookies_get_query :: "client \<Rightarrow> 's sender \<Rightarrow> 's \<Rightarrow> dillo_url \<Rightarrow> dillo_url option
    \<Rightarrow> (string option \<times> 's) option" where
  "a_Cookies_get_query cl send s query_url requester =
     (if cl_disabled cl then Some (Some [], s)
      else if Cookies_control_check (cl_control cl) query_url = COOKIE_DENY then Some (Some [], s)
      else if requester \<noteq> None \<and> \<not> a_Url_same_organization (Some query_url) requester then Some (Some [], s)
      else do {
        out \<leftarrow> a_Dpip_build_cmd ''cmd=%s scheme=%s host=%s path=%s''
                 [''get_cookie'', NPTR2STR (u_scheme query_url), URL_HOST query_url, url_path_or_slash query_url];
        cmd \<leftarrow> out;
        (dpip_tag, s') \<leftarrow> send s cmd;
        Some (case dpip_tag of Some tag \<Rightarrow> a_Dpip_get_attr (Some tag) (Some ''cookie'') | None \<Rightarrow> Some [], s')
      })"

section \<open>Browser, protocol and server\<close>

text \<open>The server at the other end, at a time \<open>now\<close> that does not change.\<close>

definition server_sender :: "nat \<Rightarrow> clock \<Rightarrow> server sender" where
  "server_sender n ck sv cmd = map_option (\<lambda>(ans, sv'). (Some ans, sv')) (dpi_answer n ck (\<lambda>_. ck_now ck) sv cmd)"

definition set_attrs :: "string \<Rightarrow> string \<Rightarrow> string \<Rightarrow> string option \<Rightarrow> (string \<times> string) list" where
  "set_attrs hdr host path date = [(''cmd'', ''set_cookie''), (''cookie'', hdr), (''host'', host), (''path'', path)]
     @ (case date of Some d \<Rightarrow> [(''date'', d)] | None \<Rightarrow> [])"

lemma set_attrs_names: "\<forall>(m, v) \<in> set (set_attrs hdr host path date). name_ok m"
  using names_ok by (auto simp: set_attrs_def split: option.splits)

lemma set_attrs_get:
  "map_of (set_attrs hdr host path date) ''cmd'' = Some ''set_cookie''"
  "map_of (set_attrs hdr host path date) ''cookie'' = Some hdr"
  "map_of (set_attrs hdr host path date) ''host'' = Some host"
  "map_of (set_attrs hdr host path date) ''path'' = Some path"
  "map_of (set_attrs hdr host path date) ''date'' = date"
  by (simp_all add: set_attrs_def split: option.splits)

lemma client_set:
  assumes "\<not> cl_disabled cl" "Cookies_control_check_domain (cl_control cl) host \<noteq> COOKIE_DENY"
    "fst (a_Url_hostname url) = Some host"
    "Cookies_set sv ck (Some hdr) (Some host) (Some (url_path_or_slash url)) date = Some (st, sv')" "100 \<le> n"
  shows "a_Cookies_set cl (server_sender n ck) sv [hdr] url date = Some sv'"
proof -
  let ?avs = "set_attrs hdr host (url_path_or_slash url) date"
  have host: "URL_HOST url = host" using assms(3) by (simp add: URL_HOST_def NPTR2STR_def)
  have build: "(case date of
          Some d \<Rightarrow> a_Dpip_build_cmd ''cmd=%s cookie=%s host=%s path=%s date=%s''
                     [''set_cookie'', hdr, host, url_path_or_slash url, d]
        | None \<Rightarrow> a_Dpip_build_cmd ''cmd=%s cookie=%s host=%s path=%s''
                     [''set_cookie'', hdr, host, url_path_or_slash url]) = Some (Some (tag_of ?avs))"
    using build_cmd_tag [OF set_attrs_names [of hdr host "url_path_or_slash url" date]]
    by (cases date) (simp_all add: set_attrs_def tag_of_def)
  have "\<exists>ans. dpi_answer n ck (\<lambda>_. ck_now ck) sv (tag_of ?avs) = Some (ans, sv')"
    by (rule dpi_answer_set [OF set_attrs_names set_attrs_get(1) _ assms(5)]) (simp add: set_attrs_get assms(4))
  then obtain ans where "server_sender n ck sv (tag_of ?avs) = Some (Some ans, sv')"
    by (auto simp: server_sender_def)
  then show ?thesis
    using assms(1,2,3) host build by (simp add: a_Cookies_set_def Cookies_control_check_def)
qed

lemma client_get:
  assumes "\<not> cl_disabled cl" "Cookies_control_check_domain (cl_control cl) host \<noteq> COOKIE_DENY"
    "fst (a_Url_hostname url) = Some host"
    "requester = None \<or> a_Url_same_organization (Some url) requester"
    "Cookies_get sv (\<lambda>_. ck_now ck) (Some host) (Some (url_path_or_slash url)) (Some (NPTR2STR (u_scheme url))) = Some (hdr, sv')"
    "length (tag_of [(''cmd'', ''get_cookie_answer''), (''cookie'', hdr)]) \<le> n"
  shows "a_Cookies_get_query cl (server_sender n ck) sv url requester = Some (Some hdr, sv')"
proof -
  let ?avs = "[(''cmd'', ''get_cookie''), (''scheme'', NPTR2STR (u_scheme url)), (''host'', host), (''path'', url_path_or_slash url)]"
  let ?ans = "[(''cmd'', ''get_cookie_answer''), (''cookie'', hdr)]"
  have host: "URL_HOST url = host" using assms(3) by (simp add: URL_HOST_def NPTR2STR_def)
  have names: "\<forall>(m, v) \<in> set ?avs. name_ok m" using names_ok by simp
  have build: "a_Dpip_build_cmd ''cmd=%s scheme=%s host=%s path=%s''
      [''get_cookie'', NPTR2STR (u_scheme url), host, url_path_or_slash url] = Some (Some (tag_of ?avs))"
    using build_cmd_tag [OF names] by (simp add: tag_of_def)
  have "dpi_answer n ck (\<lambda>_. ck_now ck) sv (tag_of ?avs) = Some (tag_of ?ans, sv')"
    by (rule dpi_answer_get [OF names _ _ assms(6)]) (simp_all add: assms(5))
  then have send: "server_sender n ck sv (tag_of ?avs) = Some (Some (tag_of ?ans), sv')"
    by (simp add: server_sender_def)
  have "a_Dpip_get_attr (Some (tag_of ?ans)) (Some ''cookie'') = Some hdr"
    using get_attr_of_tag [of "''cookie''" ?ans] names_ok by (simp add: tag_of_def)
  then show ?thesis
    using assms(1,2,4) host build send by (auto simp: a_Cookies_get_query_def Cookies_control_check_def)
qed


definition example_clock :: clock where
  "example_clock = \<lparr>ck_now = 0, ck_mktime = (\<lambda>_. 10), ck_gmtime = (\<lambda>_. cookies_epoch_tm)\<rparr>"


end
