(* ===== verification/Spec2Isabelle.thy ===== *)
theory Spec2Isabelle
  imports Prelude Dlib_Strings Dlib_Dstr Dlib_List Klist Url_Parse Url_Resolve Url_Host Domain History Dpip Decode Utf8_Convert Misc Chain Md5 Digest Auth
    Auth_Challenge Auth_Store Cookies_File Cookies_Client
begin

text \<open>
  A verification development for the C core of the Dillo web browser that fltkcad bundles.

  \<^bold>\<open>The program and its parts.\<close> The browser (\<^verbatim>\<open>dillo/src\<close>) is a process that parses URLs, keeps
  the history, fetches documents and decodes them. It rests on a library of C data types
  (\<^verbatim>\<open>dillo/dlib\<close>) and talks over sockets, in the dpi protocol (\<^verbatim>\<open>dillo/dpip\<close>), with plugins such as
  the cookie server (\<^verbatim>\<open>dillo/dpi/cookies.c\<close>). Modules that handle a connection are joined by a
  chain of callbacks (\<^verbatim>\<open>chain.c\<close>). Text is UTF-8 and goes through the routines of the toolkit
  (\<^verbatim>\<open>fltk/src/fl_utf.c\<close>).

  \<^bold>\<open>Data.\<close> \<open>Prelude\<close> fixes the view of C data. A string is the list of the bytes before its
  terminator, a pointer into it the suffix it points to, a nullable pointer an option; \<open>uchar\<close> and
  \<open>schar\<close> read a byte as unsigned and as the signed plain \<^verbatim>\<open>char\<close> of the platforms the program is
  built for, \<open>c_int\<close> converts to the 32 bit \<^verbatim>\<open>int\<close>, and the key counter is a \<open>32 word\<close>. Structs
  are records, enums datatypes; mutable objects that are shared (cookies, chain links) live in
  explicit heaps. A read or write outside of an object, a null dereference or a use after free is
  the value \<open>None\<close> (or a constructor of its own, where a loop may also fail to return).

  \<^bold>\<open>Theories.\<close>
    \<^item> \<open>Dlib_Strings\<close>, \<open>Dlib_Dstr\<close>, \<open>Dlib_List\<close>: \<^verbatim>\<open>dlib.c\<close>: C strings and configuration lines; string
      buffers with their cells, growth and terminator (what \<^verbatim>\<open>vsnprintf\<close> returns is a parameter); the list type with its array loops, binary
      search and sorted insertion. The lemmas give each operation its meaning on plain lists.
    \<^item> \<open>Klist\<close>: \<^verbatim>\<open>klist.c\<close>, keys handed out by a wrapping counter, over the sorted list of \<open>Dlib_List\<close>. Keys
      are fresh before and after the wrap; lists with keys of both signs, which the comparison by a
      wrapping subtraction does not order, are outside of the invariant.
    \<^item> \<open>Url_Parse\<close>, \<open>Url_Resolve\<close>, \<open>Url_Host\<close>: \<^verbatim>\<open>url.c\<close>. The parser is proved equal to the grammar of
      RFC 3986, printing parses back, relative references resolve on path segments, which leaves no
      parent segment but possibly a leading one, and the test for the same organization compares the
      last labels of the hosts.
    \<^item> \<open>Domain\<close>: \<^verbatim>\<open>domain.c\<close>, the rules on which hosts may be contacted; \<open>History\<close>: \<^verbatim>\<open>history.c\<close>.
    \<^item> \<open>Dpip\<close>: \<^verbatim>\<open>dpip.c\<close>, tags, attributes and the buffered socket handler. The operating system is
      a list of outcomes of its calls.
    \<^item> \<open>Decode\<close>: \<^verbatim>\<open>decode.c\<close>, the chunked, compressed and character set decoders. zlib and iconv are
      parameters; \<open>inflate_ok\<close> and \<open>iconv_ok\<close> state what their documentation says.
    \<^item> \<open>Utf8\<close>, \<open>Utf8_Convert\<close>: \<^verbatim>\<open>fl_utf.c\<close> and \<^verbatim>\<open>utf8.cc\<close>. The five conversions share one scheme whose
      contract is proved in the locale \<open>conversion\<close> and interpreted on each of them.
    \<^item> \<open>Misc\<close>: \<^verbatim>\<open>misc.c\<close>, escapes, tabs, content types, geometry, search URLs and base64.
    \<^item> \<open>Chain\<close>: \<^verbatim>\<open>chain.c\<close>, the links and callbacks, and a step relation for every way in which modules
      can nest their operations and free links (\<open>may_free\<close> is the discipline of the \<^verbatim>\<open>ccc\<close> functions of the
      modules), with an invariant by rule induction.
    \<^item> \<open>Cookies_Parse\<close>, \<open>Cookies_Match\<close>, \<open>Cookies_Store\<close>, \<open>Cookies_Add\<close>, \<open>Cookies_Get\<close>, \<open>Cookies_Server\<close>,
      \<open>Cookies_File\<close>: the cookie server, from the header parser (equal to the algorithm of RFC
      6265, stated over attribute lists, on the headers where the two agree) over the access rules, the store with its lists per domain and its list by last use,
      addition with its limits and retrieval, to the commands and the file it keeps.
      \<open>Cookies_Client\<close> is the browser's side (\<^verbatim>\<open>dillo/src/cookies.c\<close>); its main theorem sets a cookie
      and gets it back through the client, the protocol and the server.

    \<^item> \<open>Md5\<close>: \<^verbatim>\<open>md5.c\<close>, equal to RFC 1321 for messages appended in any pieces. \<open>Digest\<close>: \<^verbatim>\<open>digest.c\<close>,
      the response and header of digest authentication. \<open>Auth\<close>: \<^verbatim>\<open>auth.c\<close>, challenges, the hosts with
      their realms and paths, and the handlers; \<open>Auth_Challenge\<close> says what the parser makes of
      well-formed challenges, \<open>Auth_Store\<close> proves the invariant of the realms, where credentials are
      sent, and that an answered challenge makes the next request carry credentials. The user's
      answer to the dialog is a parameter.

  \<^bold>\<open>Loops.\<close> Loops over data are structural recursion or functions with a measure. Loops that may
  not return (growing buffers, choosing a key, waiting for the network, decoding with a library) are partial
  functions into options, and the properties prove that they return (or, under stated
  outcomes of the system, that they do not). The only fuel is in
  \<open>end_of_char_loop\<close> of \<open>Utf8\<close>, which moves at most three bytes, and in \<open>units_upto\<close> of
  \<open>Utf8_Convert\<close>, a specification that takes the length of the text.

  \<^bold>\<open>Bounds.\<close> Lengths and counters of objects that fit in memory are natural numbers; integers
  whose wrap the code can reach (keys, chunk lengths, times, bytes) are kept at their width, as
  are the sizes that the formatting loop computes.

  \<^bold>\<open>Defects.\<close> Several properties state what the code does where that is not what it means to do:
  use after free in the cookie store, a nonce that is freed twice, the content type check that never fails, base64 of bytes
  above 0x7f, a formatting loop that does not end on output errors, a leading parent segment that
  stays in a resolved path, a chain that stays open when it is aborted with nothing ahead of it, chunk
  lengths of 32 bits, dates read past their end, tags that a blocking read gives
  up on. Their texts say so.

  \<^bold>\<open>Not modelled.\<close> The C++ parts (HTML, layout, style, user interface, preferences, the toolkit
  apart from its UTF-8 routines) and the bundled zlib, libpng and libjpeg; sockets, DNS, files,
  processes and signals, which the models above take as parameters or outcomes; memory
  management apart from what the store, the chain and the realms expose; logging. The cache, navigation,
  image decoding and the other plugins of \<^verbatim>\<open>dillo/dpi\<close> are not modelled yet.
\<close>

end
